(* ===== verification/OS_Prelude.thy ===== *)
theory OS_Prelude
  imports Main "HOL-Library.AList"
begin

text \<open>
  What the components share: the JavaScript \<open>Map\<close> (insertion ordered) as an association
  list, sets kept as duplicate-free lists, UTF-16 strings, and the generic argument that
  an invariant kept by every operation holds after every sequence of operations.
\<close>

named_theorems inv_defs \<open>definitions of component invariants\<close>
named_theorems op_defs \<open>definitions of component operations\<close>

section \<open>Identifiers and strings\<close>

text \<open>
  Branded identifiers (\<open>ThreadId\<close>, \<open>RunId\<close>, \<open>WorkspaceId\<close>, \<dots>) are strings in the source.
  A text whose length matters is a list of UTF-16 code units, as in JavaScript.
\<close>

type_synonym ident = string
type_synonym utf16 = "nat list"

section \<open>The insertion-ordered map\<close>

text \<open>
  \<open>Map.set\<close> keeps the position of a key it already holds and appends a new one;
  \<open>Map.delete\<close> removes it; iteration is in list order.
\<close>

type_synonym ('k, 'v) jsmap = "('k \<times> 'v) list"

abbreviation jget :: "('k, 'v) jsmap \<Rightarrow> 'k \<Rightarrow> 'v option" where
  "jget m k \<equiv> map_of m k"

abbreviation jset :: "'k \<Rightarrow> 'v \<Rightarrow> ('k, 'v) jsmap \<Rightarrow> ('k, 'v) jsmap" where
  "jset k v m \<equiv> AList.update k v m"

abbreviation jdel :: "'k \<Rightarrow> ('k, 'v) jsmap \<Rightarrow> ('k, 'v) jsmap" where
  "jdel k m \<equiv> AList.delete k m"

abbreviation jkeys :: "('k, 'v) jsmap \<Rightarrow> 'k list" where
  "jkeys m \<equiv> map fst m"

abbreviation jvalues :: "('k, 'v) jsmap \<Rightarrow> 'v list" where
  "jvalues m \<equiv> map snd m"

definition jwf :: "('k, 'v) jsmap \<Rightarrow> bool" where
  "jwf m \<longleftrightarrow> distinct (jkeys m)"

lemma jwf_Nil [simp]: "jwf []"
  by (simp add: jwf_def)

lemma jwf_set [simp, intro]: "jwf m \<Longrightarrow> jwf (jset k v m)"
  by (simp add: jwf_def distinct_update)

lemma jwf_del [simp, intro]: "jwf m \<Longrightarrow> jwf (jdel k m)"
  by (simp add: jwf_def distinct_delete)

lemma jwf_Cons: "jwf (kv # m) \<longleftrightarrow> fst kv \<notin> fst ` set m \<and> jwf m"
  by (simp add: jwf_def)

lemma jwf_filter [simp, intro]: "jwf m \<Longrightarrow> jwf (filter P m)"
  by (simp add: jwf_def distinct_map_filter)

lemma jget_set: "jget (jset k v m) k' = (if k' = k then Some v else jget m k')"
  by (simp add: update_conv')

lemma jget_del: "jget (jdel k m) k' = (if k' = k then None else jget m k')"
  by (simp add: delete_conv')

lemma jget_mem: "jwf m \<Longrightarrow> (k, v) \<in> set m \<longleftrightarrow> jget m k = Some v"
  by (simp add: jwf_def)

lemma jdel_fresh: "k \<notin> fst ` set m \<Longrightarrow> jdel k m = m"
  by (induction m) (auto simp: AList.delete_eq)

lemma jset_fresh: "k \<notin> fst ` set m \<Longrightarrow> jset k v m = m @ [(k, v)]"
  by (induction m) auto

lemma jdel_length: "length (jdel k m) \<le> length m"
  by (simp add: AList.delete_eq)

lemma jdel_length_mem:
  assumes "jwf m" and "k \<in> fst ` set m"
  shows "Suc (length (jdel k m)) = length m"
  using assms
proof (induction m)
  case Nil
  then show ?case by simp
next
  case (Cons kv m)
  obtain a b where kv: "kv = (a, b)" by (cases kv)
  show ?case
  proof (cases "a = k")
    case True
    with Cons.prems kv have "k \<notin> fst ` set m" by (auto simp: jwf_Cons)
    then show ?thesis using True kv by (simp add: jdel_fresh)
  next
    case False
    with Cons kv show ?thesis by (auto simp: jwf_Cons)
  qed
qed

lemma jset_length_mem: "k \<in> fst ` set m \<Longrightarrow> length (jset k v m) = length m"
  by (induction m) auto

lemma jset_length_le: "length (jset k v m) \<le> Suc (length m)"
  by (induction m) auto

lemma jset_same: "jget m k = Some v \<Longrightarrow> jset k v m = m"
  by (induction m) (auto split: if_splits)

lemma jset_jset [simp]: "jset k v (jset k w m) = jset k v m"
  by (induction m) auto

lemma jset_keys: "fst ` set (jset k v m) = insert k (fst ` set m)"
  by (induction m) auto

lemma jdel_keys: "fst ` set (jdel k m) = fst ` set m - {k}"
  by (induction m) auto

lemma jset_ball:
  assumes "\<forall>(k, v) \<in> set m. P k v" and "P k v"
  shows "\<forall>(k, v) \<in> set (jset k v m). P k v"
  using assms by (induction m) auto

lemma jdel_ball: "\<forall>(k, v) \<in> set m. P k v \<Longrightarrow> \<forall>(k, v) \<in> set (jdel k' m). P k v"
  by (induction m) auto

lemma jget_ball: "\<forall>(k, v) \<in> set m. P k v \<Longrightarrow> jget m k = Some v \<Longrightarrow> P k v"
  by (auto dest: map_of_SomeD)

section \<open>Sets with insertion order\<close>

text \<open>\<open>[...new Set(xs)]\<close>: the first occurrence of each element, in order.\<close>

definition js_uniq :: "'a list \<Rightarrow> 'a list" where
  "js_uniq xs = rev (remdups (rev xs))"

lemma set_js_uniq [simp]: "set (js_uniq xs) = set xs"
  by (simp add: js_uniq_def)

lemma distinct_js_uniq [simp]: "distinct (js_uniq xs)"
  by (simp add: js_uniq_def)

lemma js_uniq_id: "distinct xs \<Longrightarrow> js_uniq xs = xs"
  by (simp add: js_uniq_def distinct_remdups_id)

lemma length_js_uniq: "length (js_uniq xs) \<le> length xs"
  by (metis js_uniq_def length_rev length_remdups_leq)

lemma distinct_concat_disjoint:
  assumes "distinct (concat (map f xs))" and "x \<in> set xs" and "y \<in> set xs" and "x \<noteq> y"
  shows "set (f x) \<inter> set (f y) = {}"
  using assms
proof (induction xs)
  case Nil
  then show ?case by simp
next
  case (Cons z zs)
  then show ?case by auto
qed

text \<open>Removing one element found by its key, as \<open>splice(findIndex(...), 1)\<close> does.\<close>

lemma remove1_concat_distinct:
  assumes "distinct (concat (map f xs))" and "x \<in> set xs"
  shows "distinct (concat (map f (remove1 x xs)))"
    and "set (concat (map f (remove1 x xs))) = set (concat (map f xs)) - set (f x)"
proof -
  have "distinct (concat (map f (remove1 x xs))) \<and>
      set (concat (map f (remove1 x xs))) = set (concat (map f xs)) - set (f x)"
    using assms
  proof (induction xs)
    case Nil
    then show ?case by simp
  next
    case (Cons y ys)
    show ?case
    proof (cases "y = x")
      case True
      with Cons.prems show ?thesis by auto
    next
      case False
      with Cons have IH: "distinct (concat (map f (remove1 x ys)))"
          "set (concat (map f (remove1 x ys))) = set (concat (map f ys)) - set (f x)"
        by auto
      have "set (f y) \<inter> set (f x) = {}" using Cons.prems False by auto
      then show ?thesis using IH Cons.prems False by auto
    qed
  qed
  then show "distinct (concat (map f (remove1 x xs)))"
    and "set (concat (map f (remove1 x xs))) = set (concat (map f xs)) - set (f x)"
    by blast+
qed

section \<open>Runs of a state machine\<close>

text \<open>
  A component is a state, a step for each operation, and an invariant that the events \<open>ok\<close>
  admits keep; \<open>run_inv\<close> is the induction all components share.
\<close>

locale guarded_system =
  fixes step :: "'s \<Rightarrow> 'e \<Rightarrow> 's"
    and ok :: "'e \<Rightarrow> bool"
    and inv :: "'s \<Rightarrow> bool"
  assumes step_inv: "inv s \<Longrightarrow> ok e \<Longrightarrow> inv (step s e)"
begin

lemma run_inv: "inv s \<Longrightarrow> \<forall>e \<in> set es. ok e \<Longrightarrow> inv (foldl step s es)"
  by (induction es arbitrary: s) (auto intro: step_inv)

lemma run_inv_prefix: "inv s \<Longrightarrow> \<forall>e \<in> set es. ok e \<Longrightarrow> inv (foldl step s (take n es))"
  by (rule run_inv) (auto dest: in_set_takeD)

end

text \<open>An invariant that every event keeps.\<close>

locale invariant_system =
  fixes step :: "'s \<Rightarrow> 'e \<Rightarrow> 's"
    and inv :: "'s \<Rightarrow> bool"
  assumes step_inv: "inv s \<Longrightarrow> inv (step s e)"

sublocale invariant_system \<subseteq> any: guarded_system step "\<lambda>_. True" inv
  by unfold_locales (rule step_inv)

context invariant_system begin

lemma run_inv: "inv s \<Longrightarrow> inv (foldl step s es)"
  by (rule any.run_inv) simp_all

end

end
