(* ===== verification/Admission_Queue.thy ===== *)
theory Admission_Queue
  imports OS_Prelude "HOL-Library.Multiset"
begin

text \<open>
  \<open>KeyedAdmissionQueue\<close> (packages/orchestration/src/admission-queue.ts): Host commands
  admitted in order per key and concurrently across keys.

  A task is identified by the number of its promise. \<open>aq_running\<close> holds the promise chains
  that \<open>#start\<close> created and that have not settled; in the source they live in closures.
  An event is one turn of the event loop: a call of \<open>execute\<close> or \<open>close\<close>, or the settling of
  one running chain. \<open>aq_log\<close> records what callers observe. The synchronous prefix of a
  task's \<open>run\<close> does not call the queue again (it calls an asynchronous store).
\<close>

record 'k queued_task =
  qt_id :: nat
  qt_bytes :: int
  qt_keys :: "'k list"

record aq_options =
  maxInFlight :: int
  maxQueuedBytes :: int
  maxQueuedCommands :: int

datatype aq_error =
    QueueClosed
  | ShuttingDown
  | BytesNotNatural
  | TemporarilyFull int
  | MustBePositive string

datatype aq_obs =
    Rejected nat aq_error
  | Started nat
  | Settled nat bool
  | IdleReached nat

record 'k admission_queue =
  aq_pending :: "'k queued_task list"
  aq_held :: "'k \<rightharpoonup> nat"
  aq_inFlight :: int
  aq_queuedBytes :: int
  aq_closed :: bool
  aq_idleWaiters :: "nat list"
  aq_running :: "'k queued_task list"
  aq_next :: nat
  aq_log :: "aq_obs list"

datatype 'k aq_event =
    Execute "'k list" int
  | Settle nat bool
  | Close nat

section \<open>Operations\<close>

definition aq_empty :: "'k admission_queue" where
  "aq_empty = \<lparr>aq_pending = [], aq_held = Map.empty, aq_inFlight = 0, aq_queuedBytes = 0,
     aq_closed = False, aq_idleWaiters = [], aq_running = [], aq_next = 0, aq_log = []\<rparr>"

fun aq_checkOptions :: "(string \<times> int) list \<Rightarrow> aq_error option" where
  "aq_checkOptions [] = None"
| "aq_checkOptions ((name, v) # rest) =
     (if v < 1 then Some (MustBePositive name) else aq_checkOptions rest)"

definition aq_construct :: "aq_options \<Rightarrow> aq_error + 'k admission_queue" where
  "aq_construct opt =
     (case aq_checkOptions
        [(''maxInFlight'', maxInFlight opt),
         (''maxQueuedCommands'', maxQueuedCommands opt),
         (''maxQueuedBytes'', maxQueuedBytes opt)] of
        Some e \<Rightarrow> Inl e
      | None \<Rightarrow> Inr aq_empty)"

definition aq_emit :: "aq_obs list \<Rightarrow> 'k admission_queue \<Rightarrow> 'k admission_queue" where
  "aq_emit os s = s\<lparr>aq_log := aq_log s @ os\<rparr>"

definition aq_hold :: "'k list \<Rightarrow> ('k \<rightharpoonup> nat) \<Rightarrow> ('k \<rightharpoonup> nat)" where
  "aq_hold ks h = foldl (\<lambda>h k. h(k \<mapsto> (case h k of None \<Rightarrow> 0 | Some n \<Rightarrow> n) + 1)) h ks"

definition aq_start :: "'k queued_task \<Rightarrow> 'k admission_queue \<Rightarrow> 'k admission_queue" where
  "aq_start t s = s\<lparr>
     aq_inFlight := aq_inFlight s + 1,
     aq_queuedBytes := aq_queuedBytes s - qt_bytes t,
     aq_held := aq_hold (qt_keys t) (aq_held s),
     aq_running := aq_running s @ [t],
     aq_log := aq_log s @ [Started (qt_id t)]\<rparr>"

definition aq_ready :: "'k queued_task \<Rightarrow> 'k set \<Rightarrow> 'k admission_queue \<Rightarrow> bool" where
  "aq_ready t waitingKeys s = list_all (\<lambda>k. aq_held s k = None \<and> k \<notin> waitingKeys) (qt_keys t)"

text \<open>
  The scan of \<open>#pump\<close> from \<open>index\<close> on: what stays of the rest of \<open>#pending\<close>, and the state.
\<close>

fun aq_scan :: "aq_options \<Rightarrow> 'k set \<Rightarrow> 'k queued_task list \<Rightarrow> 'k admission_queue
    \<Rightarrow> 'k queued_task list \<times> 'k admission_queue" where
  "aq_scan opt waitingKeys [] s = ([], s)"
| "aq_scan opt waitingKeys (t # ts) s =
     (if aq_inFlight s \<ge> maxInFlight opt then (t # ts, s)
      else if \<not> aq_ready t waitingKeys s then
        (case aq_scan opt (waitingKeys \<union> set (qt_keys t)) ts s of (kept, s') \<Rightarrow> (t # kept, s'))
      else aq_scan opt waitingKeys ts (aq_start t s))"

definition aq_wakeIdle :: "'k admission_queue \<Rightarrow> 'k admission_queue" where
  "aq_wakeIdle s =
     (if aq_inFlight s = 0 \<and> aq_pending s = []
      then s\<lparr>aq_idleWaiters := [], aq_log := aq_log s @ map IdleReached (aq_idleWaiters s)\<rparr>
      else s)"

definition aq_pump :: "aq_options \<Rightarrow> 'k admission_queue \<Rightarrow> 'k admission_queue" where
  "aq_pump opt s =
     (case aq_scan opt {} (aq_pending s) s of
        (kept, s') \<Rightarrow> aq_wakeIdle (s'\<lparr>aq_pending := kept\<rparr>))"

definition aq_execute :: "aq_options \<Rightarrow> 'k list \<Rightarrow> int \<Rightarrow> 'k admission_queue \<Rightarrow> 'k admission_queue" where
  "aq_execute opt keys estimatedBytes s0 =
     (let i = aq_next s0; s = s0\<lparr>aq_next := Suc i\<rparr> in
      if aq_closed s then aq_emit [Rejected i QueueClosed] s
      else if estimatedBytes < 0 then aq_emit [Rejected i BytesNotNatural] s
      else if int (length (aq_pending s)) \<ge> maxQueuedCommands opt
              \<or> aq_queuedBytes s + estimatedBytes > maxQueuedBytes opt
           then aq_emit [Rejected i (TemporarilyFull 250)] s
      else aq_pump opt (s\<lparr>
             aq_pending := aq_pending s @ [\<lparr>qt_id = i, qt_bytes = estimatedBytes, qt_keys = js_uniq keys\<rparr>],
             aq_queuedBytes := aq_queuedBytes s + estimatedBytes\<rparr>))"

definition aq_release :: "'k list \<Rightarrow> ('k \<rightharpoonup> nat) \<Rightarrow> ('k \<rightharpoonup> nat)" where
  "aq_release ks h = foldl (\<lambda>h k.
     let held = (case h k of None \<Rightarrow> 1 | Some n \<Rightarrow> n) - 1
     in if held > 0 then h(k \<mapsto> held) else h(k := None)) h ks"

definition aq_settle :: "aq_options \<Rightarrow> nat \<Rightarrow> bool \<Rightarrow> 'k admission_queue \<Rightarrow> 'k admission_queue" where
  "aq_settle opt i ok s =
     (case find (\<lambda>t. qt_id t = i) (aq_running s) of
        None \<Rightarrow> s
      | Some t \<Rightarrow> aq_pump opt (s\<lparr>
          aq_running := remove1 t (aq_running s),
          aq_inFlight := aq_inFlight s - 1,
          aq_held := aq_release (qt_keys t) (aq_held s),
          aq_log := aq_log s @ [Settled i ok]\<rparr>))"

definition aq_waitForIdle :: "nat \<Rightarrow> 'k admission_queue \<Rightarrow> 'k admission_queue" where
  "aq_waitForIdle w s =
     (if aq_inFlight s = 0 \<and> aq_pending s = [] then aq_emit [IdleReached w] s
      else s\<lparr>aq_idleWaiters := aq_idleWaiters s @ [w]\<rparr>)"

definition aq_close :: "nat \<Rightarrow> 'k admission_queue \<Rightarrow> 'k admission_queue" where
  "aq_close w s =
     (if aq_closed s then aq_waitForIdle w s
      else aq_waitForIdle w (s\<lparr>
        aq_closed := True,
        aq_pending := [],
        aq_queuedBytes := 0,
        aq_log := aq_log s @ map (\<lambda>t. Rejected (qt_id t) ShuttingDown) (aq_pending s)\<rparr>))"

fun aq_step :: "aq_options \<Rightarrow> 'k admission_queue \<Rightarrow> 'k aq_event \<Rightarrow> 'k admission_queue" where
  "aq_step opt s (Execute keys n) = aq_execute opt keys n s"
| "aq_step opt s (Settle i ok) = aq_settle opt i ok s"
| "aq_step opt s (Close w) = aq_close w s"

text \<open>
  \<open>#runWithConflictRetries\<close>: \<open>outcome n\<close> is what the \<open>n\<close>-th call of \<open>task.run\<close> does, and
  \<open>isConflict\<close> the option \<open>isTransactionConflict\<close>. The result is the final outcome and the
  number of calls made. The pause between two attempts changes no state.
\<close>

definition maxConflictAttempts :: nat where
  "maxConflictAttempts = 4"

function runWithConflictRetries ::
  "('e \<Rightarrow> bool) \<Rightarrow> (nat \<Rightarrow> 'e + 'v) \<Rightarrow> nat \<Rightarrow> ('e + 'v) \<times> nat" where
  "runWithConflictRetries isConflict outcome attempt =
     (case outcome attempt of
        Inr v \<Rightarrow> (Inr v, attempt)
      | Inl e \<Rightarrow>
          if attempt \<ge> maxConflictAttempts \<or> \<not> isConflict e then (Inl e, attempt)
          else runWithConflictRetries isConflict outcome (attempt + 1))"
  by pat_completeness auto
termination
  by (relation "measure (\<lambda>(_, _, attempt). maxConflictAttempts - attempt)") auto

declare runWithConflictRetries.simps [simp del]

definition aq_run :: "aq_options \<Rightarrow> 'k aq_event list \<Rightarrow> 'k admission_queue" where
  "aq_run opt es = foldl (aq_step opt) aq_empty es"

section \<open>Invariant\<close>

text \<open>
  \<open>aq_core opt P s\<close> relates the counters and the key table to the running chains and to a
  list \<open>P\<close> of waiting tasks; it is stated for any \<open>P\<close> so that it also holds in the middle
  of the scan of \<open>#pump\<close>, where the waiting tasks are those skipped and those not yet seen.
\<close>

abbreviation aq_keysOf :: "'k queued_task list \<Rightarrow> 'k list" where
  "aq_keysOf ts \<equiv> concat (map qt_keys ts)"

definition aq_overtakes :: "'k queued_task \<Rightarrow> 'k queued_task \<Rightarrow> bool" where
  "aq_overtakes r p \<longleftrightarrow> qt_id p < qt_id r \<and> set (qt_keys p) \<inter> set (qt_keys r) \<noteq> {}"

definition aq_core :: "aq_options \<Rightarrow> 'k queued_task list \<Rightarrow> 'k admission_queue \<Rightarrow> bool" where
  [inv_defs]: "aq_core opt P s \<longleftrightarrow>
     aq_inFlight s = int (length (aq_running s)) \<and>
     aq_inFlight s \<le> maxInFlight opt \<and>
     distinct (aq_keysOf (aq_running s)) \<and>
     aq_held s = (\<lambda>k. if k \<in> set (aq_keysOf (aq_running s)) then Some 1 else None) \<and>
     distinct (map qt_id (aq_running s)) \<and>
     sorted_wrt (<) (map qt_id P) \<and>
     (\<forall>p \<in> set P. qt_id p \<notin> qt_id ` set (aq_running s)) \<and>
     (\<forall>t \<in> set P \<union> set (aq_running s). qt_id t < aq_next s) \<and>
     (\<forall>p \<in> set P. distinct (qt_keys p) \<and> 0 \<le> qt_bytes p) \<and>
     (\<forall>r \<in> set (aq_running s). \<forall>p \<in> set P. \<not> aq_overtakes r p) \<and>
     aq_queuedBytes s = sum_list (map qt_bytes P)"

definition aq_blocked :: "'k queued_task list \<Rightarrow> 'k admission_queue \<Rightarrow> 'k queued_task \<Rightarrow> bool" where
  "aq_blocked P s p \<longleftrightarrow>
     (\<exists>t \<in> set P \<union> set (aq_running s). qt_id t < qt_id p \<and> set (qt_keys t) \<inter> set (qt_keys p) \<noteq> {})"

definition aq_inv :: "aq_options \<Rightarrow> 'k admission_queue \<Rightarrow> bool" where
  [inv_defs]: "aq_inv opt s \<longleftrightarrow>
     aq_core opt (aq_pending s) s \<and>
     int (length (aq_pending s)) \<le> maxQueuedCommands opt \<and>
     aq_queuedBytes s \<le> maxQueuedBytes opt \<and>
     (aq_closed s \<longrightarrow> aq_pending s = []) \<and>
     (aq_idleWaiters s \<noteq> [] \<longrightarrow> aq_closed s \<and> aq_inFlight s > 0) \<and>
     (aq_inFlight s = maxInFlight opt \<or> (\<forall>p \<in> set (aq_pending s). aq_blocked (aq_pending s) s p))"

definition aq_valid :: "aq_options \<Rightarrow> bool" where
  "aq_valid opt \<longleftrightarrow> maxInFlight opt \<ge> 1 \<and> maxQueuedBytes opt \<ge> 1 \<and> maxQueuedCommands opt \<ge> 1"

subsection \<open>The key table\<close>

lemma aq_hold_all:
  assumes "distinct ks" and "\<forall>k \<in> set ks. h k = None"
  shows "aq_hold ks h = (\<lambda>k. if k \<in> set ks then Some 1 else h k)"
  using assms
proof (induction ks arbitrary: h)
  case Nil
  then show ?case by (simp add: aq_hold_def)
next
  case (Cons k ks)
  have "aq_hold (k # ks) h = aq_hold ks (h(k \<mapsto> 1))"
    using Cons.prems by (simp add: aq_hold_def)
  also have "\<dots> = (\<lambda>j. if j \<in> set ks then Some 1 else (h(k \<mapsto> 1)) j)"
    using Cons by (intro Cons.IH) auto
  finally show ?case by (simp add: fun_eq_iff)
qed

lemma aq_release_all:
  assumes "distinct ks" and "\<forall>k \<in> set ks. h k = Some 1"
  shows "aq_release ks h = (\<lambda>k. if k \<in> set ks then None else h k)"
  using assms
proof (induction ks arbitrary: h)
  case Nil
  then show ?case by (simp add: aq_release_def)
next
  case (Cons k ks)
  have "aq_release (k # ks) h = aq_release ks (h(k := None))"
    using Cons.prems by (simp add: aq_release_def)
  also have "\<dots> = (\<lambda>j. if j \<in> set ks then None else (h(k := None)) j)"
    using Cons by (intro Cons.IH) auto
  finally show ?case by (simp add: fun_eq_iff)
qed

lemma aq_ready_iff:
  assumes "aq_core opt P s"
  shows "aq_ready t W s \<longleftrightarrow> set (qt_keys t) \<inter> (W \<union> set (aq_keysOf (aq_running s))) = {}"
  using assms by (auto simp: aq_ready_def aq_core_def list_all_iff split: if_splits)

subsection \<open>The scan keeps the core invariant\<close>

lemma aq_start_core:
  assumes core: "aq_core opt (pre @ t # ts) s"
    and room: "aq_inFlight s < maxInFlight opt"
    and ready: "aq_ready t (set (aq_keysOf pre)) s"
  shows "aq_core opt (pre @ ts) (aq_start t s)"
proof -
  have disj: "set (qt_keys t) \<inter> set (aq_keysOf pre) = {}"
    "set (qt_keys t) \<inter> set (aq_keysOf (aq_running s)) = {}"
    using ready by (auto simp: aq_ready_iff [OF core])
  have sorted: "\<forall>p \<in> set ts. qt_id t < qt_id p" "\<forall>p \<in> set pre. qt_id p < qt_id t"
    using core by (auto simp: aq_core_def sorted_wrt_append)
  have held: "aq_held (aq_start t s) =
      (\<lambda>k. if k \<in> set (aq_keysOf (aq_running s @ [t])) then Some 1 else None)"
  proof -
    have "aq_hold (qt_keys t) (aq_held s) = (\<lambda>k. if k \<in> set (qt_keys t) then Some 1 else aq_held s k)"
      using core disj by (intro aq_hold_all) (auto simp: aq_core_def)
    then show ?thesis
      using core by (auto simp: aq_start_def aq_core_def fun_eq_iff)
  qed
  have noover: "\<forall>r \<in> set (aq_running s @ [t]). \<forall>p \<in> set (pre @ ts). \<not> aq_overtakes r p"
    using core disj sorted by (fastforce simp: aq_core_def aq_overtakes_def)
  show ?thesis
    unfolding aq_core_def held
    using core room disj noover
    by (auto simp: aq_core_def aq_start_def sorted_wrt_append algebra_simps)
qed

definition aq_same :: "'k admission_queue \<Rightarrow> 'k admission_queue \<Rightarrow> bool" where
  "aq_same s s' \<longleftrightarrow> aq_next s' = aq_next s \<and> aq_closed s' = aq_closed s \<and>
     aq_idleWaiters s' = aq_idleWaiters s \<and> aq_pending s' = aq_pending s"

lemma aq_same_start [simp]: "aq_same (aq_start t s) s' = aq_same s s'"
  by (simp add: aq_same_def aq_start_def)

lemma aq_skip_blocked:
  assumes core: "aq_core opt (pre @ t # ts) s"
    and notready: "\<not> aq_ready t (set (aq_keysOf pre)) s"
  shows "aq_blocked pre s t"
proof -
  obtain k where k: "k \<in> set (qt_keys t)" "k \<in> set (aq_keysOf pre) \<union> set (aq_keysOf (aq_running s))"
    using notready by (auto simp: aq_ready_iff [OF core])
  show ?thesis
  proof (cases "k \<in> set (aq_keysOf pre)")
    case True
    then obtain p where "p \<in> set pre" "k \<in> set (qt_keys p)" by auto
    moreover have "\<forall>p \<in> set pre. qt_id p < qt_id t"
      using core by (auto simp: aq_core_def sorted_wrt_append)
    ultimately show ?thesis using k by (auto simp: aq_blocked_def)
  next
    case False
    then obtain r where r: "r \<in> set (aq_running s)" "k \<in> set (qt_keys r)" using k by auto
    then have "qt_id t \<noteq> qt_id r" "\<not> aq_overtakes r t" using core by (auto simp: aq_core_def)
    then have "qt_id r < qt_id t" using r k by (auto simp: aq_overtakes_def)
    then show ?thesis using r k by (auto simp: aq_blocked_def)
  qed
qed

lemma aq_blocked_mono:
  "aq_blocked P s p \<Longrightarrow> set P \<subseteq> set P' \<Longrightarrow> set (aq_running s) \<subseteq> set (aq_running s') \<Longrightarrow> aq_blocked P' s' p"
  unfolding aq_blocked_def by blast

lemma aq_scan_facts:
  assumes "aq_core opt (pre @ ts) s"
    and "aq_scan opt (set (aq_keysOf pre)) ts s = (kept, s')"
  shows "aq_core opt (pre @ kept) s' \<and> aq_same s s' \<and> length kept \<le> length ts \<and>
    set (aq_running s) \<subseteq> set (aq_running s') \<and> aq_queuedBytes s' \<le> aq_queuedBytes s \<and>
    (aq_inFlight s' = maxInFlight opt \<or> (\<forall>p \<in> set kept. aq_blocked (pre @ kept) s' p))"
  using assms
proof (induction ts arbitrary: pre s kept s')
  case Nil
  then show ?case by (auto simp: aq_same_def)
next
  case (Cons t ts)
  show ?case
  proof (cases "aq_inFlight s \<ge> maxInFlight opt")
    case True
    then have "aq_inFlight s = maxInFlight opt" using Cons.prems by (auto simp: aq_core_def)
    then show ?thesis using Cons.prems True by (auto simp: aq_same_def)
  next
    case room: False
    show ?thesis
    proof (cases "aq_ready t (set (aq_keysOf pre)) s")
      case True
      have core': "aq_core opt (pre @ ts) (aq_start t s)"
        using Cons.prems(1) room True by (auto intro: aq_start_core)
      have scan': "aq_scan opt (set (aq_keysOf pre)) ts (aq_start t s) = (kept, s')"
        using Cons.prems(2) room True by simp
      have "0 \<le> qt_bytes t" using Cons.prems(1) by (auto simp: aq_core_def)
      then have bytes: "aq_queuedBytes (aq_start t s) \<le> aq_queuedBytes s" by (simp add: aq_start_def)
      have grow: "set (aq_running s) \<subseteq> set (aq_running (aq_start t s))" by (auto simp: aq_start_def)
      from Cons.IH [OF core' scan'] bytes grow show ?thesis by auto
    next
      case False
      obtain kept' where scan': "aq_scan opt (set (aq_keysOf (pre @ [t]))) ts s = (kept', s')"
        and kept: "kept = t # kept'"
        using Cons.prems(2) room False by (auto split: prod.splits)
      have core': "aq_core opt ((pre @ [t]) @ ts) s" using Cons.prems(1) by simp
      note IH = Cons.IH [OF core' scan']
      have "aq_blocked pre s t" using Cons.prems(1) False by (rule aq_skip_blocked)
      then have "aq_blocked (pre @ kept) s' t" using IH by (auto intro: aq_blocked_mono)
      then show ?thesis using IH kept by auto
    qed
  qed
qed

text \<open>
  \<open>aq_ready_to_pump\<close> is what holds when \<open>#pump\<close> is called: the invariant but for the
  clauses \<open>#pump\<close> re-establishes.
\<close>

definition aq_pumpable :: "aq_options \<Rightarrow> 'k admission_queue \<Rightarrow> bool" where
  "aq_pumpable opt s \<longleftrightarrow>
     aq_core opt (aq_pending s) s \<and>
     int (length (aq_pending s)) \<le> maxQueuedCommands opt \<and>
     aq_queuedBytes s \<le> maxQueuedBytes opt \<and>
     (aq_closed s \<longrightarrow> aq_pending s = []) \<and>
     (aq_idleWaiters s \<noteq> [] \<longrightarrow> aq_closed s)"

lemma aq_core_pending [simp]: "aq_core opt P (s\<lparr>aq_pending := Q\<rparr>) = aq_core opt P s"
  by (simp add: aq_core_def)

lemma aq_core_idle [simp]: "aq_core opt P (s\<lparr>aq_idleWaiters := w, aq_log := l\<rparr>) = aq_core opt P s"
  by (simp add: aq_core_def)

lemma aq_core_log [simp]: "aq_core opt P (s\<lparr>aq_log := l\<rparr>) = aq_core opt P s"
  by (simp add: aq_core_def)

lemma aq_pump_inv:
  assumes "aq_pumpable opt s"
  shows "aq_inv opt (aq_pump opt s)"
proof -
  obtain kept s' where scan: "aq_scan opt {} (aq_pending s) s = (kept, s')"
    by fastforce
  then have facts: "aq_core opt kept s' \<and> aq_same s s' \<and> length kept \<le> length (aq_pending s) \<and>
      set (aq_running s) \<subseteq> set (aq_running s') \<and> aq_queuedBytes s' \<le> aq_queuedBytes s \<and>
      (aq_inFlight s' = maxInFlight opt \<or> (\<forall>p \<in> set kept. aq_blocked kept s' p))"
    using aq_scan_facts [of opt "[]" "aq_pending s" s kept s'] assms by (auto simp: aq_pumpable_def)
  then have core: "aq_core opt kept s'" and same: "aq_same s s'" and len: "length kept \<le> length (aq_pending s)"
    and bytes: "aq_queuedBytes s' \<le> aq_queuedBytes s"
    and work: "aq_inFlight s' = maxInFlight opt \<or> (\<forall>p \<in> set kept. aq_blocked kept s' p)"
    by blast+
  have closed: "aq_closed s' \<longrightarrow> kept = []" and idle: "aq_idleWaiters s' \<noteq> [] \<longrightarrow> aq_closed s'"
    using len same assms by (auto simp: aq_pumpable_def aq_same_def)
  have bounds: "int (length kept) \<le> maxQueuedCommands opt" "aq_queuedBytes s' \<le> maxQueuedBytes opt"
    using len bytes assms by (auto simp: aq_pumpable_def)
  have nonneg: "0 \<le> aq_inFlight s'" using core by (simp add: aq_core_def)
  have blocked: "aq_blocked kept (s'\<lparr>aq_pending := P, aq_idleWaiters := w, aq_log := l\<rparr>) p = aq_blocked kept s' p"
    "aq_blocked kept (s'\<lparr>aq_pending := P\<rparr>) p = aq_blocked kept s' p" for P w l p
    by (simp_all add: aq_blocked_def)
  have "aq_core opt kept (s'\<lparr>aq_pending := kept, aq_idleWaiters := [], aq_log := l\<rparr>)" for l
    using core by (simp add: aq_core_def)
  then show ?thesis
    unfolding aq_pump_def scan prod.case aq_wakeIdle_def aq_inv_def
    using core closed idle bounds nonneg work blocked
    by (cases "kept = []") simp_all
qed

subsection \<open>Every operation keeps the invariant\<close>

lemma aq_inv_pumpable: "aq_inv opt s \<Longrightarrow> aq_pumpable opt s"
  by (auto simp: aq_inv_def aq_pumpable_def)

lemma aq_inv_frame:
  "aq_inv opt s \<Longrightarrow> aq_next s \<le> n \<Longrightarrow> aq_inv opt (s\<lparr>aq_next := n, aq_log := l\<rparr>)"
  by (auto simp: aq_inv_def aq_core_def aq_blocked_def intro: less_le_trans)

lemma aq_execute_inv:
  assumes "aq_inv opt s"
  shows "aq_inv opt (aq_execute opt keys n s)"
proof -
  let ?i = "aq_next s"
  let ?t = "\<lparr>qt_id = ?i, qt_bytes = n, qt_keys = js_uniq keys\<rparr>"
  let ?s = "s\<lparr>aq_next := Suc ?i, aq_pending := aq_pending s @ [?t], aq_queuedBytes := aq_queuedBytes s + n\<rparr>"
  have reject: "aq_inv opt (s\<lparr>aq_next := Suc ?i, aq_log := l\<rparr>)" for l
    using assms by (rule aq_inv_frame) simp
  have fresh: "\<forall>r \<in> set (aq_running s). qt_id r < ?i"
    using assms by (auto simp: aq_inv_def aq_core_def)
  then have "\<forall>r \<in> set (aq_running s). \<not> aq_overtakes r ?t"
    by (auto simp: aq_overtakes_def)
  then have "aq_pumpable opt ?s"
    if "\<not> aq_closed s" "0 \<le> n" "int (length (aq_pending s)) < maxQueuedCommands opt"
      "aq_queuedBytes s + n \<le> maxQueuedBytes opt"
    using that assms fresh
    by (auto simp: aq_pumpable_def aq_inv_def aq_core_def sorted_wrt_append less_SucI)
  then show ?thesis
    using reject by (auto simp: aq_execute_def Let_def aq_emit_def intro: aq_pump_inv)
qed

lemma aq_settle_pumpable:
  assumes inv: "aq_inv opt s" and t: "t \<in> set (aq_running s)"
  shows "aq_pumpable opt (s\<lparr>aq_running := remove1 t (aq_running s), aq_inFlight := aq_inFlight s - 1,
      aq_held := aq_release (qt_keys t) (aq_held s), aq_log := l\<rparr>)"
proof -
  have core: "aq_core opt (aq_pending s) s" using inv by (simp add: aq_inv_def)
  then have dk: "distinct (aq_keysOf (aq_running s))" by (simp add: aq_core_def)
  note rem = remove1_concat_distinct [OF dk t]
  have "aq_release (qt_keys t) (aq_held s) = (\<lambda>k. if k \<in> set (qt_keys t) then None else aq_held s k)"
    using core t by (intro aq_release_all) (auto simp: aq_core_def distinct_concat_iff)
  then have held: "aq_release (qt_keys t) (aq_held s) =
      (\<lambda>k. if k \<in> set (aq_keysOf (remove1 t (aq_running s))) then Some 1 else None)"
    unfolding rem(2) using core by (auto simp: aq_core_def fun_eq_iff)
  have ids: "distinct (map qt_id (remove1 t (aq_running s)))"
    using core by (auto simp: aq_core_def distinct_map intro: inj_on_diff)
  have sub: "set (remove1 t (aq_running s)) \<subseteq> set (aq_running s)" by (rule set_remove1_subset)
  have len: "length (remove1 t (aq_running s)) = length (aq_running s) - 1" "length (aq_running s) \<ge> 1"
    using t by (auto simp: length_remove1 Suc_le_eq length_pos_if_in_set)
  show ?thesis
    unfolding aq_pumpable_def aq_core_def
    using inv core rem(1) held ids sub len
    by (auto simp: aq_inv_def aq_core_def of_nat_diff)
qed

lemma aq_settle_inv: "aq_inv opt s \<Longrightarrow> aq_inv opt (aq_settle opt i ok s)"
  by (auto simp: aq_settle_def find_Some_iff split: option.splits
      intro!: aq_pump_inv aq_settle_pumpable)

lemma aq_close_inv:
  assumes "aq_inv opt s" and "aq_valid opt"
  shows "aq_inv opt (aq_close w s)"
  using assms
  by (auto simp: aq_close_def aq_waitForIdle_def aq_emit_def aq_inv_def aq_core_def aq_valid_def)

lemma aq_step_inv: "aq_valid opt \<Longrightarrow> aq_inv opt s \<Longrightarrow> aq_inv opt (aq_step opt s e)"
  by (cases e) (auto intro: aq_execute_inv aq_settle_inv aq_close_inv)

definition aq_good :: "aq_options \<Rightarrow> 'k admission_queue \<Rightarrow> bool" where
  "aq_good opt s \<longleftrightarrow> aq_valid opt \<and> aq_inv opt s"

interpretation aq: invariant_system "aq_step opt" "aq_good opt" for opt
  by unfold_locales (simp add: aq_good_def aq_step_inv)

lemma aq_empty_good: "aq_valid opt \<Longrightarrow> aq_good opt aq_empty"
  by (simp add: aq_good_def aq_inv_def aq_core_def aq_empty_def aq_valid_def)

lemma aq_run_inv: "aq_valid opt \<Longrightarrow> aq_inv opt (aq_run opt es)"
  using aq.run_inv [OF aq_empty_good] by (auto simp: aq_run_def aq_good_def)

lemma aq_construct_valid: "aq_construct opt = Inr s \<Longrightarrow> aq_valid opt \<and> s = aq_empty"
  by (auto simp: aq_construct_def aq_valid_def split: if_splits)

section \<open>Accounting: every promise settles once\<close>

text \<open>The promises a log entry settles for its caller.\<close>

fun aq_final :: "aq_obs \<Rightarrow> nat list" where
  "aq_final (Rejected i _) = [i]"
| "aq_final (Settled i _) = [i]"
| "aq_final _ = []"

definition aq_finals :: "aq_obs list \<Rightarrow> nat list" where
  "aq_finals os = concat (map aq_final os)"

lemma aq_finals_simps [simp]:
  "aq_finals [] = []"
  "aq_finals (x # xs) = aq_final x @ aq_finals xs"
  "aq_finals (xs @ ys) = aq_finals xs @ aq_finals ys"
  "aq_finals (map IdleReached ws) = []"
  by (simp_all add: aq_finals_def comp_def)

lemma aq_finals_rejected [simp]:
  "aq_finals (map (\<lambda>t. Rejected (qt_id t) e) ts) = map qt_id ts"
  by (induction ts) simp_all

definition aq_ids :: "'k admission_queue \<Rightarrow> nat multiset" where
  "aq_ids s = mset (map qt_id (aq_pending s)) + mset (map qt_id (aq_running s)) + mset (aq_finals (aq_log s))"

definition aq_accounted :: "'k admission_queue \<Rightarrow> bool" where
  "aq_accounted s \<longleftrightarrow> aq_ids s = mset [0..<aq_next s]"

lemma aq_scan_account:
  "aq_scan opt W ts s = (kept, s') \<Longrightarrow>
     aq_next s' = aq_next s \<and> aq_finals (aq_log s') = aq_finals (aq_log s) \<and>
     length kept + length (aq_running s') = length ts + length (aq_running s) \<and>
     mset (map qt_id kept) + mset (map qt_id (aq_running s')) =
       mset (map qt_id ts) + mset (map qt_id (aq_running s))"
proof (induction opt W ts s arbitrary: kept s' rule: aq_scan.induct)
  case (1 opt W s)
  then show ?case by simp
next
  case (2 opt W t ts s)
  show ?case
  proof (cases "aq_inFlight s \<ge> maxInFlight opt")
    case True
    with "2.prems" show ?thesis by auto
  next
    case room: False
    show ?thesis
    proof (cases "aq_ready t W s")
      case True
      with "2.prems" room have "aq_scan opt W ts (aq_start t s) = (kept, s')" by simp
      from "2.IH"(2) [OF room _ this] True show ?thesis by (auto simp: aq_start_def)
    next
      case False
      with "2.prems" room obtain k' where
        "aq_scan opt (W \<union> set (qt_keys t)) ts s = (k', s')" "kept = t # k'"
        by (auto split: prod.splits)
      with "2.IH"(1) [OF room False] show ?thesis by auto
    qed
  qed
qed

lemma aq_pump_account:
  "aq_next (aq_pump opt s) = aq_next s"
  "aq_ids (aq_pump opt s) = aq_ids s"
  "length (aq_pending (aq_pump opt s)) + length (aq_running (aq_pump opt s)) =
     length (aq_pending s) + length (aq_running s)"
proof -
  obtain kept s' where scan: "aq_scan opt {} (aq_pending s) s = (kept, s')" by fastforce
  show "aq_next (aq_pump opt s) = aq_next s" "aq_ids (aq_pump opt s) = aq_ids s"
    "length (aq_pending (aq_pump opt s)) + length (aq_running (aq_pump opt s)) =
     length (aq_pending s) + length (aq_running s)"
    using scan aq_scan_account [OF scan]
    by (auto simp: aq_pump_def aq_wakeIdle_def aq_ids_def)
qed

lemma mset_upt_snoc: "mset [0..<Suc n] = add_mset n (mset [0..<n])"
  by (simp add: atLeast0_lessThan_Suc)

lemma aq_execute_ids:
  "aq_ids (aq_execute opt keys n s) = add_mset (aq_next s) (aq_ids s)"
  "aq_next (aq_execute opt keys n s) = Suc (aq_next s)"
  by (auto simp: aq_execute_def Let_def aq_pump_account aq_emit_def) (simp_all add: aq_ids_def)

lemma aq_step_accounted: "aq_accounted s \<Longrightarrow> aq_accounted (aq_step opt s e)"
proof (cases e)
  case (Execute keys n)
  assume "aq_accounted s"
  then show ?thesis
    by (simp add: Execute aq_accounted_def aq_execute_ids mset_upt_snoc del: mset_upt)
next
  case (Settle i ok)
  assume acc: "aq_accounted s"
  show ?thesis
  proof (cases "find (\<lambda>t. qt_id t = i) (aq_running s)")
    case None
    then show ?thesis using acc by (simp add: Settle aq_settle_def)
  next
    case (Some t)
    then have t: "t \<in> set (aq_running s)" "qt_id t = i" by (auto simp: find_Some_iff)
    from t(1) have "mset (map qt_id (aq_running s)) =
        image_mset qt_id (add_mset t (mset (remove1 t (aq_running s))))"
      by (simp only: mset_map mset_remove1 insert_DiffM in_multiset_in_set)
    then have "mset (map qt_id (aq_running s)) = add_mset i (mset (map qt_id (remove1 t (aq_running s))))"
      using t(2) by simp
    then show ?thesis
      using acc Some
      by (simp add: Settle aq_settle_def aq_accounted_def aq_pump_account
            del: mset_map mset_remove1 mset_upt)
         (simp add: aq_ids_def del: mset_map mset_remove1 mset_upt)
  qed
next
  case (Close w)
  assume "aq_accounted s"
  then show ?thesis
    by (auto simp: Close aq_close_def aq_waitForIdle_def aq_emit_def aq_accounted_def aq_ids_def ac_simps)
qed

interpretation aqc: invariant_system "aq_step opt" aq_accounted for opt
  by unfold_locales (rule aq_step_accounted)

section \<open>Draining\<close>







section \<open>Properties\<close>

text \<open>C7: Commands are admitted in order per key: in every state the queue reaches, a running
  command shares no key with any other running command, and shares no key with any waiting
  command that was accepted before it. So a command starts only after every earlier
  command sharing one of its keys has finished.\<close>

theorem aq_order:
  assumes "aq_valid opt" and "s = aq_run opt es" and "r \<in> set (aq_running s)"
    and "t \<in> set (aq_pending s) \<union> set (aq_running s)" and "t \<noteq> r"
    and "t \<in> set (aq_pending s) \<longrightarrow> qt_id t < qt_id r"
  shows "set (qt_keys t) \<inter> set (qt_keys r) = {}"
proof -
  have core: "aq_core opt (aq_pending s) s"
    using aq_run_inv [OF assms(1), of es] assms(2) unfolding aq_inv_def by simp
  show ?thesis
  proof (cases "t \<in> set (aq_running s)")
    case True
    have "distinct (aq_keysOf (aq_running s))" using core by (simp add: aq_core_def)
    then show ?thesis using True assms(3,5) by (rule distinct_concat_disjoint)
  next
    case False
    then show ?thesis
      using core assms(3,4,6) by (auto simp: aq_core_def aq_overtakes_def)
  qed
qed

theorem aq_order_witness:
  "set [''b''] \<inter> set [''a'' :: string] = {} \<and>
   map qt_id (aq_running (aq_run \<lparr>maxInFlight = 2, maxQueuedBytes = 9, maxQueuedCommands = 9\<rparr>
     [Execute [''a''] 1, Execute [''a''] 1, Execute [''b''] 1])) = [0, 2 :: nat]"
proof -
  let ?opt = "\<lparr>maxInFlight = 2, maxQueuedBytes = 9, maxQueuedCommands = 9\<rparr>"
  let ?s = "aq_run ?opt [Execute [''a''] 1, Execute [''a''] 1, Execute [''b''] 1]"
  let ?a = "\<lparr>qt_id = 0, qt_bytes = 1, qt_keys = [''a'' :: string]\<rparr>"
  let ?b = "\<lparr>qt_id = 2, qt_bytes = 1, qt_keys = [''b'' :: string]\<rparr>"
  have run: "aq_running ?s = [?a, ?b]" "aq_pending ?s = [\<lparr>qt_id = 1, qt_bytes = 1, qt_keys = [''a'']\<rparr>]"
    by (simp_all add: aq_run_def aq_empty_def aq_execute_def aq_pump_def aq_wakeIdle_def aq_ready_def
        aq_start_def aq_hold_def js_uniq_def Let_def)
  have "set (qt_keys ?b) \<inter> set (qt_keys ?a) = {}"
    by (rule aq_order [of ?opt ?s "[Execute [''a''] 1, Execute [''a''] 1, Execute [''b''] 1]"])
       (simp_all add: run aq_valid_def)
  then show ?thesis by (simp add: run)
qed

text \<open>Admission stays inside its limits and wastes no slot: no more than \<open>maxInFlight\<close> commands
  run, no more than \<open>maxQueuedCommands\<close> commands and \<open>maxQueuedBytes\<close> bytes wait, the byte
  counter is exactly the sum over the waiting commands, every held key is counted once, and
  whenever a command waits although a slot is free, an earlier unfinished command shares
  one of its keys.\<close>

theorem aq_bounds:
  assumes "aq_construct opt = Inr s0" and "s = foldl (aq_step opt) s0 es"
  shows "int (length (aq_running s)) = aq_inFlight s \<and> aq_inFlight s \<le> maxInFlight opt \<and>
    int (length (aq_pending s)) \<le> maxQueuedCommands opt \<and>
    aq_queuedBytes s = sum_list (map qt_bytes (aq_pending s)) \<and>
    aq_queuedBytes s \<le> maxQueuedBytes opt \<and>
    (\<forall>k. aq_held s k \<in> {None, Some 1}) \<and>
    (aq_inFlight s < maxInFlight opt \<longrightarrow> (\<forall>p \<in> set (aq_pending s). aq_blocked (aq_pending s) s p))"
proof -
  have "aq_inv opt s"
    using aq_run_inv [of opt es] aq_construct_valid [OF assms(1)] assms(2) by (simp add: aq_run_def)
  then show ?thesis by (auto simp: aq_inv_def aq_core_def)
qed

theorem aq_bounds_witness:
  "\<exists>s. s = foldl (aq_step \<lparr>maxInFlight = 2, maxQueuedBytes = 9, maxQueuedCommands = 9\<rparr>) aq_empty
       [Execute [''a''] 1, Execute [''a''] 1] \<and> length (aq_pending s) = 1 \<and>
     aq_blocked (aq_pending s) s (hd (aq_pending s))"
proof -
  let ?opt = "\<lparr>maxInFlight = 2, maxQueuedBytes = 9, maxQueuedCommands = 9\<rparr>"
  let ?es = "[Execute [''a'' :: string] 1, Execute [''a''] 1]"
  define s where "s = foldl (aq_step ?opt) aq_empty ?es"
  have c: "aq_construct ?opt = Inr aq_empty" by (simp add: aq_construct_def)
  have run: "aq_pending s = [\<lparr>qt_id = 1, qt_bytes = 1, qt_keys = [''a'']\<rparr>]" "aq_inFlight s = 1"
    by (simp_all add: s_def aq_empty_def aq_execute_def aq_pump_def aq_wakeIdle_def aq_ready_def
        aq_start_def aq_hold_def js_uniq_def Let_def)
  have "aq_blocked (aq_pending s) s (hd (aq_pending s))"
    using aq_bounds [OF c s_def] by (simp add: run)
  then show ?thesis using run s_def by (intro exI [of _ s]) simp
qed

text \<open>No promise is lost and none settles twice: after any sequence of events, the numbers of all
  promises handed out are, each exactly once, those of the waiting commands, of the running
  commands and of the settled or rejected ones in the log.\<close>

theorem aq_settles_once:
  "mset (map qt_id (aq_pending (aq_run opt es))) + mset (map qt_id (aq_running (aq_run opt es)))
     + mset (aq_finals (aq_log (aq_run opt es))) = mset [0..<aq_next (aq_run opt es)]"
proof -
  have "aq_accounted (aq_empty :: 'a admission_queue)"
    by (simp add: aq_accounted_def aq_ids_def aq_empty_def)
  then have "aq_accounted (aq_run opt es)"
    unfolding aq_run_def by (rule aqc.run_inv)
  then show ?thesis by (simp only: aq_accounted_def aq_ids_def)
qed



lemma runWithConflictRetries_spec:
  assumes "attempt \<le> maxConflictAttempts" and "runWithConflictRetries isConflict outcome attempt = (r, n)"
  shows "attempt \<le> n \<and> n \<le> maxConflictAttempts \<and> r = outcome n \<and>
    (\<forall>i. attempt \<le> i \<and> i < n \<longrightarrow> (\<exists>e. outcome i = Inl e \<and> isConflict e)) \<and>
    (\<forall>e. r = Inl e \<longrightarrow> isConflict e \<longrightarrow> n = maxConflictAttempts)"
  using assms
proof (induction isConflict outcome attempt rule: runWithConflictRetries.induct)
  case (1 isConflict outcome attempt)
  show ?case
  proof (cases "outcome attempt")
    case (Inr v)
    with "1.prems" show ?thesis by (auto simp: runWithConflictRetries.simps [of isConflict outcome attempt])
  next
    case (Inl e)
    show ?thesis
    proof (cases "attempt \<ge> maxConflictAttempts \<or> \<not> isConflict e")
      case True
      with Inl "1.prems" show ?thesis
        by (auto simp: runWithConflictRetries.simps [of isConflict outcome attempt])
    next
      case False
      with Inl "1.prems" have "runWithConflictRetries isConflict outcome (attempt + 1) = (r, n)"
        by (simp add: runWithConflictRetries.simps [of isConflict outcome attempt])
      with "1.IH" [OF Inl False] False "1.prems"
      have "attempt + 1 \<le> n \<and> n \<le> maxConflictAttempts \<and> r = outcome n \<and>
        (\<forall>i. attempt + 1 \<le> i \<and> i < n \<longrightarrow> (\<exists>e. outcome i = Inl e \<and> isConflict e)) \<and>
        (\<forall>e. r = Inl e \<longrightarrow> isConflict e \<longrightarrow> n = maxConflictAttempts)"
        by auto
      then show ?thesis using Inl False by (metis Suc_eq_plus1 Suc_leI le_neq_implies_less Suc_leD)
    qed
  qed
qed

text \<open>A command is run again only while it fails with a transaction conflict, and at most four
  times: the caller gets the outcome of the last run, every earlier run failed with a
  conflict, and the last one succeeded, failed otherwise, or was the fourth.\<close>

theorem aq_retries:
  assumes "runWithConflictRetries isConflict outcome 1 = (r, n)"
  shows "1 \<le> n \<and> n \<le> 4 \<and> r = outcome n \<and>
    (\<forall>i. 1 \<le> i \<and> i < n \<longrightarrow> (\<exists>e. outcome i = Inl e \<and> isConflict e)) \<and>
    (\<forall>e. r = Inl e \<longrightarrow> isConflict e \<longrightarrow> n = 4)"
  using runWithConflictRetries_spec [OF _ assms] by (auto simp: maxConflictAttempts_def)

theorem aq_retries_witness:
  "runWithConflictRetries (\<lambda>e. e = ''deadlock'') (\<lambda>i. if i < 3 then Inl ''deadlock'' else Inr i) 1
     = (Inr 3, 3 :: nat)
   \<and> (3 :: nat) \<le> 4"
proof -
  let ?o = "\<lambda>i. if i < 3 then Inl ''deadlock'' else Inr i :: string + nat"
  have "runWithConflictRetries (\<lambda>e. e = ''deadlock'') ?o 1 = (Inr 3, 3)"
    by (simp add: runWithConflictRetries.simps maxConflictAttempts_def)
  from this aq_retries [OF this] show ?thesis by simp
qed

end
