(* ===== verification/JS_Text.thy ===== *)
theory JS_Text
  imports OS_Prelude
begin

text \<open>
  What the components use of the language's text library: UTF-16 code units, surrogates,
  \<open>String.prototype.slice\<close>, the UTF-8 length of a text (\<open>Buffer.byteLength\<close>) and
  \<open>JSON.stringify\<close>.
\<close>

section \<open>UTF-16 texts\<close>

text \<open>A text of ASCII characters, as written in the source.\<close>

definition lit :: "string \<Rightarrow> utf16" where
  "lit s = map of_char s"

lemma lit_simps [simp]: "lit [] = []" "lit (c # cs) = of_char c # lit cs"
  by (simp_all add: lit_def)

definition isHighSurrogate :: "nat \<Rightarrow> bool" where
  "isHighSurrogate u \<longleftrightarrow> 0xd800 \<le> u \<and> u \<le> 0xdbff"

definition isLowSurrogate :: "nat \<Rightarrow> bool" where
  "isLowSurrogate u \<longleftrightarrow> 0xdc00 \<le> u \<and> u \<le> 0xdfff"

lemma surrogate_disjoint: "isHighSurrogate u \<Longrightarrow> \<not> isLowSurrogate u"
  by (simp add: isHighSurrogate_def isLowSurrogate_def)

text \<open>Bytes of the UTF-8 form: a surrogate pair takes four, an unpaired surrogate three.\<close>

fun utf8Length :: "utf16 \<Rightarrow> nat" where
  "utf8Length [] = 0"
| "utf8Length [u] = (if u < 0x80 then 1 else if u < 0x800 then 2 else 3)"
| "utf8Length (u # v # us) =
     (if isHighSurrogate u \<and> isLowSurrogate v then 4 + utf8Length us
      else (if u < 0x80 then 1 else if u < 0x800 then 2 else 3) + utf8Length (v # us))"

lemma utf8Length_ge: "length us \<le> utf8Length us"
  by (induction us rule: utf8Length.induct) auto

lemma utf8Length_0 [simp]: "utf8Length us = 0 \<longleftrightarrow> us = []"
  using utf8Length_ge [of us] by auto

section \<open>JSON\<close>

datatype json =
    JNull
  | JBool bool
  | JNat nat
  | JStr utf16
  | JArr "json list"
  | JObj "(string \<times> json) list"

fun decimal :: "nat \<Rightarrow> utf16" where
  "decimal n = (if n < 10 then [48 + n] else decimal (n div 10) @ [48 + n mod 10])"

declare decimal.simps [simp del]

definition hexDigit :: "nat \<Rightarrow> nat" where
  "hexDigit d = (if d < 10 then 48 + d else 87 + d)"

definition unicodeEscape :: "nat \<Rightarrow> utf16" where
  "unicodeEscape u = [92, 117, hexDigit (u div 4096), hexDigit (u div 256 mod 16),
     hexDigit (u div 16 mod 16), hexDigit (u mod 16)]"

definition escapeUnit :: "nat \<Rightarrow> utf16" where
  "escapeUnit u =
     (if u = 34 then [92, 34] else if u = 92 then [92, 92]
      else if u = 8 then [92, 98] else if u = 9 then [92, 116]
      else if u = 10 then [92, 110] else if u = 12 then [92, 102]
      else if u = 13 then [92, 114]
      else if u < 32 then unicodeEscape u
      else [u])"

text \<open>An unpaired surrogate is escaped, a pair is kept.\<close>

fun escapeUnits :: "utf16 \<Rightarrow> utf16" where
  "escapeUnits [] = []"
| "escapeUnits [u] = (if isHighSurrogate u \<or> isLowSurrogate u then unicodeEscape u else escapeUnit u)"
| "escapeUnits (u # v # us) =
     (if isHighSurrogate u \<and> isLowSurrogate v then u # v # escapeUnits us
      else (if isHighSurrogate u \<or> isLowSurrogate u then unicodeEscape u else escapeUnit u)
           @ escapeUnits (v # us))"

definition jsonString :: "utf16 \<Rightarrow> utf16" where
  "jsonString s = [34] @ escapeUnits s @ [34]"

fun joinWith :: "'a \<Rightarrow> 'a list list \<Rightarrow> 'a list" where
  "joinWith c [] = []"
| "joinWith c [x] = x"
| "joinWith c (x # y # xs) = x @ [c] @ joinWith c (y # xs)"

fun stringify :: "json \<Rightarrow> utf16" where
  "stringify JNull = lit ''null''"
| "stringify (JBool b) = (if b then lit ''true'' else lit ''false'')"
| "stringify (JNat n) = decimal n"
| "stringify (JStr s) = jsonString s"
| "stringify (JArr js) = [91] @ joinWith 44 (map stringify js) @ [93]"
| "stringify (JObj kvs) =
     [123] @ joinWith 44 (map (\<lambda>(k, v). jsonString (lit k) @ [58] @ stringify v) kvs) @ [125]"

lemma stringify_not_Nil: "stringify (JObj kvs) \<noteq> []"
  by simp

end
