(* ===== verification/Core_Events.thy ===== *)
theory Core_Events
  imports JS_Text
begin

text \<open>
  The durable event log (packages/core/src/events.ts, ids.ts). An \<open>AgentEvent\<close> is one of the
  variants of \<open>AgentEventSchema\<close>; a variant carries here the part of its data that the
  modelled readers look at. A \<open>Sequence\<close> is a decimal string compared as a number
  (\<open>compareSequence\<close>): it is a natural number here, \<open>zeroSequence\<close> is \<open>0\<close> and
  \<open>nextSequence\<close> is \<open>Suc\<close>.
\<close>

type_synonym sequence = nat

datatype event_type =
    AssignmentCreated | AssignmentUpdated
  | RequestCancelled | RequestOpened | RequestUpdated | RequestResolved
  | AssistantMessage | VoiceHeard | DelegationSettled
  | MessageCreated | MessageInjected | MessagePlaced
  | ReasoningCompleted (blockId: utf16)
  | RunQueued | RunCompleted | RunFailed | RunInterrupted | RunRestarted | RunStarted
  | RunStatus | RunUsage | RunPhase
  | NodeStarted | NodeUpdated | NodeCompleted
  | ToolCompleted (callId: utf16) | ToolStarted
  | ThreadCreated (threadListed: bool)
  | ThreadExecutionUpdated | ThreadListed | ThreadInputUpdated | ThreadInputQueueUpdated
  | ThreadStateChanged | ThreadContinuationEstablished | ThreadAccessModeUpdated
  | PlaceEntered | AppPublished

record agent_event =
  ev_runId :: "ident option"
  ev_sequence :: sequence
  ev_threadId :: ident
  ev_type :: event_type
  ev_workspaceId :: ident

definition compareSequence :: "sequence \<Rightarrow> sequence \<Rightarrow> int" where
  "compareSequence l r = (if l < r then -1 else if l > r then 1 else 0)"

lemma compareSequence_simps [simp]:
  "compareSequence l r < 0 \<longleftrightarrow> l < r"
  "compareSequence l r \<le> 0 \<longleftrightarrow> l \<le> r"
  "0 < compareSequence l r \<longleftrightarrow> r < l"
  "0 \<le> compareSequence l r \<longleftrightarrow> r \<le> l"
  "compareSequence l r = 0 \<longleftrightarrow> l = r"
  by (auto simp: compareSequence_def)

text \<open>\<open>terminalRunEventTypes\<close> of live-run-registry.ts.\<close>

definition terminalRunEvent :: "event_type \<Rightarrow> bool" where
  "terminalRunEvent t \<longleftrightarrow> t = RunCompleted \<or> t = RunFailed \<or> t = RunInterrupted"

end
