(* ===== verification/Live_Stream.thy ===== *)
theory Live_Stream
  imports Core_Events
begin

text \<open>
  Streams of live progress (packages/core/src/live.ts): their keys, the items that travel from
  a Runner to a client, and the bounded tail both ends keep.
\<close>

section \<open>Keys and items\<close>

datatype stream_key = Assistant | Reasoning utf16 | Tool utf16

datatype live_item =
    Append (item_key: stream_key) nat utf16
  | Replace (item_key: stream_key) nat utf16

fun liveStreamKeyId :: "stream_key \<Rightarrow> utf16" where
  "liveStreamKeyId Assistant = lit ''assistant''"
| "liveStreamKeyId (Reasoning b) = lit ''reasoning:'' @ b"
| "liveStreamKeyId (Tool c) = lit ''tool:'' @ c"

definition liveStreamKeyOf :: "live_item \<Rightarrow> stream_key" where
  "liveStreamKeyOf item = item_key item"

definition liveStreamTextMaxLength :: nat where
  "liveStreamTextMaxLength = 120000"

definition liveAppendTextMaxLength :: nat where
  "liveAppendTextMaxLength = 64 * 1024"

definition liveProgressMaxItems :: nat where
  "liveProgressMaxItems = 256"

definition maxSafeInteger :: nat where
  "maxSafeInteger = 9007199254740991"

definition liveStreamKeyValid :: "stream_key \<Rightarrow> bool" where
  "liveStreamKeyValid key =
     (case key of
        Assistant \<Rightarrow> True
      | Reasoning b \<Rightarrow> 1 \<le> length b \<and> length b \<le> 255
      | Tool c \<Rightarrow> 1 \<le> length c \<and> length c \<le> 255)"

text \<open>\<open>liveItemShapes\<close>, the union of them, and the refinement \<open>replaceFitsLength\<close>.\<close>

fun liveItemValid :: "live_item \<Rightarrow> bool" where
  "liveItemValid (Append key offset text) \<longleftrightarrow>
     liveStreamKeyValid key \<and> offset \<le> maxSafeInteger \<and>
     1 \<le> length text \<and> length text \<le> liveAppendTextMaxLength"
| "liveItemValid (Replace key len text) \<longleftrightarrow>
     liveStreamKeyValid key \<and> len \<le> maxSafeInteger \<and>
     length text \<le> liveStreamTextMaxLength \<and> length text \<le> len"

record live_progress =
  lp_items :: "live_item list"
  lp_runId :: ident
  lp_threadId :: ident
  lp_workspaceId :: ident

definition liveRunProgressValid :: "live_progress \<Rightarrow> bool" where
  "liveRunProgressValid p \<longleftrightarrow>
     1 \<le> length (lp_items p) \<and> length (lp_items p) \<le> liveProgressMaxItems \<and>
     list_all liveItemValid (lp_items p)"

text \<open>The identifier string of a key determines the key.\<close>

lemma liveStreamKeyId_inj: "liveStreamKeyId k = liveStreamKeyId k' \<longleftrightarrow> k = k'"
  by (cases k; cases k') (auto simp: lit_def)

section \<open>The tail of a stream\<close>

definition appendLiveStreamTail :: "utf16 \<Rightarrow> utf16 \<Rightarrow> utf16" where
  "appendLiveStreamTail tail text =
     (let next = tail @ text in
      if length next \<le> liveStreamTextMaxLength then next
      else
        let start = length next - liveStreamTextMaxLength in
        drop (if isLowSurrogate (next ! start) then start + 1 else start) next)"

definition surrogateSafeCut :: "utf16 \<Rightarrow> nat \<Rightarrow> nat" where
  "surrogateSafeCut text index =
     (if index > 0 \<and> index < length text \<and> isLowSurrogate (text ! index) then index - 1 else index)"

text \<open>What a reader shows of a whole text: its newest units.\<close>

definition tailOf :: "utf16 \<Rightarrow> utf16" where
  "tailOf text = appendLiveStreamTail [] text"

text \<open>No two adjacent low surrogates: well-formed UTF-16 has none, cut anywhere.\<close>

fun wellPaired :: "utf16 \<Rightarrow> bool" where
  "wellPaired (u # v # us) \<longleftrightarrow> \<not> (isLowSurrogate u \<and> isLowSurrogate v) \<and> wellPaired (v # us)"
| "wellPaired us \<longleftrightarrow> True"

lemma wellPaired_nth:
  "wellPaired us \<longleftrightarrow> (\<forall>i. Suc i < length us \<longrightarrow> \<not> (isLowSurrogate (us ! i) \<and> isLowSurrogate (us ! Suc i)))"
proof (induction us rule: wellPaired.induct)
  case (1 u v us)
  then show ?case by (auto simp: nth_Cons split: nat.splits)
qed auto

lemma wellPaired_prefix: "wellPaired (xs @ ys) \<Longrightarrow> wellPaired xs"
  by (induction xs rule: wellPaired.induct) auto

lemma wellPaired_take: "wellPaired xs \<Longrightarrow> wellPaired (take n xs)"
  by (metis append_take_drop_id wellPaired_prefix)

lemma liveStreamTextMaxLength_pos: "1 < liveStreamTextMaxLength"
  by (simp add: liveStreamTextMaxLength_def)

lemma tailOf_short: "length xs \<le> liveStreamTextMaxLength \<Longrightarrow> tailOf xs = xs"
  by (simp add: tailOf_def appendLiveStreamTail_def)

lemma appendLiveStreamTail_long:
  assumes "liveStreamTextMaxLength < length (t @ x)"
  shows "appendLiveStreamTail t x = drop (length (t @ x) - liveStreamTextMaxLength +
    (if isLowSurrogate ((t @ x) ! (length (t @ x) - liveStreamTextMaxLength)) then 1 else 0)) (t @ x)"
proof -
  have "\<not> length (t @ x) \<le> liveStreamTextMaxLength" using assms by simp
  then show ?thesis unfolding appendLiveStreamTail_def Let_def by (simp only: if_False add_0_right split: if_split) simp
qed

lemma tailOf_long:
  "liveStreamTextMaxLength < length xs \<Longrightarrow>
     tailOf xs = drop (length xs - liveStreamTextMaxLength +
       (if isLowSurrogate (xs ! (length xs - liveStreamTextMaxLength)) then 1 else 0)) xs"
  by (simp add: tailOf_def appendLiveStreamTail_def Let_def Suc_diff_le)

lemma length_appendLiveStreamTail: "length (appendLiveStreamTail t x) \<le> liveStreamTextMaxLength"
proof (cases "length (t @ x) \<le> liveStreamTextMaxLength")
  case True
  then show ?thesis by (simp add: appendLiveStreamTail_def)
next
  case False
  then have "length (appendLiveStreamTail t x) \<le> length (t @ x) - (length (t @ x) - liveStreamTextMaxLength)"
    unfolding appendLiveStreamTail_def Let_def by (simp only: if_False length_drop split: if_split) auto
  then show ?thesis by simp
qed

lemma tailOf_append:
  assumes "wellPaired (xs @ ys)"
  shows "appendLiveStreamTail (tailOf xs) ys = tailOf (xs @ ys)"
proof (cases "length xs \<le> liveStreamTextMaxLength")
  case True
  then show ?thesis by (simp add: tailOf_short) (simp add: tailOf_def appendLiveStreamTail_def)
next
  case False
  define M where "M = liveStreamTextMaxLength"
  define s where "s = length xs - M"
  define d where "d = (if isLowSurrogate (xs ! s) then 1 else 0 :: nat)"
  have M: "1 < M" "M < length xs" using False liveStreamTextMaxLength_pos by (auto simp: M_def)
  have win: "tailOf xs = drop (s + d) xs"
    using tailOf_long [of xs] M by (simp add: s_def d_def M_def)
  have "d \<le> 1" "s + 1 \<le> length xs" using M by (auto simp: d_def s_def)
  then have sd: "s + d \<le> length xs" by linarith
  have cat: "tailOf xs @ ys = drop (s + d) (xs @ ys)"
    using sd by (simp add: win)
  show ?thesis
  proof (cases "length ys \<le> d")
    case True
    then have short: "appendLiveStreamTail (tailOf xs) ys = drop (s + d) (xs @ ys)"
    proof -
      have "length (drop (s + d) (xs @ ys)) \<le> M" using True M by (simp add: s_def)
      then show ?thesis by (simp only: appendLiveStreamTail_def cat Let_def M_def [symmetric] if_True)
    qed
    have "length ys = 0 \<or> (length ys = 1 \<and> d = 1)" using True \<open>d \<le> 1\<close> by linarith
    then show ?thesis
    proof
      assume "length ys = 0"
      then show ?thesis using short win by simp
    next
      assume one: "length ys = 1 \<and> d = 1"
      then have "isLowSurrogate (xs ! s)" by (simp add: d_def split: if_splits)
      moreover have "s < length xs" using M by (simp add: s_def)
      ultimately have "isLowSurrogate ((xs @ ys) ! s)" by (simp add: nth_append)
      moreover have "Suc s < length (xs @ ys)" using one M by (simp add: s_def)
      ultimately have "\<not> isLowSurrogate ((xs @ ys) ! Suc s)"
        using assms unfolding wellPaired_nth by blast
      moreover have "length (xs @ ys) - M = Suc s" using one M by (simp add: s_def)
      ultimately have "tailOf (xs @ ys) = drop (Suc s) (xs @ ys)"
        using tailOf_long [of "xs @ ys"] M by (simp add: M_def)
      then show ?thesis using short one by simp
    qed
  next
    case False
    then have len: "length (tailOf xs @ ys) = M - d + length ys" "M < M - d + length ys"
    proof -
      have "length (tailOf xs @ ys) = length xs + length ys - (s + d)" by (simp only: cat length_drop length_append)
      then show "length (tailOf xs @ ys) = M - d + length ys" using M \<open>d \<le> 1\<close> s_def by linarith
      show "M < M - d + length ys" using False M \<open>d \<le> 1\<close> by linarith
    qed
    have start: "length (tailOf xs @ ys) - M = length ys - d" using len M \<open>d \<le> 1\<close> by linarith
    have total: "s + d + (length ys - d) = length (xs @ ys) - M"
      using M False by (simp add: s_def)
    have nth: "(tailOf xs @ ys) ! (length ys - d) = (xs @ ys) ! (length (xs @ ys) - M)"
      unfolding cat total [symmetric] using sd by (subst nth_drop) auto
    define e where "e = (if isLowSurrogate ((xs @ ys) ! (length (xs @ ys) - M)) then 1 else 0 :: nat)"
    have "M < length (tailOf xs @ ys)" using len by linarith
    then have "appendLiveStreamTail (tailOf xs) ys = drop (length ys - d + e) (tailOf xs @ ys)"
      using appendLiveStreamTail_long [of "tailOf xs" ys]
      by (simp only: M_def [symmetric] start nth e_def)
    also have "\<dots> = drop (s + d + (length ys - d) + e) (xs @ ys)"
      by (simp only: cat drop_drop) (simp only: add.commute add.left_commute add.assoc)
    also have "\<dots> = drop (length (xs @ ys) - M + e) (xs @ ys)" by (simp only: total)
    also have "\<dots> = tailOf (xs @ ys)"
      using tailOf_long [of "xs @ ys"] M by (simp only: M_def [symmetric] e_def) simp
    finally show ?thesis .
  qed
qed

section \<open>A bounded window over a growing text\<close>

text \<open>
  What every holder of a stream relies on: appending to the window of a text gives the window
  of the longer text. A cell \<open>(n, w)\<close> shows a text when \<open>w\<close> is the window of its first \<open>n\<close>
  units.
\<close>

locale stream_window =
  fixes app :: "'a list \<Rightarrow> 'a list \<Rightarrow> 'a list"
    and win :: "'a list \<Rightarrow> 'a list"
    and ok :: "'a list \<Rightarrow> bool"
  assumes win_Nil: "win [] = []"
    and app_win: "ok (xs @ ys) \<Longrightarrow> app (win xs) ys = win (xs @ ys)"
    and ok_prefix: "ok (xs @ ys) \<Longrightarrow> ok xs"
begin

lemma empty_shows: "win (take 0 T) = []"
  by (simp add: win_Nil)

lemma ok_take: "ok T \<Longrightarrow> ok (take n T)"
  by (metis append_take_drop_id ok_prefix)

text \<open>An append that names offset \<open>at\<close> and overlaps what is held continues the window exactly.\<close>

lemma append_shows:
  assumes "ok T" and "at \<le> n" and "n < at + length x" and "at + length x \<le> length T"
    and "x = take (length x) (drop at T)"
  shows "app (win (take n T)) (drop (n - at) x) = win (take (at + length x) T)"
proof -
  have "drop (n - at) x = drop (n - at) (take (length x) (drop at T))" using assms(5) by simp
  also have "\<dots> = take (at + length x - n) (drop n T)"
    using assms(2) by (simp add: drop_take add.commute)
  finally have "take n T @ drop (n - at) x = take n T @ take (at + length x - n) (drop n T)" by simp
  also have "\<dots> = take (at + length x) T"
    using assms(2,3) by (simp add: take_add [symmetric])
  finally have cat: "take n T @ drop (n - at) x = take (at + length x) T" .
  then show ?thesis using app_win [of "take n T" "drop (n - at) x"] ok_take [OF assms(1)] by simp
qed

lemma append_whole_shows: "ok (T @ x) \<Longrightarrow> app (win T) x = win (T @ x)"
  by (rule app_win)

lemma fold_append_shows: "ok (xs @ concat cs) \<Longrightarrow> foldl app (win xs) cs = win (xs @ concat cs)"
proof (induction cs arbitrary: xs)
  case Nil
  then show ?case by simp
next
  case (Cons c cs)
  from Cons.prems have "ok ((xs @ c) @ concat cs)" by simp
  then show ?case using Cons.IH [of "xs @ c"] by (simp add: app_win ok_prefix)
qed

end

lemma tailOf_Nil [simp]: "tailOf [] = []"
  by (simp add: tailOf_def appendLiveStreamTail_def)

interpretation lw: stream_window appendLiveStreamTail tailOf wellPaired
  by unfold_locales (auto intro: tailOf_append wellPaired_prefix)

section \<open>Items that tell the truth\<close>

text \<open>
  \<open>honest T item\<close>: the item says about its stream what is true of the whole text \<open>T id\<close> the
  stream will have received, whenever it was sent.
\<close>

fun honest :: "(utf16 \<Rightarrow> utf16) \<Rightarrow> live_item \<Rightarrow> bool" where
  "honest T (Append key offset text) \<longleftrightarrow>
     offset + length text \<le> length (T (liveStreamKeyId key)) \<and>
     text = take (length text) (drop offset (T (liveStreamKeyId key)))"
| "honest T (Replace key len text) \<longleftrightarrow>
     len \<le> length (T (liveStreamKeyId key)) \<and> text = tailOf (take len (T (liveStreamKeyId key)))"

lemma honest_rest:
  assumes "honest T (Append key offset x)" and "offset \<le> n" and "n \<le> offset + length x"
  shows "honest T (Append key n (drop (n - offset) x))"
proof -
  let ?U = "T (liveStreamKeyId key)"
  have x: "x = take (length x) (drop offset ?U)" and len: "offset + length x \<le> length ?U"
    using assms(1) by auto
  have "drop (n - offset) x = drop (n - offset) (take (length x) (drop offset ?U))" using x by simp
  also have "\<dots> = take (length x - (n - offset)) (drop n ?U)"
    using assms(2) by (simp add: drop_take)
  finally have eq: "drop (n - offset) x = take (length x - (n - offset)) (drop n ?U)" .
  have lenx: "length x - (n - offset) = length (drop (n - offset) x)" by simp
  have "drop (n - offset) x = take (length (drop (n - offset) x)) (drop n ?U)"
    using eq unfolding lenx .
  moreover have "n + length (drop (n - offset) x) \<le> length ?U" using len assms(2,3) by simp
  ultimately show ?thesis unfolding honest.simps by (intro conjI)
qed

definition shows_text :: "utf16 \<Rightarrow> nat \<Rightarrow> utf16 \<Rightarrow> bool" where
  "shows_text T len tail \<longleftrightarrow> len \<le> length T \<and> tail = tailOf (take len T)"

lemma shows_text_0 [simp]: "shows_text T 0 []"
  by (simp add: shows_text_def)

lemma shows_text_append:
  assumes "wellPaired (T (liveStreamKeyId key))" and "honest T (Append key offset text)"
    and "shows_text (T (liveStreamKeyId key)) len tail" and "offset \<le> len" and "len < offset + length text"
  shows "shows_text (T (liveStreamKeyId key)) (offset + length text)
           (appendLiveStreamTail tail (drop (len - offset) text))"
  using lw.append_shows [of "T (liveStreamKeyId key)" offset len "text"] assms
  by (auto simp: shows_text_def)

lemma shows_text_replace: "honest T (Replace key len text) \<Longrightarrow> shows_text (T (liveStreamKeyId key)) len text"
  by (simp add: shows_text_def)

section \<open>Properties\<close>

text \<open>Both ends of the wire keep the same tail however the text was cut: appending a stream's text
  chunk by chunk leaves the tail that appending it at once leaves, which never exceeds the
  limit, as long as the text has no two adjacent low surrogates.\<close>

theorem live_tail_chunking:
  assumes "wellPaired (concat chunks)"
  shows "foldl appendLiveStreamTail [] chunks = appendLiveStreamTail [] (concat chunks) \<and>
    length (foldl appendLiveStreamTail [] chunks) \<le> liveStreamTextMaxLength"
proof -
  have "foldl appendLiveStreamTail (tailOf []) chunks = tailOf ([] @ concat chunks)"
    using assms by (intro lw.fold_append_shows) simp
  then show ?thesis using length_appendLiveStreamTail [of "[]" "concat chunks"] by (simp add: tailOf_def [symmetric])
qed

theorem live_tail_chunking_witness:
  "foldl appendLiveStreamTail [] [[104, 0xd83d], [0xde00], [105]] = [104, 0xd83d, 0xde00, 105]"
proof -
  let ?c = "[[104, 0xd83d], [0xde00], [105]] :: utf16 list"
  have "wellPaired (concat ?c)" by (simp add: isLowSurrogate_def)
  from live_tail_chunking [OF this] show ?thesis
    by (simp add: appendLiveStreamTail_def liveStreamTextMaxLength_def)
qed

end
