(* ===== verification/Live_Registry.thy ===== *)
theory Live_Registry
  imports Live_Stream
begin

text \<open>
  \<open>LiveRunRegistry\<close> (packages/orchestration/src/live-run-registry.ts): what each active Run
  is streaming, on the Host. A run state that the source mutates in place is written back
  under its key, which keeps its place in the map; \<open>now\<close> is the clock read by the call.
\<close>

record live_stream_state =
  lss_key :: stream_key
  lss_length :: nat
  lss_tail :: utf16

record live_run_state =
  lrs_afterSequence :: sequence
  lrs_runId :: ident
  lrs_streams :: "(utf16, live_stream_state) jsmap"
  lrs_threadId :: ident
  lrs_touchedAt :: int
  lrs_workspaceId :: ident

record live_frame =
  lf_afterSequence :: sequence
  lf_progress :: live_progress

record registry_options =
  maxStreamsPerRun :: nat
  maxRuns :: nat

definition defaultRegistryOptions :: registry_options where
  "defaultRegistryOptions = \<lparr>maxStreamsPerRun = 64, maxRuns = 2048\<rparr>"

type_synonym live_registry = "(ident, live_run_state) jsmap"

section \<open>Operations\<close>

text \<open>The least recently touched Run; the first of several touched at the same time.\<close>

fun oldestRun :: "live_run_state option \<Rightarrow> live_run_state list \<Rightarrow> live_run_state option" where
  "oldestRun oldest [] = oldest"
| "oldestRun oldest (st # sts) =
     oldestRun (case oldest of
                  None \<Rightarrow> Some st
                | Some o' \<Rightarrow> if lrs_touchedAt st < lrs_touchedAt o' then Some st else Some o') sts"

definition evictLeastRecent :: "live_registry \<Rightarrow> live_registry" where
  "evictLeastRecent reg =
     (case oldestRun None (jvalues reg) of None \<Rightarrow> reg | Some st \<Rightarrow> jdel (lrs_runId st) reg)"

definition freshRun :: "int \<Rightarrow> ident \<Rightarrow> ident \<Rightarrow> ident \<Rightarrow> live_run_state" where
  "freshRun now runId threadId workspaceId =
     \<lparr>lrs_afterSequence = 0, lrs_runId = runId, lrs_streams = [], lrs_threadId = threadId,
      lrs_touchedAt = now, lrs_workspaceId = workspaceId\<rparr>"

text \<open>\<open>#ensureRun\<close>: whether the Run may be followed under this Thread and Workspace.\<close>

definition ensureRun :: "registry_options \<Rightarrow> int \<Rightarrow> ident \<Rightarrow> ident \<Rightarrow> ident \<Rightarrow> live_registry
    \<Rightarrow> live_registry \<times> bool" where
  "ensureRun opt now runId threadId workspaceId reg =
     (case jget reg runId of
        Some existing \<Rightarrow>
          (jset runId (existing\<lparr>lrs_touchedAt := now\<rparr>) reg,
           lrs_threadId existing = threadId \<and> lrs_workspaceId existing = workspaceId)
      | None \<Rightarrow>
          (jset runId (freshRun now runId threadId workspaceId)
             (if length reg \<ge> maxRuns opt then evictLeastRecent reg else reg), True))"

definition updateRun :: "ident \<Rightarrow> (live_run_state \<Rightarrow> live_run_state) \<Rightarrow> live_registry \<Rightarrow> live_registry" where
  "updateRun runId f reg =
     (case jget reg runId of None \<Rightarrow> reg | Some st \<Rightarrow> jset runId (f st) reg)"

definition raiseAfter :: "sequence \<Rightarrow> live_run_state \<Rightarrow> live_run_state" where
  "raiseAfter s st =
     (if compareSequence s (lrs_afterSequence st) > 0 then st\<lparr>lrs_afterSequence := s\<rparr> else st)"

fun completeStream :: "event_type \<Rightarrow> live_run_state \<Rightarrow> live_run_state" where
  "completeStream AssistantMessage st =
     st\<lparr>lrs_streams := jdel (liveStreamKeyId Assistant) (lrs_streams st)\<rparr>"
| "completeStream (ReasoningCompleted b) st =
     st\<lparr>lrs_streams := jdel (liveStreamKeyId (Reasoning b)) (lrs_streams st)\<rparr>"
| "completeStream (ToolCompleted c) st =
     st\<lparr>lrs_streams := jdel (liveStreamKeyId (Tool c)) (lrs_streams st)\<rparr>"
| "completeStream _ st = st"

definition observeOne :: "registry_options \<Rightarrow> int \<Rightarrow> sequence \<Rightarrow> live_registry \<Rightarrow> agent_event
    \<Rightarrow> live_registry" where
  "observeOne opt now transactionSequence reg event =
     (case ev_runId event of
        None \<Rightarrow> reg
      | Some runId \<Rightarrow>
          if terminalRunEvent (ev_type event) then jdel runId reg
          else
            let reg1 = (if ev_type event = RunRestarted then jdel runId reg else reg) in
            (case ensureRun opt now runId (ev_threadId event) (ev_workspaceId event) reg1 of
               (reg2, usable) \<Rightarrow>
                 if usable
                 then updateRun runId
                        (\<lambda>st. completeStream (ev_type event) (raiseAfter transactionSequence st)) reg2
                 else reg2))"

definition transactionSequence :: "agent_event list \<Rightarrow> sequence" where
  "transactionSequence events =
     foldl (\<lambda>s event. if compareSequence (ev_sequence event) s > 0 then ev_sequence event else s) 0 events"

definition observeCommitted :: "registry_options \<Rightarrow> int \<Rightarrow> agent_event list \<Rightarrow> live_registry
    \<Rightarrow> live_registry" where
  "observeCommitted opt now events reg =
     (if events = [] then reg
      else foldl (observeOne opt now (transactionSequence events)) reg events)"

definition trackRun :: "registry_options \<Rightarrow> int \<Rightarrow> sequence \<Rightarrow> ident \<Rightarrow> ident \<Rightarrow> ident \<Rightarrow> live_registry
    \<Rightarrow> live_registry" where
  "trackRun opt now afterSequence runId threadId workspaceId reg =
     (case ensureRun opt now runId threadId workspaceId reg of
        (reg', usable) \<Rightarrow> if usable then updateRun runId (raiseAfter afterSequence) reg' else reg')"

text \<open>\<open>#stream\<close>: the Run holds a stream under \<open>id\<close> afterwards.\<close>

definition openStream :: "registry_options \<Rightarrow> utf16 \<Rightarrow> stream_key \<Rightarrow> live_run_state \<Rightarrow> live_run_state" where
  "openStream opt i key st =
     (case jget (lrs_streams st) i of
        Some _ \<Rightarrow> st
      | None \<Rightarrow>
          let streams = (if length (lrs_streams st) \<ge> maxStreamsPerRun opt
                         then (case lrs_streams st of [] \<Rightarrow> [] | (k, _) # _ \<Rightarrow> jdel k (lrs_streams st))
                         else lrs_streams st)
          in st\<lparr>lrs_streams := jset i \<lparr>lss_key = key, lss_length = 0, lss_tail = []\<rparr> streams\<rparr>)"

definition writeStream :: "utf16 \<Rightarrow> nat \<Rightarrow> utf16 \<Rightarrow> live_run_state \<Rightarrow> live_run_state" where
  "writeStream i len tail st =
     (case jget (lrs_streams st) i of
        None \<Rightarrow> st
      | Some s \<Rightarrow> st\<lparr>lrs_streams := jset i (s\<lparr>lss_length := len, lss_tail := tail\<rparr>) (lrs_streams st)\<rparr>)"

fun applyItem :: "registry_options \<Rightarrow> live_item \<Rightarrow> live_run_state \<Rightarrow> live_run_state \<times> live_item option" where
  "applyItem opt (Replace key len text) st =
     (let i = liveStreamKeyId key in
      (writeStream i len text (openStream opt i key st), Some (Replace key len text)))"
| "applyItem opt (Append key offset text) st =
     (let i = liveStreamKeyId key;
          st1 = (if jget (lrs_streams st) i = None \<and> offset = 0 then openStream opt i key st else st)
      in case jget (lrs_streams st1) i of
           None \<Rightarrow> (st1, None)
         | Some stream \<Rightarrow>
             let end = offset + length text in
             if end \<le> lss_length stream then (st1, None)
             else if offset > lss_length stream then (st1, None)
             else
               let text' = drop (lss_length stream - offset) text in
               (writeStream i end (appendLiveStreamTail (lss_tail stream) text') st1,
                Some (Append key (lss_length stream) text')))"

fun applyItems :: "registry_options \<Rightarrow> live_item list \<Rightarrow> live_run_state \<Rightarrow> live_run_state \<times> live_item list" where
  "applyItems opt [] st = (st, [])"
| "applyItems opt (item # items) st =
     (case applyItem opt item st of
        (st1, forwarded) \<Rightarrow>
          (case applyItems opt items st1 of
             (st2, accepted) \<Rightarrow>
               (st2, (case forwarded of None \<Rightarrow> accepted | Some f \<Rightarrow> f # accepted))))"

definition applyProgress :: "registry_options \<Rightarrow> int \<Rightarrow> live_progress \<Rightarrow> live_registry
    \<Rightarrow> live_registry \<times> live_frame option" where
  "applyProgress opt now progress reg =
     (case jget reg (lp_runId progress) of
        None \<Rightarrow> (reg, None)
      | Some st \<Rightarrow>
          if lrs_threadId st \<noteq> lp_threadId progress \<or> lrs_workspaceId st \<noteq> lp_workspaceId progress
          then (reg, None)
          else
            (case applyItems opt (lp_items progress) (st\<lparr>lrs_touchedAt := now\<rparr>) of
               (st', accepted) \<Rightarrow>
                 (jset (lp_runId progress) st' reg,
                  if accepted = [] then None
                  else Some \<lparr>lf_afterSequence = lrs_afterSequence st',
                             lf_progress = progress\<lparr>lp_items := accepted\<rparr>\<rparr>)))"

section \<open>Replacement frames\<close>

definition replacementFrameMaxCharacters :: nat where
  "replacementFrameMaxCharacters = 448 * 1024"

definition replacementItem :: "live_stream_state \<Rightarrow> live_item" where
  "replacementItem stream = Replace (lss_key stream) (lss_length stream) (lss_tail stream)"

text \<open>The object \<open>replacementItem\<close> returns, as \<open>JSON.stringify\<close> sees it.\<close>

fun itemJson :: "live_item \<Rightarrow> json" where
  "itemJson (Replace key len text) =
     (case key of
        Assistant \<Rightarrow> JObj [(''length'', JNat len), (''op'', JStr (lit ''replace'')),
           (''stream'', JStr (lit ''assistant'')), (''text'', JStr text)]
      | Reasoning b \<Rightarrow> JObj [(''blockId'', JStr b), (''length'', JNat len), (''op'', JStr (lit ''replace'')),
           (''stream'', JStr (lit ''reasoning'')), (''text'', JStr text)]
      | Tool c \<Rightarrow> JObj [(''callId'', JStr c), (''length'', JNat len), (''op'', JStr (lit ''replace'')),
           (''stream'', JStr (lit ''tool'')), (''text'', JStr text)])"
| "itemJson (Append key offset text) =
     (case key of
        Assistant \<Rightarrow> JObj [(''at'', JNat offset), (''op'', JStr (lit ''append'')),
           (''stream'', JStr (lit ''assistant'')), (''text'', JStr text)]
      | Reasoning b \<Rightarrow> JObj [(''at'', JNat offset), (''blockId'', JStr b), (''op'', JStr (lit ''append'')),
           (''stream'', JStr (lit ''reasoning'')), (''text'', JStr text)]
      | Tool c \<Rightarrow> JObj [(''at'', JNat offset), (''callId'', JStr c), (''op'', JStr (lit ''append'')),
           (''stream'', JStr (lit ''tool'')), (''text'', JStr text)])"

definition itemCharacters :: "live_item \<Rightarrow> nat" where
  "itemCharacters item = length (stringify (itemJson item))"

text \<open>\<open>flush\<close> and the loop of \<open>replacementFrames\<close>: the groups of items, one per frame.\<close>

fun frameGroups :: "live_item list \<Rightarrow> live_item list \<Rightarrow> nat \<Rightarrow> live_item list list" where
  "frameGroups [] items characters = (if items = [] then [] else [items])"
| "frameGroups (item # rest) items characters =
     (let n = itemCharacters item in
      if items \<noteq> [] \<and> (length items \<ge> liveProgressMaxItems
           \<or> characters + n > replacementFrameMaxCharacters)
      then items # frameGroups rest [item] n
      else frameGroups rest (items @ [item]) (characters + n))"

definition replacementFrames :: "live_run_state \<Rightarrow> live_frame list" where
  "replacementFrames st =
     map (\<lambda>items. \<lparr>lf_afterSequence = lrs_afterSequence st,
            lf_progress = \<lparr>lp_items = items, lp_runId = lrs_runId st, lp_threadId = lrs_threadId st,
              lp_workspaceId = lrs_workspaceId st\<rparr>\<rparr>)
       (frameGroups (map replacementItem (jvalues (lrs_streams st))) [] 0)"

definition workspaceFrames :: "ident \<Rightarrow> live_registry \<Rightarrow> live_frame list" where
  "workspaceFrames workspaceId reg =
     concat (map replacementFrames (filter (\<lambda>st. lrs_workspaceId st = workspaceId) (jvalues reg)))"

definition threadFrames :: "ident \<Rightarrow> live_registry \<Rightarrow> live_frame list" where
  "threadFrames threadId reg =
     concat (map replacementFrames (filter (\<lambda>st. lrs_threadId st = threadId) (jvalues reg)))"

section \<open>Well-formed states\<close>

definition run_ok :: "registry_options \<Rightarrow> live_run_state \<Rightarrow> bool" where
  [inv_defs]: "run_ok opt st \<longleftrightarrow> jwf (lrs_streams st) \<and> length (lrs_streams st) \<le> maxStreamsPerRun opt \<and>
     (\<forall>(i, s) \<in> set (lrs_streams st). i = liveStreamKeyId (lss_key s))"

definition run_shows :: "(utf16 \<Rightarrow> utf16) \<Rightarrow> live_run_state \<Rightarrow> bool" where
  [inv_defs]: "run_shows T st \<longleftrightarrow> (\<forall>(i, s) \<in> set (lrs_streams st). shows_text (T i) (lss_length s) (lss_tail s))"

definition registry_inv :: "registry_options \<Rightarrow> live_registry \<Rightarrow> bool" where
  [inv_defs]: "registry_inv opt reg \<longleftrightarrow> jwf reg \<and> length reg \<le> maxRuns opt \<and>
     (\<forall>(k, st) \<in> set reg. lrs_runId st = k \<and> run_ok opt st)"

definition options_ok :: "registry_options \<Rightarrow> bool" where
  "options_ok opt \<longleftrightarrow> 0 < maxStreamsPerRun opt \<and> 0 < maxRuns opt"

subsection \<open>One Run\<close>

lemma openStream_same [simp]:
  "lrs_runId (openStream opt i key st) = lrs_runId st"
  "lrs_threadId (openStream opt i key st) = lrs_threadId st"
  "lrs_workspaceId (openStream opt i key st) = lrs_workspaceId st"
  "lrs_afterSequence (openStream opt i key st) = lrs_afterSequence st"
  by (auto simp: openStream_def Let_def split: option.splits)

lemma writeStream_same [simp]:
  "lrs_runId (writeStream i len t st) = lrs_runId st"
  "lrs_threadId (writeStream i len t st) = lrs_threadId st"
  "lrs_workspaceId (writeStream i len t st) = lrs_workspaceId st"
  "lrs_afterSequence (writeStream i len t st) = lrs_afterSequence st"
  by (auto simp: writeStream_def split: option.splits)

lemma openStream_get:
  "jget (lrs_streams (openStream opt i key st)) i =
     (case jget (lrs_streams st) i of
        None \<Rightarrow> Some \<lparr>lss_key = key, lss_length = 0, lss_tail = []\<rparr> | Some s \<Rightarrow> Some s)"
  by (auto simp: openStream_def Let_def jget_set split: option.splits)

lemma openStream_streams:
  "set (lrs_streams (openStream opt i key st)) \<subseteq>
     set (lrs_streams st) \<union> {(i, \<lparr>lss_key = key, lss_length = 0, lss_tail = []\<rparr>)}"
proof -
  have sub: "set (jset k v m) \<subseteq> insert (k, v) (set m)" for k v and m :: "(utf16, live_stream_state) jsmap"
    by (induction m) auto
  have "set (jdel k m) \<subseteq> set m" for k and m :: "(utf16, live_stream_state) jsmap"
    by (auto simp: AList.delete_eq)
  then show ?thesis
    using sub by (fastforce simp: openStream_def Let_def split: option.splits list.splits if_splits)
qed

lemma writeStream_streams:
  assumes "jget (lrs_streams st) i = Some s0" and "jwf (lrs_streams st)"
  shows "set (lrs_streams (writeStream i len t st)) \<subseteq>
     set (lrs_streams st) \<union> {(i, s0\<lparr>lss_length := len, lss_tail := t\<rparr>)}"
proof -
  have sub: "set (jset k v m) \<subseteq> insert (k, v) (set m)" for k v and m :: "(utf16, live_stream_state) jsmap"
    by (induction m) auto
  show ?thesis using assms sub by (auto simp: writeStream_def)
qed

lemma openStream_ok:
  assumes "run_ok opt st" and "0 < maxStreamsPerRun opt" and "i = liveStreamKeyId key"
  shows "run_ok opt (openStream opt i key st)"
proof (cases "jget (lrs_streams st) i")
  case (Some s)
  then show ?thesis using assms by (simp add: openStream_def)
next
  case None
  have keys: "\<forall>(i, s) \<in> set (lrs_streams (openStream opt i key st)). i = liveStreamKeyId (lss_key s)"
    using assms openStream_streams [of opt i key st] by (fastforce simp: run_ok_def)
  have "jwf (lrs_streams (openStream opt i key st)) \<and>
      length (lrs_streams (openStream opt i key st)) \<le> maxStreamsPerRun opt"
  proof (cases "length (lrs_streams st) \<ge> maxStreamsPerRun opt")
    case False
    then show ?thesis
      using assms(1) None le_trans [OF jset_length_le, of "lrs_streams st" "maxStreamsPerRun opt"]
      by (simp add: openStream_def run_ok_def Let_def jwf_set)
  next
    case True
    then obtain k v rest where streams: "lrs_streams st = (k, v) # rest"
      using assms(2) by (cases "lrs_streams st") auto
    then have "Suc (length (jdel k (lrs_streams st))) = length (lrs_streams st)"
      using assms(1) by (intro jdel_length_mem) (auto simp: run_ok_def)
    then have "length (jset i s (jdel k (lrs_streams st))) \<le> maxStreamsPerRun opt" for s
      using jset_length_le [of i s "jdel k (lrs_streams st)"] assms(1) by (simp add: run_ok_def)
    then show ?thesis
      using True None assms(1) streams
      by (simp add: openStream_def Let_def run_ok_def jwf_Cons)
  qed
  then show ?thesis using keys by (simp add: run_ok_def)
qed

lemma writeStream_ok: "run_ok opt st \<Longrightarrow> run_ok opt (writeStream i len t st)"
proof (cases "jget (lrs_streams st) i")
  case None
  then show "run_ok opt st \<Longrightarrow> ?thesis" by (simp add: writeStream_def)
next
  case (Some s)
  assume ok: "run_ok opt st"
  have "(i, s) \<in> set (lrs_streams st)" using Some by (rule map_of_SomeD)
  then have "i \<in> fst ` set (lrs_streams st)" "i = liveStreamKeyId (lss_key s)"
    using ok by (auto simp: run_ok_def intro: rev_image_eqI)
  moreover have "\<forall>(i, s) \<in> set (lrs_streams (writeStream i len t st)). i = liveStreamKeyId (lss_key s)"
    using writeStream_streams [OF Some] ok calculation(2) by (fastforce simp: run_ok_def)
  ultimately show ?thesis
    using ok Some by (simp add: run_ok_def writeStream_def jset_length_mem)
qed



text \<open>One item keeps the state well-formed and truthful, and forwards the truth.\<close>

lemma applyItem_same [simp]:
  "lrs_runId (fst (applyItem opt item st)) = lrs_runId st"
  "lrs_threadId (fst (applyItem opt item st)) = lrs_threadId st"
  "lrs_workspaceId (fst (applyItem opt item st)) = lrs_workspaceId st"
  "lrs_afterSequence (fst (applyItem opt item st)) = lrs_afterSequence st"
  by (cases item; simp add: Let_def split: option.splits)+

lemma applyItem_ok:
  assumes "run_ok opt st" and "0 < maxStreamsPerRun opt"
  shows "run_ok opt (fst (applyItem opt item st))"
  using assms by (cases item) (auto simp: Let_def intro: writeStream_ok openStream_ok split: option.splits)


subsection \<open>Lists of items\<close>

lemma applyItems_facts:
  assumes "run_ok opt st" and "0 < maxStreamsPerRun opt"
  shows "run_ok opt (fst (applyItems opt items st)) \<and>
    lrs_runId (fst (applyItems opt items st)) = lrs_runId st \<and>
    lrs_threadId (fst (applyItems opt items st)) = lrs_threadId st \<and>
    lrs_workspaceId (fst (applyItems opt items st)) = lrs_workspaceId st \<and>
    lrs_afterSequence (fst (applyItems opt items st)) = lrs_afterSequence st"
  using assms
proof (induction items arbitrary: st)
  case Nil
  then show ?case by simp
next
  case (Cons item items)
  have "run_ok opt (fst (applyItem opt item st))" using Cons.prems by (rule applyItem_ok)
  from Cons.IH [OF this Cons.prems(2)] show ?case by (simp add: case_prod_unfold)
qed


section \<open>The registry as a state machine\<close>

datatype registry_event =
    Observe int "agent_event list"
  | Track int sequence ident ident ident
  | Apply int live_progress

fun registry_step :: "registry_options \<Rightarrow> live_registry \<Rightarrow> registry_event \<Rightarrow> live_registry" where
  "registry_step opt reg (Observe now events) = observeCommitted opt now events reg"
| "registry_step opt reg (Track now s r t w) = trackRun opt now s r t w reg"
| "registry_step opt reg (Apply now p) = fst (applyProgress opt now p reg)"

text \<open>
  \<open>runs_good P reg\<close>: the map is well-formed and bounded and every Run in it satisfies \<open>P\<close>.
\<close>

definition runs_good :: "registry_options \<Rightarrow> (ident \<Rightarrow> live_run_state \<Rightarrow> bool) \<Rightarrow> live_registry \<Rightarrow> bool" where
  "runs_good opt P reg \<longleftrightarrow> jwf reg \<and> length reg \<le> maxRuns opt \<and>
     (\<forall>(k, st) \<in> set reg. lrs_runId st = k \<and> P k st)"

lemma registry_inv_runs: "registry_inv opt reg \<longleftrightarrow> runs_good opt (\<lambda>_. run_ok opt) reg"
  by (auto simp: registry_inv_def runs_good_def)

lemma runs_good_get: "runs_good opt P reg \<Longrightarrow> jget reg k = Some st \<Longrightarrow> lrs_runId st = k \<and> P k st"
  by (auto simp: runs_good_def dest: map_of_SomeD)

lemma runs_good_del: "runs_good opt P reg \<Longrightarrow> runs_good opt P (jdel k reg)"
  using jdel_length [of k reg] jdel_ball [of reg "\<lambda>k st. lrs_runId st = k \<and> P k st"]
  by (auto simp: runs_good_def)

lemma runs_good_put:
  assumes "runs_good opt P reg" and "jget reg k = Some st0" and "lrs_runId st = k" and "P k st"
  shows "runs_good opt P (jset k st reg)"
proof -
  have "k \<in> fst ` set reg" using assms(2) by (auto dest: map_of_SomeD intro: rev_image_eqI)
  then have "length (jset k st reg) = length reg" by (rule jset_length_mem)
  moreover have "\<forall>(k, st) \<in> set (jset k st reg). lrs_runId st = k \<and> P k st"
    using assms by (intro jset_ball) (auto simp: runs_good_def)
  ultimately show ?thesis using assms(1) by (simp add: runs_good_def)
qed

lemma oldestRun_mem: "oldestRun o' sts = Some st \<Longrightarrow> o' = Some st \<or> st \<in> set sts"
  by (induction sts arbitrary: o') (fastforce split: option.splits if_splits)+

lemma oldestRun_Some: "oldestRun (Some st) sts \<noteq> None"
  by (induction sts arbitrary: st) auto

lemma evict_length:
  assumes "runs_good opt P reg" and "reg \<noteq> []"
  shows "Suc (length (evictLeastRecent reg)) = length reg"
proof -
  obtain st where st: "oldestRun None (jvalues reg) = Some st"
    using assms(2) oldestRun_Some by (cases reg) (auto split: option.splits)
  then have "st \<in> snd ` set reg" using oldestRun_mem by fastforce
  then have "lrs_runId st \<in> fst ` set reg"
    using assms(1) by (fastforce simp: runs_good_def intro: rev_image_eqI)
  then show ?thesis
    using assms(1) st by (simp add: evictLeastRecent_def runs_good_def jdel_length_mem)
qed

lemma runs_good_evict: "runs_good opt P reg \<Longrightarrow> runs_good opt P (evictLeastRecent reg)"
  by (auto simp: evictLeastRecent_def intro: runs_good_del split: option.splits)

lemma ensureRun_good:
  assumes "runs_good opt P reg" and "0 < maxRuns opt"
    and "\<And>st. P runId st \<Longrightarrow> P runId (st\<lparr>lrs_touchedAt := now\<rparr>)" and "P runId (freshRun now runId t w)"
  shows "runs_good opt P (fst (ensureRun opt now runId t w reg))"
proof (cases "jget reg runId")
  case (Some st)
  then have "lrs_runId st = runId \<and> P runId st" using assms(1) by (blast dest: runs_good_get)
  then show ?thesis using Some assms by (auto simp: ensureRun_def intro: runs_good_put)
next
  case None
  define reg' where "reg' = (if length reg \<ge> maxRuns opt then evictLeastRecent reg else reg)"
  have good: "runs_good opt P reg'" using assms(1) by (simp add: reg'_def runs_good_evict)
  have "length reg' < maxRuns opt"
  proof (cases "length reg \<ge> maxRuns opt")
    case True
    then have "reg \<noteq> []" using assms(2) by auto
    with assms(1) have "Suc (length (evictLeastRecent reg)) = length reg" by (rule evict_length)
    then show ?thesis using assms(1) True by (simp add: reg'_def runs_good_def)
  next
    case False
    then show ?thesis by (simp add: reg'_def)
  qed
  then have "length (jset runId (freshRun now runId t w) reg') \<le> maxRuns opt"
    using jset_length_le [of runId "freshRun now runId t w" reg'] by linarith
  moreover have "\<forall>(k, st) \<in> set (jset runId (freshRun now runId t w) reg'). lrs_runId st = k \<and> P k st"
    using good assms(4) by (intro jset_ball) (auto simp: runs_good_def freshRun_def)
  ultimately show ?thesis
    using good None by (simp add: ensureRun_def reg'_def [symmetric] runs_good_def)
qed

lemma updateRun_good:
  assumes "runs_good opt P reg" and "\<And>st. P runId st \<Longrightarrow> P runId (f st)" and "\<And>st. lrs_runId (f st) = lrs_runId st"
  shows "runs_good opt P (updateRun runId f reg)"
  using assms runs_good_get [OF assms(1), of runId]
  by (auto simp: updateRun_def intro: runs_good_put split: option.splits)

text \<open>
  A fact about single Runs that every operation keeps, for events whose progress items all
  satisfy \<open>Q\<close>, holds of every Run the registry follows.
\<close>

fun event_items :: "(ident \<Rightarrow> live_item \<Rightarrow> bool) \<Rightarrow> registry_event \<Rightarrow> bool" where
  "event_items Q (Apply now p) \<longleftrightarrow> (\<forall>item \<in> set (lp_items p). Q (lp_runId p) item)"
| "event_items Q _ \<longleftrightarrow> True"

locale run_predicate =
  fixes opt :: registry_options
    and P :: "ident \<Rightarrow> live_run_state \<Rightarrow> bool"
    and Q :: "ident \<Rightarrow> live_item \<Rightarrow> bool"
  assumes runs_pos: "0 < maxRuns opt"
    and P_fresh: "P k (freshRun now k t w)"
    and P_touch: "P k st \<Longrightarrow> P k (st\<lparr>lrs_touchedAt := now\<rparr>)"
    and P_raise: "P k st \<Longrightarrow> P k (raiseAfter q st)"
    and P_complete: "P k st \<Longrightarrow> P k (completeStream ty st)"
    and P_items: "P k st \<Longrightarrow> \<forall>item \<in> set items. Q k item \<Longrightarrow> P k (fst (applyItems opt items st))"
begin

lemma ensure_good: "runs_good opt P reg \<Longrightarrow> runs_good opt P (fst (ensureRun opt now k t w reg))"
  using runs_pos P_touch P_fresh by (blast intro: ensureRun_good)

lemma raise_same: "lrs_runId (raiseAfter q st) = lrs_runId st"
  by (simp add: raiseAfter_def)

lemma complete_same: "lrs_runId (completeStream ty st) = lrs_runId st"
  by (cases ty) simp_all

lemma observeOne_good: "runs_good opt P reg \<Longrightarrow> runs_good opt P (observeOne opt now q reg e)"
  by (auto simp: observeOne_def Let_def case_prod_unfold raise_same complete_same
      intro!: updateRun_good ensure_good runs_good_del P_complete P_raise split: option.splits)

lemma observe_good: "runs_good opt P reg \<Longrightarrow> runs_good opt P (foldl (observeOne opt now q) reg es)"
  by (induction es arbitrary: reg) (auto intro: observeOne_good)

lemma items_same: "lrs_runId (fst (applyItems opt items st)) = lrs_runId st"
  by (induction items arbitrary: st) (auto simp: case_prod_unfold)

lemma apply_good:
  assumes "runs_good opt P reg" and "\<forall>item \<in> set (lp_items p). Q (lp_runId p) item"
  shows "runs_good opt P (fst (applyProgress opt now p reg))"
  using assms runs_good_get [OF assms(1), of "lp_runId p"]
  by (auto simp: applyProgress_def case_prod_unfold items_same
      intro!: runs_good_put P_items P_touch split: option.splits)

lemma step_good: "runs_good opt P reg \<Longrightarrow> event_items Q e \<Longrightarrow> runs_good opt P (registry_step opt reg e)"
  by (cases e)
     (auto simp: observeCommitted_def trackRun_def case_prod_unfold raise_same
        intro!: observe_good updateRun_good ensure_good P_raise apply_good)

lemma run_good:
  "runs_good opt P reg \<Longrightarrow> \<forall>e \<in> set es. event_items Q e \<Longrightarrow> runs_good opt P (foldl (registry_step opt) reg es)"
  by (induction es arbitrary: reg) (auto intro: step_good)

end

lemma run_ok_fresh [simp]: "run_ok opt (freshRun now k t w)"
  by (simp add: run_ok_def freshRun_def)

lemma run_ok_touch [simp]: "run_ok opt (st\<lparr>lrs_touchedAt := now\<rparr>) = run_ok opt st"
  by (simp add: run_ok_def)

lemma run_ok_raise [simp]: "run_ok opt (raiseAfter q st) = run_ok opt st"
  by (simp add: run_ok_def raiseAfter_def)

lemma run_ok_del:
  "run_ok opt st \<Longrightarrow> run_ok opt (st\<lparr>lrs_streams := jdel i (lrs_streams st)\<rparr>)"
  using jdel_length [of i "lrs_streams st"]
    jdel_ball [of "lrs_streams st" "\<lambda>i s. i = liveStreamKeyId (lss_key s)" i]
  by (auto simp: run_ok_def)

lemma run_ok_complete: "run_ok opt st \<Longrightarrow> run_ok opt (completeStream ty st)"
  by (cases ty) (simp_all add: run_ok_del)

lemma run_shows_fresh [simp]: "run_shows T (freshRun now k t w)"
  by (simp add: run_shows_def freshRun_def)

lemma run_shows_touch [simp]: "run_shows T (st\<lparr>lrs_touchedAt := now\<rparr>) = run_shows T st"
  by (simp add: run_shows_def)

lemma run_shows_raise [simp]: "run_shows T (raiseAfter q st) = run_shows T st"
  by (simp add: run_shows_def raiseAfter_def)



lemma run_predicate_ok: "options_ok opt \<Longrightarrow> run_predicate opt (\<lambda>_. run_ok opt) (\<lambda>_ _. True)"
  by unfold_locales (auto simp: options_ok_def run_ok_complete applyItems_facts)


lemma defaultRegistryOptions_ok: "options_ok defaultRegistryOptions"
  by (simp add: options_ok_def defaultRegistryOptions_def)

interpretation reg_ok: run_predicate defaultRegistryOptions "\<lambda>_. run_ok defaultRegistryOptions" "\<lambda>_ _. True"
  by (rule run_predicate_ok [OF defaultRegistryOptions_ok])


section \<open>The sequence a frame follows\<close>

definition follows :: "agent_event \<Rightarrow> live_run_state \<Rightarrow> bool" where
  "follows e st \<longleftrightarrow> lrs_threadId st = ev_threadId e \<and> lrs_workspaceId st = ev_workspaceId e"

lemma jget_evict: "jget (evictLeastRecent reg) k = Some st \<Longrightarrow> jget reg k = Some st"
  by (auto simp: evictLeastRecent_def jget_del split: option.splits if_splits)

lemma ensureRun_get_other:
  "k \<noteq> r \<Longrightarrow> jget (fst (ensureRun opt now r t w reg)) k = Some st \<Longrightarrow> jget reg k = Some st"
  by (auto simp: ensureRun_def jget_set dest: jget_evict split: option.splits if_splits)

lemma updateRun_get: "jget (updateRun r f reg) k = (if k = r then map_option f (jget reg k) else jget reg k)"
  by (auto simp: updateRun_def jget_set split: option.splits)

lemma complete_same_after [simp]:
  "lrs_afterSequence (completeStream ty st) = lrs_afterSequence st"
  "lrs_threadId (completeStream ty st) = lrs_threadId st"
  "lrs_workspaceId (completeStream ty st) = lrs_workspaceId st"
  by (cases ty; simp)+

lemma raise_facts [simp]:
  "q \<le> lrs_afterSequence (raiseAfter q st)"
  "lrs_afterSequence st \<le> lrs_afterSequence (raiseAfter q st)"
  "lrs_threadId (raiseAfter q st) = lrs_threadId st"
  "lrs_workspaceId (raiseAfter q st) = lrs_workspaceId st"
  by (auto simp: raiseAfter_def)

text \<open>What one event does to the Run held under \<open>k\<close>.\<close>

lemma observeOne_after:
  assumes "jget (observeOne opt now q reg e) k = Some st'"
  shows "q \<le> lrs_afterSequence st' \<or>
    (\<exists>st. jget reg k = Some st \<and> lrs_threadId st = lrs_threadId st' \<and>
       lrs_workspaceId st = lrs_workspaceId st' \<and> lrs_afterSequence st = lrs_afterSequence st' \<and>
       (ev_runId e = Some k \<longrightarrow> \<not> follows e st'))"
proof (cases "ev_runId e")
  case None
  then show ?thesis using assms by (simp add: observeOne_def)
next
  case (Some r)
  define reg1 where "reg1 = (if ev_type e = RunRestarted then jdel r reg else reg)"
  define ens where "ens = ensureRun opt now r (ev_threadId e) (ev_workspaceId e) reg1"
  have reg1: "jget reg1 j = Some st \<Longrightarrow> jget reg j = Some st" for j st
    by (auto simp: reg1_def jget_del split: if_splits)
  show ?thesis
  proof (cases "terminalRunEvent (ev_type e)")
    case True
    then show ?thesis using assms Some by (auto simp: observeOne_def jget_del split: if_splits)
  next
    case False
    then have obs: "observeOne opt now q reg e = (if snd ens
        then updateRun r (\<lambda>st. completeStream (ev_type e) (raiseAfter q st)) (fst ens) else fst ens)"
      using Some by (simp add: observeOne_def Let_def reg1_def ens_def case_prod_unfold)
    show ?thesis
    proof (cases "k = r")
      case False
      then have "jget (fst ens) k = Some st'" using assms obs by (auto simp: updateRun_get split: if_splits)
      then have "jget reg k = Some st'" using False unfolding ens_def by (blast dest: ensureRun_get_other reg1)
      then show ?thesis using False Some by auto
    next
      case True
      show ?thesis
      proof (cases "snd ens")
        case True
        then show ?thesis using assms obs \<open>k = r\<close> by (auto simp: updateRun_get)
      next
        case False
        then obtain st where st: "jget reg1 r = Some st" and nf: "\<not> follows e st"
          by (auto simp: ens_def ensureRun_def follows_def split: option.splits)
        have "jget (fst ens) r = Some st'" using assms obs False \<open>k = r\<close> by simp
        then have "st' = st\<lparr>lrs_touchedAt := now\<rparr>" using st by (simp add: ens_def ensureRun_def jget_set)
        then show ?thesis using reg1 [OF st] nf \<open>k = r\<close> by (auto simp: follows_def)
      qed
    qed
  qed
qed

lemma observe_after:
  assumes "jget (foldl (observeOne opt now q) reg es) k = Some st" and "e \<in> set es"
    and "ev_runId e = Some k" and "follows e st"
  shows "q \<le> lrs_afterSequence st"
  using assms
proof (induction es arbitrary: st rule: rev_induct)
  case Nil
  then show ?case by simp
next
  case (snoc e' es)
  have "jget (observeOne opt now q (foldl (observeOne opt now q) reg es) e') k = Some st"
    using snoc.prems by simp
  from observeOne_after [OF this] show ?case
  proof (elim disjE exE conjE)
    fix st0
    assume st0: "jget (foldl (observeOne opt now q) reg es) k = Some st0"
      "lrs_threadId st0 = lrs_threadId st" "lrs_workspaceId st0 = lrs_workspaceId st"
      "lrs_afterSequence st0 = lrs_afterSequence st" "ev_runId e' = Some k \<longrightarrow> \<not> follows e' st"
    then have "e \<in> set es" using snoc.prems by auto
    moreover have "follows e st0" using snoc.prems st0 by (simp add: follows_def)
    ultimately show ?case using snoc.IH [OF st0(1)] snoc.prems st0(4) by simp
  qed
qed

lemma transactionSequence_ge: "e \<in> set events \<Longrightarrow> ev_sequence e \<le> transactionSequence events"
proof -
  define f where "f = (\<lambda>s (event :: agent_event). if compareSequence (ev_sequence event) s > 0 then ev_sequence event else s)"
  have step: "s \<le> f s e" "ev_sequence e \<le> f s e" for s e by (simp_all add: f_def)
  have "s \<le> foldl f s events \<and> (\<forall>e \<in> set events. ev_sequence e \<le> foldl f s events)" for s
  proof (induction events arbitrary: s)
    case Nil
    then show ?case by simp
  next
    case (Cons x xs)
    then show ?case using step order_trans by (simp, blast)
  qed
  then show "e \<in> set events \<Longrightarrow> ?thesis" by (auto simp: transactionSequence_def f_def)
qed

section \<open>Properties\<close>



text \<open>Progress never overtakes the log: after a transaction's events are observed, every frame
  forwarded for a Run they name, under the Thread and Workspace they name it in, follows a
  sequence at or above each of those events.\<close>

theorem live_registry_sequence:
  assumes "reg = observeCommitted opt now events reg0" and "e \<in> set events" and "ev_runId e = Some k"
    and "lp_runId p = k" and "lp_threadId p = ev_threadId e" and "lp_workspaceId p = ev_workspaceId e"
    and "applyProgress opt now' p reg = (reg', Some f)"
  shows "ev_sequence e \<le> lf_afterSequence f"
proof -
  obtain st where st: "jget reg k = Some st" "follows e st"
    and f: "lf_afterSequence f = lrs_afterSequence (fst (applyItems opt (lp_items p) (st\<lparr>lrs_touchedAt := now'\<rparr>)))"
    using assms(4-7) by (auto simp: applyProgress_def case_prod_unfold follows_def split: option.splits if_splits)
  have "events \<noteq> []" using assms(2) by auto
  then have "jget (foldl (observeOne opt now (transactionSequence events)) reg0 events) k = Some st"
    using st assms(1) by (simp add: observeCommitted_def)
  then have "transactionSequence events \<le> lrs_afterSequence st"
    using assms(2,3) st(2) by (rule observe_after)
  moreover have "lrs_afterSequence (fst (applyItems opt items st')) = lrs_afterSequence st'" for items st'
    by (induction items arbitrary: st') (auto simp: case_prod_unfold)
  ultimately show ?thesis
    using f transactionSequence_ge [OF assms(2)] by simp
qed

theorem live_registry_sequence_witness:
  "\<exists>f. snd (applyProgress defaultRegistryOptions 1
      \<lparr>lp_items = [Append Assistant 0 [104]], lp_runId = ''r'', lp_threadId = ''t'', lp_workspaceId = ''w''\<rparr>
      (observeCommitted defaultRegistryOptions 0
        [\<lparr>ev_runId = Some ''r'', ev_sequence = 7, ev_threadId = ''t'', ev_type = RunStarted, ev_workspaceId = ''w''\<rparr>] []))
    = Some f \<and> 7 \<le> lf_afterSequence f"
proof -
  let ?e = "\<lparr>ev_runId = Some ''r'', ev_sequence = 7, ev_threadId = ''t'', ev_type = RunStarted, ev_workspaceId = ''w''\<rparr>"
  let ?p = "\<lparr>lp_items = [Append Assistant 0 [104]], lp_runId = ''r'', lp_threadId = ''t'', lp_workspaceId = ''w''\<rparr>"
  define reg where "reg = observeCommitted defaultRegistryOptions 0 [?e] []"
  obtain reg' f where f: "applyProgress defaultRegistryOptions 1 ?p reg = (reg', Some f)"
    by (simp add: reg_def observeCommitted_def transactionSequence_def observeOne_def terminalRunEvent_def
        ensureRun_def freshRun_def updateRun_def raiseAfter_def applyProgress_def
        openStream_def writeStream_def appendLiveStreamTail_def liveStreamTextMaxLength_def
        defaultRegistryOptions_def compareSequence_def Let_def)
  have "ev_sequence ?e \<le> lf_afterSequence f"
    by (rule live_registry_sequence [OF reg_def _ _ _ _ _ f, of _ "''r''"]) simp_all
  then show ?thesis using f by (intro exI [of _ f]) (simp add: reg_def)
qed

lemma frameGroups_spec:
  assumes "characters = sum_list (map itemCharacters items)"
    and "length items \<le> liveProgressMaxItems"
    and "characters \<le> replacementFrameMaxCharacters \<or> length items \<le> 1"
  shows "concat (frameGroups rest items characters) = items @ rest \<and>
    (\<forall>g \<in> set (frameGroups rest items characters). g \<noteq> [] \<and> length g \<le> liveProgressMaxItems \<and>
       (sum_list (map itemCharacters g) \<le> replacementFrameMaxCharacters \<or> length g = 1))"
  using assms
proof (induction rest items characters rule: frameGroups.induct)
  case (1 items characters)
  then show ?case by (cases items) auto
next
  case (2 item rest items characters)
  let ?n = "itemCharacters item"
  show ?case
  proof (cases "items \<noteq> [] \<and> (length items \<ge> liveProgressMaxItems
      \<or> characters + ?n > replacementFrameMaxCharacters)")
    case True
    from "2.IH"(1) [OF refl True] have IH:
      "concat (frameGroups rest [item] ?n) = [item] @ rest \<and>
       (\<forall>g \<in> set (frameGroups rest [item] ?n). g \<noteq> [] \<and> length g \<le> liveProgressMaxItems \<and>
         (sum_list (map itemCharacters g) \<le> replacementFrameMaxCharacters \<or> length g = 1))"
      by (simp add: liveProgressMaxItems_def)
    have "length items = 1 \<or> characters \<le> replacementFrameMaxCharacters"
      using "2.prems" True by (cases items) auto
    then show ?thesis using True IH "2.prems" by (auto simp: Let_def)
  next
    case False
    then have "length (items @ [item]) \<le> liveProgressMaxItems \<and>
        (characters + ?n \<le> replacementFrameMaxCharacters \<or> length (items @ [item]) \<le> 1)"
      by (cases "items = []") (auto simp: liveProgressMaxItems_def)
    moreover have "characters + ?n = sum_list (map itemCharacters (items @ [item]))" using "2.prems"(1) by simp
    ultimately have "concat (frameGroups rest (items @ [item]) (characters + ?n)) = (items @ [item]) @ rest \<and>
       (\<forall>g \<in> set (frameGroups rest (items @ [item]) (characters + ?n)). g \<noteq> [] \<and>
         length g \<le> liveProgressMaxItems \<and>
         (sum_list (map itemCharacters g) \<le> replacementFrameMaxCharacters \<or> length g = 1))"
      using "2.IH"(2) [OF refl False] by blast
    moreover have "frameGroups (item # rest) items characters = frameGroups rest (items @ [item]) (characters + ?n)"
      unfolding frameGroups.simps Let_def using False by (rule if_not_P)
    ultimately show ?thesis by simp
  qed
qed

text \<open>A subscriber that goes live is sent every open stream of a Run exactly once, whole and in
  order; each frame carries at least one and at most 256 items, and more characters than the
  ceiling only when it carries a single item.\<close>

theorem live_replacement_frames:
  "concat (map (\<lambda>f. lp_items (lf_progress f)) (replacementFrames st)) =
     map replacementItem (jvalues (lrs_streams st)) \<and>
   (\<forall>f \<in> set (replacementFrames st).
      1 \<le> length (lp_items (lf_progress f)) \<and> length (lp_items (lf_progress f)) \<le> 256 \<and>
      (sum_list (map itemCharacters (lp_items (lf_progress f))) \<le> 448 * 1024 \<or>
        length (lp_items (lf_progress f)) = 1) \<and>
      lf_afterSequence f = lrs_afterSequence st \<and> lp_runId (lf_progress f) = lrs_runId st)"
  using frameGroups_spec [of 0 "[]" "map replacementItem (jvalues (lrs_streams st))"]
  by (auto simp: replacementFrames_def comp_def liveProgressMaxItems_def replacementFrameMaxCharacters_def
      Suc_le_eq)

theorem live_replacement_frames_witness:
  "\<exists>f. replacementFrames \<lparr>lrs_afterSequence = 4, lrs_runId = ''r'', lrs_streams =
       [(liveStreamKeyId Assistant, \<lparr>lss_key = Assistant, lss_length = 1, lss_tail = [104]\<rparr>)],
       lrs_threadId = ''t'', lrs_touchedAt = 0, lrs_workspaceId = ''w''\<rparr> = [f] \<and>
     lf_afterSequence f = 4 \<and> lp_items (lf_progress f) = [Replace Assistant 1 [104]]"
proof -
  define st where "st = \<lparr>lrs_afterSequence = 4, lrs_runId = ''r'', lrs_streams =
    [(liveStreamKeyId Assistant, \<lparr>lss_key = Assistant, lss_length = 1, lss_tail = [104 :: nat]\<rparr>)],
    lrs_threadId = ''t'', lrs_touchedAt = 0, lrs_workspaceId = ''w''\<rparr>"
  obtain f where f: "replacementFrames st = [f]"
    by (simp add: st_def replacementFrames_def)
  have "lf_afterSequence f = lrs_afterSequence st \<and> lp_items (lf_progress f) = [Replace Assistant 1 [104]]"
    using live_replacement_frames [of st] f by (simp add: st_def replacementItem_def)
  then show ?thesis using f by (simp add: st_def)
qed

end
