(* ===== verification/Live_Buffer.thy ===== *)
theory Live_Buffer
  imports Live_Registry
begin

text \<open>
  \<open>LiveProgressBuffer\<close> (apps/runner/src/runtime/live-progress.ts): one Run's streaming text
  between its harness and the Host. Each call of the class, each firing of its timer and each
  settling of a promise it awaits is one step. The promise chain \<open>#tail\<close> is the list of sends
  that have not finished; a send that is under way has stopped at one of its \<open>await\<close>s.
\<close>

record buf_stream =
  bs_key :: stream_key
  bs_pending :: utf16
  bs_length :: nat
  bs_resync :: bool
  bs_tail :: utf16

record buf_options =
  maxInFlightBytes :: nat
  maxPendingBytes :: int
  maxSentBytes :: nat

text \<open>Where \<open>#sendBatches\<close> goes on after an awaited send.\<close>

datatype resume = Push live_item "live_item list" | Finish

datatype send_job =
    Waiting "live_item list" nat
  | Sending resume nat

record live_buffer =
  bf_streams :: "(utf16, buf_stream) jsmap"
  bf_pendingBytes :: int
  bf_inFlightBytes :: nat
  bf_sentBytes :: nat
  bf_exhausted :: bool
  bf_closed :: bool
  bf_timer :: bool
  bf_jobs :: "send_job list"
  bf_enqueued :: nat
  bf_finished :: nat
  bf_reflush :: "nat list"
  bf_out :: "live_item list list"

definition liveFrameMaxBytes :: nat where
  "liveFrameMaxBytes = 512 * 1024"

definition newBuffer :: live_buffer where
  "newBuffer = \<lparr>bf_streams = [], bf_pendingBytes = 0, bf_inFlightBytes = 0, bf_sentBytes = 0,
     bf_exhausted = False, bf_closed = False, bf_timer = False, bf_jobs = [], bf_enqueued = 0,
     bf_finished = 0, bf_reflush = [], bf_out = []\<rparr>"

section \<open>Operations\<close>

definition replaceItem :: "buf_stream \<Rightarrow> live_item" where
  "replaceItem s = Replace (bs_key s) (bs_length s) (bs_tail s)"

definition itemBytes :: "live_item \<Rightarrow> nat" where
  "itemBytes item = utf8Length (stringify (itemJson item))"

definition schedule :: "live_buffer \<Rightarrow> live_buffer" where
  "schedule b = (if bf_closed b \<or> bf_timer b then b else b\<lparr>bf_timer := True\<rparr>)"

definition hasUnsent :: "live_buffer \<Rightarrow> bool" where
  "hasUnsent b \<longleftrightarrow> \<not> bf_closed b \<and> \<not> bf_exhausted b \<and>
     (\<exists>s \<in> set (jvalues (bf_streams b)). bs_resync s \<or> bs_pending s \<noteq> [])"

lemma surrogateSafeCut_bounds:
  assumes "1 < n" and "n < length rest"
  shows "0 < surrogateSafeCut rest n" and "surrogateSafeCut rest n \<le> n"
  using assms by (auto simp: surrogateSafeCut_def)

lemma liveAppendTextMaxLength_gt: "1 < liveAppendTextMaxLength"
  by (simp add: liveAppendTextMaxLength_def)

text \<open>The loop that cuts one stream's unsent text into appends; \<open>liveAppendTextMaxLength > 1\<close> ends it.\<close>

function cutPending :: "stream_key \<Rightarrow> nat \<Rightarrow> utf16 \<Rightarrow> live_item list" where
  "cutPending key offset rest =
     (if rest = [] then []
      else
        let cut = (if length rest \<le> liveAppendTextMaxLength then length rest
                   else surrogateSafeCut rest liveAppendTextMaxLength);
            text = take cut rest
        in Append key offset text # cutPending key (offset + length text) (drop (length text) rest))"
  by pat_completeness auto

termination
proof (relation "measure (\<lambda>(_, _, rest). length rest)")
  fix key offset rest cut "text"
  assume rest: "rest \<noteq> []" and cut: "cut = (if length rest \<le> liveAppendTextMaxLength then length rest
      else surrogateSafeCut rest liveAppendTextMaxLength)" and t: "text = take cut rest"
  have "0 < cut" using surrogateSafeCut_bounds [OF liveAppendTextMaxLength_gt] rest cut by (auto simp: not_le)
  then show "((key, offset + length text, drop (length text) rest), key, offset, rest)
      \<in> measure (\<lambda>(_, _, rest). length rest)" using rest t by auto
qed simp

declare cutPending.simps [simp del]

definition takeStream :: "buf_stream \<Rightarrow> live_item list" where
  "takeStream s =
     (if bs_resync s then [replaceItem s]
      else cutPending (bs_key s) (bs_length s - length (bs_pending s)) (bs_pending s))"

definition sentStream :: "buf_stream \<Rightarrow> buf_stream" where
  "sentStream s = s\<lparr>bs_resync := False, bs_pending := []\<rparr>"

definition takePending :: "live_buffer \<Rightarrow> live_buffer \<times> live_item list" where
  "takePending b =
     (b\<lparr>bf_streams := map (\<lambda>(i, s). (i, sentStream s)) (bf_streams b), bf_pendingBytes := 0\<rparr>,
      concat (map takeStream (jvalues (bf_streams b))))"

definition dropUnsent :: "(buf_stream \<Rightarrow> bool) \<Rightarrow> live_buffer \<Rightarrow> live_buffer" where
  "dropUnsent which b =
     b\<lparr>bf_streams := map (\<lambda>(i, s). (i, if which s then s\<lparr>bs_pending := [], bs_resync := True\<rparr> else s))
         (bf_streams b), bf_pendingBytes := 0\<rparr>"

definition flush :: "buf_options \<Rightarrow> live_buffer \<Rightarrow> live_buffer" where
  "flush opt b0 =
     (let b = b0\<lparr>bf_timer := False\<rparr> in
      if bf_inFlightBytes b \<ge> maxInFlightBytes opt then
        (dropUnsent (\<lambda>s. bs_pending s \<noteq> []) b)\<lparr>bf_reflush := bf_reflush b @ [bf_enqueued b]\<rparr>
      else
        (case takePending b of
           (b1, items) \<Rightarrow>
             if items = [] then b1
             else
               let bytes = sum_list (map itemBytes items) in
               b1\<lparr>bf_inFlightBytes := bf_inFlightBytes b1 + bytes,
                  bf_jobs := bf_jobs b1 @ [Waiting items bytes],
                  bf_enqueued := Suc (bf_enqueued b1)\<rparr>))"

definition bufAppend :: "buf_options \<Rightarrow> stream_key \<Rightarrow> utf16 \<Rightarrow> live_buffer \<Rightarrow> live_buffer" where
  "bufAppend opt key text b =
     (if bf_closed b \<or> text = [] then b
      else
        let i = liveStreamKeyId key;
            s = (case jget (bf_streams b) i of
                   Some s \<Rightarrow> s
                 | None \<Rightarrow> \<lparr>bs_key = key, bs_pending = [], bs_length = 0, bs_resync = False, bs_tail = []\<rparr>);
            s1 = s\<lparr>bs_length := bs_length s + length text, bs_tail := appendLiveStreamTail (bs_tail s) text\<rparr>
        in
        if bf_exhausted b then b\<lparr>bf_streams := jset i s1 (bf_streams b)\<rparr>
        else
          let b1 = (if bs_resync s then b\<lparr>bf_streams := jset i s1 (bf_streams b)\<rparr>
                    else b\<lparr>bf_streams := jset i (s1\<lparr>bs_pending := bs_pending s @ text\<rparr>) (bf_streams b),
                           bf_pendingBytes := bf_pendingBytes b + int (utf8Length text)\<rparr>)
          in if bf_pendingBytes b1 \<ge> maxPendingBytes opt then flush opt b1 else schedule b1)"

definition bufComplete :: "stream_key \<Rightarrow> live_buffer \<Rightarrow> live_buffer" where
  "bufComplete key b =
     (case jget (bf_streams b) (liveStreamKeyId key) of
        None \<Rightarrow> b
      | Some s \<Rightarrow>
          b\<lparr>bf_pendingBytes := bf_pendingBytes b - int (utf8Length (bs_pending s)),
            bf_streams := jdel (liveStreamKeyId key) (bf_streams b)\<rparr>)"

definition replacement :: "live_buffer \<Rightarrow> live_item list" where
  "replacement b = map replaceItem (jvalues (bf_streams b))"

definition resynchronize :: "buf_options \<Rightarrow> live_buffer \<Rightarrow> live_buffer" where
  "resynchronize opt b =
     (if bf_closed b \<or> bf_exhausted b then b else flush opt (dropUnsent (\<lambda>_. True) b))"

definition closeBuffer :: "live_buffer \<Rightarrow> live_buffer" where
  "closeBuffer b = b\<lparr>bf_closed := True, bf_timer := False, bf_streams := [], bf_pendingBytes := 0\<rparr>"

text \<open>\<open>#sendBatches\<close> from one \<open>await\<close> to the next: where it stops, if it has not ended.\<close>

definition sendNow :: "live_item list \<Rightarrow> live_buffer \<Rightarrow> live_buffer" where
  "sendNow batch b = b\<lparr>bf_out := bf_out b @ [batch]\<rparr>"

definition exhaust :: "live_buffer \<Rightarrow> live_buffer" where
  "exhaust b = b\<lparr>bf_exhausted := True,
     bf_streams := map (\<lambda>(i, s). (i, s\<lparr>bs_pending := []\<rparr>)) (bf_streams b), bf_pendingBytes := 0\<rparr>"

fun sendBatches :: "buf_options \<Rightarrow> live_item list \<Rightarrow> live_item list \<Rightarrow> nat \<Rightarrow> live_buffer
    \<Rightarrow> live_buffer \<times> resume option" where
  "sendBatches opt [] batch batchBytes b =
     (if batch = [] then (b, None) else (sendNow batch b, Some Finish))"
| "sendBatches opt (item # rest) batch batchBytes b =
     (if bf_exhausted b \<or> bf_closed b then (b, None)
      else
        let bytes = itemBytes item in
        if bf_sentBytes b + bytes > maxSentBytes opt then
          (if batch = [] then (exhaust b, None) else (sendNow batch (exhaust b), Some Finish))
        else if batch \<noteq> [] \<and> (length batch \<ge> liveProgressMaxItems \<or> batchBytes + bytes > liveFrameMaxBytes)
        then (sendNow batch b, Some (Push item rest))
        else sendBatches opt rest (batch @ [item]) (batchBytes + bytes)
               (b\<lparr>bf_sentBytes := bf_sentBytes b + bytes\<rparr>))"

definition resumeSend :: "buf_options \<Rightarrow> resume \<Rightarrow> live_buffer \<Rightarrow> live_buffer \<times> resume option" where
  "resumeSend opt r b =
     (case r of
        Finish \<Rightarrow> (b, None)
      | Push item rest \<Rightarrow>
          sendBatches opt rest [item] (itemBytes item)
            (b\<lparr>bf_sentBytes := bf_sentBytes b + itemBytes item\<rparr>))"

text \<open>The \<open>finally\<close> of a send, fulfilled or rejected.\<close>

definition finishJob :: "nat \<Rightarrow> live_buffer \<Rightarrow> live_buffer" where
  "finishJob bytes b =
     (let b1 = b\<lparr>bf_inFlightBytes := bf_inFlightBytes b - bytes, bf_jobs := tl (bf_jobs b),
                 bf_finished := Suc (bf_finished b)\<rparr>
      in if hasUnsent b1 then schedule b1 else b1)"

definition settle :: "nat \<Rightarrow> live_buffer \<times> resume option \<Rightarrow> live_buffer" where
  "settle bytes r =
     (case r of
        (b, None) \<Rightarrow> finishJob bytes b
      | (b, Some k) \<Rightarrow> b\<lparr>bf_jobs := Sending k bytes # tl (bf_jobs b)\<rparr>)"

section \<open>Steps\<close>

datatype buf_event =
    BAppend stream_key utf16
  | BComplete stream_key
  | BFlush
  | BResync
  | BClose
  | BTimer
  | BStart
  | BSent bool
  | BReflush

fun buf_step :: "buf_options \<Rightarrow> live_buffer \<Rightarrow> buf_event \<Rightarrow> live_buffer" where
  "buf_step opt b (BAppend key text) = bufAppend opt key text b"
| "buf_step opt b (BComplete key) = bufComplete key b"
| "buf_step opt b BFlush = flush opt b"
| "buf_step opt b BResync = resynchronize opt b"
| "buf_step opt b BClose = closeBuffer b"
| "buf_step opt b BTimer = (if bf_timer b then flush opt b else b)"
| "buf_step opt b BStart =
     (case bf_jobs b of
        Waiting items bytes # _ \<Rightarrow> settle bytes (sendBatches opt items [] 0 b)
      | _ \<Rightarrow> b)"
| "buf_step opt b (BSent ok) =
     (case bf_jobs b of
        Sending k bytes # _ \<Rightarrow> if ok then settle bytes (resumeSend opt k b) else finishJob bytes b
      | _ \<Rightarrow> b)"
| "buf_step opt b BReflush =
     (case bf_reflush b of
        n # ns \<Rightarrow> if n \<le> bf_finished b then flush opt (b\<lparr>bf_reflush := ns\<rparr>) else b
      | [] \<Rightarrow> b)"


section \<open>Nothing waits for ever\<close>

definition job_bytes :: "send_job \<Rightarrow> nat" where
  "job_bytes j = (case j of Waiting _ n \<Rightarrow> n | Sending _ n \<Rightarrow> n)"

definition resume_items :: "resume option \<Rightarrow> live_item list" where
  "resume_items r = (case r of Some (Push item rest) \<Rightarrow> item # rest | _ \<Rightarrow> [])"

definition job_items :: "send_job \<Rightarrow> live_item list" where
  "job_items j = (case j of Waiting items _ \<Rightarrow> items | Sending k _ \<Rightarrow> resume_items (Some k))"

text \<open>The frames a send may carry.\<close>

definition batch_ok :: "live_item list \<Rightarrow> bool" where
  "batch_ok batch \<longleftrightarrow> batch \<noteq> [] \<and> length batch \<le> liveProgressMaxItems \<and>
     (sum_list (map itemBytes batch) \<le> liveFrameMaxBytes \<or> length batch = 1)"

text \<open>What one run of \<open>#sendBatches\<close> between two awaits does.\<close>

lemma sendBatches_frame:
  assumes "sendBatches opt items batch n b = (b', r)"
  shows "bf_closed b' = bf_closed b \<and> bf_timer b' = bf_timer b \<and> bf_jobs b' = bf_jobs b \<and>
    bf_inFlightBytes b' = bf_inFlightBytes b \<and> bf_enqueued b' = bf_enqueued b \<and>
    bf_finished b' = bf_finished b \<and> bf_reflush b' = bf_reflush b \<and>
    (bf_streams b' = bf_streams b \<and> bf_exhausted b' = bf_exhausted b \<or>
     bf_streams b' = bf_streams (exhaust b) \<and> bf_exhausted b')"
  using assms
  by (induction opt items batch n b arbitrary: b' r rule: sendBatches.induct)
     (auto simp: sendNow_def exhaust_def Let_def split: if_splits)

lemma sendBatches_items:
  assumes "sendBatches opt items batch n b = (b', r)"
  shows "\<exists>sent. bf_out b' = bf_out b @ sent \<and>
    set (concat sent @ resume_items r) \<subseteq> set (batch @ items) \<and>
    (\<not> bf_closed b \<and> \<not> bf_exhausted b' \<longrightarrow> concat sent @ resume_items r = batch @ items)"
  using assms
proof (induction opt items batch n b arbitrary: b' r rule: sendBatches.induct)
  case (1 opt batch n b)
  then show ?case
    by (cases "batch = []") (auto simp: sendNow_def resume_items_def intro!: exI [of _ "[batch]"])
next
  case (2 opt item rest batch n b)
  let ?n = "itemBytes item"
  have same: "concat [batch] @ resume_items (Some (Push item rest)) = batch @ item # rest"
    by (simp add: resume_items_def)
  consider (stop) "bf_exhausted b \<or> bf_closed b"
    | (over) "\<not> (bf_exhausted b \<or> bf_closed b)" "bf_sentBytes b + ?n > maxSentBytes opt"
    | (full) "\<not> (bf_exhausted b \<or> bf_closed b)" "\<not> bf_sentBytes b + ?n > maxSentBytes opt"
        "batch \<noteq> [] \<and> (length batch \<ge> liveProgressMaxItems \<or> n + ?n > liveFrameMaxBytes)"
    | (push) "\<not> (bf_exhausted b \<or> bf_closed b)" "\<not> bf_sentBytes b + ?n > maxSentBytes opt"
        "\<not> (batch \<noteq> [] \<and> (length batch \<ge> liveProgressMaxItems \<or> n + ?n > liveFrameMaxBytes))"
    by blast
  then show ?case
  proof cases
    case stop
    then show ?thesis using "2.prems" by (auto simp: resume_items_def intro!: exI [of _ "[]"])
  next
    case over
    then show ?thesis using "2.prems"
      by (cases "batch = []")
        (auto simp: Let_def sendNow_def exhaust_def resume_items_def intro: exI [of _ "[batch]"] exI [of _ "[]"])
  next
    case full
    then have "(b', r) = (sendNow batch b, Some (Push item rest))"
      using "2.prems" by (simp only: sendBatches.simps Let_def if_False if_True not_False_eq_True simp_thms)
    then show ?thesis using same by (intro exI [of _ "[batch]"]) (auto simp: sendNow_def resume_items_def)
  next
    case push
    then have "sendBatches opt rest (batch @ [item]) (n + ?n) (b\<lparr>bf_sentBytes := bf_sentBytes b + ?n\<rparr>) = (b', r)"
      using "2.prems" by (simp only: sendBatches.simps Let_def if_False not_False_eq_True)
    from "2.IH" [OF push(1) refl push(2,3) this] show ?thesis by simp
  qed
qed

definition buf_wf :: "buf_options \<Rightarrow> live_buffer \<Rightarrow> bool" where
  [inv_defs]: "buf_wf opt b \<longleftrightarrow>
     bf_inFlightBytes b = sum_list (map job_bytes (bf_jobs b)) \<and>
     bf_enqueued b = bf_finished b + length (bf_jobs b) \<and>
     (\<forall>n \<in> set (bf_reflush b). n \<le> bf_enqueued b) \<and>
     (bf_closed b \<longrightarrow> bf_streams b = []) \<and>
     (hasUnsent b \<longrightarrow> bf_timer b \<or> bf_jobs b \<noteq> [])"

lemma buf_wf_new: "buf_wf opt newBuffer"
  by (simp add: buf_wf_def newBuffer_def hasUnsent_def)

text \<open>All but the last clause.\<close>

definition buf_jobs_wf :: "live_buffer \<Rightarrow> bool" where
  "buf_jobs_wf b \<longleftrightarrow>
     bf_inFlightBytes b = sum_list (map job_bytes (bf_jobs b)) \<and>
     bf_enqueued b = bf_finished b + length (bf_jobs b) \<and>
     (\<forall>n \<in> set (bf_reflush b). n \<le> bf_enqueued b) \<and>
     (bf_closed b \<longrightarrow> bf_streams b = [])"

lemma buf_wf_alt: "buf_wf opt b \<longleftrightarrow> buf_jobs_wf b \<and> (hasUnsent b \<longrightarrow> bf_timer b \<or> bf_jobs b \<noteq> [])"
  by (auto simp: buf_wf_def buf_jobs_wf_def)

lemma flush_wf:
  assumes "0 < maxInFlightBytes opt" and "buf_jobs_wf b"
  shows "buf_wf opt (flush opt b)"
proof (cases "bf_inFlightBytes b \<ge> maxInFlightBytes opt")
  case True
  then have "bf_jobs b \<noteq> []" using assms by (auto simp: buf_jobs_wf_def)
  then show ?thesis using True assms(2)
    by (auto simp: flush_def dropUnsent_def buf_wf_alt buf_jobs_wf_def)
next
  case False
  then show ?thesis using assms(2)
    by (auto simp: flush_def takePending_def Let_def buf_wf_alt buf_jobs_wf_def hasUnsent_def sentStream_def job_bytes_def)
qed

lemma schedule_wf: "buf_jobs_wf b \<Longrightarrow> buf_wf opt (schedule b)"
  by (auto simp: schedule_def buf_wf_alt buf_jobs_wf_def hasUnsent_def)

lemma append_wf:
  assumes "0 < maxInFlightBytes opt" and "buf_wf opt b"
  shows "buf_wf opt (bufAppend opt key text b)"
proof (cases "bf_closed b \<or> text = []")
  case True
  then show ?thesis using assms(2) by (simp add: bufAppend_def)
next
  case False
  have jobs: "buf_jobs_wf (b\<lparr>bf_streams := m\<rparr>)" "buf_jobs_wf (b\<lparr>bf_streams := m, bf_pendingBytes := n\<rparr>)" for m n
    using assms(2) False by (auto simp: buf_wf_alt buf_jobs_wf_def)
  have "bf_exhausted b \<Longrightarrow> buf_wf opt (b\<lparr>bf_streams := m\<rparr>)" for m
    using jobs(1) by (simp add: buf_wf_alt hasUnsent_def)
  then show ?thesis
    using False flush_wf [OF assms(1) jobs(1)] flush_wf [OF assms(1) jobs(2)]
      schedule_wf [OF jobs(1), of opt] schedule_wf [OF jobs(2), of opt]
    by (simp add: bufAppend_def Let_def)
qed

lemma job_items_cases: "j = Waiting items n \<or> (\<exists>k. j = Sending k n) \<Longrightarrow> job_bytes j = n"
  by (auto simp: job_bytes_def)

lemma finish_wf:
  assumes "buf_jobs_wf b" and "bf_jobs b = j # js"
  shows "buf_wf opt (finishJob (job_bytes j) b)"
proof -
  define b1 where "b1 = b\<lparr>bf_inFlightBytes := bf_inFlightBytes b - job_bytes j, bf_jobs := js,
    bf_finished := Suc (bf_finished b)\<rparr>"
  have "buf_jobs_wf b1" using assms by (auto simp: b1_def buf_jobs_wf_def)
  then have "buf_wf opt (schedule b1)" "\<not> hasUnsent b1 \<Longrightarrow> buf_wf opt b1"
    by (rule schedule_wf) (simp add: buf_wf_alt \<open>buf_jobs_wf b1\<close>)
  then show ?thesis using assms(2) by (simp add: finishJob_def Let_def b1_def [symmetric])
qed

lemma settle_wf:
  assumes "sendBatches opt items batch n start = r" and "bf_jobs b = j # js" and "buf_jobs_wf b"
    and "start = b \<or> start = b\<lparr>bf_sentBytes := m\<rparr>"
  shows "buf_wf opt (settle (job_bytes j) r)"
proof -
  obtain b' k where r: "r = (b', k)" by (cases r)
  have f: "bf_closed b' = bf_closed b \<and> bf_timer b' = bf_timer b \<and> bf_jobs b' = bf_jobs b \<and>
    bf_inFlightBytes b' = bf_inFlightBytes b \<and> bf_enqueued b' = bf_enqueued b \<and>
    bf_finished b' = bf_finished b \<and> bf_reflush b' = bf_reflush b \<and> (bf_streams b = [] \<longrightarrow> bf_streams b' = [])"
    using sendBatches_frame [of opt items batch n start b' k] assms(1,4) r by (auto simp: exhaust_def)
  then have wf: "buf_jobs_wf b'" "bf_jobs b' = j # js" using assms(2,3) by (auto simp: buf_jobs_wf_def)
  show ?thesis
  proof (cases k)
    case None
    then show ?thesis using finish_wf [OF wf] r by (simp add: settle_def)
  next
    case (Some c)
    then show ?thesis using wf r by (auto simp: settle_def buf_wf_alt buf_jobs_wf_def job_bytes_def [of "Sending _ _"])
  qed
qed

lemma buf_step_wf:
  assumes "0 < maxInFlightBytes opt" and "buf_wf opt b"
  shows "buf_wf opt (buf_step opt b e)"
proof -
  have jw: "buf_jobs_wf b" using assms(2) by (simp add: buf_wf_alt)
  have drop: "buf_jobs_wf (dropUnsent P b)" for P using jw by (auto simp: dropUnsent_def buf_jobs_wf_def)
  show ?thesis
  proof (cases e)
    case (BAppend key x)
    then show ?thesis using append_wf [OF assms] by simp
  next
    case (BComplete key)
    have "set (jvalues (jdel i m)) \<subseteq> set (jvalues m)" for i and m :: "(utf16, buf_stream) jsmap"
      by (auto simp: AList.delete_eq)
    then show ?thesis using BComplete assms(2)
      by (fastforce simp: bufComplete_def buf_wf_def hasUnsent_def AList.delete_eq split: option.split)
  next
    case BFlush
    then show ?thesis using flush_wf [OF assms(1) jw] by simp
  next
    case BResync
    then show ?thesis using flush_wf [OF assms(1) drop] assms(2) by (simp add: resynchronize_def)
  next
    case BClose
    then show ?thesis using jw by (auto simp: closeBuffer_def buf_wf_alt buf_jobs_wf_def hasUnsent_def)
  next
    case BTimer
    then show ?thesis using flush_wf [OF assms(1) jw] assms(2) by simp
  next
    case BStart
    show ?thesis
    proof (cases "\<exists>items n js. bf_jobs b = Waiting items n # js")
      case True
      then obtain items n js where j: "bf_jobs b = Waiting items n # js" by blast
      then show ?thesis using settle_wf [where opt = opt and items = items and batch = "[]" and n = 0 and start = b, OF refl j jw] BStart by (simp add: job_bytes_def)
    next
      case False
      then have "buf_step opt b e = b" using BStart by (auto split: list.split send_job.split)
      then show ?thesis using assms(2) by simp
    qed
  next
    case (BSent ok)
    show ?thesis
    proof (cases "\<exists>k n js. bf_jobs b = Sending k n # js")
      case True
      then obtain k n js where j: "bf_jobs b = Sending k n # js" by blast
      have fin: "buf_wf opt (finishJob n b)" using finish_wf [OF jw j, of opt] by (simp add: job_bytes_def)
      show ?thesis
      proof (cases k)
        case Finish
        then show ?thesis using fin j BSent by (simp add: resumeSend_def settle_def)
      next
        case (Push item rest)
        define sb where "sb = b\<lparr>bf_sentBytes := bf_sentBytes b + itemBytes item\<rparr>"
        have "sb = b \<or> sb = b\<lparr>bf_sentBytes := bf_sentBytes b + itemBytes item\<rparr>" by (simp add: sb_def)
        from settle_wf [where opt = opt and items = rest and batch = "[item]" and n = "itemBytes item", OF refl j jw this]
        show ?thesis using fin j BSent Push by (simp add: resumeSend_def job_bytes_def sb_def)
      qed
    next
      case False
      then have "buf_step opt b e = b" using BSent by (auto split: list.split send_job.split)
      then show ?thesis using assms(2) by simp
    qed
  next
    case BReflush
    have "buf_jobs_wf (b\<lparr>bf_reflush := ns\<rparr>)" if "bf_reflush b = n # ns" for n ns
      using jw that by (auto simp: buf_jobs_wf_def)
    then show ?thesis using BReflush assms flush_wf [OF assms(1)] by (auto split: list.split)
  qed
qed



interpretation bw: guarded_system "buf_step opt" "\<lambda>_. 0 < maxInFlightBytes opt" "buf_wf opt" for opt
  by unfold_locales (rule buf_step_wf)

section \<open>What was sent is true\<close>

text \<open>
  \<open>texts i es\<close>: the texts stream \<open>i\<close> has had, one for each time a durable event completed it,
  the current one last.
\<close>

fun text_step :: "utf16 \<Rightarrow> utf16 list \<Rightarrow> buf_event \<Rightarrow> utf16 list" where
  "text_step i ts (BAppend key x) = (if liveStreamKeyId key = i then butlast ts @ [last ts @ x] else ts)"
| "text_step i ts (BComplete key) = (if liveStreamKeyId key = i then ts @ [[]] else ts)"
| "text_step i ts _ = ts"

definition texts :: "buf_event list \<Rightarrow> utf16 \<Rightarrow> utf16 list" where
  "texts es i = foldl (text_step i) [[]] es"

definition item_true :: "(utf16 \<Rightarrow> utf16 list) \<Rightarrow> live_item \<Rightarrow> bool" where
  "item_true G item \<longleftrightarrow> (\<exists>t \<in> set (G (liveStreamKeyId (item_key item))). honest (\<lambda>_. t) item)"

definition all_paired :: "(utf16 \<Rightarrow> utf16 list) \<Rightarrow> bool" where
  "all_paired G \<longleftrightarrow> (\<forall>i. \<forall>t \<in> set (G i). wellPaired t)"

lemma text_step_not_Nil: "ts \<noteq> [] \<Longrightarrow> text_step i ts e \<noteq> []"
  by (cases e) auto

lemma text_step_grows:
  assumes "t \<in> set ts"
  shows "\<exists>x. t @ x \<in> set (text_step i ts e)"
proof (cases e)
  case (BAppend key x)
  from assms have "ts = butlast ts @ [last ts]" by (cases ts) auto
  then have "t \<in> set (butlast ts) \<or> t = last ts"
    using assms by (metis Un_iff list.set(1) list.simps(15) set_append singletonD)
  then show ?thesis using BAppend assms by (auto intro: exI [of _ "[]"])
qed (use assms in \<open>auto intro: exI [of _ "[]"]\<close>)

lemma honest_mono: "honest (\<lambda>_. t) item \<Longrightarrow> honest (\<lambda>_. t @ x) item"
  by (cases item) auto

lemma item_true_step: "item_true G item \<Longrightarrow> item_true (\<lambda>i. text_step i (G i) e) item"
  unfolding item_true_def using text_step_grows honest_mono by meson

lemma all_paired_step: "all_paired (\<lambda>i. text_step i (G i) e) \<Longrightarrow> all_paired G"
  unfolding all_paired_def using text_step_grows wellPaired_prefix by meson

definition line :: "live_buffer \<Rightarrow> live_item list" where
  "line b = concat (bf_out b) @ concat (map job_items (bf_jobs b))"

text \<open>One open stream over its current text.\<close>

definition stream_true :: "utf16 \<Rightarrow> buf_stream \<Rightarrow> bool" where
  "stream_true t s \<longleftrightarrow> bs_length s = length t \<and> bs_tail s = tailOf t \<and>
     (\<not> bs_resync s \<longrightarrow> length (bs_pending s) \<le> length t \<and>
        drop (length t - length (bs_pending s)) t = bs_pending s)"

definition streams_true :: "(utf16 \<Rightarrow> utf16 list) \<Rightarrow> (utf16, buf_stream) jsmap \<Rightarrow> bool" where
  "streams_true G m \<longleftrightarrow> jwf m \<and> (\<forall>(i, s) \<in> set m. i = liveStreamKeyId (bs_key s) \<and> stream_true (last (G i)) s)"

definition exhausted_empty :: "live_buffer \<Rightarrow> bool" where
  "exhausted_empty b \<longleftrightarrow> (bf_exhausted b \<longrightarrow> (\<forall>s \<in> set (jvalues (bf_streams b)). bs_pending s = []))"

definition buf_true :: "(utf16 \<Rightarrow> utf16 list) \<Rightarrow> live_buffer \<Rightarrow> bool" where
  [inv_defs]: "buf_true G b \<longleftrightarrow> (\<forall>i. G i \<noteq> []) \<and> streams_true G (bf_streams b) \<and>
     (if bf_closed b then bf_streams b = []
      else \<forall>i. jget (bf_streams b) i = None \<longrightarrow> last (G i) = []) \<and> exhausted_empty b \<and>
     (\<forall>item \<in> set (line b). item_true G item)"

lemma streams_map:
  assumes "streams_true G m" and "\<And>s. bs_key (f s) = bs_key s"
    and "\<And>t s. stream_true t s \<Longrightarrow> stream_true t (f s)"
  shows "streams_true G (map (\<lambda>(i, s). (i, f s)) m)"
  using assms by (auto simp: streams_true_def jwf_def case_prod_unfold comp_def)

lemma jget_map [simp]: "jget (map (\<lambda>(i, s). (i, f s)) m) i = map_option f (jget m i)"
  by (induction m) auto

lemma stream_true_clear:
  "stream_true t s \<Longrightarrow> stream_true t (s\<lparr>bs_pending := []\<rparr>)"
  "stream_true t s \<Longrightarrow> stream_true t (s\<lparr>bs_pending := [], bs_resync := True\<rparr>)"
  "stream_true t s \<Longrightarrow> stream_true t (sentStream s)"
  by (auto simp: stream_true_def sentStream_def)

subsection \<open>Cutting unsent text\<close>

lemma cutPending_true:
  assumes "drop offset t = rest" and "offset + length rest = length t"
  shows "\<forall>item \<in> set (cutPending key offset rest). item_key item = key \<and> honest (\<lambda>_. t) item"
  using assms
proof (induction key offset rest rule: cutPending.induct)
  case (1 key offset rest)
  show ?case
  proof (cases "rest = []")
    case True
    then show ?thesis by (simp add: cutPending.simps)
  next
    case False
    define cut where "cut = (if length rest \<le> liveAppendTextMaxLength then length rest
        else surrogateSafeCut rest liveAppendTextMaxLength)"
    define x where "x = take cut rest"
    have "take (length x) rest = x" by (simp add: x_def min_def)
    then have x: "x = take (length x) (drop offset t)" "offset + length x \<le> length t"
      using "1.prems" by (auto simp: x_def)
    have "drop (offset + length x) t = drop (length x) rest"
      using "1.prems"(1) by (metis add.commute drop_drop)
    moreover have "offset + length x + length (drop (length x) rest) = length t"
      using "1.prems"(2) by (simp add: x_def)
    ultimately have "\<forall>item \<in> set (cutPending key (offset + length x) (drop (length x) rest)).
        item_key item = key \<and> honest (\<lambda>_. t) item"
      by (rule "1.IH" [OF False cut_def x_def])
    moreover have "cutPending key offset rest = Append key offset x # cutPending key (offset + length x) (drop (length x) rest)"
      using False by (subst cutPending.simps) (simp add: Let_def cut_def x_def)
    ultimately show ?thesis using x by simp
  qed
qed

lemma takeStream_true:
  assumes "stream_true t s"
  shows "\<forall>item \<in> set (takeStream s). item_key item = bs_key s \<and> honest (\<lambda>_. t) item"
proof (cases "bs_resync s")
  case True
  then show ?thesis using assms by (simp add: takeStream_def replaceItem_def stream_true_def)
next
  case False
  then show ?thesis
    using assms cutPending_true [of "length t - length (bs_pending s)" t "bs_pending s" "bs_key s"]
    by (simp add: takeStream_def stream_true_def)
qed

lemma sentStream_key [simp]: "bs_key (sentStream s) = bs_key s"
  by (simp add: sentStream_def)

lemma takePending_true:
  assumes "streams_true G (bf_streams b)" and "\<forall>i. G i \<noteq> []"
  shows "\<forall>item \<in> set (snd (takePending b)). item_true G item"
proof
  fix item
  assume "item \<in> set (snd (takePending b))"
  then obtain i s where s: "(i, s) \<in> set (bf_streams b)" "item \<in> set (takeStream s)"
    by (auto simp: takePending_def)
  then have "i = liveStreamKeyId (bs_key s)" "stream_true (last (G i)) s"
    using assms(1) by (auto simp: streams_true_def)
  then show "item_true G item"
    using takeStream_true s(2) assms(2) unfolding item_true_def by (metis last_in_set)
qed

lemma flush_true:
  assumes "buf_true G b"
  shows "buf_true G (flush opt b)"
proof (cases "bf_inFlightBytes b \<ge> maxInFlightBytes opt")
  case True
  let ?f = "\<lambda>s. if bs_pending s \<noteq> [] then s\<lparr>bs_pending := [], bs_resync := True\<rparr> else s"
  have "streams_true G (map (\<lambda>(i, s). (i, ?f s)) (bf_streams b))"
    using assms by (intro streams_map) (auto simp: buf_true_def stream_true_clear)
  then show ?thesis
    using True assms by (auto simp: flush_def buf_true_def dropUnsent_def line_def exhausted_empty_def)
next
  case False
  have m: "streams_true G (map (\<lambda>(i, s). (i, sentStream s)) (bf_streams b))"
    using assms by (intro streams_map) (auto simp: buf_true_def stream_true_clear)
  have items: "\<forall>item \<in> set (snd (takePending (b\<lparr>bf_timer := False\<rparr>))). item_true G item"
    using assms by (intro takePending_true) (auto simp: buf_true_def)
  show ?thesis
  proof (cases "snd (takePending (b\<lparr>bf_timer := False\<rparr>)) = []")
    case True
    then show ?thesis using False m assms
      by (auto simp: flush_def Let_def takePending_def buf_true_def line_def exhausted_empty_def sentStream_def)
  next
    case nz: False
    then show ?thesis using False m items assms
      by (auto simp: flush_def Let_def takePending_def buf_true_def line_def job_items_def exhausted_empty_def sentStream_def)
  qed
qed


subsection \<open>Every step\<close>

lemma text_step_other: "liveStreamKeyId key \<noteq> i \<Longrightarrow> text_step i ts (BAppend key x) = ts"
  by simp

lemma last_appended:
  "ts \<noteq> [] \<Longrightarrow> last (text_step i ts (BAppend key x)) = (if liveStreamKeyId key = i then last ts @ x else last ts)"
  by simp

lemma appended_Nil: "ts \<noteq> [] \<Longrightarrow> text_step i ts (BAppend key []) = ts"
  by simp

lemma completed_last:
  "last (text_step i ts (BComplete key)) = (if liveStreamKeyId key = i then [] else last ts)"
  by simp

declare text_step.simps [simp del]

lemma buf_true_put:
  assumes "buf_true G b" and "\<not> bf_closed b" and "\<forall>i. G i \<noteq> []" and "i = liveStreamKeyId key"
    and "streams_true (\<lambda>i. text_step i (G i) (BAppend key x)) (jset i s (bf_streams b))"
    and "bf_exhausted b \<longrightarrow> bs_pending s = []"
  shows "buf_true (\<lambda>i. text_step i (G i) (BAppend key x)) (b\<lparr>bf_streams := jset i s (bf_streams b)\<rparr>)"
    and "buf_true (\<lambda>i. text_step i (G i) (BAppend key x))
      (b\<lparr>bf_streams := jset i s (bf_streams b), bf_pendingBytes := n\<rparr>)"
proof -
  let ?b = "b\<lparr>bf_streams := jset i s (bf_streams b)\<rparr>"
  have sub: "set (jset i s m) \<subseteq> insert (i, s) (set m)" for m :: "(utf16, buf_stream) jsmap"
    by (induction m) auto
  have "exhausted_empty ?b"
    using assms(1,6) sub [of "bf_streams b"] by (fastforce simp: exhausted_empty_def buf_true_def)
  moreover have "\<forall>item \<in> set (line ?b). item_true (\<lambda>i. text_step i (G i) (BAppend key x)) item"
    using assms(1) item_true_step [where e = "BAppend key x"] by (auto simp: buf_true_def line_def)
  moreover have "\<forall>j. jget (jset i s (bf_streams b)) j = None \<longrightarrow> last (text_step j (G j) (BAppend key x)) = []"
    using assms(1,2,4) by (auto simp: buf_true_def jget_set last_appended)
  ultimately show "buf_true (\<lambda>i. text_step i (G i) (BAppend key x)) ?b"
    using assms(2,3,5) by (auto simp: buf_true_def text_step_not_Nil)
  then show "buf_true (\<lambda>i. text_step i (G i) (BAppend key x))
      (b\<lparr>bf_streams := jset i s (bf_streams b), bf_pendingBytes := n\<rparr>)"
    using assms(2) by (simp add: buf_true_def line_def exhausted_empty_def)
qed

lemma stream_true_append:
  assumes "stream_true t s" and "wellPaired (t @ x)"
  shows "stream_true (t @ x) (s\<lparr>bs_length := bs_length s + length x, bs_tail := appendLiveStreamTail (bs_tail s) x,
           bs_pending := bs_pending s @ x\<rparr>)"
    and "bs_resync s \<Longrightarrow> stream_true (t @ x) (s\<lparr>bs_length := bs_length s + length x,
           bs_tail := appendLiveStreamTail (bs_tail s) x\<rparr>)"
    and "stream_true (t @ x) (s\<lparr>bs_length := bs_length s + length x,
           bs_tail := appendLiveStreamTail (bs_tail s) x, bs_pending := []\<rparr>)"
  using assms lw.app_win [OF assms(2)] by (auto simp: stream_true_def)

lemma streams_true_set:
  assumes "\<forall>i. G i \<noteq> []" and "streams_true G m" and "i = liveStreamKeyId key" and "bs_key s = key"
    and "stream_true (last (G i) @ x) s"
  shows "streams_true (\<lambda>i. text_step i (G i) (BAppend key x)) (jset i s m)"
proof -
  let ?G = "\<lambda>i. text_step i (G i) (BAppend key x)"
  have j: "jwf (jset i s m)" using assms(2) by (simp add: streams_true_def)
  have "j = liveStreamKeyId (bs_key r) \<and> stream_true (last (?G j)) r" if "jget (jset i s m) j = Some r" for j r
  proof (cases "j = i")
    case True
    then show ?thesis using that assms by (simp add: jget_set last_appended)
  next
    case False
    then have "(j, r) \<in> set m" using that assms(2) by (auto simp: jget_set dest: map_of_SomeD)
    then show ?thesis using False assms(1-3) by (auto simp: streams_true_def last_appended)
  qed
  then show ?thesis using j jget_mem [OF j] unfolding streams_true_def by blast
qed

lemma line_schedule [simp]: "line (schedule b) = line b" "bf_streams (schedule b) = bf_streams b"
  "bf_closed (schedule b) = bf_closed b" "exhausted_empty (schedule b) = exhausted_empty b"
  by (simp_all add: schedule_def line_def exhausted_empty_def)

lemma schedule_true: "buf_true G b \<Longrightarrow> buf_true G (schedule b)"
  by (simp add: buf_true_def)
lemma append_true:
  assumes "buf_true G b" and "wellPaired (last (G (liveStreamKeyId key)) @ x)"
  shows "buf_true (\<lambda>i. text_step i (G i) (BAppend key x)) (bufAppend opt key x b)"
proof -
  let ?G = "\<lambda>i. text_step i (G i) (BAppend key x)"
  let ?i = "liveStreamKeyId key"
  have ne: "\<forall>i. G i \<noteq> []" using assms(1) by (simp add: buf_true_def)
  consider "bf_closed b" | "x = []" "\<not> bf_closed b" | "\<not> bf_closed b" "x \<noteq> []" by blast
  then show ?thesis
  proof cases
    case 1
    then show ?thesis
      using assms(1) item_true_step [where e = "BAppend key x"]
      by (auto simp: bufAppend_def buf_true_def streams_true_def exhausted_empty_def text_step_not_Nil)
  next
    case 2
    then have "?G i = G i" for i using ne by (simp add: appended_Nil)
    then show ?thesis using assms(1) 2 by (simp add: bufAppend_def)
  next
    case 3
    define s where "s = (case jget (bf_streams b) ?i of Some s \<Rightarrow> s
      | None \<Rightarrow> \<lparr>bs_key = key, bs_pending = [], bs_length = 0, bs_resync = False, bs_tail = []\<rparr>)"
    define s1 where "s1 = s\<lparr>bs_length := bs_length s + length x, bs_tail := appendLiveStreamTail (bs_tail s) x\<rparr>"
    have st: "streams_true G (bf_streams b)" using assms(1) by (simp add: buf_true_def)
    have s: "stream_true (last (G ?i)) s \<and> bs_key s = key \<and> (bf_exhausted b \<longrightarrow> bs_pending s = [])"
    proof (cases "jget (bf_streams b) ?i")
      case None
      then have "last (G ?i) = []" using assms(1) 3 by (simp add: buf_true_def)
      then show ?thesis using None by (simp add: s_def stream_true_def)
    next
      case (Some r)
      then have "(?i, r) \<in> set (bf_streams b)" by (rule map_of_SomeD)
      then show ?thesis using st Some assms(1)
        by (force simp: s_def streams_true_def liveStreamKeyId_inj buf_true_def exhausted_empty_def)
    qed
    note app = stream_true_append [OF conjunct1 [OF s] assms(2)]
    note put = streams_true_set [OF ne st refl, where key = key and x = x]
    show ?thesis
    proof (cases "bf_exhausted b")
      case True
      then have "s1 = s\<lparr>bs_length := bs_length s + length x, bs_tail := appendLiveStreamTail (bs_tail s) x,
          bs_pending := []\<rparr>" using s by (simp add: s1_def)
      then have "stream_true (last (G ?i) @ x) s1" "bs_key s1 = key" "bs_pending s1 = []" using app(3) s by simp_all
      then have "buf_true ?G (b\<lparr>bf_streams := jset ?i s1 (bf_streams b)\<rparr>)"
        using put by (intro buf_true_put [OF assms(1) 3(1) ne refl]) auto
      then show ?thesis using 3 True by (simp add: bufAppend_def Let_def s_def s1_def)
    next
      case False
      define b1 where "b1 = (if bs_resync s then b\<lparr>bf_streams := jset ?i s1 (bf_streams b)\<rparr>
        else b\<lparr>bf_streams := jset ?i (s1\<lparr>bs_pending := bs_pending s @ x\<rparr>) (bf_streams b),
               bf_pendingBytes := bf_pendingBytes b + int (utf8Length x)\<rparr>)"
      have "buf_true ?G b1"
      proof (cases "bs_resync s")
        case True
        then have "stream_true (last (G ?i) @ x) s1" "bs_key s1 = key" using app(2) s by (simp_all add: s1_def)
        then have "buf_true ?G (b\<lparr>bf_streams := jset ?i s1 (bf_streams b)\<rparr>)"
          using put False by (intro buf_true_put [OF assms(1) 3(1) ne refl]) auto
        then show ?thesis using True by (simp add: b1_def)
      next
        case nr: False
        have "stream_true (last (G ?i) @ x) (s1\<lparr>bs_pending := bs_pending s @ x\<rparr>)"
          "bs_key (s1\<lparr>bs_pending := bs_pending s @ x\<rparr>) = key" using app(1) s by (simp_all add: s1_def)
        then have "buf_true ?G (b\<lparr>bf_streams := jset ?i (s1\<lparr>bs_pending := bs_pending s @ x\<rparr>) (bf_streams b),
               bf_pendingBytes := bf_pendingBytes b + int (utf8Length x)\<rparr>)"
          using put False by (intro buf_true_put [OF assms(1) 3(1) ne refl]) auto
        then show ?thesis using nr by (simp add: b1_def)
      qed
      moreover have "bufAppend opt key x b = (if bf_pendingBytes b1 \<ge> maxPendingBytes opt then flush opt b1 else schedule b1)"
        using 3 False by (simp add: bufAppend_def Let_def b1_def s1_def s_def)
      ultimately show ?thesis by (simp add: flush_true schedule_true)
    qed
  qed
qed

lemma complete_true:
  assumes "buf_true G b"
  shows "buf_true (\<lambda>i. text_step i (G i) (BComplete key)) (bufComplete key b)"
proof -
  let ?G = "\<lambda>i. text_step i (G i) (BComplete key)"
  let ?i = "liveStreamKeyId key"
  define b1 where "b1 = b\<lparr>bf_streams := jdel ?i (bf_streams b)\<rparr>"
  have "jwf (bf_streams b)" using assms by (simp add: buf_true_def streams_true_def)
  then have "jdel ?i (bf_streams b) = bf_streams b" if "jget (bf_streams b) ?i = None"
    using that by (intro jdel_fresh) (simp add: map_of_eq_None_iff)
  then have none: "bufComplete key b = b1" if "jget (bf_streams b) ?i = None"
    using that by (simp add: bufComplete_def b1_def)
  have some: "bufComplete key b = b1\<lparr>bf_pendingBytes := bf_pendingBytes b - int (utf8Length (bs_pending s))\<rparr>"
    if "jget (bf_streams b) ?i = Some s" for s
    using that by (simp add: bufComplete_def b1_def)
  have "streams_true ?G (jdel ?i (bf_streams b))"
    using assms by (auto simp: buf_true_def streams_true_def AList.delete_eq completed_last)
  moreover have "\<forall>item \<in> set (line b). item_true ?G item"
    using assms item_true_step [where e = "BComplete key"] by (auto simp: buf_true_def)
  moreover have "exhausted_empty b1"
    using assms by (auto simp: buf_true_def b1_def exhausted_empty_def AList.delete_eq)
  ultimately have "buf_true ?G b1"
    using assms
    by (auto simp: buf_true_def b1_def line_def text_step_not_Nil jget_del completed_last)
  moreover have "buf_true ?G (b1\<lparr>bf_pendingBytes := n\<rparr>) = buf_true ?G b1" for n
    by (simp add: buf_true_def line_def exhausted_empty_def)
  ultimately show ?thesis using none some by (cases "jget (bf_streams b) ?i") auto
qed

lemma text_step_silent:
  "e = BFlush \<or> e = BResync \<or> e = BClose \<or> e = BTimer \<or> e = BStart \<or> e = BSent ok \<or> e = BReflush
    \<Longrightarrow> text_step i ts e = ts"
  by (auto simp: text_step.simps)

lemma dropUnsent_true: "buf_true G b \<Longrightarrow> buf_true G (dropUnsent P b)"
  using streams_map [of G "bf_streams b" "\<lambda>s. if P s then s\<lparr>bs_pending := [], bs_resync := True\<rparr> else s"]
  by (auto simp: buf_true_def dropUnsent_def line_def exhausted_empty_def stream_true_clear)

lemma exhaust_true: "buf_true G b \<Longrightarrow> buf_true G (exhaust b)"
  using streams_map [of G "bf_streams b" "\<lambda>s. s\<lparr>bs_pending := []\<rparr>"]
  by (auto simp: buf_true_def exhaust_def line_def exhausted_empty_def stream_true_clear)

lemma finish_true: "buf_true G b \<Longrightarrow> buf_true G (finishJob n b)"
proof -
  assume b: "buf_true G b"
  define b1 where "b1 = b\<lparr>bf_inFlightBytes := bf_inFlightBytes b - n, bf_jobs := tl (bf_jobs b),
    bf_finished := Suc (bf_finished b)\<rparr>"
  have "set (line b1) \<subseteq> set (line b)" by (cases "bf_jobs b") (auto simp: line_def b1_def)
  then have "buf_true G b1" using b by (auto simp: buf_true_def exhausted_empty_def b1_def)
  then show "buf_true G (finishJob n b)"
    using schedule_true by (simp add: finishJob_def Let_def b1_def [symmetric])
qed

lemma settle_true:
  assumes "sendBatches opt items batch n start = r" and "bf_jobs b = j # js" and "buf_true G b"
    and "start = b\<lparr>bf_sentBytes := m\<rparr>" and "set (batch @ items) \<subseteq> set (job_items j)"
  shows "buf_true G (settle k r)"
proof -
  obtain b' c where r: "r = (b', c)" by (cases r)
  obtain sent where out: "bf_out b' = bf_out b @ sent" and sub: "set (concat sent @ resume_items c) \<subseteq> set (job_items j)"
  proof -
    have "sendBatches opt items batch n start = (b', c)" using assms(1) r by simp
    from sendBatches_items [OF this] obtain sent where sent: "bf_out b' = bf_out start @ sent"
      "set (concat sent @ resume_items c) \<subseteq> set (batch @ items)" by blast
    show ?thesis by (rule that [OF _ subset_trans [OF sent(2) assms(5)]]) (simp add: sent(1) assms(4))
  qed
  have f: "bf_jobs b' = j # js" "bf_closed b' = bf_closed b"
    "(bf_streams b' = bf_streams b \<and> bf_exhausted b' = bf_exhausted b \<or>
      bf_streams b' = bf_streams (exhaust b) \<and> bf_exhausted b')"
    using sendBatches_frame [of opt items batch n start b' c] assms(1,2,4) r by (auto simp: exhaust_def)
  have true: "\<forall>item \<in> set (line b). item_true G item" using assms(3) by (simp add: buf_true_def)
  then have "\<forall>item \<in> set (job_items j). item_true G item" using assms(2) by (simp add: line_def)
  then have new: "\<forall>item \<in> set (concat sent @ resume_items c). item_true G item" using sub by blast
  have "buf_true G (b'\<lparr>bf_jobs := Waiting (resume_items c) k # js\<rparr>)"
    using f(3)
  proof
    assume "bf_streams b' = bf_streams b \<and> bf_exhausted b' = bf_exhausted b"
    then show ?thesis using assms(2,3) f(1,2) out new true
      by (auto simp: buf_true_def line_def exhausted_empty_def job_items_def [of "Waiting _ _"])
  next
    assume "bf_streams b' = bf_streams (exhaust b) \<and> bf_exhausted b'"
    then show ?thesis using assms(2) exhaust_true [OF assms(3)] f(1,2) out new true
      by (auto simp: buf_true_def line_def exhausted_empty_def job_items_def [of "Waiting _ _"] exhaust_def)
  qed
  then have t: "buf_true G (b'\<lparr>bf_jobs := x # js\<rparr>)" if "set (job_items x) \<subseteq> set (resume_items c)" for x
    using that by (auto simp: buf_true_def line_def exhausted_empty_def job_items_def [of "Waiting _ _"])
  show ?thesis
  proof (cases c)
    case None
    have "b'\<lparr>bf_jobs := Waiting [] 0 # js\<rparr> = b'\<lparr>bf_jobs := Waiting [] 0 # tl (bf_jobs b')\<rparr>" using f(1) by simp
    have "finishJob k b' = finishJob k (b'\<lparr>bf_jobs := Waiting [] 0 # js\<rparr>)"
      using f(1) by (simp add: finishJob_def)
    then show ?thesis using finish_true [OF t [of "Waiting [] 0"]] None r by (simp add: settle_def job_items_def)
  next
    case (Some d)
    then show ?thesis using t [of "Sending d k"] f(1) r by (simp add: settle_def job_items_def)
  qed
qed

lemma buf_step_true:
  assumes "buf_true G b" and "all_paired (\<lambda>i. text_step i (G i) e)"
  shows "buf_true (\<lambda>i. text_step i (G i) e) (buf_step opt b e)"
proof (cases e)
  case (BAppend key x)
  have "last (text_step (liveStreamKeyId key) (G (liveStreamKeyId key)) e) = last (G (liveStreamKeyId key)) @ x"
    using BAppend assms(1) by (simp add: buf_true_def last_appended)
  then have "wellPaired (last (G (liveStreamKeyId key)) @ x)"
    using assms by (metis all_paired_def buf_true_def last_in_set text_step_not_Nil)
  then show ?thesis using append_true [OF assms(1)] BAppend by simp
next
  case (BComplete key)
  then show ?thesis using complete_true [OF assms(1)] by simp
next
  case BFlush
  then show ?thesis using flush_true [OF assms(1)] by (simp add: text_step_silent)
next
  case BResync
  then show ?thesis using flush_true [OF dropUnsent_true [OF assms(1)]] assms(1)
    by (simp add: text_step_silent resynchronize_def)
next
  case BClose
  then show ?thesis using assms(1)
    by (auto simp: text_step_silent closeBuffer_def buf_true_def line_def exhausted_empty_def streams_true_def)
next
  case BTimer
  then show ?thesis using flush_true [OF assms(1)] assms(1) by (simp add: text_step_silent)
next
  case BStart
  have "buf_true G (buf_step opt b BStart)"
  proof (cases "\<exists>items n js. bf_jobs b = Waiting items n # js")
    case True
    then obtain items n js where j: "bf_jobs b = Waiting items n # js" by blast
    have "b = b\<lparr>bf_sentBytes := bf_sentBytes b\<rparr>" by simp
    from settle_true [where opt = opt and items = items and batch = "[]" and n = 0 and k = n, OF refl j assms(1) this]
      j show ?thesis by (simp add: job_items_def)
  next
    case False
    then have "buf_step opt b BStart = b" by (auto split: list.split send_job.split)
    then show ?thesis using assms(1) by simp
  qed
  then show ?thesis using BStart by (simp add: text_step_silent)
next
  case (BSent ok)
  have "buf_true G (buf_step opt b (BSent ok))"
  proof (cases "\<exists>k n js. bf_jobs b = Sending k n # js")
    case True
    then obtain k n js where j: "bf_jobs b = Sending k n # js" by blast
    show ?thesis
    proof (cases k)
      case Finish
      then show ?thesis using finish_true [OF assms(1)] j by (simp add: resumeSend_def settle_def)
    next
      case (Push item rest)
      from settle_true [where opt = opt and items = rest and batch = "[item]" and n = "itemBytes item" and k = n,
          OF refl j assms(1) refl] Push j
      show ?thesis using finish_true [OF assms(1)]
        by (simp add: resumeSend_def job_items_def resume_items_def)
    qed
  next
    case False
    then have "buf_step opt b (BSent ok) = b" by (auto split: list.split send_job.split)
    then show ?thesis using assms(1) by simp
  qed
  then show ?thesis using BSent by (simp add: text_step_silent)
next
  case BReflush
  have "buf_true G (b\<lparr>bf_reflush := ns\<rparr>)" for ns
    using assms(1) by (simp add: buf_true_def line_def exhausted_empty_def)
  then show ?thesis using BReflush flush_true assms(1) by (auto simp: text_step_silent split: list.split)
qed

lemma buf_run_true:
  assumes "all_paired (texts es)"
  shows "buf_true (texts es) (foldl (buf_step opt) newBuffer es)"
  using assms
proof (induction es rule: rev_induct)
  case Nil
  then show ?case by (simp add: texts_def buf_true_def newBuffer_def streams_true_def line_def exhausted_empty_def)
next
  case (snoc e es)
  have t: "texts (es @ [e]) = (\<lambda>i. text_step i (texts es i) e)" by (simp add: texts_def fun_eq_iff)
  then have "buf_true (texts es) (foldl (buf_step opt) newBuffer es)"
    using snoc all_paired_step by simp
  then show ?case using buf_step_true snoc.prems unfolding t by simp
qed

section \<open>What was sent is complete\<close>





















section \<open>The Host reads what was sent\<close>














section \<open>Bounds of what is sent\<close>

text \<open>What the Host requires of an item's text.\<close>

fun item_fits :: "live_item \<Rightarrow> bool" where
  "item_fits (Append key offset x) \<longleftrightarrow> 1 \<le> length x \<and> length x \<le> liveAppendTextMaxLength"
| "item_fits (Replace key len x) \<longleftrightarrow> length x \<le> liveStreamTextMaxLength \<and> length x \<le> len"

definition tail_fits :: "buf_stream \<Rightarrow> bool" where
  "tail_fits s \<longleftrightarrow> length (bs_tail s) \<le> liveStreamTextMaxLength \<and> length (bs_tail s) \<le> bs_length s"

definition bytes_of :: "live_item list \<Rightarrow> nat" where
  "bytes_of items = sum_list (map itemBytes items)"

lemma bytes_of_simps [simp]:
  "bytes_of [] = 0" "bytes_of (x # xs) = itemBytes x + bytes_of xs" "bytes_of (xs @ ys) = bytes_of xs + bytes_of ys"
  by (simp_all add: bytes_of_def)

definition resume_fits :: "buf_options \<Rightarrow> live_buffer \<Rightarrow> resume option \<Rightarrow> bool" where
  "resume_fits opt b r \<longleftrightarrow>
     (case r of Some (Push item rest) \<Rightarrow> bf_sentBytes b + itemBytes item \<le> maxSentBytes opt | _ \<Rightarrow> True)"

definition is_waiting :: "send_job \<Rightarrow> bool" where
  "is_waiting j \<longleftrightarrow> (case j of Waiting _ _ \<Rightarrow> True | _ \<Rightarrow> False)"

definition jobs_fit :: "buf_options \<Rightarrow> live_buffer \<Rightarrow> bool" where
  "jobs_fit opt b \<longleftrightarrow> (\<forall>j \<in> set (tl (bf_jobs b)). is_waiting j) \<and>
     (case bf_jobs b of Sending k _ # _ \<Rightarrow> resume_fits opt b (Some k) | _ \<Rightarrow> True)"

definition buf_fits :: "buf_options \<Rightarrow> live_buffer \<Rightarrow> bool" where
  [inv_defs]: "buf_fits opt b \<longleftrightarrow> bytes_of (concat (bf_out b)) \<le> bf_sentBytes b \<and>
     bf_sentBytes b \<le> maxSentBytes opt \<and> (\<forall>batch \<in> set (bf_out b). batch_ok batch) \<and>
     (\<forall>item \<in> set (line b). item_fits item) \<and> jobs_fit opt b \<and>
     (\<forall>(i, s) \<in> set (bf_streams b). tail_fits s)"

lemma sendBatches_fits:
  assumes "sendBatches opt items batch n b = (b', r)" and "n = bytes_of batch"
    and "batch = [] \<or> batch_ok batch"
    and "bytes_of (concat (bf_out b)) + n \<le> bf_sentBytes b" and "bf_sentBytes b \<le> maxSentBytes opt"
    and "\<forall>x \<in> set (bf_out b). batch_ok x"
  shows "bytes_of (concat (bf_out b')) \<le> bf_sentBytes b' \<and> bf_sentBytes b' \<le> maxSentBytes opt \<and>
    (\<forall>x \<in> set (bf_out b'). batch_ok x) \<and> resume_fits opt b' r"
  using assms
proof (induction opt items batch n b arbitrary: b' r rule: sendBatches.induct)
  case (1 opt batch n b)
  then show ?case by (cases "batch = []") (auto simp: sendNow_def resume_fits_def)
next
  case (2 opt item rest batch n b)
  let ?n = "itemBytes item"
  consider (stop) "bf_exhausted b \<or> bf_closed b"
    | (over) "\<not> (bf_exhausted b \<or> bf_closed b)" "bf_sentBytes b + ?n > maxSentBytes opt"
    | (full) "\<not> (bf_exhausted b \<or> bf_closed b)" "\<not> bf_sentBytes b + ?n > maxSentBytes opt"
        "batch \<noteq> [] \<and> (length batch \<ge> liveProgressMaxItems \<or> n + ?n > liveFrameMaxBytes)"
    | (push) "\<not> (bf_exhausted b \<or> bf_closed b)" "\<not> bf_sentBytes b + ?n > maxSentBytes opt"
        "\<not> (batch \<noteq> [] \<and> (length batch \<ge> liveProgressMaxItems \<or> n + ?n > liveFrameMaxBytes))"
    by blast
  then show ?case
  proof cases
    case stop
    then show ?thesis using "2.prems" by (auto simp: resume_fits_def)
  next
    case over
    then show ?thesis using "2.prems"
      by (cases "batch = []") (auto simp: Let_def sendNow_def exhaust_def resume_fits_def)
  next
    case full
    then have "(b', r) = (sendNow batch b, Some (Push item rest))"
      using "2.prems"(1) by (simp only: sendBatches.simps Let_def if_False if_True not_False_eq_True simp_thms)
    then show ?thesis using "2.prems" full by (auto simp: sendNow_def resume_fits_def)
  next
    case push
    then have rec: "sendBatches opt rest (batch @ [item]) (n + ?n) (b\<lparr>bf_sentBytes := bf_sentBytes b + ?n\<rparr>) = (b', r)"
      using "2.prems"(1) by (simp only: sendBatches.simps Let_def if_False not_False_eq_True)
    have "batch_ok (batch @ [item])"
      using push(3) "2.prems"(2) by (cases "batch = []") (auto simp: batch_ok_def liveProgressMaxItems_def bytes_of_def)
    then show ?thesis
      using "2.prems" push(2) by (intro "2.IH" [OF push(1) refl push(2,3) rec]) auto
  qed
qed

lemma cutPending_fits: "\<forall>item \<in> set (cutPending key offset rest). item_fits item"
proof (induction key offset rest rule: cutPending.induct)
  case (1 key offset rest)
  show ?case
  proof (cases "rest = []")
    case True
    then show ?thesis by (simp add: cutPending.simps)
  next
    case False
    define cut where "cut = (if length rest \<le> liveAppendTextMaxLength then length rest
        else surrogateSafeCut rest liveAppendTextMaxLength)"
    define x where "x = take cut rest"
    have "0 < cut \<and> cut \<le> liveAppendTextMaxLength"
      using False surrogateSafeCut_bounds [OF liveAppendTextMaxLength_gt, of rest] by (auto simp: cut_def)
    then have "item_fits (Append key offset x)" using False by (simp add: x_def Suc_le_eq min.coboundedI2)
    moreover have "\<forall>item \<in> set (cutPending key (offset + length x) (drop (length x) rest)). item_fits item"
      by (rule "1.IH" [OF False cut_def x_def])
    moreover have "cutPending key offset rest = Append key offset x # cutPending key (offset + length x) (drop (length x) rest)"
      using False by (subst cutPending.simps) (simp add: Let_def cut_def x_def)
    ultimately show ?thesis by simp
  qed
qed

lemma takeStream_fits: "tail_fits s \<Longrightarrow> \<forall>item \<in> set (takeStream s). item_fits item"
  using cutPending_fits by (simp add: takeStream_def replaceItem_def tail_fits_def)

lemma flush_fits:
  assumes "buf_fits opt b"
  shows "buf_fits opt (flush opt b)"
proof (cases "bf_inFlightBytes b \<ge> maxInFlightBytes opt")
  case True
  then show ?thesis using assms
    by (auto simp: flush_def Let_def dropUnsent_def buf_fits_def line_def jobs_fit_def resume_fits_def tail_fits_def
        split: list.splits send_job.splits resume.splits)
next
  case False
  define items where "items = concat (map takeStream (jvalues (bf_streams b)))"
  have items: "\<forall>item \<in> set items. item_fits item"
    using assms takeStream_fits by (fastforce simp: items_def buf_fits_def)
  define b1 where "b1 = b\<lparr>bf_timer := False, bf_streams := map (\<lambda>(i, s). (i, sentStream s)) (bf_streams b),
      bf_pendingBytes := 0\<rparr>"
  have b1: "buf_fits opt b1"
    using assms by (auto simp: b1_def buf_fits_def line_def jobs_fit_def resume_fits_def tail_fits_def sentStream_def
        split: list.splits send_job.splits resume.splits)
  have put: "buf_fits opt (b'\<lparr>bf_inFlightBytes := m, bf_jobs := bf_jobs b' @ [Waiting items k], bf_enqueued := e\<rparr>)"
    if "buf_fits opt b'" for b' m k e
    using that items
    by (cases "bf_jobs b'") (auto simp: buf_fits_def line_def jobs_fit_def resume_fits_def is_waiting_def job_items_def
        split: send_job.splits resume.splits)
  have "flush opt b = (if items = [] then b1 else b1\<lparr>bf_inFlightBytes := bf_inFlightBytes b1 + sum_list (map itemBytes items),
      bf_jobs := bf_jobs b1 @ [Waiting items (sum_list (map itemBytes items))], bf_enqueued := Suc (bf_enqueued b1)\<rparr>)"
  proof -
    have "takePending (b\<lparr>bf_timer := False\<rparr>) = (b1, items)" by (simp add: takePending_def b1_def items_def)
    then show ?thesis using False by (simp add: flush_def Let_def)
  qed
  then show ?thesis using b1 put [OF b1] by simp
qed

lemma length_append_le: "length (appendLiveStreamTail t x) \<le> length t + length x"
  unfolding appendLiveStreamTail_def Let_def
  by (simp only: length_append length_drop split: if_split) linarith

text \<open>What the bounds read of a state besides its streams.\<close>

lemma buf_fits_streams:
  assumes "buf_fits opt b" and "bf_out b' = bf_out b" and "bf_jobs b' = bf_jobs b"
    and "bf_sentBytes b' = bf_sentBytes b" and "\<forall>(i, s) \<in> set (bf_streams b'). tail_fits s"
  shows "buf_fits opt b'"
proof -
  have "line b' = line b" using assms(2,3) by (simp add: line_def)
  moreover have "jobs_fit opt b' = jobs_fit opt b" using assms(3,4) unfolding jobs_fit_def resume_fits_def by (simp only: )
  ultimately show ?thesis using assms unfolding buf_fits_def by simp
qed

lemma buf_fits_same:
  "buf_fits opt b \<Longrightarrow> bf_out b' = bf_out b \<Longrightarrow> bf_jobs b' = bf_jobs b \<Longrightarrow>
    bf_sentBytes b' = bf_sentBytes b \<Longrightarrow> set (bf_streams b') \<subseteq> set (bf_streams b) \<Longrightarrow> buf_fits opt b'"
  by (rule buf_fits_streams) (simp_all add: buf_fits_def, blast)

lemma schedule_fits: "buf_fits opt b \<Longrightarrow> buf_fits opt (schedule b)"
  by (erule buf_fits_same) (simp_all add: schedule_def)

lemma append_fits:
  assumes "buf_fits opt b"
  shows "buf_fits opt (bufAppend opt key x b)"
proof (cases "bf_closed b \<or> x = []")
  case True
  then show ?thesis using assms by (simp add: bufAppend_def)
next
  case False
  let ?i = "liveStreamKeyId key"
  define s where "s = (case jget (bf_streams b) ?i of Some s \<Rightarrow> s
    | None \<Rightarrow> \<lparr>bs_key = key, bs_pending = [], bs_length = 0, bs_resync = False, bs_tail = []\<rparr>)"
  define s1 where "s1 = s\<lparr>bs_length := bs_length s + length x, bs_tail := appendLiveStreamTail (bs_tail s) x\<rparr>"
  have old: "\<forall>(i, s) \<in> set (bf_streams b). tail_fits s" using assms by (simp add: buf_fits_def)
  have "tail_fits s"
  proof (cases "jget (bf_streams b) ?i")
    case None
    then show ?thesis by (simp add: s_def tail_fits_def)
  next
    case (Some r)
    then have "(?i, r) \<in> set (bf_streams b)" by (rule map_of_SomeD)
    then show ?thesis using old Some by (auto simp: s_def)
  qed
  then have s1: "tail_fits s1" "tail_fits (s1\<lparr>bs_pending := p\<rparr>)" for p
    using length_append_le [of "bs_tail s" x] by (simp_all add: s1_def tail_fits_def length_appendLiveStreamTail)
  have put: "buf_fits opt (b\<lparr>bf_streams := jset ?i r (bf_streams b)\<rparr>)"
    "buf_fits opt (b\<lparr>bf_streams := jset ?i r (bf_streams b), bf_pendingBytes := n\<rparr>)" if "tail_fits r" for r n
    using assms by (rule buf_fits_streams; use jset_ball [OF old, of r ?i] that in simp)+
  show ?thesis
  proof (cases "bf_exhausted b")
    case True
    then show ?thesis using False put(1) [OF s1(1)] by (simp add: bufAppend_def Let_def s_def s1_def)
  next
    case ne: False
    define b1 where "b1 = (if bs_resync s then b\<lparr>bf_streams := jset ?i s1 (bf_streams b)\<rparr>
      else b\<lparr>bf_streams := jset ?i (s1\<lparr>bs_pending := bs_pending s @ x\<rparr>) (bf_streams b),
             bf_pendingBytes := bf_pendingBytes b + int (utf8Length x)\<rparr>)"
    have "buf_fits opt b1" using put(1) [OF s1(1)] put(2) [OF s1(2)] by (simp add: b1_def)
    moreover have "bufAppend opt key x b = (if bf_pendingBytes b1 \<ge> maxPendingBytes opt then flush opt b1 else schedule b1)"
      using False ne by (simp add: bufAppend_def Let_def b1_def s1_def s_def)
    ultimately show ?thesis by (simp add: flush_fits schedule_fits)
  qed
qed

lemma finish_fits:
  assumes "buf_fits opt b" and "bf_jobs b = j # js"
  shows "buf_fits opt (finishJob n b)"
proof -
  define b1 where "b1 = b\<lparr>bf_inFlightBytes := bf_inFlightBytes b - n, bf_jobs := js, bf_finished := Suc (bf_finished b)\<rparr>"
  have "set (line b1) \<subseteq> set (line b)" using assms(2) by (auto simp: line_def b1_def)
  moreover have "\<forall>j \<in> set js. is_waiting j" using assms by (simp add: buf_fits_def jobs_fit_def)
  then have "jobs_fit opt b1"
    by (cases js) (auto simp: jobs_fit_def b1_def is_waiting_def split: send_job.splits)
  ultimately have "buf_fits opt b1" using assms(1) by (auto simp: buf_fits_def b1_def)
  moreover have "finishJob n b = (if hasUnsent b1 then schedule b1 else b1)"
    using assms(2) by (simp add: finishJob_def Let_def b1_def)
  ultimately show ?thesis by (simp add: schedule_fits)
qed

lemma settle_fits:
  assumes "sendBatches opt items batch (bytes_of batch) start = r" and "bf_jobs b = j # js" and "buf_fits opt b"
    and "start = b\<lparr>bf_sentBytes := bf_sentBytes b + bytes_of batch\<rparr>" and "set (batch @ items) \<subseteq> set (job_items j)"
    and "batch = [] \<or> batch_ok batch" and "bf_sentBytes b + bytes_of batch \<le> maxSentBytes opt"
  shows "buf_fits opt (settle k r)"
proof -
  obtain b' c where r: "r = (b', c)" by (cases r)
  then have sb: "sendBatches opt items batch (bytes_of batch) start = (b', c)" using assms(1) by simp
  from sendBatches_items [OF sb] obtain sent where out: "bf_out b' = bf_out start @ sent"
    "set (concat sent @ resume_items c) \<subseteq> set (batch @ items)" by blast
  have f: "bf_jobs b' = j # js"
    "bf_streams b' = bf_streams b \<or> bf_streams b' = bf_streams (exhaust b)"
    using sendBatches_frame [OF sb] assms(2,4) by (auto simp: exhaust_def)
  have fit: "bytes_of (concat (bf_out b')) \<le> bf_sentBytes b' \<and> bf_sentBytes b' \<le> maxSentBytes opt \<and>
      (\<forall>x \<in> set (bf_out b'). batch_ok x) \<and> resume_fits opt b' c"
    using assms(3,4,6,7) by (intro sendBatches_fits [OF sb refl]) (auto simp: buf_fits_def)
  have old: "\<forall>item \<in> set (line b). item_fits item" using assms(3) by (simp add: buf_fits_def)
  then have "\<forall>item \<in> set (job_items j). item_fits item" using assms(2) by (simp add: line_def)
  then have new: "\<forall>item \<in> set (concat sent @ resume_items c). item_fits item" using out(2) assms(5) by blast
  have tails: "\<forall>(i, s) \<in> set (bf_streams b'). tail_fits s"
  proof -
    have old: "\<forall>(i, s) \<in> set (bf_streams b). tail_fits s" using assms(3) by (simp add: buf_fits_def)
    have "tail_fits (s\<lparr>bs_pending := []\<rparr>) = tail_fits s" for s by (simp add: tail_fits_def)
    then have "\<forall>(i, s) \<in> set (bf_streams (exhaust b)). tail_fits s" using old by (auto simp: exhaust_def)
    then show ?thesis using f(2) old by metis
  qed
  have put: "buf_fits opt (b'\<lparr>bf_jobs := x # js\<rparr>)"
    if "job_items x = resume_items c" "is_waiting x \<or> (\<exists>d. c = Some d \<and> x = Sending d k)" for x
  proof -
    have "\<forall>item \<in> set (line (b'\<lparr>bf_jobs := x # js\<rparr>)). item_fits item"
      using that(1) new old out(1) assms(2,4) by (auto simp: line_def)
    moreover have "jobs_fit opt (b'\<lparr>bf_jobs := x # js\<rparr>)"
      using that(2) fit assms(2,3)
      by (auto simp: jobs_fit_def is_waiting_def resume_fits_def buf_fits_def split: send_job.splits resume.splits)
    ultimately show ?thesis using fit tails by (simp add: buf_fits_def)
  qed
  show ?thesis
  proof (cases c)
    case None
    have "buf_fits opt (b'\<lparr>bf_jobs := Waiting [] 0 # js\<rparr>)"
      using None by (intro put) (simp_all add: job_items_def resume_items_def is_waiting_def)
    then have "buf_fits opt (finishJob k (b'\<lparr>bf_jobs := Waiting [] 0 # js\<rparr>))"
      by (rule finish_fits) simp
    moreover have "finishJob k b' = finishJob k (b'\<lparr>bf_jobs := Waiting [] 0 # js\<rparr>)"
      using f(1) by (simp add: finishJob_def)
    ultimately show ?thesis using None r by (simp add: settle_def)
  next
    case (Some d)
    then show ?thesis using put [of "Sending d k"] f(1) r by (simp add: settle_def job_items_def)
  qed
qed

lemma buf_step_fits:
  assumes "buf_fits opt b"
  shows "buf_fits opt (buf_step opt b e)"
proof (cases e)
  case (BAppend key x)
  then show ?thesis using append_fits [OF assms] by simp
next
  case (BComplete key)
  have "buf_fits opt (bufComplete key b)"
    using assms by (rule buf_fits_same) (auto simp: bufComplete_def AList.delete_eq split: option.split)
  then show ?thesis using BComplete by simp
next
  case BFlush
  then show ?thesis using flush_fits [OF assms] by simp
next
  case BResync
  have "buf_fits opt (dropUnsent (\<lambda>_. True) b)"
    using assms by (rule buf_fits_streams) (use assms in \<open>auto simp: dropUnsent_def buf_fits_def tail_fits_def\<close>)
  then show ?thesis using BResync flush_fits assms by (simp add: resynchronize_def)
next
  case BClose
  have "buf_fits opt (closeBuffer b)" using assms by (rule buf_fits_same) (simp_all add: closeBuffer_def)
  then show ?thesis using BClose by simp
next
  case BTimer
  then show ?thesis using flush_fits [OF assms] assms by simp
next
  case BStart
  show ?thesis
  proof (cases "\<exists>items n js. bf_jobs b = Waiting items n # js")
    case True
    then obtain items n js where j: "bf_jobs b = Waiting items n # js" by blast
    have "bf_sentBytes b \<le> maxSentBytes opt" using assms by (simp add: buf_fits_def)
    then have "buf_fits opt (settle n (sendBatches opt items [] (bytes_of []) b))"
      by (intro settle_fits [OF refl j assms]) (simp_all add: job_items_def)
    then show ?thesis using j BStart by simp
  next
    case False
    then have "buf_step opt b e = b" using BStart by (auto split: list.split send_job.split)
    then show ?thesis using assms by simp
  qed
next
  case (BSent ok)
  show ?thesis
  proof (cases "\<exists>k n js. bf_jobs b = Sending k n # js")
    case True
    then obtain k n js where j: "bf_jobs b = Sending k n # js" by blast
    show ?thesis
    proof (cases k)
      case Finish
      then show ?thesis using finish_fits [OF assms j] j BSent by (simp add: resumeSend_def settle_def)
    next
      case (Push item rest)
      have "bf_sentBytes b + itemBytes item \<le> maxSentBytes opt"
        using assms j Push by (simp add: buf_fits_def jobs_fit_def resume_fits_def)
      then have "buf_fits opt (settle n (sendBatches opt rest [item] (bytes_of [item])
          (b\<lparr>bf_sentBytes := bf_sentBytes b + bytes_of [item]\<rparr>)))"
        using Push by (intro settle_fits [OF refl j assms refl])
          (simp_all add: job_items_def resume_items_def batch_ok_def liveProgressMaxItems_def)
      then show ?thesis using finish_fits [OF assms j] Push j BSent by (simp add: resumeSend_def)
    qed
  next
    case False
    then have "buf_step opt b e = b" using BSent by (auto split: list.split send_job.split)
    then show ?thesis using assms by simp
  qed
next
  case BReflush
  have "buf_fits opt (b\<lparr>bf_reflush := ns\<rparr>)" for ns using assms by (rule buf_fits_same) simp_all
  then show ?thesis using BReflush flush_fits assms by (auto split: list.split)
qed

interpretation bf: invariant_system "buf_step opt" "buf_fits opt" for opt
  by unfold_locales (rule buf_step_fits)

section \<open>A quiet buffer\<close>










section \<open>Properties\<close>

text \<open>C23: Everything a Runner sends is true: whatever the timing of flushes, slow or failed sends,
  resynchronizations, completions and exhaustion, each item handed to the connection is a
  piece, or the tail of a prefix, of one of the texts its stream has had.\<close>

theorem live_buffer_truthful:
  assumes "\<forall>i. \<forall>t \<in> set (texts es i). wellPaired t"
    and "item \<in> set (concat (bf_out (foldl (buf_step opt) newBuffer es)))"
  shows "\<exists>t \<in> set (texts es (liveStreamKeyId (item_key item))). honest (\<lambda>_. t) item"
  using buf_run_true [of es opt] assms
  by (auto simp: all_paired_def buf_true_def line_def item_true_def)

text \<open>No text waits for ever: as long as the connection may carry something, unsent text of an
  open Run always has an armed timer or an unfinished send behind it, whose end sends it or
  arms the timer; and the bytes counted in flight are those of the unfinished sends.\<close>

theorem live_buffer_not_stuck:
  assumes "0 < maxInFlightBytes opt" and "b = foldl (buf_step opt) newBuffer es"
  shows "(hasUnsent b \<longrightarrow> bf_timer b \<or> bf_jobs b \<noteq> []) \<and>
    bf_inFlightBytes b = sum_list (map job_bytes (bf_jobs b)) \<and>
    (\<forall>n \<in> set (bf_reflush b). n \<le> bf_finished b + length (bf_jobs b))"
proof -
  have "buf_wf opt b" unfolding assms(2) using assms(1) by (intro bw.run_inv buf_wf_new) simp
  then show ?thesis by (auto simp: buf_wf_def)
qed

text \<open>Every frame a Runner sends is one the Host accepts: not empty, at most 256 items, more than
  512 KiB only as a single item, no append longer than 64 Ki units or empty, no replacement
  longer than its stream or the tail limit; and all frames together stay within the Run's
  budget.\<close>

theorem live_buffer_bounds:
  assumes "b = foldl (buf_step opt) newBuffer es"
  shows "(\<forall>batch \<in> set (bf_out b). batch_ok batch) \<and>
    (\<forall>item \<in> set (concat (bf_out b)). item_fits item) \<and>
    sum_list (map itemBytes (concat (bf_out b))) \<le> maxSentBytes opt"
proof -
  have "buf_fits opt newBuffer" by (simp add: newBuffer_def buf_fits_def line_def jobs_fit_def)
  from bf.run_inv [OF this, of es] show ?thesis
    unfolding assms buf_fits_def bytes_of_def line_def by auto
qed


subsection \<open>A run of the buffer\<close>

definition demoBufOptions :: buf_options where
  "demoBufOptions = \<lparr>maxInFlightBytes = 1000, maxPendingBytes = 100, maxSentBytes = 5000\<rparr>"

definition demoEvents :: "buf_event list" where
  "demoEvents = [BAppend Assistant [104], BTimer, BStart, BSent True]"

definition demoBuffer :: live_buffer where
  "demoBuffer = foldl (buf_step demoBufOptions) newBuffer demoEvents"

lemma demo_cut: "cutPending Assistant 0 [104] = [Append Assistant 0 [104]]"
  by (simp add: cutPending.simps liveAppendTextMaxLength_def)

lemma demo_bytes: "itemBytes (Append Assistant 0 [104]) = 54"
  by (simp add: itemBytes_def jsonString_def decimal.simps escapeUnit_def isHighSurrogate_def isLowSurrogate_def)

lemma demo_run:
  "demoBuffer = newBuffer\<lparr>bf_streams := [(liveStreamKeyId Assistant,
     \<lparr>bs_key = Assistant, bs_pending = [], bs_length = 1, bs_resync = False, bs_tail = [104]\<rparr>)],
     bf_sentBytes := 54, bf_enqueued := 1, bf_finished := 1, bf_out := [[Append Assistant 0 [104]]]\<rparr>"
  unfolding demoBuffer_def demoEvents_def newBuffer_def demoBufOptions_def
  by (simp add: bufAppend_def Let_def schedule_def flush_def takePending_def takeStream_def sentStream_def
      demo_cut demo_bytes settle_def resumeSend_def finishJob_def hasUnsent_def sendNow_def
      appendLiveStreamTail_def liveStreamTextMaxLength_def)

lemma demo_texts: "texts demoEvents i = (if i = liveStreamKeyId Assistant then [[104]] else [[]])"
  by (auto simp: texts_def demoEvents_def text_step.simps)


lemma demo_out: "bf_out demoBuffer = [[Append Assistant 0 [104]]]" "bf_jobs demoBuffer = []"
  "\<not> bf_closed demoBuffer" "\<not> bf_exhausted demoBuffer" "\<not> hasUnsent demoBuffer"
  by (simp_all add: demo_run newBuffer_def hasUnsent_def)

theorem live_buffer_truthful_witness:
  "\<exists>t \<in> set (texts demoEvents (liveStreamKeyId Assistant)). honest (\<lambda>_. t) (Append Assistant 0 [104])"
proof -
  have "\<forall>i. \<forall>t \<in> set (texts demoEvents i). wellPaired t" by (simp add: demo_texts)
  moreover have "Append Assistant 0 [104] \<in> set (concat (bf_out (foldl (buf_step demoBufOptions) newBuffer demoEvents)))"
    by (simp add: demo_out(1) [unfolded demoBuffer_def])
  ultimately show ?thesis using live_buffer_truthful [of demoEvents _ demoBufOptions] by fastforce
qed

theorem live_buffer_not_stuck_witness: "bf_inFlightBytes demoBuffer = 0"
  using live_buffer_not_stuck [of demoBufOptions demoBuffer demoEvents] demo_out(2)
  by (simp add: demoBufOptions_def demoBuffer_def)

theorem live_buffer_bounds_witness: "batch_ok [Append Assistant 0 [104]]"
  using live_buffer_bounds [of demoBuffer demoBufOptions demoEvents] by (simp add: demoBuffer_def [symmetric] demo_out(1))


end
