(* ===== verification/Live_Ledger.thy ===== *)
theory Live_Ledger
  imports Live_Registry
begin

text \<open>
  \<open>LiveStreamLedger\<close> (packages/client/src/host/live-progress.ts): the client's own copy of
  every stream it draws, with a tombstone for each stream a durable event has completed.
  The input of \<open>apply\<close> is the frame the Host sent.
\<close>

record ledger_stream =
  ls_key :: stream_key
  ls_length :: nat
  ls_openedAfter :: sequence
  ls_tail :: utf16

record ledger_run =
  lr_runId :: ident
  lr_streams :: "(utf16, ledger_stream) jsmap"
  lr_threadId :: ident
  lr_tombstones :: "(utf16, sequence) jsmap"
  lr_workspaceId :: ident

record live_ledger =
  lg_runs :: "(ident, ledger_run) jsmap"
  lg_endedRuns :: "ident list"

record stream_view =
  sv_key :: stream_key
  sv_length :: nat
  sv_tail :: utf16

record run_view =
  rv_runId :: ident
  rv_streams :: "stream_view list"
  rv_threadId :: ident
  rv_workspaceId :: ident

definition endedRunMemory :: nat where
  "endedRunMemory = 512"

section \<open>Operations\<close>

definition ledgerRun :: "ident \<Rightarrow> ident \<Rightarrow> ident \<Rightarrow> live_ledger \<Rightarrow> live_ledger \<times> ledger_run option" where
  "ledgerRun runId threadId workspaceId lg =
     (case jget (lg_runs lg) runId of
        Some existing \<Rightarrow>
          (lg, if lr_threadId existing = threadId \<and> lr_workspaceId existing = workspaceId
               then Some existing else None)
      | None \<Rightarrow>
          let run = \<lparr>lr_runId = runId, lr_streams = [], lr_threadId = threadId, lr_tombstones = [],
                     lr_workspaceId = workspaceId\<rparr>
          in (lg\<lparr>lg_runs := jset runId run (lg_runs lg)\<rparr>, Some run))"

definition js_add :: "'a \<Rightarrow> 'a list \<Rightarrow> 'a list" where
  "js_add x xs = (if x \<in> set xs then xs else xs @ [x])"

text \<open>One item of a frame: the Run afterwards, the ids changed so far, and whether a gap was seen.\<close>

fun ledgerItem :: "sequence \<Rightarrow> live_item \<Rightarrow> ledger_run \<times> utf16 list \<times> bool \<Rightarrow> ledger_run \<times> utf16 list \<times> bool" where
  "ledgerItem after item (run, changed, gap) =
     (let key = liveStreamKeyOf item; i = liveStreamKeyId key in
      if (case jget (lr_tombstones run) i of None \<Rightarrow> False | Some t \<Rightarrow> compareSequence after t < 0)
      then (run, changed, gap)
      else case item of
        Replace _ len text \<Rightarrow>
          (let current = jget (lr_streams run) i in
           if (case current of None \<Rightarrow> False | Some c \<Rightarrow> len < ls_length c) then (run, changed, gap)
           else
             (run\<lparr>lr_streams := jset i
                \<lparr>ls_key = key, ls_length = len,
                 ls_openedAfter = (case current of None \<Rightarrow> after | Some c \<Rightarrow> ls_openedAfter c),
                 ls_tail = text\<rparr> (lr_streams run)\<rparr>,
              js_add i changed, gap))
      | Append _ offset text \<Rightarrow>
          (case (case jget (lr_streams run) i of
                   Some s \<Rightarrow> Some s
                 | None \<Rightarrow> if offset = 0
                     then Some \<lparr>ls_key = key, ls_length = 0, ls_openedAfter = after, ls_tail = []\<rparr>
                     else None) of
             None \<Rightarrow> (run, changed, True)
           | Some stream \<Rightarrow>
               let end = offset + length text in
               if end \<le> ls_length stream then (run, changed, gap)
               else if offset > ls_length stream then (run, changed, True)
               else
                 (run\<lparr>lr_streams := jset i
                    (stream\<lparr>ls_tail := appendLiveStreamTail (ls_tail stream)
                                        (drop (ls_length stream - offset) text),
                            ls_length := end\<rparr>) (lr_streams run)\<rparr>,
                  js_add i changed, gap)))"

definition streamView :: "ledger_stream \<Rightarrow> stream_view" where
  "streamView s = \<lparr>sv_key = ls_key s, sv_length = ls_length s, sv_tail = ls_tail s\<rparr>"

definition ledgerItems :: "sequence \<Rightarrow> live_item list \<Rightarrow> ledger_run \<Rightarrow> ledger_run \<times> utf16 list \<times> bool" where
  "ledgerItems after items run = foldl (\<lambda>acc item. ledgerItem after item acc) (run, [], False) items"

definition ledgerApply :: "live_frame \<Rightarrow> live_ledger \<Rightarrow> live_ledger \<times> run_view option \<times> bool" where
  "ledgerApply input lg =
     (let progress = lf_progress input; runId = lp_runId progress in
      if runId \<in> set (lg_endedRuns lg) then (lg, None, False)
      else case ledgerRun runId (lp_threadId progress) (lp_workspaceId progress) lg of
        (lg1, None) \<Rightarrow> (lg1, None, False)
      | (lg1, Some run) \<Rightarrow>
          (case ledgerItems (lf_afterSequence input) (lp_items progress) run of
             (run', changed, gap) \<Rightarrow>
               (lg1\<lparr>lg_runs := jset runId run' (lg_runs lg1)\<rparr>,
                if changed = [] then None
                else Some \<lparr>rv_runId = runId,
                       rv_streams = map streamView (List.map_filter (jget (lr_streams run')) changed),
                       rv_threadId = lr_threadId run', rv_workspaceId = lr_workspaceId run'\<rparr>,
                gap)))"

fun completedStreamKey :: "event_type \<Rightarrow> stream_key option" where
  "completedStreamKey AssistantMessage = Some Assistant"
| "completedStreamKey (ReasoningCompleted b) = Some (Reasoning b)"
| "completedStreamKey (ToolCompleted c) = Some (Tool c)"
| "completedStreamKey _ = None"

definition completeLedgerStream :: "utf16 \<Rightarrow> sequence \<Rightarrow> ledger_run \<Rightarrow> ledger_run" where
  "completeLedgerStream i s run =
     (let streams = (case jget (lr_streams run) i of
                       None \<Rightarrow> lr_streams run
                     | Some stream \<Rightarrow>
                         if compareSequence (ls_openedAfter stream) s < 0 then jdel i (lr_streams run)
                         else lr_streams run);
          tombstones = (case jget (lr_tombstones run) i of
                          None \<Rightarrow> jset i s (lr_tombstones run)
                        | Some t \<Rightarrow>
                            if compareSequence s t > 0 then jset i s (lr_tombstones run)
                            else lr_tombstones run)
      in run\<lparr>lr_streams := streams, lr_tombstones := tombstones\<rparr>)"

definition rememberEnded :: "ident \<Rightarrow> ident list \<Rightarrow> ident list" where
  "rememberEnded runId ended =
     (let ended' = js_add runId ended in
      if length ended' > endedRunMemory then tl ended' else ended')"

definition ledgerComplete :: "agent_event \<Rightarrow> live_ledger \<Rightarrow> live_ledger" where
  "ledgerComplete event lg =
     (case ev_runId event of
        None \<Rightarrow> lg
      | Some runId \<Rightarrow>
          if terminalRunEvent (ev_type event) then
            \<lparr>lg_runs = jdel runId (lg_runs lg), lg_endedRuns = rememberEnded runId (lg_endedRuns lg)\<rparr>
          else if ev_type event = RunRestarted then lg\<lparr>lg_runs := jdel runId (lg_runs lg)\<rparr>
          else case completedStreamKey (ev_type event) of
            None \<Rightarrow> lg
          | Some key \<Rightarrow>
              if runId \<in> set (lg_endedRuns lg) then lg
              else case ledgerRun runId (ev_threadId event) (ev_workspaceId event) lg of
                (lg1, None) \<Rightarrow> lg1
              | (lg1, Some run) \<Rightarrow>
                  lg1\<lparr>lg_runs := jset runId
                    (completeLedgerStream (liveStreamKeyId key) (ev_sequence event) run) (lg_runs lg1)\<rparr>)"

definition resetWorkspace :: "ident \<Rightarrow> live_ledger \<Rightarrow> live_ledger" where
  "resetWorkspace workspaceId lg =
     lg\<lparr>lg_runs := filter (\<lambda>(_, run). lr_workspaceId run \<noteq> workspaceId) (lg_runs lg)\<rparr>"

definition clearLedger :: "live_ledger \<Rightarrow> live_ledger" where
  "clearLedger lg = \<lparr>lg_runs = [], lg_endedRuns = []\<rparr>"

definition ledgerHolds :: "ident \<Rightarrow> stream_key \<Rightarrow> live_ledger \<Rightarrow> bool" where
  "ledgerHolds runId key lg =
     (case jget (lg_runs lg) runId of
        None \<Rightarrow> False
      | Some run \<Rightarrow> jget (lr_streams run) (liveStreamKeyId key) \<noteq> None)"

definition threadRuns :: "ident \<Rightarrow> live_ledger \<Rightarrow> run_view list" where
  "threadRuns threadId lg =
     map (\<lambda>run. \<lparr>rv_runId = lr_runId run, rv_streams = map streamView (jvalues (lr_streams run)),
             rv_threadId = lr_threadId run, rv_workspaceId = lr_workspaceId run\<rparr>)
       (filter (\<lambda>run. lr_threadId run = threadId \<and> lr_streams run \<noteq> []) (jvalues (lg_runs lg)))"

text \<open>8230 is the ellipsis that marks a cut head.\<close>

definition liveStreamText :: "stream_view \<Rightarrow> utf16" where
  "liveStreamText s = (if sv_length s > length (sv_tail s) then 8230 # sv_tail s else sv_tail s)"

section \<open>Streams show prefixes of their texts\<close>




section \<open>The client keeps up with the Host\<close>

text \<open>
  \<open>covers st run\<close>: the client holds every stream the Host holds, at least as far.
\<close>

definition covers :: "live_run_state \<Rightarrow> ledger_run \<Rightarrow> bool" where
  "covers st run \<longleftrightarrow> (\<forall>i s. jget (lrs_streams st) i = Some s \<longrightarrow>
     (\<exists>c. jget (lr_streams run) i = Some c \<and> lss_length s \<le> ls_length c))"

definition not_past :: "sequence \<Rightarrow> ledger_run \<Rightarrow> bool" where
  "not_past after run \<longleftrightarrow> (\<forall>i t. jget (lr_tombstones run) i = Some t \<longrightarrow> t \<le> after)"

lemma ledgerItem_same [simp]:
  "lr_tombstones (fst (ledgerItem after item acc)) = lr_tombstones (fst acc)"
  "lr_threadId (fst (ledgerItem after item acc)) = lr_threadId (fst acc)"
  "lr_workspaceId (fst (ledgerItem after item acc)) = lr_workspaceId (fst acc)"
  by (cases acc; cases item; auto simp: Let_def split: option.splits)+

lemma not_past_item [simp]: "not_past after (fst (ledgerItem after' item acc)) = not_past after (fst acc)"
  by (simp add: not_past_def)

lemma not_past_live:
  "not_past after run \<Longrightarrow>
    (case jget (lr_tombstones run) i of None \<Rightarrow> False | Some t \<Rightarrow> compareSequence after t < 0) = False"
  by (auto simp: not_past_def not_le [symmetric] split: option.splits)

lemma ledger_replace_skip:
  assumes "not_past after run" and "jget (lr_streams run) (liveStreamKeyId key) = Some c" and "len < ls_length c"
  shows "ledgerItem after (Replace key len x) (run, changed, gap) = (run, changed, gap)"
  using assms(2,3) by (simp add: Let_def liveStreamKeyOf_def not_past_live [OF assms(1)])

lemma ledger_replace_set:
  assumes "not_past after run"
    and "\<And>c. jget (lr_streams run) (liveStreamKeyId key) = Some c \<Longrightarrow> ls_length c \<le> len"
  shows "\<exists>c changed'. ls_length c = len \<and> ledgerItem after (Replace key len x) (run, changed, gap) =
    (run\<lparr>lr_streams := jset (liveStreamKeyId key) c (lr_streams run)\<rparr>, changed', gap)"
proof -
  let ?i = "liveStreamKeyId key"
  let ?c = "\<lparr>ls_key = key, ls_length = len,
    ls_openedAfter = (case jget (lr_streams run) ?i of None \<Rightarrow> after | Some c \<Rightarrow> ls_openedAfter c), ls_tail = x\<rparr>"
  have "ledgerItem after (Replace key len x) (run, changed, gap) =
      (run\<lparr>lr_streams := jset ?i ?c (lr_streams run)\<rparr>, js_add ?i changed, gap)"
    using assms(2)
    by (auto simp: Let_def liveStreamKeyOf_def not_past_live [OF assms(1)] not_less split: option.splits)
  then show ?thesis by (intro exI [of _ ?c] exI [of _ "js_add ?i changed"]) simp
qed

lemma ledger_append_skip:
  assumes "not_past after run" and "jget (lr_streams run) (liveStreamKeyId key) = Some c"
    and "offset + length x \<le> ls_length c"
  shows "ledgerItem after (Append key offset x) (run, changed, gap) = (run, changed, gap)"
  using assms(2,3) by (simp add: Let_def liveStreamKeyOf_def not_past_live [OF assms(1)])

lemma ledger_append_set:
  assumes "not_past after run"
    and "case jget (lr_streams run) (liveStreamKeyId key) of None \<Rightarrow> offset = 0 \<and> x \<noteq> []
         | Some c \<Rightarrow> offset \<le> ls_length c \<and> ls_length c < offset + length x"
  shows "\<exists>c changed'. ls_length c = offset + length x \<and> ledgerItem after (Append key offset x) (run, changed, gap) =
    (run\<lparr>lr_streams := jset (liveStreamKeyId key) c (lr_streams run)\<rparr>, changed', gap)"
proof -
  let ?i = "liveStreamKeyId key"
  let ?s = "case jget (lr_streams run) ?i of Some s \<Rightarrow> s
    | None \<Rightarrow> \<lparr>ls_key = key, ls_length = 0, ls_openedAfter = after, ls_tail = []\<rparr>"
  let ?c = "?s\<lparr>ls_tail := appendLiveStreamTail (ls_tail ?s) (drop (ls_length ?s - offset) x),
    ls_length := offset + length x\<rparr>"
  have "ledgerItem after (Append key offset x) (run, changed, gap) =
      (run\<lparr>lr_streams := jset ?i ?c (lr_streams run)\<rparr>, js_add ?i changed, gap)"
    using assms(2)
    by (auto simp: Let_def liveStreamKeyOf_def not_past_live [OF assms(1)] not_less not_le split: option.splits)
  then show ?thesis by (intro exI [of _ ?c] exI [of _ "js_add ?i changed"]) simp
qed

lemma writeStream_get:
  "jget (lrs_streams (writeStream i len t st)) j =
     (if j = i then map_option (\<lambda>s. s\<lparr>lss_length := len, lss_tail := t\<rparr>) (jget (lrs_streams st) i)
      else jget (lrs_streams st) j)"
  by (auto simp: writeStream_def jget_set split: option.splits)

lemma openStream_get_other:
  "j \<noteq> i \<Longrightarrow> jget (lrs_streams (openStream opt i key st)) j = Some s \<Longrightarrow> jget (lrs_streams st) j = Some s"
  by (auto simp: openStream_def Let_def jget_set jget_del split: option.splits if_splits list.splits)

lemma covers_write:
  assumes "\<And>j s. j \<noteq> i \<Longrightarrow> jget (lrs_streams st1) j = Some s \<Longrightarrow> jget (lrs_streams st) j = Some s"
    and "covers st run" and "\<And>j. j \<noteq> i \<Longrightarrow> jget (lr_streams run') j = jget (lr_streams run) j"
    and "jget (lr_streams run') i = Some c" and "len \<le> ls_length c"
  shows "covers (writeStream i len t st1) run'"
  unfolding covers_def
proof (intro allI impI)
  fix j s
  assume j: "jget (lrs_streams (writeStream i len t st1)) j = Some s"
  show "\<exists>c. jget (lr_streams run') j = Some c \<and> lss_length s \<le> ls_length c"
  proof (cases "j = i")
    case True
    then show ?thesis using j assms(4,5) by (auto simp: writeStream_get)
  next
    case False
    then show ?thesis using j assms(1-3) by (auto simp: writeStream_get covers_def)
  qed
qed

lemma covers_set:
  assumes "\<And>j s. j \<noteq> i \<Longrightarrow> jget (lrs_streams st1) j = Some s \<Longrightarrow> jget (lrs_streams st) j = Some s"
    and "covers st run" and "len \<le> ls_length c"
  shows "covers (writeStream i len t st1) (run\<lparr>lr_streams := jset i c (lr_streams run)\<rparr>)"
  using assms by (intro covers_write [where st = st and run = run and c = c]) (auto simp: jget_set)

text \<open>One item that the Host forwards continues what the client holds.\<close>

lemma covers_replace:
  assumes cov: "covers st run" and np: "not_past after run"
    and other: "\<And>j s. j \<noteq> liveStreamKeyId key \<Longrightarrow> jget (lrs_streams st1) j = Some s \<Longrightarrow> jget (lrs_streams st) j = Some s"
  shows "covers (writeStream (liveStreamKeyId key) len t st1) (fst (ledgerItem after (Replace key len x) (run, changed, gap)))
    \<and> snd (snd (ledgerItem after (Replace key len x) (run, changed, gap))) = gap"
proof (cases "\<exists>c. jget (lr_streams run) (liveStreamKeyId key) = Some c \<and> len < ls_length c")
  case True
  then obtain c where c: "jget (lr_streams run) (liveStreamKeyId key) = Some c" "len < ls_length c" by blast
  have "covers (writeStream (liveStreamKeyId key) len t st1) run"
    using c by (intro covers_write [OF other cov refl c(1)]) auto
  then show ?thesis unfolding ledger_replace_skip [OF np c] by simp
next
  case False
  then have "\<And>c. jget (lr_streams run) (liveStreamKeyId key) = Some c \<Longrightarrow> ls_length c \<le> len"
    by (meson not_le)
  from ledger_replace_set [where x = x and changed = changed and gap = gap, OF np this] obtain c changed' where
    c: "ls_length c = len" "ledgerItem after (Replace key len x) (run, changed, gap) =
      (run\<lparr>lr_streams := jset (liveStreamKeyId key) c (lr_streams run)\<rparr>, changed', gap)" by blast
  have "len \<le> ls_length c" using c(1) by simp
  from covers_set [OF other cov this] show ?thesis unfolding c(2) by simp
qed

lemma covers_append:
  assumes cov: "covers st run" and np: "not_past after run" and x: "x \<noteq> []"
    and held: "case jget (lr_streams run) (liveStreamKeyId key) of Some c \<Rightarrow> offset \<le> ls_length c | None \<Rightarrow> offset = 0"
    and other: "\<And>j s. j \<noteq> liveStreamKeyId key \<Longrightarrow> jget (lrs_streams st1) j = Some s \<Longrightarrow> jget (lrs_streams st) j = Some s"
  shows "covers (writeStream (liveStreamKeyId key) (offset + length x) t st1)
      (fst (ledgerItem after (Append key offset x) (run, changed, gap)))
    \<and> snd (snd (ledgerItem after (Append key offset x) (run, changed, gap))) = gap"
proof (cases "\<exists>c. jget (lr_streams run) (liveStreamKeyId key) = Some c \<and> offset + length x \<le> ls_length c")
  case True
  then obtain c where c: "jget (lr_streams run) (liveStreamKeyId key) = Some c" "offset + length x \<le> ls_length c"
    by blast
  have "covers (writeStream (liveStreamKeyId key) (offset + length x) t st1) run"
    using c by (intro covers_write [OF other cov refl c(1)]) auto
  then show ?thesis unfolding ledger_append_skip [OF np c] by simp
next
  case False
  then have "case jget (lr_streams run) (liveStreamKeyId key) of None \<Rightarrow> offset = 0 \<and> x \<noteq> []
      | Some c \<Rightarrow> offset \<le> ls_length c \<and> ls_length c < offset + length x"
    using held x by (auto split: option.splits)
  from ledger_append_set [where changed = changed and gap = gap, OF np this] obtain c changed' where
    c: "ls_length c = offset + length x" "ledgerItem after (Append key offset x) (run, changed, gap) =
      (run\<lparr>lr_streams := jset (liveStreamKeyId key) c (lr_streams run)\<rparr>, changed', gap)" by blast
  have "offset + length x \<le> ls_length c" using c(1) by simp
  from covers_set [OF other cov this] show ?thesis unfolding c(2) by simp
qed

lemma covers_item:
  assumes cov: "covers st run" and np: "not_past after run" and host: "applyItem opt item st = (st', Some f)"
  shows "covers st' (fst (ledgerItem after f (run, changed, gap))) \<and>
    snd (snd (ledgerItem after f (run, changed, gap))) = gap"
proof (cases item)
  case (Replace key len "text")
  then have f: "f = Replace key len text"
    and st': "st' = writeStream (liveStreamKeyId key) len text (openStream opt (liveStreamKeyId key) key st)"
    using host by (auto simp: Let_def)
  show ?thesis unfolding f st' by (rule covers_replace [OF cov np openStream_get_other])
next
  case (Append key offset "text")
  let ?i = "liveStreamKeyId key"
  define st1 where "st1 = (if jget (lrs_streams st) ?i = None \<and> offset = 0 then openStream opt ?i key st else st)"
  obtain s where s: "jget (lrs_streams st1) ?i = Some s" and fwd: "\<not> offset + length text \<le> lss_length s"
      "\<not> offset > lss_length s"
    and f: "f = Append key (lss_length s) (drop (lss_length s - offset) text)"
    and st': "st' = writeStream ?i (offset + length text)
        (appendLiveStreamTail (lss_tail s) (drop (lss_length s - offset) text)) st1"
    using host Append by (auto simp: Let_def st1_def split: option.splits if_splits)
  have other: "j \<noteq> ?i \<Longrightarrow> jget (lrs_streams st1) j = Some s \<Longrightarrow> jget (lrs_streams st) j = Some s" for j s
    by (auto simp: st1_def dest: openStream_get_other split: if_splits)
  have len: "offset + length text = lss_length s + length (drop (lss_length s - offset) text)"
    using fwd by simp
  have held: "case jget (lr_streams run) ?i of Some c \<Rightarrow> lss_length s \<le> ls_length c | None \<Rightarrow> lss_length s = 0"
  proof (cases "jget (lrs_streams st) ?i")
    case (Some s0)
    then have "s0 = s" using s by (simp add: st1_def)
    then obtain c where "jget (lr_streams run) ?i = Some c" "lss_length s \<le> ls_length c"
      using cov Some unfolding covers_def by blast
    then show ?thesis by simp
  next
    case None
    then have "lss_length s = 0" using s by (auto simp: st1_def openStream_get split: if_splits)
    then show ?thesis by (simp split: option.splits)
  qed
  have "drop (lss_length s - offset) text \<noteq> []" using fwd by simp
  from covers_append [OF cov np this held other] show ?thesis unfolding f st' len .
qed


text \<open>A valid item that the Host does not forward leaves what it holds as it was.\<close>

lemma applyItem_unforwarded:
  assumes "liveItemValid item" and "applyItem opt item st = (st', None)"
  shows "st' = st"
proof (cases item)
  case (Replace key len "text")
  then show ?thesis using assms(2) by (simp add: Let_def)
next
  case (Append key offset "text")
  then show ?thesis
    using assms by (auto simp: Let_def openStream_get split: option.splits if_splits)
qed

lemma applyItem_after: "applyItem opt item st = (st', r) \<Longrightarrow> lrs_afterSequence st' = lrs_afterSequence st"
  using applyItem_same(4) [of opt item st] by simp

lemma covers_items:
  assumes "list_all liveItemValid items" and "covers st run" and "not_past after run"
    and "applyItems opt items st = (st', accepted)"
  shows "covers st' (fst (foldl (\<lambda>acc item. ledgerItem after item acc) (run, changed, False) accepted)) \<and>
    snd (snd (foldl (\<lambda>acc item. ledgerItem after item acc) (run, changed, False) accepted)) = False"
  using assms
proof (induction items arbitrary: st run changed accepted)
  case Nil
  then show ?case by simp
next
  case (Cons item items)
  obtain st1 fwd where item: "applyItem opt item st = (st1, fwd)" by (cases "applyItem opt item st")
  obtain st2 acc where rest: "applyItems opt items st1 = (st2, acc)" by (cases "applyItems opt items st1")
  have st': "st' = st2" and accepted: "accepted = (case fwd of None \<Rightarrow> acc | Some f \<Rightarrow> f # acc)"
    using Cons.prems(4) item rest by auto
  show ?case
  proof (cases fwd)
    case None
    have "liveItemValid item" using Cons.prems(1) by simp
    then have "st1 = st" using item None by (intro applyItem_unforwarded) auto
    then show ?thesis
      using Cons.IH [of st run acc changed] Cons.prems(1-3) rest st' accepted None by simp
  next
    case (Some f)
    obtain run1 changed1 gap1 where l: "ledgerItem after f (run, changed, False) = (run1, changed1, gap1)"
      by (cases "ledgerItem after f (run, changed, False)")
    have c: "covers st1 run1 \<and> gap1 = False"
      using covers_item [OF Cons.prems(2,3), of opt item st1 f changed False] item Some l by simp
    have "not_past after run1"
      using not_past_item [of after after f "(run, changed, False)"] Cons.prems(3) l by simp
    then show ?thesis
      using Cons.IH [of st1 run1 acc changed1] Cons.prems(1) rest st' accepted Some c l by simp
  qed
qed

declare ledgerItem.simps [simp del]

subsection \<open>Frames reach the Run they name\<close>

definition client_open :: "ident \<Rightarrow> ident \<Rightarrow> ident \<Rightarrow> live_ledger \<Rightarrow> bool" where
  "client_open k t w lg \<longleftrightarrow> k \<notin> set (lg_endedRuns lg) \<and>
     (case jget (lg_runs lg) k of None \<Rightarrow> True | Some run \<Rightarrow> lr_threadId run = t \<and> lr_workspaceId run = w)"

definition client_run :: "ident \<Rightarrow> ident \<Rightarrow> ident \<Rightarrow> live_ledger \<Rightarrow> ledger_run" where
  "client_run k t w lg =
     (case jget (lg_runs lg) k of Some run \<Rightarrow> run
      | None \<Rightarrow> \<lparr>lr_runId = k, lr_streams = [], lr_threadId = t, lr_tombstones = [], lr_workspaceId = w\<rparr>)"

text \<open>A connection's frames in order, and whether any of them showed a gap.\<close>

fun ledgerReceive :: "live_frame list \<Rightarrow> live_ledger \<Rightarrow> live_ledger \<times> bool" where
  "ledgerReceive [] lg = (lg, False)"
| "ledgerReceive (f # fs) lg =
     (case ledgerApply f lg of (lg1, _, gap) \<Rightarrow>
        (case ledgerReceive fs lg1 of (lg2, gaps) \<Rightarrow> (lg2, gap \<or> gaps)))"

lemma ledgerItems_ids [simp]:
  "lr_tombstones (fst (ledgerItems after items run)) = lr_tombstones run"
  "lr_threadId (fst (ledgerItems after items run)) = lr_threadId run"
  "lr_workspaceId (fst (ledgerItems after items run)) = lr_workspaceId run"
proof -
  have "lr_tombstones (fst (foldl (\<lambda>acc item. ledgerItem after item acc) acc items)) = lr_tombstones (fst acc) \<and>
      lr_threadId (fst (foldl (\<lambda>acc item. ledgerItem after item acc) acc items)) = lr_threadId (fst acc) \<and>
      lr_workspaceId (fst (foldl (\<lambda>acc item. ledgerItem after item acc) acc items)) = lr_workspaceId (fst acc)" for acc
    by (induction items arbitrary: acc) auto
  then show "lr_tombstones (fst (ledgerItems after items run)) = lr_tombstones run"
    "lr_threadId (fst (ledgerItems after items run)) = lr_threadId run"
    "lr_workspaceId (fst (ledgerItems after items run)) = lr_workspaceId run"
    by (simp_all add: ledgerItems_def)
qed

lemma client_ids:
  assumes "client_open k t w lg"
  shows "lr_threadId (client_run k t w lg) = t" and "lr_workspaceId (client_run k t w lg) = w"
  using assms by (auto simp: client_open_def client_run_def split: option.splits)

lemma ledgerRun_open:
  assumes "client_open k t w lg"
  shows "ledgerRun k t w lg = (fst (ledgerRun k t w lg), Some (client_run k t w lg))"
    and "lg_endedRuns (fst (ledgerRun k t w lg)) = lg_endedRuns lg"
  using assms by (auto simp: ledgerRun_def client_open_def client_run_def Let_def split: option.splits)

lemma ledgerApply_open:
  assumes "client_open k t w lg" and "lp_runId p = k" and "lp_threadId p = t" and "lp_workspaceId p = w"
  shows "client_open k t w (fst (ledgerApply \<lparr>lf_afterSequence = after, lf_progress = p\<rparr> lg))"
    and "client_run k t w (fst (ledgerApply \<lparr>lf_afterSequence = after, lf_progress = p\<rparr> lg)) =
           fst (ledgerItems after (lp_items p) (client_run k t w lg))"
    and "snd (snd (ledgerApply \<lparr>lf_afterSequence = after, lf_progress = p\<rparr> lg)) =
           snd (snd (ledgerItems after (lp_items p) (client_run k t w lg)))"
proof -
  define run where "run = client_run k t w lg"
  define run' where "run' = fst (ledgerItems after (lp_items p) run)"
  define lg1 where "lg1 = fst (ledgerRun k t w lg)"
  have r: "ledgerRun k t w lg = (lg1, Some run)" and e: "lg_endedRuns lg1 = lg_endedRuns lg"
    using ledgerRun_open [OF assms(1)] by (simp_all add: lg1_def run_def)
  have k: "k \<notin> set (lg_endedRuns lg)" using assms(1) by (simp add: client_open_def)
  obtain changed gap where it: "ledgerItems after (lp_items p) run = (run', changed, gap)"
    by (cases "ledgerItems after (lp_items p) run") (auto simp: run'_def)
  have ids: "lr_threadId run' = t \<and> lr_workspaceId run' = w"
    using client_ids [OF assms(1)] by (simp add: run'_def run_def)
  have lg2: "fst (ledgerApply \<lparr>lf_afterSequence = after, lf_progress = p\<rparr> lg) =
      lg1\<lparr>lg_runs := jset k run' (lg_runs lg1)\<rparr>"
    and gap: "snd (snd (ledgerApply \<lparr>lf_afterSequence = after, lf_progress = p\<rparr> lg)) = gap"
    using assms(2-4) k r it by (simp_all add: ledgerApply_def Let_def)
  show "client_open k t w (fst (ledgerApply \<lparr>lf_afterSequence = after, lf_progress = p\<rparr> lg))"
    unfolding lg2 using k e ids by (simp add: client_open_def jget_set)
  show "client_run k t w (fst (ledgerApply \<lparr>lf_afterSequence = after, lf_progress = p\<rparr> lg)) =
      fst (ledgerItems after (lp_items p) (client_run k t w lg))"
    unfolding lg2 by (simp add: client_run_def jget_set run'_def run_def)
  show "snd (snd (ledgerApply \<lparr>lf_afterSequence = after, lf_progress = p\<rparr> lg)) =
      snd (snd (ledgerItems after (lp_items p) (client_run k t w lg)))"
    unfolding gap using it by (simp add: run_def)
qed

subsection \<open>Joining\<close>

definition holds_upto :: "ledger_run \<Rightarrow> utf16 \<Rightarrow> nat \<Rightarrow> bool" where
  "holds_upto run i n \<longleftrightarrow> (\<exists>c. jget (lr_streams run) i = Some c \<and> n \<le> ls_length c)"

text \<open>An item leaves the streams as they were or replaces one by a stream at least as long.\<close>

lemma ledgerItem_streams:
  "lr_streams (fst (ledgerItem after item (run, changed, gap))) = lr_streams run \<or>
   (\<exists>i c. (\<forall>c0. jget (lr_streams run) i = Some c0 \<longrightarrow> ls_length c0 \<le> ls_length c) \<and>
      lr_streams (fst (ledgerItem after item (run, changed, gap))) = jset i c (lr_streams run))"
  (is "?same \<or> ?grown")
proof (cases item)
  case (Replace key len x)
  let ?i = "liveStreamKeyId key"
  let ?c = "\<lparr>ls_key = key, ls_length = len,
    ls_openedAfter = (case jget (lr_streams run) ?i of None \<Rightarrow> after | Some c \<Rightarrow> ls_openedAfter c), ls_tail = x\<rparr>"
  have "?same \<or> ((\<forall>c0. jget (lr_streams run) ?i = Some c0 \<longrightarrow> ls_length c0 \<le> ls_length ?c) \<and>
      lr_streams (fst (ledgerItem after item (run, changed, gap))) = jset ?i ?c (lr_streams run))"
    using Replace by (simp add: ledgerItem.simps Let_def liveStreamKeyOf_def not_less split: option.split)
  then show ?thesis by blast
next
  case (Append key offset x)
  let ?i = "liveStreamKeyId key"
  let ?s = "case jget (lr_streams run) ?i of Some s \<Rightarrow> s
    | None \<Rightarrow> \<lparr>ls_key = key, ls_length = 0, ls_openedAfter = after, ls_tail = []\<rparr>"
  let ?c = "?s\<lparr>ls_tail := appendLiveStreamTail (ls_tail ?s) (drop (ls_length ?s - offset) x),
    ls_length := offset + length x\<rparr>"
  have "?same \<or> ((\<forall>c0. jget (lr_streams run) ?i = Some c0 \<longrightarrow> ls_length c0 \<le> ls_length ?c) \<and>
      lr_streams (fst (ledgerItem after item (run, changed, gap))) = jset ?i ?c (lr_streams run))"
    using Append by (simp add: ledgerItem.simps Let_def liveStreamKeyOf_def split: option.split)
  then show ?thesis by blast
qed

lemma holds_upto_item:
  assumes "holds_upto (fst acc) i n"
  shows "holds_upto (fst (ledgerItem after item acc)) i n"
proof -
  obtain run changed gap where acc: "acc = (run, changed, gap)" by (cases acc)
  from ledgerItem_streams [of after item run changed gap] assms show ?thesis
    unfolding acc holds_upto_def by (auto simp: jget_set intro: order_trans)
qed

lemma holds_upto_replace:
  assumes "not_past after (fst acc)"
  shows "holds_upto (fst (ledgerItem after (Replace key len x) acc)) (liveStreamKeyId key) len \<and>
    snd (snd (ledgerItem after (Replace key len x) acc)) = snd (snd acc)"
proof -
  obtain run changed gap where acc: "acc = (run, changed, gap)" by (cases acc)
  then have np: "not_past after run" using assms by simp
  show ?thesis
  proof (cases "\<exists>c. jget (lr_streams run) (liveStreamKeyId key) = Some c \<and> len < ls_length c")
    case True
    then obtain c where c: "jget (lr_streams run) (liveStreamKeyId key) = Some c" "len < ls_length c" by blast
    show ?thesis unfolding acc ledger_replace_skip [OF np c] using c by (simp add: holds_upto_def)
  next
    case False
    then have le: "\<And>c. jget (lr_streams run) (liveStreamKeyId key) = Some c \<Longrightarrow> ls_length c \<le> len"
      by (meson not_le)
    obtain c changed' where "ls_length c = len" "ledgerItem after (Replace key len x) (run, changed, gap) =
        (run\<lparr>lr_streams := jset (liveStreamKeyId key) c (lr_streams run)\<rparr>, changed', gap)"
      using ledger_replace_set [where x = x and changed = changed and gap = gap, OF np le] by blast
    then show ?thesis unfolding acc by (auto simp: holds_upto_def jget_set)
  qed
qed

lemma holds_upto_mono_fold:
  "holds_upto (fst acc) i n \<Longrightarrow> holds_upto (fst (foldl (\<lambda>acc item. ledgerItem after item acc) acc items)) i n"
  by (induction items arbitrary: acc) (simp_all add: holds_upto_item)

lemma join_items:
  assumes "not_past after run"
  shows "(\<forall>s \<in> set ss. holds_upto (fst (ledgerItems after (map replacementItem ss) run))
        (liveStreamKeyId (lss_key s)) (lss_length s)) \<and>
    snd (snd (ledgerItems after (map replacementItem ss) run)) = False"
proof -
  have "not_past after (fst acc) \<Longrightarrow>
    (\<forall>s \<in> set ss. holds_upto (fst (foldl (\<lambda>acc item. ledgerItem after item acc) acc (map replacementItem ss)))
        (liveStreamKeyId (lss_key s)) (lss_length s)) \<and>
    snd (snd (foldl (\<lambda>acc item. ledgerItem after item acc) acc (map replacementItem ss))) = snd (snd acc)" for acc
  proof (induction ss arbitrary: acc)
    case Nil
    then show ?case by simp
  next
    case (Cons s ss)
    let ?acc = "ledgerItem after (replacementItem s) acc"
    have one: "holds_upto (fst ?acc) (liveStreamKeyId (lss_key s)) (lss_length s)" "snd (snd ?acc) = snd (snd acc)"
      using holds_upto_replace [OF Cons.prems] by (auto simp: replacementItem_def)
    have "not_past after (fst ?acc)" using Cons.prems by simp
    from Cons.IH [OF this] show ?case
      using one holds_upto_mono_fold [OF one(1)] by simp
  qed
  from this [of "(run, [], False)"] show ?thesis using assms by (simp add: ledgerItems_def)
qed

lemma foldl_ledger_changed:
  "fst (foldl (\<lambda>acc item. ledgerItem after item acc) (run, c, g) items) =
     fst (foldl (\<lambda>acc item. ledgerItem after item acc) (run, c', g') items)"
proof (induction items arbitrary: run c g c' g')
  case Nil
  then show ?case by simp
next
  case (Cons item items)
  have "fst (ledgerItem after item (run, c, g)) = fst (ledgerItem after item (run, c', g'))"
    by (cases item) (auto simp: ledgerItem.simps Let_def split: option.split)
  then show ?case
    using Cons.IH by (cases "ledgerItem after item (run, c, g)"; cases "ledgerItem after item (run, c', g')") simp
qed

lemma ledgerItems_append:
  "fst (ledgerItems after (xs @ ys) run) = fst (ledgerItems after ys (fst (ledgerItems after xs run)))"
proof -
  obtain r c g where "foldl (\<lambda>acc item. ledgerItem after item acc) (run, [], False) xs = (r, c, g)"
    by (cases "foldl (\<lambda>acc item. ledgerItem after item acc) (run, [], False) xs")
  then show ?thesis
    using foldl_ledger_changed [of after r c g ys "[]" False] by (simp add: ledgerItems_def)
qed

text \<open>Several frames of one Run are one list of items.\<close>

lemma ledgerReceive_open:
  assumes "client_open k t w lg"
    and "\<forall>f \<in> set fs. lf_afterSequence f = after \<and> lp_runId (lf_progress f) = k \<and>
           lp_threadId (lf_progress f) = t \<and> lp_workspaceId (lf_progress f) = w"
  shows "client_open k t w (fst (ledgerReceive fs lg)) \<and>
    client_run k t w (fst (ledgerReceive fs lg)) =
      fst (ledgerItems after (concat (map (\<lambda>f. lp_items (lf_progress f)) fs)) (client_run k t w lg))"
  using assms
proof (induction fs arbitrary: lg)
  case Nil
  then show ?case by (simp add: ledgerItems_def)
next
  case (Cons f fs)
  obtain p where f: "f = \<lparr>lf_afterSequence = after, lf_progress = p\<rparr>"
    and p: "lp_runId p = k" "lp_threadId p = t" "lp_workspaceId p = w"
    using Cons.prems(2) by (cases f) auto
  note step = ledgerApply_open [OF Cons.prems(1) p, of after, folded f]
  have "fst (ledgerReceive (f # fs) lg) = fst (ledgerReceive fs (fst (ledgerApply f lg)))"
    by (simp add: case_prod_unfold)
  then show ?case
    using Cons.IH [OF step(1)] Cons.prems(2) step(2) f by (simp add: ledgerItems_append)
qed


section \<open>A client connected to a Host\<close>

text \<open>
  \<open>hostFrames\<close>: the frames a Run's progress produces on the Host, batch after batch, with the
  Run state the Host is left with (\<open>applyProgress\<close> on a Run it follows).
\<close>

fun hostFrames :: "registry_options \<Rightarrow> (int \<times> live_item list) list \<Rightarrow> live_run_state
    \<Rightarrow> live_run_state \<times> live_frame list" where
  "hostFrames opt [] st = (st, [])"
| "hostFrames opt ((now, items) # batches) st =
     (case applyItems opt items (st\<lparr>lrs_touchedAt := now\<rparr>) of
        (st1, accepted) \<Rightarrow>
          (case hostFrames opt batches st1 of
             (st2, frames) \<Rightarrow>
               (st2, if accepted = [] then frames
                     else \<lparr>lf_afterSequence = lrs_afterSequence st1,
                            lf_progress = \<lparr>lp_items = accepted, lp_runId = lrs_runId st,
                              lp_threadId = lrs_threadId st, lp_workspaceId = lrs_workspaceId st\<rparr>\<rparr> # frames)))"

text \<open>What \<open>hostFrames\<close> says of one batch is what \<open>applyProgress\<close> does.\<close>

lemma hostFrames_applyProgress:
  assumes "jget reg k = Some st" and "lrs_runId st = k"
  shows "snd (applyProgress opt now \<lparr>lp_items = items, lp_runId = k, lp_threadId = lrs_threadId st,
           lp_workspaceId = lrs_workspaceId st\<rparr> reg) =
         (case snd (hostFrames opt [(now, items)] st) of [] \<Rightarrow> None | f # _ \<Rightarrow> Some f) \<and>
       jget (fst (applyProgress opt now \<lparr>lp_items = items, lp_runId = k, lp_threadId = lrs_threadId st,
           lp_workspaceId = lrs_workspaceId st\<rparr> reg)) k = Some (fst (hostFrames opt [(now, items)] st))"
  using assms by (simp add: applyProgress_def case_prod_unfold jget_set)

lemma applyItems_same [simp]:
  "lrs_runId (fst (applyItems opt items st)) = lrs_runId st"
  "lrs_threadId (fst (applyItems opt items st)) = lrs_threadId st"
  "lrs_workspaceId (fst (applyItems opt items st)) = lrs_workspaceId st"
  "lrs_afterSequence (fst (applyItems opt items st)) = lrs_afterSequence st"
  by (induction items arbitrary: st; simp add: case_prod_unfold)+

lemma follow_host:
  assumes "client_open (lrs_runId st) (lrs_threadId st) (lrs_workspaceId st) lg"
    and "covers st (client_run (lrs_runId st) (lrs_threadId st) (lrs_workspaceId st) lg)"
    and "not_past (lrs_afterSequence st) (client_run (lrs_runId st) (lrs_threadId st) (lrs_workspaceId st) lg)"
    and "\<forall>(now, items) \<in> set batches. list_all liveItemValid items"
    and "hostFrames opt batches st = (st', frames)"
  shows "snd (ledgerReceive frames lg) = False \<and>
    covers st' (client_run (lrs_runId st) (lrs_threadId st) (lrs_workspaceId st) (fst (ledgerReceive frames lg)))"
  using assms
proof (induction batches arbitrary: st lg frames)
  case Nil
  then show ?case by simp
next
  case (Cons batch batches)
  obtain now items where batch: "batch = (now, items)" by (cases batch)
  define st0 where "st0 = st\<lparr>lrs_touchedAt := now\<rparr>"
  obtain st1 accepted where ai: "applyItems opt items st0 = (st1, accepted)" by (cases "applyItems opt items st0")
  obtain st2 rest where hf: "hostFrames opt batches st1 = (st2, rest)" by (cases "hostFrames opt batches st1")
  have st1: "lrs_runId st1 = lrs_runId st" "lrs_threadId st1 = lrs_threadId st"
      "lrs_workspaceId st1 = lrs_workspaceId st" "lrs_afterSequence st1 = lrs_afterSequence st"
    using applyItems_same [of opt items st0, unfolded ai] by (simp_all add: st0_def)
  define run where "run = client_run (lrs_runId st) (lrs_threadId st) (lrs_workspaceId st) lg"
  have st': "st' = st2" and frames: "frames = (if accepted = [] then rest
      else \<lparr>lf_afterSequence = lrs_afterSequence st1, lf_progress = \<lparr>lp_items = accepted, lp_runId = lrs_runId st,
             lp_threadId = lrs_threadId st, lp_workspaceId = lrs_workspaceId st\<rparr>\<rparr> # rest)"
    using Cons.prems(5) ai hf by (simp_all add: batch st0_def)
  have cov0: "covers st0 run" using Cons.prems(2) by (simp add: covers_def st0_def run_def)
  have valid: "list_all liveItemValid items" using Cons.prems(4) batch by simp
  have np: "not_past (lrs_afterSequence st) run" using Cons.prems(3) by (simp add: run_def)
  have cov1: "covers st1 (fst (ledgerItems (lrs_afterSequence st) accepted run)) \<and>
      snd (snd (ledgerItems (lrs_afterSequence st) accepted run)) = False"
    unfolding ledgerItems_def by (rule covers_items [OF valid cov0 np ai])
  have IH: "snd (ledgerReceive rest lg1) = False \<and> covers st2 (client_run (lrs_runId st) (lrs_threadId st)
        (lrs_workspaceId st) (fst (ledgerReceive rest lg1)))"
    if "client_open (lrs_runId st) (lrs_threadId st) (lrs_workspaceId st) lg1"
      "client_run (lrs_runId st) (lrs_threadId st) (lrs_workspaceId st) lg1 = run1"
      "covers st1 run1" "not_past (lrs_afterSequence st) run1" for lg1 run1
    using Cons.IH [of st1 lg1 rest] that Cons.prems(4) hf st' by (simp add: st1)
  show ?case
  proof (cases "accepted = []")
    case True
    then show ?thesis
      using IH [of lg run] Cons.prems(1,2) np cov1 st' frames by (simp add: run_def ledgerItems_def)
  next
    case False
    define p where "p = \<lparr>lp_items = accepted, lp_runId = lrs_runId st,
      lp_threadId = lrs_threadId st, lp_workspaceId = lrs_workspaceId st\<rparr>"
    define f where "f = \<lparr>lf_afterSequence = lrs_afterSequence st, lf_progress = p\<rparr>"
    have fr: "frames = f # rest" using frames False by (simp add: f_def p_def st1)
    note step = ledgerApply_open [OF Cons.prems(1), of p "lrs_afterSequence st", folded f_def]
    have "not_past (lrs_afterSequence st) (fst (ledgerItems (lrs_afterSequence st) accepted run))"
      using np by (simp add: not_past_def)
    then have "snd (ledgerReceive rest (fst (ledgerApply f lg))) = False \<and>
      covers st2 (client_run (lrs_runId st) (lrs_threadId st) (lrs_workspaceId st)
        (fst (ledgerReceive rest (fst (ledgerApply f lg)))))"
      using step cov1 by (intro IH) (simp_all add: p_def run_def)
    then show ?thesis
      using step(3) cov1 st' unfolding fr by (simp add: case_prod_unfold p_def run_def)
  qed
qed

lemma ledgerReceive_append:
  "fst (ledgerReceive (fs @ gs) lg) = fst (ledgerReceive gs (fst (ledgerReceive fs lg)))"
  "snd (ledgerReceive (fs @ gs) lg) = (snd (ledgerReceive fs lg) \<or> snd (ledgerReceive gs (fst (ledgerReceive fs lg))))"
  by (induction fs arbitrary: lg) (auto simp: case_prod_unfold)

lemma join_no_gap:
  assumes "client_open k t w lg" and "not_past after (client_run k t w lg)"
    and "\<forall>f \<in> set fs. lf_afterSequence f = after \<and> lp_runId (lf_progress f) = k \<and>
           lp_threadId (lf_progress f) = t \<and> lp_workspaceId (lf_progress f) = w \<and>
           (\<exists>ss. lp_items (lf_progress f) = map replacementItem ss)"
  shows "snd (ledgerReceive fs lg) = False"
  using assms
proof (induction fs arbitrary: lg)
  case Nil
  then show ?case by simp
next
  case (Cons f fs)
  obtain p ss where f: "f = \<lparr>lf_afterSequence = after, lf_progress = p\<rparr>"
    and p: "lp_runId p = k" "lp_threadId p = t" "lp_workspaceId p = w" and ss: "lp_items p = map replacementItem ss"
    using Cons.prems(3) by (cases f) auto
  note step = ledgerApply_open [OF Cons.prems(1) p, of after, folded f]
  have "not_past after (client_run k t w (fst (ledgerApply f lg)))"
    using Cons.prems(2) step(2) by (simp add: not_past_def)
  then show ?case
    using Cons.IH [OF step(1)] Cons.prems(3) step(3) join_items [OF Cons.prems(2), of ss] ss
    by (simp add: case_prod_unfold)
qed

lemma replacementFrames_frame:
  assumes "f \<in> set (replacementFrames st)"
  shows "lf_afterSequence f = lrs_afterSequence st" and "lp_runId (lf_progress f) = lrs_runId st"
    and "lp_threadId (lf_progress f) = lrs_threadId st" and "lp_workspaceId (lf_progress f) = lrs_workspaceId st"
  using assms by (auto simp: replacementFrames_def)

lemma replacementFrames_items:
  "concat (map (\<lambda>f. lp_items (lf_progress f)) (replacementFrames st)) =
     map replacementItem (jvalues (lrs_streams st))"
  using frameGroups_spec [of 0 "[]" "map replacementItem (jvalues (lrs_streams st))"]
  by (simp add: replacementFrames_def comp_def liveProgressMaxItems_def replacementFrameMaxCharacters_def)

lemma replacementFrames_replace:
  assumes "f \<in> set (replacementFrames st)"
  shows "\<exists>ss. lp_items (lf_progress f) = map replacementItem ss"
proof -
  have "set (lp_items (lf_progress f)) \<subseteq> set (concat (map (\<lambda>f. lp_items (lf_progress f)) (replacementFrames st)))"
    using assms by auto
  then have "set (lp_items (lf_progress f)) \<subseteq> range replacementItem"
    unfolding replacementFrames_items by auto
  then show ?thesis by (metis ex_map_conv subset_iff rangeE)
qed

lemma join_covers:
  assumes "client_open (lrs_runId st) (lrs_threadId st) (lrs_workspaceId st) lg"
    and "not_past (lrs_afterSequence st) (client_run (lrs_runId st) (lrs_threadId st) (lrs_workspaceId st) lg)"
    and "run_ok opt st"
  shows "covers st (client_run (lrs_runId st) (lrs_threadId st) (lrs_workspaceId st)
    (fst (ledgerReceive (replacementFrames st) lg)))"
  unfolding covers_def
proof (intro allI impI)
  fix i s
  assume s: "jget (lrs_streams st) i = Some s"
  then have "(i, s) \<in> set (lrs_streams st)" by (rule map_of_SomeD)
  then have s: "s \<in> set (jvalues (lrs_streams st))" and i: "i = liveStreamKeyId (lss_key s)"
    using assms(3) by (auto simp: run_ok_def intro: rev_image_eqI)
  let ?run = "client_run (lrs_runId st) (lrs_threadId st) (lrs_workspaceId st)"
  have run: "?run (fst (ledgerReceive (replacementFrames st) lg)) =
      fst (ledgerItems (lrs_afterSequence st) (map replacementItem (jvalues (lrs_streams st))) (?run lg))"
    using ledgerReceive_open [OF assms(1), of "replacementFrames st" "lrs_afterSequence st"]
    unfolding replacementFrames_items by (simp add: replacementFrames_frame)
  have "holds_upto (?run (fst (ledgerReceive (replacementFrames st) lg))) i (lss_length s)"
    using join_items [OF assms(2), of "jvalues (lrs_streams st)"] s unfolding run i by blast
  then show "\<exists>c. jget (lr_streams (?run (fst (ledgerReceive (replacementFrames st) lg)))) i = Some c \<and>
      lss_length s \<le> ls_length c" by (simp add: holds_upto_def)
qed

section \<open>Sequences of operations\<close>

datatype ledger_op =
    Receive live_frame
  | Complete agent_event
  | ResetWorkspace ident
  | ClearLedger

fun ledger_step :: "live_ledger \<Rightarrow> ledger_op \<Rightarrow> live_ledger" where
  "ledger_step lg (Receive f) = fst (ledgerApply f lg)"
| "ledger_step lg (Complete e) = ledgerComplete e lg"
| "ledger_step lg (ResetWorkspace w) = resetWorkspace w lg"
| "ledger_step lg ClearLedger = clearLedger lg"









subsection \<open>Completed streams stay closed\<close>

text \<open>Stream \<open>i\<close> of Run \<open>k\<close> was completed at \<open>q\<close> or later and is not open.\<close>

definition stream_closed :: "utf16 \<Rightarrow> sequence \<Rightarrow> ledger_run \<Rightarrow> bool" where
  "stream_closed i q run \<longleftrightarrow>
     (\<exists>t. jget (lr_tombstones run) i = Some t \<and> q \<le> t) \<and> jget (lr_streams run) i = None"

definition run_closed :: "ident \<Rightarrow> utf16 \<Rightarrow> sequence \<Rightarrow> live_ledger \<Rightarrow> bool" where
  "run_closed k i q lg \<longleftrightarrow> (\<exists>run. jget (lg_runs lg) k = Some run \<and> stream_closed i q run)"

text \<open>Operations that tell the client nothing of Run \<open>k\<close> newer than \<open>q\<close>, and do not end or restart it.\<close>

fun late_op :: "ident \<Rightarrow> sequence \<Rightarrow> ledger_op \<Rightarrow> bool" where
  "late_op k q (Receive f) \<longleftrightarrow> (lp_runId (lf_progress f) = k \<longrightarrow> lf_afterSequence f < q)"
| "late_op k q (Complete e) \<longleftrightarrow> (ev_runId e = Some k \<longrightarrow>
     \<not> terminalRunEvent (ev_type e) \<and> ev_type e \<noteq> RunRestarted)"
| "late_op k q _ \<longleftrightarrow> False"

lemma stream_closed_item:
  assumes "stream_closed i q (fst acc)" and "after < q"
  shows "stream_closed i q (fst (ledgerItem after item acc))"
proof (cases "liveStreamKeyId (liveStreamKeyOf item) = i")
  case True
  then have "ledgerItem after item acc = acc"
    using assms by (cases acc) (auto simp: stream_closed_def ledgerItem.simps Let_def)
  then show ?thesis using assms by simp
next
  case False
  then have "jget (lr_streams (fst (ledgerItem after item acc))) i = jget (lr_streams (fst acc)) i"
    by (cases acc; cases item) (auto simp: ledgerItem.simps liveStreamKeyOf_def Let_def jget_set split: option.split)
  then show ?thesis using assms by (simp add: stream_closed_def)
qed

lemma stream_closed_items:
  assumes "stream_closed i q run" and "after < q"
  shows "stream_closed i q (fst (ledgerItems after items run))"
proof -
  have "stream_closed i q (fst acc) \<Longrightarrow>
      stream_closed i q (fst (foldl (\<lambda>acc item. ledgerItem after item acc) acc items))" for acc
    using assms(2) by (induction items arbitrary: acc) (simp_all add: stream_closed_item)
  then show ?thesis using assms(1) by (simp add: ledgerItems_def)
qed

lemma stream_closed_complete:
  "stream_closed i q run \<Longrightarrow> stream_closed i q (completeLedgerStream j r run)"
  by (auto simp: stream_closed_def completeLedgerStream_def Let_def jget_set jget_del split: option.splits if_splits)

lemma ledgerRun_get:
  "jget (lg_runs lg) k = Some run \<Longrightarrow> jget (lg_runs (fst (ledgerRun j t w lg))) k = Some run"
  by (auto simp: ledgerRun_def Let_def jget_set split: option.splits)

lemma ledgerRun_Some:
  "ledgerRun k t w lg = (lg', Some run) \<Longrightarrow> jget (lg_runs lg) k = Some run0 \<Longrightarrow> run = run0"
  by (auto simp: ledgerRun_def Let_def split: option.splits if_splits)

lemma run_closed_apply:
  assumes "run_closed k i q lg" and "lp_runId (lf_progress f) = k \<longrightarrow> lf_afterSequence f < q"
  shows "run_closed k i q (fst (ledgerApply f lg))"
proof -
  obtain run where run: "jget (lg_runs lg) k = Some run" "stream_closed i q run"
    using assms(1) by (auto simp: run_closed_def)
  obtain lg1 r where lr: "ledgerRun (lp_runId (lf_progress f)) (lp_threadId (lf_progress f))
      (lp_workspaceId (lf_progress f)) lg = (lg1, r)" by (metis surj_pair)
  have kept: "jget (lg_runs lg1) k = Some run" using ledgerRun_get [OF run(1)] lr by (metis fst_conv)
  show ?thesis
  proof (cases r)
    case None
    then show ?thesis using run lr kept by (auto simp: ledgerApply_def Let_def run_closed_def)
  next
    case (Some run1)
    have "lp_runId (lf_progress f) = k \<Longrightarrow> run1 = run" using ledgerRun_Some lr run(1) Some by blast
    then show ?thesis
      using run lr kept Some assms(2) stream_closed_items [OF run(2)]
      by (auto simp: ledgerApply_def Let_def run_closed_def case_prod_unfold jget_set)
  qed
qed

lemma run_closed_complete:
  assumes "run_closed k i q lg"
    and "ev_runId e = Some k \<longrightarrow> \<not> terminalRunEvent (ev_type e) \<and> ev_type e \<noteq> RunRestarted"
  shows "run_closed k i q (ledgerComplete e lg)"
proof (cases "ev_runId e")
  case None
  then show ?thesis using assms by (simp add: ledgerComplete_def)
next
  case (Some j)
  obtain run where run: "jget (lg_runs lg) k = Some run" "stream_closed i q run"
    using assms(1) by (auto simp: run_closed_def)
  obtain lg1 r where lr: "ledgerRun j (ev_threadId e) (ev_workspaceId e) lg = (lg1, r)" by (metis surj_pair)
  have kept: "jget (lg_runs lg1) k = Some run" using ledgerRun_get [OF run(1)] lr by (metis fst_conv)
  have same: "j = k \<Longrightarrow> r = Some run1 \<Longrightarrow> run1 = run" for run1 using ledgerRun_Some lr run(1) by blast
  show ?thesis
    using run Some lr kept assms(2) same stream_closed_complete [OF run(2)]
    by (cases "completedStreamKey (ev_type e)"; cases r)
       (auto simp: ledgerComplete_def run_closed_def jget_set jget_del)
qed

interpretation lclosed: guarded_system ledger_step "late_op k q" "run_closed k i q" for k i q
proof (unfold_locales, goal_cases)
  case (1 lg x)
  then show ?case by (cases x) (simp_all add: run_closed_apply run_closed_complete)
qed

lemma completedStreamKey_event:
  "completedStreamKey t = Some key \<Longrightarrow> \<not> terminalRunEvent t \<and> t \<noteq> RunRestarted"
  by (cases t) (simp_all add: terminalRunEvent_def)

lemma complete_closes:
  assumes "completedStreamKey (ev_type e) = Some key" and "ev_runId e = Some k"
    and "client_open k (ev_threadId e) (ev_workspaceId e) lg"
    and "\<And>s. jget (lr_streams (client_run k (ev_threadId e) (ev_workspaceId e) lg)) (liveStreamKeyId key) = Some s
           \<Longrightarrow> ls_openedAfter s < ev_sequence e"
  shows "run_closed k (liveStreamKeyId key) (ev_sequence e) (ledgerComplete e lg)"
proof -
  let ?run = "client_run k (ev_threadId e) (ev_workspaceId e) lg"
  let ?i = "liveStreamKeyId key"
  have closed: "stream_closed ?i (ev_sequence e) (completeLedgerStream ?i (ev_sequence e) ?run)"
    using assms(4)
    by (auto simp: stream_closed_def completeLedgerStream_def Let_def jget_set jget_del split: option.splits)
  have "\<not> terminalRunEvent (ev_type e)" "ev_type e \<noteq> RunRestarted" "k \<notin> set (lg_endedRuns lg)"
    using completedStreamKey_event [OF assms(1)] assms(3) by (simp_all add: client_open_def)
  moreover obtain lg1 where lr: "ledgerRun k (ev_threadId e) (ev_workspaceId e) lg = (lg1, Some ?run)"
    using ledgerRun_open(1) [OF assms(3)] by blast
  ultimately have "ledgerComplete e lg = lg1\<lparr>lg_runs := jset k
      (completeLedgerStream ?i (ev_sequence e) ?run) (lg_runs lg1)\<rparr>"
    using assms(1,2) by (subst ledgerComplete_def) simp
  then show ?thesis using closed by (simp add: run_closed_def jget_set)
qed

section \<open>Properties\<close>

text \<open>C5: A client that joins a Run, taking the Host's replacement frames and then every frame the
  Host forwards, never sees a gap, and holds every stream the Host holds at least as far,
  whatever it held before and however the Runner's progress overlaps or jumps; provided its
  Run is still open and no stream was completed after what the Host follows.\<close>

theorem ledger_keeps_up:
  assumes "client_open (lrs_runId st) (lrs_threadId st) (lrs_workspaceId st) lg"
    and "not_past (lrs_afterSequence st) (client_run (lrs_runId st) (lrs_threadId st) (lrs_workspaceId st) lg)"
    and "run_ok opt st"
    and "\<forall>(now, items) \<in> set batches. list_all liveItemValid items"
    and "hostFrames opt batches st = (st', frames)"
    and "ledgerReceive (replacementFrames st @ frames) lg = (lg', gaps)"
    and "jget (lrs_streams st') i = Some s"
  shows "\<not> gaps \<and> (\<exists>c. jget (lr_streams (client_run (lrs_runId st) (lrs_threadId st) (lrs_workspaceId st) lg')) i
    = Some c \<and> lss_length s \<le> ls_length c)"
proof -
  define lg1 where "lg1 = fst (ledgerReceive (replacementFrames st) lg)"
  have same: "\<forall>f \<in> set (replacementFrames st). lf_afterSequence f = lrs_afterSequence st \<and>
      lp_runId (lf_progress f) = lrs_runId st \<and> lp_threadId (lf_progress f) = lrs_threadId st \<and>
      lp_workspaceId (lf_progress f) = lrs_workspaceId st"
    using replacementFrames_frame by blast
  note join = ledgerReceive_open [OF assms(1) same, folded lg1_def]
  have np: "not_past (lrs_afterSequence st) (client_run (lrs_runId st) (lrs_threadId st) (lrs_workspaceId st) lg1)"
    using join assms(2) by (simp add: not_past_def)
  have "snd (ledgerReceive (replacementFrames st) lg) = False"
    using same replacementFrames_replace by (intro join_no_gap [OF assms(1,2)]) blast
  moreover note follow_host [OF conjunct1 [OF join] join_covers [OF assms(1-3), folded lg1_def] np assms(4,5)]
  moreover have "lg' = fst (ledgerReceive frames lg1)"
    "gaps = (snd (ledgerReceive (replacementFrames st) lg) \<or> snd (ledgerReceive frames lg1))"
    using assms(6) ledgerReceive_append [of "replacementFrames st" frames lg] by (simp_all add: lg1_def)
  ultimately show ?thesis using assms(7) by (simp add: covers_def)
qed


text \<open>A Run with one unit of an answer, and a batch that repeats it and adds one more.\<close>

definition demoRun :: "nat \<Rightarrow> utf16 \<Rightarrow> live_run_state" where
  "demoRun n text = \<lparr>lrs_afterSequence = 3, lrs_runId = ''r'', lrs_streams =
     [(liveStreamKeyId Assistant, \<lparr>lss_key = Assistant, lss_length = n, lss_tail = text\<rparr>)],
     lrs_threadId = ''t'', lrs_touchedAt = 1, lrs_workspaceId = ''w''\<rparr>"

definition demoFrame :: "live_item \<Rightarrow> live_frame" where
  "demoFrame item = \<lparr>lf_afterSequence = 3, lf_progress =
     \<lparr>lp_items = [item], lp_runId = ''r'', lp_threadId = ''t'', lp_workspaceId = ''w''\<rparr>\<rparr>"

lemma demo_frames:
  "hostFrames defaultRegistryOptions [(1, [Append Assistant 0 [104, 105]])] (demoRun 1 [104]) =
     (demoRun 2 [104, 105], [demoFrame (Append Assistant 1 [105])])"
  by (simp add: demoRun_def demoFrame_def openStream_def writeStream_def appendLiveStreamTail_def
      liveStreamTextMaxLength_def Let_def)

theorem ledger_keeps_up_witness:
  "\<not> snd (ledgerReceive (replacementFrames (demoRun 1 [104]) @ [demoFrame (Append Assistant 1 [105])])
      \<lparr>lg_runs = [], lg_endedRuns = []\<rparr>)"
proof -
  define st where "st = demoRun 1 [104]"
  define lg where "lg = \<lparr>lg_runs = [] :: (ident, ledger_run) jsmap, lg_endedRuns = []\<rparr>"
  have 1: "client_open (lrs_runId st) (lrs_threadId st) (lrs_workspaceId st) lg"
    and 2: "not_past (lrs_afterSequence st) (client_run (lrs_runId st) (lrs_threadId st) (lrs_workspaceId st) lg)"
    and 3: "run_ok defaultRegistryOptions st"
    by (simp_all add: st_def lg_def demoRun_def client_open_def client_run_def not_past_def run_ok_def jwf_def
        defaultRegistryOptions_def)
  have 4: "\<forall>(now, items) \<in> set [(1 :: int, [Append Assistant 0 [104, 105]])]. list_all liveItemValid items"
    by (simp add: liveStreamKeyValid_def liveAppendTextMaxLength_def)
  have 5: "jget (lrs_streams (demoRun 2 [104, 105])) (liveStreamKeyId Assistant) =
      Some \<lparr>lss_key = Assistant, lss_length = 2, lss_tail = [104, 105]\<rparr>" by (simp add: demoRun_def)
  obtain lg' gaps where r: "ledgerReceive (replacementFrames st @ [demoFrame (Append Assistant 1 [105])]) lg = (lg', gaps)"
    by (metis surj_pair)
  from ledger_keeps_up [OF 1 2 3 4 demo_frames [folded st_def] r 5] r
  show ?thesis by (simp add: st_def lg_def)
qed



text \<open>Once a durable event has completed a stream the client held or had yet to see, nothing the
  Host sent before that event reopens it: frames that follow an older sequence, and
  completions of any stream, leave it closed until the Run is restarted, ended or reset.\<close>

theorem ledger_completed_stays_closed:
  assumes "completedStreamKey (ev_type e) = Some key" and "ev_runId e = Some k"
    and "client_open k (ev_threadId e) (ev_workspaceId e) lg"
    and "\<forall>s. jget (lr_streams (client_run k (ev_threadId e) (ev_workspaceId e) lg)) (liveStreamKeyId key) = Some s
           \<longrightarrow> ls_openedAfter s < ev_sequence e"
    and "\<forall>x \<in> set ops. late_op k (ev_sequence e) x"
  shows "\<not> ledgerHolds k key (foldl ledger_step (ledgerComplete e lg) ops)"
proof -
  have "run_closed k (liveStreamKeyId key) (ev_sequence e) (ledgerComplete e lg)"
    using assms(1-4) by (intro complete_closes) auto
  from lclosed.run_inv [OF this assms(5)] show ?thesis
    by (auto simp: run_closed_def stream_closed_def ledgerHolds_def)
qed

theorem ledger_completed_stays_closed_witness:
  "\<not> ledgerHolds ''r'' Assistant (foldl ledger_step
      (ledgerComplete \<lparr>ev_runId = Some ''r'', ev_sequence = 5, ev_threadId = ''t'', ev_type = AssistantMessage,
         ev_workspaceId = ''w''\<rparr>
        (fst (ledgerApply (demoFrame (Append Assistant 0 [104])) \<lparr>lg_runs = [], lg_endedRuns = []\<rparr>)))
      [Receive (demoFrame (Append Assistant 0 [104, 105]))])"
  by (rule ledger_completed_stays_closed)
    (simp_all add: client_open_def client_run_def demoFrame_def ledgerApply_def ledgerRun_def ledgerItems_def
      ledgerItem.simps Let_def liveStreamKeyOf_def appendLiveStreamTail_def liveStreamTextMaxLength_def)

end
