(* ===== verification/Tab_Order.thy ===== *)
theory Tab_Order
  imports OS_Prelude "HOL-Library.List_Lexorder" "HOL-Library.Product_Lexorder" "HOL-Library.Multiset"
    "HOL-Library.Sublist"
begin

text \<open>
  The order of a person's saved browser tabs and their groups
  (packages/core/src/browser-tab-order.ts). Identifiers are UTF-16 strings, compared unit by
  unit as the source's \<open><\<close> does; a time is the number \<open>Date.parse\<close> reads from it.
\<close>

type_synonym tab_id = utf16
type_synonym group_of = "tab_id \<rightharpoonup> tab_id"

record arrangement =
  ar_order :: "tab_id list"
  ar_groupOf :: group_of

record order_tab =
  ot_id :: tab_id
  ot_openerId :: "tab_id option"
  ot_createdAt :: int
  ot_lineageCreatedAt :: int
  ot_order :: int

datatype move_item = MoveTabs "tab_id list" | MoveGroup tab_id
datatype move_before = BeforeTab tab_id | BeforeGroup tab_id

record tab_move =
  mv_item :: move_item
  mv_groupId :: "tab_id option"
  mv_before :: "move_before option"

datatype refusal_code = BadRequest | Conflict | NotFound

type_synonym move_result = "(refusal_code \<times> string) + arrangement"

section \<open>Operations\<close>

definition indexOf :: "'a \<Rightarrow> 'a list \<Rightarrow> nat option" where
  "indexOf x xs =
     (let n = length (takeWhile (\<lambda>y. y \<noteq> x) xs) in if n < length xs then Some n else None)"

definition inGroup :: "group_of \<Rightarrow> tab_id \<Rightarrow> tab_id \<Rightarrow> bool" where
  "inGroup groupOf grp i \<longleftrightarrow> groupOf i = Some grp"

definition groupRun :: "tab_id list \<Rightarrow> tab_id \<Rightarrow> group_of \<Rightarrow> (nat \<times> nat) option" where
  "groupRun order grp groupOf =
     (let start = length (takeWhile (\<lambda>i. \<not> inGroup groupOf grp i) order) in
      if start = length order then None
      else Some (start, start + length (takeWhile (inGroup groupOf grp) (drop start order))))"

text \<open>\<open>new Map(...)\<close> keeps the last entry of a key.\<close>

definition tabById :: "order_tab list \<Rightarrow> tab_id \<rightharpoonup> order_tab" where
  "tabById tabs = map_of (rev (map (\<lambda>t. (ot_id t, t)) tabs))"

definition chainEnd :: "tab_id list \<Rightarrow> nat \<Rightarrow> tab_id option \<Rightarrow> tab_id option \<Rightarrow> (tab_id \<rightharpoonup> order_tab)
    \<Rightarrow> group_of \<Rightarrow> nat" where
  "chainEnd order offset openerId grp byId groupOf =
     offset + 1 + length (takeWhile
       (\<lambda>i. groupOf i = grp \<and> map_option ot_openerId (byId i) = Some openerId) (drop (offset + 1) order))"

definition placeOf :: "tab_id list \<Rightarrow> order_tab \<Rightarrow> (tab_id \<rightharpoonup> order_tab) \<Rightarrow> group_of \<Rightarrow> nat" where
  "placeOf order tab byId groupOf =
     (let openerAt = (case ot_openerId tab of None \<Rightarrow> None | Some p \<Rightarrow> indexOf p order);
          ungrouped =
            (case openerAt of
               None \<Rightarrow> length order
             | Some a \<Rightarrow>
                 let after = (case Option.bind (ot_openerId tab) groupOf of
                                None \<Rightarrow> a
                              | Some og \<Rightarrow> (case groupRun order og groupOf of
                                             None \<Rightarrow> a | Some (_, e) \<Rightarrow> e - 1))
                 in chainEnd order after (ot_openerId tab) None byId groupOf)
      in case groupOf (ot_id tab) of
           None \<Rightarrow> ungrouped
         | Some grp \<Rightarrow>
             (case groupRun order grp groupOf of
                None \<Rightarrow> ungrouped
              | Some (_, e) \<Rightarrow>
                  (case openerAt of
                     Some a \<Rightarrow>
                       if Option.bind (ot_openerId tab) groupOf = Some grp
                       then chainEnd order a (ot_openerId tab) (Some grp) byId groupOf else e
                   | None \<Rightarrow> e)))"

definition recorded :: "order_tab \<Rightarrow> int \<times> int \<times> int \<times> tab_id" where
  "recorded t = (ot_createdAt t, ot_lineageCreatedAt t, ot_order t, ot_id t)"

definition insertAt :: "nat \<Rightarrow> 'a list \<Rightarrow> 'a list \<Rightarrow> 'a list" where
  "insertAt n ys xs = take n xs @ ys @ drop n xs"

definition resolveBrowserTabOrder :: "tab_id list option \<Rightarrow> order_tab list \<Rightarrow> group_of \<Rightarrow> tab_id list" where
  "resolveBrowserTabOrder saved tabs groupOf =
     (let byId = tabById tabs;
          order = js_uniq (filter (\<lambda>i. byId i \<noteq> None) (case saved of None \<Rightarrow> [] | Some s \<Rightarrow> s));
          unplaced = sort_key recorded (filter (\<lambda>t. ot_id t \<notin> set order) tabs)
      in foldl (\<lambda>order tab. insertAt (placeOf order tab byId groupOf) [ot_id tab] order) order unplaced)"

text \<open>\<open>at\<close>: the place of each tab, the last one of a repeated tab.\<close>

definition tabAt :: "tab_id list \<Rightarrow> tab_id \<Rightarrow> nat" where
  "tabAt order i = (case map_of (rev (zip order [0..<length order])) i of None \<Rightarrow> 0 | Some n \<Rightarrow> n)"

definition movingTabs :: "arrangement \<Rightarrow> tab_move \<Rightarrow> (refusal_code \<times> string) + tab_id list" where
  "movingTabs a move =
     (let order = ar_order a in
      case mv_item move of
        MoveGroup grp \<Rightarrow>
          (let moving = filter (inGroup (ar_groupOf a) grp) order in
           if moving = [] then Inl (NotFound, ''Tab group not found.'')
           else if mv_groupId move \<noteq> None
             then Inl (BadRequest, ''A tab group can't go inside a group.'')
           else Inr moving)
      | MoveTabs tabIds \<Rightarrow>
          (let moving = js_uniq tabIds in
           if \<exists>i \<in> set moving. i \<notin> set order then Inl (NotFound, ''A tab is not one of your saved tabs.'')
           else Inr (sort_key (tabAt order) moving)))"

text \<open>Where in \<open>rest\<close> the moving tabs land.\<close>

definition moveIndex :: "arrangement \<Rightarrow> tab_move \<Rightarrow> tab_id list \<Rightarrow> tab_id list
    \<Rightarrow> (refusal_code \<times> string) + nat" where
  "moveIndex a move moving rest =
     (let order = ar_order a; groupOf = ar_groupOf a; target = mv_groupId move in
      case mv_before move of
        None \<Rightarrow>
          (case target of
             None \<Rightarrow> Inr (length rest)
           | Some t \<Rightarrow>
               (case groupRun rest t groupOf of
                  Some (_, e) \<Rightarrow> Inr e
                | None \<Rightarrow> Inr (length (filter (\<lambda>i. i \<notin> set moving)
                    (case moving of [] \<Rightarrow> butlast order
                     | m # _ \<Rightarrow> (case indexOf m order of
                                  None \<Rightarrow> butlast order | Some n \<Rightarrow> take n order))))))
      | Some (BeforeTab b) \<Rightarrow>
          if b \<in> set moving then Inl (BadRequest, ''A tab can't land before itself.'')
          else (case indexOf b rest of
                  None \<Rightarrow>
                    if b \<in> set order
                    then Inl (BadRequest, ''Tabs can't land before a tab of the group that is moving.'')
                    else Inl (NotFound, ''The tab to land before is not one of your saved tabs.'')
                | Some n \<Rightarrow>
                    if groupOf b \<noteq> target
                    then Inl (Conflict, ''The tab to land before is no longer in that place.'')
                    else Inr n)
      | Some (BeforeGroup g) \<Rightarrow>
          if target \<noteq> None then Inl (BadRequest, ''Inside a group, tabs land before a tab, never a group.'')
          else if mv_item move = MoveGroup g then Inl (BadRequest, ''A group can't land before itself.'')
          else (case groupRun rest g groupOf of
                  None \<Rightarrow>
                    if \<exists>i \<in> set order. inGroup groupOf g i
                    then Inl (BadRequest, ''Tabs can't land before the group they are all leaving.'')
                    else Inl (Conflict, ''The group to land before is no longer there.'')
                | Some (s, _) \<Rightarrow> Inr s))"

definition regroup :: "tab_id option \<Rightarrow> tab_id list \<Rightarrow> group_of \<Rightarrow> group_of" where
  "regroup target moving groupOf = (\<lambda>i. if i \<in> set moving then target else groupOf i)"

definition moveBrowserTabs :: "arrangement \<Rightarrow> tab_move \<Rightarrow> move_result" where
  "moveBrowserTabs a move =
     (case movingTabs a move of
        Inl e \<Rightarrow> Inl e
      | Inr moving \<Rightarrow>
          if (case mv_groupId move of None \<Rightarrow> False
              | Some t \<Rightarrow> \<not> (\<exists>i \<in> set (ar_order a). inGroup (ar_groupOf a) t i))
          then Inl (NotFound, ''Tab group not found.'')
          else
            let rest = filter (\<lambda>i. i \<notin> set moving) (ar_order a) in
            (case moveIndex a move moving rest of
               Inl e \<Rightarrow> Inl e
             | Inr index \<Rightarrow>
                 Inr \<lparr>ar_order = insertAt index moving rest,
                      ar_groupOf = (case mv_item move of
                                      MoveGroup _ \<Rightarrow> ar_groupOf a
                                    | MoveTabs _ \<Rightarrow> regroup (mv_groupId move) moving (ar_groupOf a))\<rparr>))"

definition groupBrowserTabs :: "arrangement \<Rightarrow> tab_id list \<Rightarrow> tab_id \<Rightarrow> arrangement" where
  "groupBrowserTabs a tabIds groupId =
     (let order = ar_order a; groupOf = ar_groupOf a;
          joining = filter (\<lambda>i. i \<in> set tabIds \<and> \<not> inGroup groupOf groupId i) order
      in if joining = [] then a
         else if \<exists>i \<in> set order. inGroup groupOf groupId i then
           (case moveBrowserTabs a \<lparr>mv_item = MoveTabs joining, mv_groupId = Some groupId, mv_before = None\<rparr> of
              Inr a' \<Rightarrow> a' | Inl _ \<Rightarrow> a)
         else
           let rest = filter (\<lambda>i. i \<notin> set joining) order;
               before = (case indexOf (hd joining) order of None \<Rightarrow> butlast order | Some n \<Rightarrow> take n order);
               index0 = length (filter (\<lambda>i. i \<notin> set joining) before);
               split = (if 0 < index0 \<and> index0 < length rest then groupOf (rest ! (index0 - 1)) else None);
               index = (case split of
                          None \<Rightarrow> index0
                        | Some s \<Rightarrow>
                            if groupOf (rest ! index0) = Some s
                            then (case groupRun rest s groupOf of None \<Rightarrow> index0 | Some (_, e) \<Rightarrow> e)
                            else index0)
           in \<lparr>ar_order = insertAt index joining rest, ar_groupOf = regroup (Some groupId) joining groupOf\<rparr>)"

definition ungroupOne :: "tab_id list \<Rightarrow> arrangement \<Rightarrow> tab_id \<Rightarrow> arrangement" where
  "ungroupOne leaving a grp =
     (let order = ar_order a;
          members = filter (inGroup (ar_groupOf a) grp) order;
          out = filter (\<lambda>i. i \<in> set leaving) members;
          groupOf = regroup None out (ar_groupOf a)
      in if length out = length members then \<lparr>ar_order = order, ar_groupOf = groupOf\<rparr>
         else
           let rest = filter (\<lambda>i. i \<notin> set out) order
           in (case groupRun rest grp groupOf of
                 None \<Rightarrow> \<lparr>ar_order = order, ar_groupOf = groupOf\<rparr>
               | Some (_, e) \<Rightarrow> \<lparr>ar_order = insertAt e out rest, ar_groupOf = groupOf\<rparr>))"

definition ungroupBrowserTabs :: "arrangement \<Rightarrow> tab_id list \<Rightarrow> arrangement" where
  "ungroupBrowserTabs a tabIds =
     (let leaving = filter (\<lambda>i. ar_groupOf a i \<noteq> None) tabIds;
          groups = js_uniq (List.map_filter (ar_groupOf a) (js_uniq leaving))
      in foldl (ungroupOne leaving) a groups)"

section \<open>Adjacency\<close>

text \<open>All elements with \<open>P\<close> stand together.\<close>

definition none :: "('a \<Rightarrow> bool) \<Rightarrow> 'a list \<Rightarrow> bool" where
  "none P xs \<longleftrightarrow> (\<forall>x \<in> set xs. \<not> P x)"

definition contiguous :: "('a \<Rightarrow> bool) \<Rightarrow> 'a list \<Rightarrow> bool" where
  "contiguous P xs \<longleftrightarrow> none P (dropWhile P (dropWhile (\<lambda>x. \<not> P x) xs))"

definition adjacent :: "arrangement \<Rightarrow> bool" where
  "adjacent a \<longleftrightarrow> list_all (\<lambda>g. contiguous (inGroup (ar_groupOf a) g) (ar_order a))
     (List.map_filter (ar_groupOf a) (ar_order a))"

lemma none_sub: "none P xs \<Longrightarrow> set ys \<subseteq> set xs \<Longrightarrow> none P ys"
  by (auto simp: none_def)

lemma none_dropWhile: "none P xs \<Longrightarrow> none P (dropWhile Q xs)"
  by (rule none_sub) (auto dest: set_dropWhileD)

lemma dropWhile_all: "\<forall>x \<in> set A. Q x \<Longrightarrow> dropWhile Q (A @ B) = dropWhile Q B"
  by (induction A) auto

lemma contiguous_of:
  assumes "none P A" and "\<forall>x \<in> set M. P x" and "none P B"
  shows "contiguous P (A @ M @ B)"
proof -
  have "dropWhile (\<lambda>x. \<not> P x) (A @ M @ B) = dropWhile (\<lambda>x. \<not> P x) (M @ B)"
    using assms(1) by (intro dropWhile_all) (simp add: none_def)
  moreover have "none P (dropWhile P (dropWhile (\<lambda>x. \<not> P x) (M @ B)))"
  proof (cases M)
    case Nil
    then show ?thesis using assms(3) by (simp add: none_dropWhile)
  next
    case (Cons m ms)
    then have "dropWhile (\<lambda>x. \<not> P x) (M @ B) = M @ B" using assms(2) by simp
    then show ?thesis using assms(2,3) by (simp add: dropWhile_all none_dropWhile)
  qed
  ultimately show ?thesis unfolding contiguous_def by (simp only:)
qed

lemma contiguous_split:
  assumes "contiguous P xs"
  obtains A M B where "xs = A @ M @ B" and "none P A" and "\<forall>x \<in> set M. P x" and "none P B"
proof
  let ?r = "dropWhile (\<lambda>x. \<not> P x) xs"
  show "xs = takeWhile (\<lambda>x. \<not> P x) xs @ takeWhile P ?r @ dropWhile P ?r"
    by (simp only: takeWhile_dropWhile_id)
  show "none P (takeWhile (\<lambda>x. \<not> P x) xs)" unfolding none_def by (blast dest: set_takeWhileD)
  show "\<forall>x \<in> set (takeWhile P ?r). P x" by (blast dest: set_takeWhileD)
  show "none P (dropWhile P ?r)" using assms unfolding contiguous_def .
qed

lemma contiguousI: "xs = A @ M @ B \<Longrightarrow> none P A \<Longrightarrow> \<forall>x \<in> set M. P x \<Longrightarrow> none P B \<Longrightarrow> contiguous P xs"
  by (simp add: contiguous_of)

lemma none_append [simp]: "none P (xs @ ys) \<longleftrightarrow> none P xs \<and> none P ys"
  by (auto simp: none_def)

lemma contiguous_none: "none P xs \<Longrightarrow> contiguous P xs"
  by (rule contiguousI [of _ xs "[]" "[]"]) (simp_all add: none_def)

lemma contiguous_filter:
  assumes "contiguous P xs"
  shows "contiguous P (filter Q xs)"
proof -
  obtain A M B where "xs = A @ M @ B" "none P A" "\<forall>x \<in> set M. P x" "none P B"
    using assms by (rule contiguous_split)
  then show ?thesis
    by (intro contiguousI [of _ "filter Q A" "filter Q M" "filter Q B"]) (simp_all add: none_def)
qed

text \<open>Where a list with adjacent \<open>P\<close>'s is cut, one side holds them all, or the cut is among them.\<close>

lemma contiguous_cut:
  assumes "contiguous P (X @ Y)"
  obtains (left) "contiguous P X" "none P Y" | (right) "none P X" "contiguous P Y"
    | (inside) A M M' B where "X = A @ M" "Y = M' @ B" "none P A" "none P B" "M \<noteq> []" "M' \<noteq> []"
        "\<forall>x \<in> set M. P x" "\<forall>x \<in> set M'. P x"
proof -
  obtain A M B where x: "X @ Y = A @ (M @ B)" and A: "none P A" and M: "\<forall>x \<in> set M. P x" and B: "none P B"
    using assms by (rule contiguous_split)
  from append_eq_append_conv2 [THEN iffD1, OF x] obtain us where
    "X = A @ us \<and> us @ Y = M @ B \<or> X @ us = A \<and> Y = us @ (M @ B)" by blast
  then show thesis
  proof
    assume l: "X @ us = A \<and> Y = us @ (M @ B)"
    then have "none P X" "none P us" using A by auto
    then show thesis using l M B by (intro right) (simp_all add: contiguous_of)
  next
    assume r: "X = A @ us \<and> us @ Y = M @ B"
    from append_eq_append_conv2 [THEN iffD1, OF conjunct2 [OF r]] obtain vs where
      "us = M @ vs \<and> vs @ Y = B \<or> us @ vs = M \<and> Y = vs @ B" by blast
    then show thesis
    proof
      assume v: "us = M @ vs \<and> vs @ Y = B"
      then have "none P Y" "none P vs" using B by auto
      then show thesis using r v A M by (intro left) (simp_all add: contiguous_of)
    next
      assume v: "us @ vs = M \<and> Y = vs @ B"
      then have p: "\<forall>x \<in> set us. P x" "\<forall>x \<in> set vs. P x" using M by auto
      consider "us = []" | "vs = []" | "us \<noteq> []" "vs \<noteq> []" by blast
      then show thesis
      proof cases
        case 1
        then have "contiguous P ([] @ vs @ B)" using p B by (intro contiguous_of) (simp_all add: none_def)
        then show thesis using 1 r v A by (intro right) simp_all
      next
        case 2
        have "contiguous P (A @ us @ [])" using p A by (intro contiguous_of) (simp_all add: none_def)
        then show thesis using 2 r v B by (intro left) simp_all
      next
        case 3
        then show thesis using r v A B p by (intro inside [of A us vs B]) simp_all
      qed
    qed
  qed
qed

text \<open>Inserting tabs that are not of the group where the group is not cut, and tabs that are.\<close>

lemma contiguous_insert_out:
  assumes "contiguous P (X @ Y)" and "none P ys" and "none P X \<or> none P Y"
  shows "contiguous P (X @ ys @ Y)"
proof -
  have r: "contiguous P (X @ ys @ Y)" if n: "none P X" and c: "contiguous P Y"
  proof -
    obtain A M B where "Y = A @ M @ B" "none P A" "\<forall>x \<in> set M. P x" "none P B"
      using c by (rule contiguous_split)
    then show ?thesis using n assms(2) by (intro contiguousI [of _ "X @ ys @ A" M B]) simp_all
  qed
  have l: "contiguous P (X @ ys @ Y)" if c: "contiguous P X" and n: "none P Y"
  proof -
    obtain A M B where "X = A @ M @ B" "none P A" "\<forall>x \<in> set M. P x" "none P B"
      using c by (rule contiguous_split)
    then show ?thesis using n assms(2) by (intro contiguousI [of _ A M "B @ ys @ Y"]) simp_all
  qed
  from assms(1) show ?thesis
  proof (cases rule: contiguous_cut)
    case (inside A M M' B)
    then have "\<not> none P X" "\<not> none P Y" by (cases M; cases M'; simp add: none_def)+
    then show ?thesis using assms(3) by blast
  qed (fact l, fact r)
qed

lemma contiguous_insert_in:
  assumes "contiguous P (X @ Y)" and "\<forall>y \<in> set ys. P y"
    and "none P (X @ Y) \<or> (X \<noteq> [] \<and> P (last X)) \<or> (Y \<noteq> [] \<and> P (hd Y))"
  shows "contiguous P (X @ ys @ Y)"
  using assms(1)
proof (cases rule: contiguous_cut)
  case left
  obtain A M B where X: "X = A @ M @ B" "none P A" "\<forall>x \<in> set M. P x" "none P B"
    using left(1) by (rule contiguous_split)
  consider "none P X" | "X \<noteq> []" "P (last X)"
    using assms(3) left(2) by (cases Y) (auto simp: none_def)
  then show ?thesis
  proof cases
    case 1
    then show ?thesis using assms(2) left(2) by (intro contiguousI [of _ X ys Y]) simp_all
  next
    case 2
    then have "B = []" using X by (cases B rule: rev_cases) (simp_all add: none_def)
    then show ?thesis using X assms(2) left(2) by (intro contiguousI [of _ A "M @ ys" Y]) auto
  qed
next
  case right
  obtain A M B where Y: "Y = A @ M @ B" "none P A" "\<forall>x \<in> set M. P x" "none P B"
    using right(2) by (rule contiguous_split)
  consider "none P Y" | "Y \<noteq> []" "P (hd Y)"
    using assms(3) right(1) by (cases X rule: rev_cases) (auto simp: none_def)
  then show ?thesis
  proof cases
    case 1
    then show ?thesis using assms(2) right(1) by (intro contiguousI [of _ X ys Y]) simp_all
  next
    case 2
    then have "A = []" using Y by (cases A) (simp_all add: none_def)
    then show ?thesis using Y assms(2) right(1) by (intro contiguousI [of _ X "ys @ M" B]) auto
  qed
next
  case (inside A M M' B)
  then show ?thesis using assms(2) by (intro contiguousI [of _ A "M @ ys @ M'" B]) auto
qed

lemma contiguous_cong: "(\<And>x. x \<in> set xs \<Longrightarrow> P x = Q x) \<Longrightarrow> contiguous P xs \<Longrightarrow> contiguous Q xs"
proof (elim contiguous_split)
  fix A M B
  assume eq: "\<And>x. x \<in> set xs \<Longrightarrow> P x = Q x" and xs: "xs = A @ M @ B" "none P A" "\<forall>x \<in> set M. P x" "none P B"
  then show "contiguous Q xs" by (intro contiguousI [of xs A M B]) (auto simp: none_def)
qed

lemma adjacent_iff: "adjacent a \<longleftrightarrow> (\<forall>g. contiguous (inGroup (ar_groupOf a) g) (ar_order a))"
proof -
  have "contiguous (inGroup (ar_groupOf a) g) (ar_order a)"
    if "g \<notin> set (List.map_filter (ar_groupOf a) (ar_order a))" for g
    using that by (intro contiguous_none) (force simp: none_def inGroup_def List.map_filter_def image_iff)
  then show ?thesis unfolding adjacent_def list_all_iff by blast
qed

lemma cut_before:
  assumes "contiguous P (X @ Y)" and "Y \<noteq> []" and "\<not> P (hd Y)"
  shows "none P X \<or> none P Y"
  using assms(1)
proof (cases rule: contiguous_cut)
  case (inside A M M' B)
  then have "P (hd Y)" by (cases M') simp_all
  then show ?thesis using assms(3) by blast
qed auto

lemma cut_after:
  assumes "contiguous P (X @ Y)" and "X \<noteq> []" and "\<not> P (last X)"
  shows "none P X \<or> none P Y"
  using assms(1)
proof (cases rule: contiguous_cut)
  case (inside A M M' B)
  then have "P (last X)" by (cases M rule: rev_cases) simp_all
  then show ?thesis using assms(3) by blast
qed auto

lemma groupRun_None: "groupRun xs g G = None \<longleftrightarrow> none (inGroup G g) xs"
proof -
  let ?p = "takeWhile (\<lambda>i. \<not> inGroup G g i) xs"
  have "length ?p = length xs \<longleftrightarrow> ?p = xs" using takeWhile_eq_take [of _ xs] by (metis take_all_iff order_refl)
  also have "\<dots> \<longleftrightarrow> none (inGroup G g) xs" by (simp add: takeWhile_eq_all_conv none_def)
  finally show ?thesis by (simp add: groupRun_def Let_def)
qed

lemma groupRun_Some:
  assumes "groupRun xs g G = Some (s, e)"
  shows "none (inGroup G g) (take s xs)" and "drop s xs \<noteq> []" and "inGroup G g (hd (drop s xs))"
    and "take e xs \<noteq> []" and "inGroup G g (last (take e xs))" and "s < e" and "e \<le> length xs"
proof -
  let ?P = "inGroup G g"
  define s0 where "s0 = length (takeWhile (\<lambda>i. \<not> ?P i) xs)"
  define m where "m = length (takeWhile ?P (drop s0 xs))"
  have se: "s = s0" "e = s0 + m" "s0 < length xs"
    using assms length_takeWhile_le [of "\<lambda>i. \<not> ?P i" xs]
    by (auto simp: groupRun_def Let_def s0_def m_def split: if_splits)
  have tw: "take s0 xs = takeWhile (\<lambda>i. \<not> ?P i) xs" unfolding s0_def by (rule takeWhile_eq_take [symmetric])
  then show "none ?P (take s xs)" unfolding se(1) none_def by (metis set_takeWhileD)
  show ne: "drop s xs \<noteq> []" using se by simp
  have "drop s0 xs = dropWhile (\<lambda>i. \<not> ?P i) xs" by (simp add: s0_def dropWhile_eq_drop)
  then show hd: "?P (hd (drop s xs))" using ne hd_dropWhile [of "\<lambda>i. \<not> ?P i" xs] unfolding se(1) by simp
  then have "takeWhile ?P (drop s0 xs) \<noteq> []" using ne unfolding se(1) by (cases "drop s0 xs") auto
  then have m: "0 < m" by (simp add: m_def)
  then show "s < e" by (simp add: se)
  have "m \<le> length (drop s0 xs)" unfolding m_def by (rule length_takeWhile_le)
  then show e: "e \<le> length xs" using se by simp
  have t: "take e xs = take s0 xs @ takeWhile ?P (drop s0 xs)"
    unfolding se(2) take_add m_def by (simp only: takeWhile_eq_take [symmetric])
  show "take e xs \<noteq> []" using m e \<open>s < e\<close> by auto
  have "last (take e xs) = last (takeWhile ?P (drop s0 xs))"
    unfolding t using \<open>takeWhile ?P (drop s0 xs) \<noteq> []\<close> by simp
  then show "?P (last (take e xs))"
    using \<open>takeWhile ?P (drop s0 xs) \<noteq> []\<close> by (metis last_in_set set_takeWhileD)
qed

lemma indexOf_Some:
  assumes "indexOf x xs = Some n"
  shows "n < length xs" and "xs ! n = x" and "drop n xs \<noteq> []" and "hd (drop n xs) = x" and "x \<notin> set (take n xs)"
proof -
  have n: "n = length (takeWhile (\<lambda>y. y \<noteq> x) xs)" and l: "n < length xs"
    using assms by (auto simp: indexOf_def Let_def split: if_splits)
  show "n < length xs" by (rule l)
  show nth: "xs ! n = x" using nth_length_takeWhile [of "\<lambda>y. y \<noteq> x" xs] l unfolding n by simp
  show "drop n xs \<noteq> []" using l by simp
  show "hd (drop n xs) = x" using l nth by (simp add: hd_drop_conv_nth)
  have "take n xs = takeWhile (\<lambda>y. y \<noteq> x) xs" unfolding n by (rule takeWhile_eq_take [symmetric])
  then show "x \<notin> set (take n xs)" by (metis set_takeWhileD)
qed

lemma indexOf_None: "indexOf x xs = None \<longleftrightarrow> x \<notin> set xs"
proof -
  have "length (takeWhile (\<lambda>y. y \<noteq> x) xs) = length xs \<longleftrightarrow> x \<notin> set xs"
    by (induction xs) auto
  then show ?thesis using length_takeWhile_le [of "\<lambda>y. y \<noteq> x" xs] by (auto simp: indexOf_def Let_def)
qed

text \<open>The argument shared by every write: a block of tabs of one group put into a list.\<close>

lemma adjacent_insert:
  assumes "\<And>g. contiguous (inGroup G g) rest" and "\<And>i. i \<in> set rest \<Longrightarrow> G' i = G i"
    and "\<And>i. i \<in> set moving \<Longrightarrow> G' i = target"
    and "\<And>g. target \<noteq> Some g \<Longrightarrow> none (inGroup G g) (take n rest) \<or> none (inGroup G g) (drop n rest)"
    and "\<And>t. target = Some t \<Longrightarrow> none (inGroup G t) rest
      \<or> (take n rest \<noteq> [] \<and> inGroup G t (last (take n rest)))
      \<or> (drop n rest \<noteq> [] \<and> inGroup G t (hd (drop n rest)))"
  shows "adjacent \<lparr>ar_order = insertAt n moving rest, ar_groupOf = G'\<rparr>"
  unfolding adjacent_iff
proof
  fix g
  let ?X = "take n rest" and ?Y = "drop n rest"
  have eq: "\<And>i. i \<in> set rest \<Longrightarrow> inGroup G' g i = inGroup G g i" using assms(2) by (simp add: inGroup_def)
  have c: "contiguous (inGroup G' g) (?X @ ?Y)"
    using contiguous_cong [OF _ assms(1) [of g]] eq by (simp add: append_take_drop_id)
  have sub: "set ?X \<subseteq> set rest" "set ?Y \<subseteq> set rest" by (auto dest: in_set_takeD in_set_dropD)
  have nn: "none (inGroup G' g) zs = none (inGroup G g) zs" if "set zs \<subseteq> set rest" for zs
    using that eq by (auto simp: none_def)
  have "contiguous (inGroup G' g) (?X @ moving @ ?Y)"
  proof (cases "target = Some g")
    case True
    have "\<forall>y \<in> set moving. inGroup G' g y" using assms(3) True by (simp add: inGroup_def)
    moreover have "none (inGroup G' g) (?X @ ?Y) \<or> (?X \<noteq> [] \<and> inGroup G' g (last ?X)) \<or> (?Y \<noteq> [] \<and> inGroup G' g (hd ?Y))"
    proof -
      have "?X \<noteq> [] \<Longrightarrow> last ?X \<in> set rest" "?Y \<noteq> [] \<Longrightarrow> hd ?Y \<in> set rest"
        using sub by (meson last_in_set subsetD) (meson hd_in_set sub(2) subsetD)
      then show ?thesis using assms(5) [OF True] nn [of rest] eq by (auto simp: append_take_drop_id simp del: none_append)
    qed
    ultimately show ?thesis using c by (intro contiguous_insert_in)
  next
    case False
    have "none (inGroup G' g) moving" using assms(3) False by (auto simp: none_def inGroup_def)
    then show ?thesis using c assms(4) [OF False] nn sub by (intro contiguous_insert_out) auto
  qed
  then show "contiguous (inGroup (ar_groupOf \<lparr>ar_order = insertAt n moving rest, ar_groupOf = G'\<rparr>) g)
      (ar_order \<lparr>ar_order = insertAt n moving rest, ar_groupOf = G'\<rparr>)"
    by (simp add: insertAt_def)
qed

lemma insertAt_mset: "mset (insertAt n ys xs) = mset ys + mset xs"
proof -
  have "mset (take n xs) + mset (drop n xs) = mset xs" by (metis append_take_drop_id mset_append)
  then show ?thesis by (simp add: insertAt_def)
qed

lemma mset_moving:
  assumes "distinct order" and "distinct moving" and "set moving \<subseteq> set order"
  shows "mset moving + mset (filter (\<lambda>i. i \<notin> set moving) order) = mset order"
proof -
  have "mset moving = mset (filter (\<lambda>i. i \<in> set moving) order)"
    using assms by (intro set_eq_iff_mset_eq_distinct [THEN iffD1]) auto
  moreover have "mset (filter (\<lambda>i. i \<in> set moving) order) + mset (filter (\<lambda>i. i \<notin> set moving) order) = mset order"
    by (simp add: multiset_partition [symmetric])
  ultimately show ?thesis by simp
qed

section \<open>Moves\<close>

text \<open>
  A move whose tabs include every member of the target group and whose first tab sits in
  another group: the target group is put back where that first tab was.
\<close>

definition move_splits :: "arrangement \<Rightarrow> tab_move \<Rightarrow> bool" where
  "move_splits a move \<longleftrightarrow>
     (case (movingTabs a move, mv_groupId move, mv_before move) of
        (Inr (m # ms), Some t, None) \<Rightarrow>
          groupRun (filter (\<lambda>i. i \<notin> set (m # ms)) (ar_order a)) t (ar_groupOf a) = None \<and>
          ar_groupOf a m \<noteq> None \<and> ar_groupOf a m \<noteq> Some t
      | _ \<Rightarrow> False)"

lemma movingTabs_facts:
  assumes "movingTabs a move = Inr moving" and "distinct (ar_order a)"
  shows "distinct moving" and "set moving \<subseteq> set (ar_order a)"
    and "mv_item move = MoveGroup g \<Longrightarrow> mv_groupId move = None \<and>
           moving = filter (inGroup (ar_groupOf a) g) (ar_order a)"
  using assms by (auto simp: movingTabs_def Let_def split: move_item.splits if_splits)

lemma movingTabs_sub: "movingTabs a move = Inr moving \<Longrightarrow> set moving \<subseteq> set (ar_order a)"
  by (auto simp: movingTabs_def Let_def split: move_item.splits if_splits)

lemma indexOf_cut:
  assumes "indexOf m order = Some n"
  shows "order = take n order @ m # drop (Suc n) order"
  using indexOf_Some(1,2) [OF assms] id_take_nth_drop by metis

text \<open>Where the moved tabs land, no other group is cut.\<close>

lemma moveIndex_out:
  assumes idx: "moveIndex a move moving rest = Inr n" and rest: "rest = filter (\<lambda>i. i \<notin> set moving) (ar_order a)"
    and con: "\<And>g. contiguous (inGroup (ar_groupOf a) g) (ar_order a)"
    and nosplit: "\<not> move_splits a move" and mt: "movingTabs a move = Inr moving"
    and ex: "\<And>t. mv_groupId move = Some t \<Longrightarrow> \<exists>i \<in> set (ar_order a). inGroup (ar_groupOf a) t i"
    and g: "mv_groupId move \<noteq> Some g"
  shows "none (inGroup (ar_groupOf a) g) (take n rest) \<or> none (inGroup (ar_groupOf a) g) (drop n rest)"
proof -
  let ?G = "ar_groupOf a"
  have cr: "contiguous (inGroup ?G g) (take n rest @ drop n rest)"
    using contiguous_filter [OF con] by (simp add: rest)
  have other: "\<not> inGroup ?G g i" if "?G i = mv_groupId move" for i using that g by (simp add: inGroup_def)
  show ?thesis
  proof (cases "mv_before move")
    case None
    show ?thesis
    proof (cases "mv_groupId move")
      case None
      then show ?thesis using idx \<open>mv_before move = None\<close> by (simp add: moveIndex_def Let_def none_def)
    next
      case (Some t)
      show ?thesis
      proof (cases "groupRun rest t ?G")
        case None
        have "moving \<noteq> []"
        proof
          assume "moving = []"
          then have "none (inGroup ?G t) (ar_order a)" using None rest by (simp add: groupRun_None)
          then show False using ex [OF Some] by (auto simp: none_def)
        qed
        then obtain m ms where m: "moving = m # ms" by (cases moving) auto
        then have gm: "\<not> inGroup ?G g m"
          using nosplit mt None Some g \<open>mv_before move = None\<close> rest by (auto simp: move_splits_def inGroup_def)
        show ?thesis
        proof (cases "indexOf m (ar_order a)")
          case None
          moreover have "m \<in> set (ar_order a)" using movingTabs_sub [OF mt] m by auto
          ultimately show ?thesis by (simp add: indexOf_None)
        next
          case (Some k)
          let ?A = "take k (ar_order a)" and ?B = "drop (Suc k) (ar_order a)"
          let ?f = "filter (\<lambda>i. i \<notin> set moving)"
          have ord: "ar_order a = ?A @ m # ?B" by (rule indexOf_cut [OF Some])
          have n: "n = length (?f ?A)"
            using idx \<open>mv_groupId move = Some t\<close> \<open>mv_before move = None\<close> \<open>groupRun rest t ?G = None\<close> m Some
            by (simp add: moveIndex_def Let_def)
          have "rest = ?f ?A @ ?f ?B" unfolding rest by (subst ord) (simp add: m)
          then have td: "take n rest = ?f ?A" "drop n rest = ?f ?B" by (simp_all add: n)
          have "contiguous (inGroup ?G g) (?A @ (m # ?B))" using con [of g] ord by simp
          then have "none (inGroup ?G g) ?A \<or> none (inGroup ?G g) (m # ?B)"
            by (rule cut_before) (use gm in simp_all)
          then show ?thesis unfolding td by (auto simp: none_def)
        qed
      next
        case (Some se)
        obtain s e where se: "se = (s, e)" by (cases se)
        then have "n = e" using idx \<open>mv_groupId move = Some t\<close> \<open>mv_before move = None\<close> Some
          by (simp add: moveIndex_def Let_def)
        moreover have "\<not> inGroup ?G g (last (take e rest))"
          using groupRun_Some(5) [OF Some [unfolded se]] g \<open>mv_groupId move = Some t\<close> by (auto simp: inGroup_def)
        ultimately show ?thesis using cut_after [OF cr] groupRun_Some(4) [OF Some [unfolded se]] by simp
      qed
    qed
  next
    case (Some before)
    show ?thesis
    proof (cases before)
      case (BeforeTab b)
      then have i: "indexOf b rest = Some n" and "?G b = mv_groupId move"
        using idx Some by (auto simp: moveIndex_def Let_def split: if_splits option.splits)
      then have "\<not> inGroup ?G g (hd (drop n rest))" using indexOf_Some(4) [OF i] other by simp
      then show ?thesis using cut_before [OF cr] indexOf_Some(3) [OF i] by blast
    next
      case (BeforeGroup h)
      then obtain e where r: "groupRun rest h ?G = Some (n, e)"
        using idx Some by (auto simp: moveIndex_def Let_def split: if_splits option.splits)
      show ?thesis
      proof (cases "h = g")
        case True
        then show ?thesis using groupRun_Some(1) [OF r] by simp
      next
        case False
        then have "\<not> inGroup ?G g (hd (drop n rest))" using groupRun_Some(3) [OF r] by (simp add: inGroup_def)
        then show ?thesis using cut_before [OF cr] groupRun_Some(2) [OF r] by blast
      qed
    qed
  qed
qed

lemma moveIndex_in:
  assumes "moveIndex a move moving rest = Inr n" and "mv_groupId move = Some t"
  shows "none (inGroup (ar_groupOf a) t) rest
    \<or> (take n rest \<noteq> [] \<and> inGroup (ar_groupOf a) t (last (take n rest)))
    \<or> (drop n rest \<noteq> [] \<and> inGroup (ar_groupOf a) t (hd (drop n rest)))"
proof (cases "mv_before move")
  case None
  show ?thesis
  proof (cases "groupRun rest t (ar_groupOf a)")
    case None
    then show ?thesis by (simp add: groupRun_None)
  next
    case (Some se)
    obtain s e where se: "se = (s, e)" by (cases se)
    then have "n = e" using assms None Some by (simp add: moveIndex_def Let_def)
    then show ?thesis using groupRun_Some(4,5) [OF Some [unfolded se]] by simp
  qed
next
  case (Some before)
  show ?thesis
  proof (cases before)
    case (BeforeTab b)
    then have i: "indexOf b rest = Some n" and "ar_groupOf a b = Some t"
      using assms Some by (auto simp: moveIndex_def Let_def split: if_splits option.splits)
    then show ?thesis using indexOf_Some(3,4) [OF i] by (simp add: inGroup_def)
  next
    case (BeforeGroup h)
    then show ?thesis using assms Some by (simp add: moveIndex_def Let_def)
  qed
qed

lemma moveBrowserTabs_split:
  assumes "moveBrowserTabs a move = Inr a'"
  obtains moving n where "movingTabs a move = Inr moving"
    and "moveIndex a move moving (filter (\<lambda>i. i \<notin> set moving) (ar_order a)) = Inr n"
    and "\<forall>t. mv_groupId move = Some t \<longrightarrow> (\<exists>i \<in> set (ar_order a). inGroup (ar_groupOf a) t i)"
    and "a' = \<lparr>ar_order = insertAt n moving (filter (\<lambda>i. i \<notin> set moving) (ar_order a)),
           ar_groupOf = (case mv_item move of MoveGroup _ \<Rightarrow> ar_groupOf a
             | MoveTabs _ \<Rightarrow> regroup (mv_groupId move) moving (ar_groupOf a))\<rparr>"
proof -
  obtain moving where mt: "movingTabs a move = Inr moving"
    using assms by (cases "movingTabs a move") (simp_all add: moveBrowserTabs_def)
  let ?rest = "filter (\<lambda>i. i \<notin> set moving) (ar_order a)"
  have ex: "\<forall>t. mv_groupId move = Some t \<longrightarrow> (\<exists>i \<in> set (ar_order a). inGroup (ar_groupOf a) t i)"
    using assms mt by (auto simp: moveBrowserTabs_def split: if_splits)
  obtain n where idx: "moveIndex a move moving ?rest = Inr n"
    using assms mt by (cases "moveIndex a move moving ?rest") (simp_all add: moveBrowserTabs_def Let_def split: if_splits)
  show thesis
  proof (rule that [OF mt idx ex])
    show "a' = \<lparr>ar_order = insertAt n moving ?rest,
        ar_groupOf = (case mv_item move of MoveGroup _ \<Rightarrow> ar_groupOf a
          | MoveTabs _ \<Rightarrow> regroup (mv_groupId move) moving (ar_groupOf a))\<rparr>"
      using assms mt idx by (auto simp: moveBrowserTabs_def Let_def split: if_splits)
  qed
qed

lemma move_adjacent:
  assumes "distinct (ar_order a)" and "adjacent a" and "moveBrowserTabs a move = Inr a'" and "\<not> move_splits a move"
  shows "adjacent a'"
proof -
  from assms(3) obtain moving n where mt: "movingTabs a move = Inr moving"
    and idx: "moveIndex a move moving (filter (\<lambda>i. i \<notin> set moving) (ar_order a)) = Inr n"
    and ex: "\<forall>t. mv_groupId move = Some t \<longrightarrow> (\<exists>i \<in> set (ar_order a). inGroup (ar_groupOf a) t i)"
    and a': "a' = \<lparr>ar_order = insertAt n moving (filter (\<lambda>i. i \<notin> set moving) (ar_order a)),
           ar_groupOf = (case mv_item move of MoveGroup _ \<Rightarrow> ar_groupOf a
             | MoveTabs _ \<Rightarrow> regroup (mv_groupId move) moving (ar_groupOf a))\<rparr>"
    by (rule moveBrowserTabs_split)
  have con: "\<And>g. contiguous (inGroup (ar_groupOf a) g) (ar_order a)" using assms(2) by (simp add: adjacent_iff)
  note out = moveIndex_out [OF idx refl con assms(4) mt ex [rule_format]]
  show ?thesis
  proof (cases "mv_item move")
    case (MoveTabs ids)
    have "adjacent \<lparr>ar_order = insertAt n moving (filter (\<lambda>i. i \<notin> set moving) (ar_order a)),
        ar_groupOf = regroup (mv_groupId move) moving (ar_groupOf a)\<rparr>"
      by (rule adjacent_insert [where G = "ar_groupOf a" and target = "mv_groupId move"])
         (use contiguous_filter [OF con] out moveIndex_in [OF idx] in \<open>auto simp: regroup_def\<close>)
    then show ?thesis using MoveTabs a' by simp
  next
    case (MoveGroup mg)
    note f = movingTabs_facts(3) [OF mt assms(1) MoveGroup]
    have "none (inGroup (ar_groupOf a) mg) (filter (\<lambda>i. i \<notin> set moving) (ar_order a))"
      using f by (auto simp: none_def)
    moreover have "\<And>i. i \<in> set moving \<Longrightarrow> ar_groupOf a i = Some mg" using f by (auto simp: inGroup_def)
    ultimately have "adjacent \<lparr>ar_order = insertAt n moving (filter (\<lambda>i. i \<notin> set moving) (ar_order a)),
        ar_groupOf = ar_groupOf a\<rparr>"
      by (intro adjacent_insert [where G = "ar_groupOf a" and target = "Some mg"])
         (use contiguous_filter [OF con] out f in auto)
    then show ?thesis using MoveGroup a' by simp
  qed
qed

lemma move_mset:
  assumes "distinct (ar_order a)" and "moveBrowserTabs a move = Inr a'"
  shows "mset (ar_order a') = mset (ar_order a)"
  using assms(2)
proof (rule moveBrowserTabs_split)
  fix moving n
  assume "movingTabs a move = Inr moving"
    and "a' = \<lparr>ar_order = insertAt n moving (filter (\<lambda>i. i \<notin> set moving) (ar_order a)),
           ar_groupOf = (case mv_item move of MoveGroup _ \<Rightarrow> ar_groupOf a
             | MoveTabs _ \<Rightarrow> regroup (mv_groupId move) moving (ar_groupOf a))\<rparr>"
  then show ?thesis
    using movingTabs_facts(1,2) [OF _ assms(1)] mset_moving [OF assms(1)] by (simp add: insertAt_mset)
qed

lemma distinct_mset: "mset xs = mset ys \<Longrightarrow> distinct ys \<Longrightarrow> distinct xs"
  by (metis distinct_count_atmost_1 set_mset_mset)

section \<open>Grouping\<close>

lemma groupRun_end:
  assumes "groupRun xs g G = Some (s, e)" and "contiguous (inGroup G g) xs"
  shows "none (inGroup G g) (drop e xs)"
proof -
  let ?P = "inGroup G g"
  define s0 where "s0 = length (takeWhile (\<lambda>i. \<not> ?P i) xs)"
  have e: "e = s0 + length (takeWhile ?P (drop s0 xs))"
    using assms(1) by (auto simp: groupRun_def Let_def s0_def split: if_splits)
  have d: "drop s0 xs = dropWhile (\<lambda>i. \<not> ?P i) xs" unfolding s0_def by (rule dropWhile_eq_drop [symmetric])
  have "drop e xs = drop (length (takeWhile ?P (drop s0 xs))) (drop s0 xs)" unfolding e by (simp add: add.commute)
  also have "\<dots> = dropWhile ?P (dropWhile (\<lambda>i. \<not> ?P i) xs)" unfolding d by (rule dropWhile_eq_drop [symmetric])
  finally show ?thesis using assms(2) unfolding contiguous_def by simp
qed

text \<open>No group is cut at the end of a group's run.\<close>

lemma run_end_out:
  assumes "groupRun xs s G = Some (b, e)" and "\<And>g. contiguous (inGroup G g) xs"
  shows "none (inGroup G g) (take e xs) \<or> none (inGroup G g) (drop e xs)"
proof (cases "g = s")
  case True
  then show ?thesis using groupRun_end [OF assms(1,2)] by simp
next
  case False
  then have "\<not> inGroup G g (last (take e xs))" using groupRun_Some(5) [OF assms(1)] by (simp add: inGroup_def)
  then show ?thesis
    using cut_after [of "inGroup G g" "take e xs" "drop e xs"] groupRun_Some(4) [OF assms(1)] assms(2) by simp
qed

lemma set_sort_uniq: "distinct xs \<Longrightarrow> set (sort_key f (js_uniq xs)) = set xs"
  by simp

lemma group_join_splits:
  assumes "\<exists>i \<in> set (ar_order a). inGroup (ar_groupOf a) t i" and "\<forall>i \<in> set joining. \<not> inGroup (ar_groupOf a) t i"
  shows "\<not> move_splits a \<lparr>mv_item = MoveTabs joining, mv_groupId = Some t, mv_before = None\<rparr>"
proof -
  let ?m = "\<lparr>mv_item = MoveTabs joining, mv_groupId = Some t, mv_before = None\<rparr>"
  have "groupRun (filter (\<lambda>i. i \<notin> set moving) (ar_order a)) t (ar_groupOf a) \<noteq> None"
    if "movingTabs a ?m = Inr moving" for moving
  proof -
    have "set moving = set joining" using that by (auto simp: movingTabs_def Let_def split: if_splits)
    then show ?thesis using assms by (auto simp: groupRun_None none_def)
  qed
  then show ?thesis by (auto simp: move_splits_def split: sum.splits list.splits)
qed

lemma group_new_out:
  assumes con: "\<And>g. contiguous (inGroup G g) rest"
    and split: "split = (if 0 < index0 \<and> index0 < length rest then G (rest ! (index0 - 1)) else None)"
    and index: "index = (case split of None \<Rightarrow> index0 | Some s \<Rightarrow>
      if G (rest ! index0) = Some s then (case groupRun rest s G of None \<Rightarrow> index0 | Some (_, e) \<Rightarrow> e) else index0)"
  shows "none (inGroup G g) (take index rest) \<or> none (inGroup G g) (drop index rest)"
proof (cases "0 < index0 \<and> index0 < length rest")
  case False
  then show ?thesis using split index by (auto simp: none_def)
next
  case True
  have c: "contiguous (inGroup G g) (take index0 rest @ drop index0 rest)" using con by simp
  have ne: "take index0 rest \<noteq> []" using True by (cases rest) auto
  then have last: "last (take index0 rest) = rest ! (index0 - 1)"
    using True by (simp add: last_conv_nth)
  have hd: "hd (drop index0 rest) = rest ! index0" "drop index0 rest \<noteq> []" using True by (simp_all add: hd_drop_conv_nth)
  have sp: "split = G (rest ! (index0 - 1))" using split True by simp
  consider (none) "index = index0" "G (rest ! (index0 - 1)) \<noteq> Some g"
    | (other) "index = index0" "G (rest ! (index0 - 1)) = Some g" "G (rest ! index0) \<noteq> Some g"
    | (run) s b e where "groupRun rest s G = Some (b, e)" "index = e"
  proof (cases "\<exists>s b e. groupRun rest s G = Some (b, e) \<and> index = e")
    case True
    then show thesis using run by blast
  next
    case False
    have "index = index0" using False index by (auto split: option.splits if_splits)
    moreover have "G (rest ! (index0 - 1)) = Some g \<Longrightarrow> G (rest ! index0) = Some g \<Longrightarrow> groupRun rest g G = None"
      using False index sp by (auto split: option.splits)
    moreover have "G (rest ! index0) = Some g \<Longrightarrow> groupRun rest g G \<noteq> None"
      using True nth_mem [of index0 rest] by (auto simp: groupRun_None none_def inGroup_def)
    ultimately show thesis using none other by blast
  qed
  then show ?thesis
  proof cases
    case none
    then show ?thesis using cut_after [OF c ne] last by (simp add: inGroup_def)
  next
    case other
    then show ?thesis using cut_before [OF c] hd by (simp add: inGroup_def)
  next
    case (run s b e)
    then show ?thesis using run_end_out [OF run(1) con] by simp
  qed
qed

lemma group_adjacent:
  assumes "distinct (ar_order a)" and "adjacent a"
  shows "adjacent (groupBrowserTabs a ids t) \<and> mset (ar_order (groupBrowserTabs a ids t)) = mset (ar_order a)"
proof -
  let ?G = "ar_groupOf a" and ?o = "ar_order a"
  define joining where "joining = filter (\<lambda>i. i \<in> set ids \<and> \<not> inGroup ?G t i) ?o"
  let ?move = "\<lparr>mv_item = MoveTabs joining, mv_groupId = Some t, mv_before = None\<rparr>"
  have j: "distinct joining" "set joining \<subseteq> set ?o" "\<forall>i \<in> set joining. \<not> inGroup ?G t i"
    using assms(1) by (auto simp: joining_def)
  have con: "\<And>g. contiguous (inGroup ?G g) ?o" using assms(2) by (simp add: adjacent_iff)
  show ?thesis
  proof (cases "joining = []")
    case True
    then show ?thesis using assms(2) by (simp add: groupBrowserTabs_def Let_def joining_def)
  next
    case ne: False
    show ?thesis
    proof (cases "\<exists>i \<in> set ?o. inGroup ?G t i")
      case True
      then have g: "groupBrowserTabs a ids t = (case moveBrowserTabs a ?move of Inr a' \<Rightarrow> a' | Inl _ \<Rightarrow> a)"
        using ne by (simp add: groupBrowserTabs_def Let_def joining_def)
      show ?thesis
      proof (cases "moveBrowserTabs a ?move")
        case (Inl e)
        then show ?thesis using g assms(2) by simp
      next
        case (Inr a')
        then show ?thesis
          using g move_adjacent [OF assms Inr group_join_splits [OF True j(3)]] move_mset [OF assms(1) Inr] by simp
      qed
    next
      case False
      define rest where "rest = filter (\<lambda>i. i \<notin> set joining) ?o"
      define index0 where "index0 = length (filter (\<lambda>i. i \<notin> set joining)
        (case indexOf (hd joining) ?o of None \<Rightarrow> butlast ?o | Some n \<Rightarrow> take n ?o))"
      define split where "split = (if 0 < index0 \<and> index0 < length rest then ?G (rest ! (index0 - 1)) else None)"
      define index where "index = (case split of None \<Rightarrow> index0 | Some s \<Rightarrow>
        if ?G (rest ! index0) = Some s then (case groupRun rest s ?G of None \<Rightarrow> index0 | Some (_, e) \<Rightarrow> e) else index0)"
      have g: "groupBrowserTabs a ids t =
          \<lparr>ar_order = insertAt index joining rest, ar_groupOf = regroup (Some t) joining ?G\<rparr>"
        unfolding groupBrowserTabs_def Let_def joining_def [symmetric] rest_def [symmetric]
          index0_def [symmetric] split_def [symmetric] index_def [symmetric]
        using ne False by (simp only: if_False)
      have cr: "\<And>g. contiguous (inGroup ?G g) rest" unfolding rest_def by (rule contiguous_filter [OF con])
      have "none (inGroup ?G t) rest" using False by (auto simp: rest_def none_def)
      then have "adjacent (groupBrowserTabs a ids t)"
        unfolding g using group_new_out [OF cr split_def index_def]
        by (intro adjacent_insert [where G = ?G and target = "Some t"] cr) (auto simp: regroup_def rest_def)
      moreover have "mset (ar_order (groupBrowserTabs a ids t)) = mset ?o"
        unfolding g rest_def using mset_moving [OF assms(1) j(1,2)] by (simp add: insertAt_mset)
      ultimately show ?thesis by blast
    qed
  qed
qed

lemma group_groupOf:
  assumes "distinct (ar_order a)" and "adjacent a"
  shows "ar_groupOf (groupBrowserTabs a ids t) =
    (\<lambda>i. if i \<in> set ids \<and> i \<in> set (ar_order a) then Some t else ar_groupOf a i)"
proof -
  define joining where "joining = filter (\<lambda>i. i \<in> set ids \<and> \<not> inGroup (ar_groupOf a) t i) (ar_order a)"
  let ?move = "\<lparr>mv_item = MoveTabs joining, mv_groupId = Some t, mv_before = None\<rparr>"
  have same: "(\<lambda>i. if i \<in> set ids \<and> i \<in> set (ar_order a) then Some t else ar_groupOf a i) =
      regroup (Some t) joining (ar_groupOf a)"
    by (auto simp: fun_eq_iff regroup_def joining_def inGroup_def)
  have mt: "movingTabs a ?move = Inr (sort_key (tabAt (ar_order a)) (js_uniq joining))"
    by (auto simp: movingTabs_def joining_def Let_def)
  have "\<exists>n. moveIndex a ?move moving rest = Inr n" for moving rest
    by (cases "groupRun rest t (ar_groupOf a)") (auto simp: moveIndex_def Let_def)
  then obtain n where idx: "moveIndex a ?move (sort_key (tabAt (ar_order a)) (js_uniq joining))
      (filter (\<lambda>i. i \<notin> set joining) (ar_order a)) = Inr n" by blast
  have re: "regroup (Some t) (sort_key (tabAt (ar_order a)) (js_uniq joining)) = regroup (Some t) joining"
    by (auto simp: regroup_def fun_eq_iff)
  show ?thesis
  proof (cases "joining = [] \<or> (\<exists>i \<in> set (ar_order a). inGroup (ar_groupOf a) t i)")
    case True
    then show ?thesis
      unfolding same groupBrowserTabs_def Let_def joining_def [symmetric]
      using mt idx re by (auto simp: moveBrowserTabs_def Let_def regroup_def)
  next
    case False
    then show ?thesis unfolding same groupBrowserTabs_def Let_def joining_def [symmetric] by simp
  qed
qed

section \<open>Ungrouping\<close>

lemma length_filter_eq:
  assumes "length (filter Q (filter P xs)) = length (filter P xs)" and "x \<in> set xs" and "P x"
  shows "Q x"
  using assms length_filter_less [of x "filter P xs" Q] by auto

lemma ungroupOne_adjacent:
  assumes "distinct (ar_order a)" and "adjacent a"
  shows "adjacent (ungroupOne leaving a g)" and "mset (ar_order (ungroupOne leaving a g)) = mset (ar_order a)"
proof -
  let ?G = "ar_groupOf a" and ?o = "ar_order a"
  define out where "out = filter (\<lambda>i. i \<in> set leaving) (filter (inGroup ?G g) ?o)"
  define G' where "G' = regroup None out ?G"
  define rest where "rest = filter (\<lambda>i. i \<notin> set out) ?o"
  have con: "contiguous (inGroup ?G h) ?o" for h using assms(2) by (simp add: adjacent_iff)
  have out: "distinct out" "set out \<subseteq> set ?o" "\<forall>i \<in> set out. inGroup ?G g i"
    using assms(1) by (auto simp: out_def)
  have other: "inGroup ?G h i = inGroup G' h i" if "h \<noteq> g \<or> i \<notin> set out" for h i
    using that out(3) by (auto simp: G'_def regroup_def inGroup_def)
  have "adjacent (ungroupOne leaving a g) \<and> mset (ar_order (ungroupOne leaving a g)) = mset ?o"
  proof (cases "length out = length (filter (inGroup ?G g) ?o)")
    case True
    then have all: "\<forall>i \<in> set ?o. inGroup ?G g i \<longrightarrow> i \<in> set out"
      using length_filter_eq [of "\<lambda>i. i \<in> set leaving" "inGroup ?G g" ?o] unfolding out_def
      by (simp only: set_filter mem_Collect_eq) blast
    have u: "ungroupOne leaving a g = \<lparr>ar_order = ?o, ar_groupOf = G'\<rparr>"
      using True by (simp add: ungroupOne_def Let_def out_def G'_def)
    have "contiguous (inGroup G' h) ?o" for h
    proof (cases "h = g")
      case True
      have "none (inGroup G' g) ?o" using all by (auto simp: none_def G'_def regroup_def inGroup_def)
      then show ?thesis using True by (simp add: contiguous_none)
    next
      case False
      then show ?thesis using contiguous_cong [OF other con] by simp
    qed
    then show ?thesis by (simp add: u adjacent_iff)
  next
    case False
    then have "\<exists>i \<in> set ?o. inGroup ?G g i \<and> i \<notin> set out"
    proof (rule contrapos_np)
      assume "\<not> (\<exists>i \<in> set ?o. inGroup ?G g i \<and> i \<notin> set out)"
      then have "\<forall>i \<in> set (filter (inGroup ?G g) ?o). i \<in> set leaving" by (auto simp: out_def)
      then show "length out = length (filter (inGroup ?G g) ?o)" unfolding out_def by (simp only: filter_True)
    qed
    then have "groupRun rest g G' \<noteq> None"
      using other by (auto simp: groupRun_None none_def rest_def)
    then obtain b e where run: "groupRun rest g G' = Some (b, e)" by auto
    have u: "ungroupOne leaving a g = \<lparr>ar_order = insertAt e out rest, ar_groupOf = G'\<rparr>"
      unfolding ungroupOne_def Let_def out_def [symmetric] G'_def [symmetric] rest_def [symmetric]
      using False run by simp
    have cr: "contiguous (inGroup G' h) rest" for h
      by (rule contiguous_cong [OF _ contiguous_filter [OF con, of h "\<lambda>i. i \<notin> set out", folded rest_def]])
         (simp add: other rest_def)
    have "adjacent (ungroupOne leaving a g)"
      unfolding u using run_end_out [OF run cr]
      by (intro adjacent_insert [where G = G' and target = None] cr) (auto simp: G'_def regroup_def)
    then show ?thesis using mset_moving [OF assms(1) out(1,2)] by (simp add: u insertAt_mset rest_def)
  qed
  then show "adjacent (ungroupOne leaving a g)" "mset (ar_order (ungroupOne leaving a g)) = mset ?o" by auto
qed

lemma ungroupOne_groupOf:
  "ar_groupOf (ungroupOne leaving a g) i =
     (if i \<in> set leaving \<and> i \<in> set (ar_order a) \<and> ar_groupOf a i = Some g then None else ar_groupOf a i)"
  by (auto simp: ungroupOne_def Let_def regroup_def inGroup_def split: option.splits)

lemma ungroup_fold:
  assumes "distinct (ar_order a)" and "adjacent a"
  shows "adjacent (foldl (ungroupOne leaving) a gs) \<and> mset (ar_order (foldl (ungroupOne leaving) a gs)) = mset (ar_order a)"
  using assms
proof (induction gs arbitrary: a)
  case (Cons g gs)
  note one = ungroupOne_adjacent [OF Cons.prems, of leaving g]
  show ?case using Cons.IH [OF distinct_mset [OF one(2) Cons.prems(1)] one(1)] one(2) by simp
qed simp

lemma ungroup_fold_groupOf:
  assumes "distinct (ar_order a)" and "adjacent a"
  shows "ar_groupOf (foldl (ungroupOne leaving) a gs) i =
     (if i \<in> set leaving \<and> i \<in> set (ar_order a) \<and> ar_groupOf a i \<in> Some ` set gs then None else ar_groupOf a i)"
  using assms
proof (induction gs arbitrary: a)
  case (Cons g gs)
  note one = ungroupOne_adjacent [OF Cons.prems, of leaving g]
  have "set (ar_order (ungroupOne leaving a g)) = set (ar_order a)" using one(2) by (rule mset_eq_setD)
  then show ?case
    using Cons.IH [OF distinct_mset [OF one(2) Cons.prems(1)] one(1)] by (auto simp: ungroupOne_groupOf)
qed simp

section \<open>Resolving\<close>

lemma subseq_rev_remdups: "subseq (rev (remdups xs)) (rev xs)"
  by (induction xs) (auto intro: subseq_rev_drop_many list_emb_append_mono)

lemma subseq_js_uniq: "subseq (js_uniq xs) xs"
  using subseq_rev_remdups [of "rev xs"] by (simp add: js_uniq_def)

lemma none_subseq: "none P xs \<Longrightarrow> subseq ys xs \<Longrightarrow> none P ys"
  by (rule none_sub) (auto dest: list_emb_set)

lemma contiguous_subseq:
  assumes "contiguous P xs" and "subseq ys xs"
  shows "contiguous P ys"
proof -
  obtain A M B where xs: "xs = A @ M @ B" "none P A" "\<forall>x \<in> set M. P x" "none P B"
    using assms(1) by (rule contiguous_split)
  obtain A' r where r: "ys = A' @ r" "subseq A' A" "subseq r (M @ B)"
    using subseq_appendE [OF assms(2) [unfolded xs(1)]] by blast
  obtain M' B' where r': "r = M' @ B'" "subseq M' M" "subseq B' B"
    using subseq_appendE [OF r(3)] by blast
  have "\<forall>x \<in> set M'. P x" using xs(3) list_emb_set [OF r'(2)] by blast
  then show ?thesis
    using none_subseq [OF xs(2) r(2)] none_subseq [OF xs(4) r'(3)] r(1) r'(1) by (intro contiguousI [of _ A' M' B']) simp_all
qed

lemma chainEnd_last:
  assumes "a < length order" and n_def: "n = chainEnd order a op grp byId G"
  shows "take n order \<noteq> [] \<and> (n = Suc a \<or> G (last (take n order)) = grp)"
proof -
  let ?Q = "\<lambda>i. G i = grp \<and> map_option ot_openerId (byId i) = Some op"
  define w where "w = takeWhile ?Q (drop (Suc a) order)"
  have n: "n = Suc a + length w" by (simp add: n_def chainEnd_def w_def)
  have "take (length w) (drop (Suc a) order) = w" unfolding w_def by (rule takeWhile_eq_take [symmetric])
  then have t: "take n order = take (Suc a) order @ w" unfolding n take_add by simp
  have ne: "take (Suc a) order \<noteq> []" using assms(1) by (cases order) auto
  have "G (last w) = grp" if "w \<noteq> []" using last_in_set [OF that] unfolding w_def by (blast dest: set_takeWhileD)
  then have "n = Suc a \<or> G (last (take n order)) = grp" using n unfolding t by (cases "w = []") simp_all
  moreover have "take n order \<noteq> []" using ne unfolding t by simp
  ultimately show ?thesis by blast
qed

definition fits :: "tab_id list \<Rightarrow> nat \<Rightarrow> tab_id option \<Rightarrow> group_of \<Rightarrow> bool" where
  "fits order n target G \<longleftrightarrow>
     (\<forall>g. target \<noteq> Some g \<longrightarrow> none (inGroup G g) (take n order) \<or> none (inGroup G g) (drop n order)) \<and>
     (\<forall>t. target = Some t \<longrightarrow> none (inGroup G t) order \<or> (take n order \<noteq> [] \<and> inGroup G t (last (take n order))))"

lemma fits_last:
  assumes "\<And>g. contiguous (inGroup G g) order" and "take n order \<noteq> []" and "G (last (take n order)) = Some t"
  shows "fits order n (Some t) G"
proof -
  have "none (inGroup G g) (take n order) \<or> none (inGroup G g) (drop n order)" if "g \<noteq> t" for g
    by (rule cut_after) (use assms that in \<open>simp_all add: inGroup_def\<close>)
  then show ?thesis using assms by (auto simp: fits_def inGroup_def)
qed

lemma fits_out:
  assumes "\<And>g. none (inGroup G g) (take n order) \<or> none (inGroup G g) (drop n order)"
    and "\<And>t. target = Some t \<Longrightarrow> none (inGroup G t) order"
  shows "fits order n target G"
  using assms by (simp add: fits_def)

lemma chainEnd_out:
  assumes "\<And>g. contiguous (inGroup G g) order" and "a < length order"
    and "\<And>g. none (inGroup G g) (take (Suc a) order) \<or> none (inGroup G g) (drop (Suc a) order)"
    and n_def: "n = chainEnd order a op None byId G"
  shows "none (inGroup G g) (take n order) \<or> none (inGroup G g) (drop n order)"
proof -
  have c: "take n order \<noteq> []" "n = Suc a \<or> G (last (take n order)) = None"
    using chainEnd_last [OF assms(2) n_def] by auto
  from c(2) show ?thesis
  proof
    assume "n = Suc a" then show ?thesis using assms(3) by simp
  next
    assume "G (last (take n order)) = None"
    then show ?thesis using cut_after [of "inGroup G g" "take n order" "drop n order"] c(1) assms(1) by (simp add: inGroup_def)
  qed
qed

lemma placeOf_fits:
  assumes con: "\<And>g. contiguous (inGroup G g) order"
  shows "fits order (placeOf order tab byId G) (G (ot_id tab)) G"
proof -
  define opener where "opener = (case ot_openerId tab of None \<Rightarrow> None | Some p \<Rightarrow> indexOf p order)"
  define free where "free = (case opener of None \<Rightarrow> length order
      | Some a \<Rightarrow> let after = (case Option.bind (ot_openerId tab) G of None \<Rightarrow> a
                     | Some og \<Rightarrow> (case groupRun order og G of None \<Rightarrow> a | Some (_, e) \<Rightarrow> e - 1))
                in chainEnd order after (ot_openerId tab) None byId G)"
  have op: "a < length order \<and> ot_openerId tab = Some (order ! a)" if "opener = Some a" for a
    using that indexOf_Some(1,2) [of _ order a] by (auto simp: opener_def split: option.splits)
  have free: "none (inGroup G g) (take free order) \<or> none (inGroup G g) (drop free order)" for g
  proof (cases opener)
    case None
    then show ?thesis by (simp add: free_def none_def)
  next
    case (Some a)
    note o = op [OF Some]
    show ?thesis
    proof (cases "G (order ! a)")
      case None
      then have f: "free = chainEnd order a (ot_openerId tab) None byId G" using Some o by (simp add: free_def)
      have "none (inGroup G h) (take (Suc a) order) \<or> none (inGroup G h) (drop (Suc a) order)" for h
      proof (rule cut_after)
        show "contiguous (inGroup G h) (take (Suc a) order @ drop (Suc a) order)" using con by simp
        show "take (Suc a) order \<noteq> []" "\<not> inGroup G h (last (take (Suc a) order))"
          using o None by (auto simp: take_Suc_conv_app_nth inGroup_def)
      qed
      then show ?thesis using con o f by (intro chainEnd_out [of G order a free]) auto
    next
      case og: (Some og)
      have "groupRun order og G \<noteq> None" using og o nth_mem [of a order] by (metis groupRun_None none_def inGroup_def)
      then obtain b e where run: "groupRun order og G = Some (b, e)" by auto
      then have f: "free = chainEnd order (e - 1) (ot_openerId tab) None byId G" using Some o og by (simp add: free_def)
      have e: "Suc (e - 1) = e" "e - 1 < length order" using groupRun_Some(6,7) [OF run] by auto
      show ?thesis using con e f run_end_out [OF run con] by (intro chainEnd_out [of G order "e - 1" free]) auto
    qed
  qed
  show ?thesis
  proof (cases "G (ot_id tab)")
    case None
    then have "placeOf order tab byId G = free"
      unfolding placeOf_def Let_def free_def opener_def by simp
    then show ?thesis using fits_out [OF free, of None] None by simp
  next
    case (Some grp)
    show ?thesis
    proof (cases "groupRun order grp G")
      case None
      then have "placeOf order tab byId G = free"
        using Some unfolding placeOf_def Let_def free_def opener_def by simp
      then show ?thesis using fits_out [OF free, of "Some grp"] None Some by (simp add: groupRun_None)
    next
      case run: (Some r)
      obtain b e where r: "r = (b, e)" by (cases r)
      note run = run [unfolded r]
      show ?thesis
      proof (cases "\<exists>a. opener = Some a \<and> Option.bind (ot_openerId tab) G = Some grp")
        case True
        then obtain a where a: "opener = Some a" "Option.bind (ot_openerId tab) G = Some grp" by blast
        let ?n = "chainEnd order a (ot_openerId tab) (Some grp) byId G"
        have p: "placeOf order tab byId G = ?n"
          using Some run a unfolding placeOf_def Let_def opener_def [symmetric] by simp
        have o: "a < length order" "G (order ! a) = Some grp" using op [OF a(1)] a(2) by auto
        then have "G (last (take (Suc a) order)) = Some grp" by (simp add: take_Suc_conv_app_nth)
        then have "take ?n order \<noteq> []" "G (last (take ?n order)) = Some grp"
          using chainEnd_last [OF o(1) refl, of "ot_openerId tab" "Some grp" byId G] by auto
        then show ?thesis unfolding p Some by (rule fits_last [OF con])
      next
        case False
        then have p: "placeOf order tab byId G = e"
          using Some run unfolding placeOf_def Let_def opener_def [symmetric] by (auto split: option.splits)
        show ?thesis unfolding p Some
          by (rule fits_last [OF con]) (use groupRun_Some(4,5) [OF run] in \<open>simp_all add: inGroup_def\<close>)
      qed
    qed
  qed
qed

definition placeTab :: "(tab_id \<rightharpoonup> order_tab) \<Rightarrow> group_of \<Rightarrow> tab_id list \<Rightarrow> order_tab \<Rightarrow> tab_id list" where
  "placeTab byId G order tab = insertAt (placeOf order tab byId G) [ot_id tab] order"

lemma placeTab_step:
  assumes "adjacent \<lparr>ar_order = order, ar_groupOf = G\<rparr>"
  shows "adjacent \<lparr>ar_order = placeTab byId G order tab, ar_groupOf = G\<rparr>"
    and "mset (placeTab byId G order tab) = add_mset (ot_id tab) (mset order)"
    and "\<not> Q (ot_id tab) \<Longrightarrow> filter Q (placeTab byId G order tab) = filter Q order"
proof -
  have con: "\<And>g. contiguous (inGroup G g) order" using assms by (simp add: adjacent_iff)
  show "adjacent \<lparr>ar_order = placeTab byId G order tab, ar_groupOf = G\<rparr>"
    unfolding placeTab_def using placeOf_fits [OF con, of tab byId]
    by (intro adjacent_insert [where G = G and target = "G (ot_id tab)"] con) (auto simp: fits_def)
  show "mset (placeTab byId G order tab) = add_mset (ot_id tab) (mset order)"
    by (simp add: placeTab_def insertAt_mset)
  show "filter Q (placeTab byId G order tab) = filter Q order" if "\<not> Q (ot_id tab)"
    using that filter_append [of Q "take (placeOf order tab byId G) order" "drop (placeOf order tab byId G) order"]
    by (simp add: placeTab_def insertAt_def)
qed

lemma placeTab_fold:
  assumes "adjacent \<lparr>ar_order = order, ar_groupOf = G\<rparr>"
  shows "adjacent \<lparr>ar_order = foldl (placeTab byId G) order us, ar_groupOf = G\<rparr>"
    and "mset (foldl (placeTab byId G) order us) = mset order + mset (map ot_id us)"
    and "\<forall>u \<in> set us. \<not> Q (ot_id u) \<Longrightarrow> filter Q (foldl (placeTab byId G) order us) = filter Q order"
  using assms
proof (induction us arbitrary: order)
  case (Cons u us)
  {
    case 1 then show ?case using Cons.IH(1) placeTab_step(1) by simp
  next
    case 2 then show ?case using Cons.IH(2) placeTab_step(1,2) by simp
  next
    case 3 then show ?case using Cons.IH(3) placeTab_step(1,3) by simp
  }
qed simp_all

lemma resolve_fold:
  "resolveBrowserTabOrder saved tabs G =
     (let order = js_uniq (filter (\<lambda>i. tabById tabs i \<noteq> None) (case saved of None \<Rightarrow> [] | Some s \<Rightarrow> s))
      in foldl (placeTab (tabById tabs) G) order (sort_key recorded (filter (\<lambda>t. ot_id t \<notin> set order) tabs)))"
proof -
  have "placeTab (tabById tabs) G = (\<lambda>order tab. insertAt (placeOf order tab (tabById tabs) G) [ot_id tab] order)"
    by (intro ext) (simp add: placeTab_def)
  then show ?thesis by (simp add: resolveBrowserTabOrder_def Let_def)
qed

lemma tabById_None: "tabById tabs i = None \<longleftrightarrow> i \<notin> ot_id ` set tabs"
  by (force simp: tabById_def map_of_eq_None_iff)

definition keptOrder :: "tab_id list option \<Rightarrow> order_tab list \<Rightarrow> tab_id list" where
  "keptOrder saved tabs = js_uniq (filter (\<lambda>i. i \<in> set (map ot_id tabs)) (case saved of None \<Rightarrow> [] | Some s \<Rightarrow> s))"

lemma resolve_kept:
  "resolveBrowserTabOrder saved tabs G = foldl (placeTab (tabById tabs) G) (keptOrder saved tabs)
     (sort_key recorded (filter (\<lambda>t. ot_id t \<notin> set (keptOrder saved tabs)) tabs))"
  unfolding resolve_fold Let_def keptOrder_def tabById_None by simp

lemma kept_adjacent:
  assumes "adjacent \<lparr>ar_order = (case saved of None \<Rightarrow> [] | Some s \<Rightarrow> s), ar_groupOf = G\<rparr>"
  shows "adjacent \<lparr>ar_order = keptOrder saved tabs, ar_groupOf = G\<rparr>"
  using assms unfolding adjacent_iff keptOrder_def
  by (auto intro!: contiguous_subseq [OF contiguous_filter subseq_js_uniq])

section \<open>Properties\<close>

text \<open>C22: Moving tabs or a group only permutes the tabs, each moved tab of a tab move is in the
destination's group afterwards and every other tab keeps its group; and every group's tabs stand
together afterwards, as the file promises, unless the move is of the one shape
\<open>move_splits\<close> names.\<close>

theorem tab_move_correct:
  assumes "distinct (ar_order a)" and "adjacent a" and "moveBrowserTabs a move = Inr a'"
  shows "mset (ar_order a') = mset (ar_order a) \<and>
    (\<not> move_splits a move \<longrightarrow> adjacent a') \<and>
    (case mv_item move of
       MoveGroup _ \<Rightarrow> ar_groupOf a' = ar_groupOf a
     | MoveTabs ids \<Rightarrow> ar_groupOf a' = (\<lambda>i. if i \<in> set ids then mv_groupId move else ar_groupOf a i))"
proof -
  have "case mv_item move of MoveGroup _ \<Rightarrow> ar_groupOf a' = ar_groupOf a
     | MoveTabs ids \<Rightarrow> ar_groupOf a' = (\<lambda>i. if i \<in> set ids then mv_groupId move else ar_groupOf a i)"
    using assms(3)
    by (rule moveBrowserTabs_split)
       (auto simp: movingTabs_def Let_def regroup_def split: move_item.splits if_splits)
  then show ?thesis using move_mset [OF assms(1,3)] move_adjacent [OF assms] by blast
qed

definition tabs_hht :: arrangement where
  "tabs_hht = \<lparr>ar_order = [[1], [2], [3], [4]],
     ar_groupOf = [[1] \<mapsto> [104], [2] \<mapsto> [104], [3] \<mapsto> [104], [4] \<mapsto> [116]]\<rparr>"

theorem tab_move_correct_witness:
  "(\<exists>a'. moveBrowserTabs tabs_hht \<lparr>mv_item = MoveTabs [[3], [2]], mv_groupId = Some [116], mv_before = Some (BeforeTab [4])\<rparr> = Inr a' \<and>
     ar_order a' = [[1], [2], [3], [4]] \<and> ar_groupOf a' [3] = Some [116] \<and> adjacent a')"
proof -
  let ?m = "\<lparr>mv_item = MoveTabs [[3], [2]], mv_groupId = Some [116], mv_before = Some (BeforeTab [4])\<rparr>"
  have d: "distinct (ar_order tabs_hht)" "adjacent tabs_hht" by code_simp+
  obtain a' where a': "moveBrowserTabs tabs_hht ?m = Inr a'" and o: "ar_order a' = [[1], [2], [3], [4]]"
  proof -
    have "map_sum id ar_order (moveBrowserTabs tabs_hht ?m) = Inr [[1], [2], [3], [4]]" by code_simp
    then show thesis using that by (cases "moveBrowserTabs tabs_hht ?m") auto
  qed
  have "\<not> move_splits tabs_hht ?m" by code_simp
  then show ?thesis using tab_move_correct [OF d a'] a' o by (auto simp: fun_eq_iff)
qed

text \<open>The exception is real: taking every tab of a group together with a tab inside another
group, to the end of that first group, is accepted and puts the group back in the middle of the other one.\<close>

theorem tab_move_splits_group:
  "adjacent tabs_hht \<and>
   (case moveBrowserTabs tabs_hht \<lparr>mv_item = MoveTabs [[2], [4]], mv_groupId = Some [116], mv_before = None\<rparr> of
      Inl _ \<Rightarrow> False
    | Inr a' \<Rightarrow> ar_order a' = [[1], [2], [4], [3]] \<and> ar_groupOf a' [1] = Some [104] \<and>
        ar_groupOf a' [3] = Some [104] \<and> ar_groupOf a' [2] = Some [116] \<and> \<not> adjacent a')"
  by code_simp

text \<open>Putting tabs in a group, existing or new, keeps every group's tabs together and only
permutes the tabs; the tabs that stay ungrouped or in their group are untouched and the named ones
that are saved end in the group.\<close>

theorem tab_group:
  assumes "distinct (ar_order a)" and "adjacent a"
  shows "adjacent (groupBrowserTabs a ids t) \<and>
    mset (ar_order (groupBrowserTabs a ids t)) = mset (ar_order a) \<and>
    ar_groupOf (groupBrowserTabs a ids t) =
      (\<lambda>i. if i \<in> set ids \<and> i \<in> set (ar_order a) then Some t else ar_groupOf a i)"
  using group_adjacent [OF assms] group_groupOf [OF assms] by blast

theorem tab_group_witness:
  "adjacent (groupBrowserTabs tabs_hht [[2], [7]] [110]) \<and>
   ar_groupOf (groupBrowserTabs tabs_hht [[2], [7]] [110]) [2] = Some [110] \<and>
   ar_order (groupBrowserTabs tabs_hht [[2], [7]] [110]) = [[1], [3], [2], [4]]"
proof -
  have "distinct (ar_order tabs_hht)" "adjacent tabs_hht" by code_simp+
  note tab_group [OF this, of "[[2], [7]]" "[110]"]
  moreover have "ar_order (groupBrowserTabs tabs_hht [[2], [7]] [110]) = [[1], [3], [2], [4]]" by code_simp
  moreover have "[2] \<in> set (ar_order tabs_hht)" by code_simp
  ultimately show ?thesis by simp
qed

text \<open>Ungrouping keeps every group's tabs together, only permutes the tabs, and takes exactly
the named saved tabs out of their groups.\<close>

theorem tab_ungroup:
  assumes "distinct (ar_order a)" and "adjacent a"
  shows "adjacent (ungroupBrowserTabs a ids) \<and>
    mset (ar_order (ungroupBrowserTabs a ids)) = mset (ar_order a) \<and>
    ar_groupOf (ungroupBrowserTabs a ids) =
      (\<lambda>i. if i \<in> set ids \<and> i \<in> set (ar_order a) then None else ar_groupOf a i)"
proof -
  define l where "l = filter (\<lambda>i. ar_groupOf a i \<noteq> None) ids"
  define gs where "gs = js_uniq (List.map_filter (ar_groupOf a) (js_uniq l))"
  have u: "ungroupBrowserTabs a ids = foldl (ungroupOne l) a gs"
    unfolding ungroupBrowserTabs_def Let_def l_def gs_def ..
  have mem: "i \<in> set l \<and> ar_groupOf a i \<in> Some ` set gs \<longleftrightarrow> i \<in> set ids \<and> ar_groupOf a i \<noteq> None" for i
    by (force simp: gs_def l_def List.map_filter_def image_iff)
  have "ar_groupOf (ungroupBrowserTabs a ids) i =
      (if i \<in> set ids \<and> i \<in> set (ar_order a) then None else ar_groupOf a i)" for i
    unfolding u ungroup_fold_groupOf [OF assms] using mem [of i] by auto
  then show ?thesis using ungroup_fold [OF assms, of l gs] unfolding u by blast
qed

theorem tab_ungroup_witness:
  "adjacent (ungroupBrowserTabs tabs_hht [[2]]) \<and> ar_groupOf (ungroupBrowserTabs tabs_hht [[2]]) [2] = None \<and>
   ar_order (ungroupBrowserTabs tabs_hht [[2]]) = [[1], [3], [2], [4]]"
proof -
  have "distinct (ar_order tabs_hht)" "adjacent tabs_hht" by code_simp+
  note tab_ungroup [OF this, of "[[2]]"]
  moreover have "ar_order (ungroupBrowserTabs tabs_hht [[2]]) = [[1], [3], [2], [4]]" by code_simp
  moreover have "[2] \<in> set (ar_order tabs_hht)" by code_simp
  ultimately show ?thesis by simp
qed

text \<open>The resolved order holds each of the tabs once, keeps the saved tabs that still exist in their
saved order, and keeps every group's tabs together when the saved order did.\<close>

theorem tab_resolve:
  assumes "distinct (map ot_id tabs)"
    and "adjacent \<lparr>ar_order = (case saved of None \<Rightarrow> [] | Some s \<Rightarrow> s), ar_groupOf = G\<rparr>"
  shows "mset (resolveBrowserTabOrder saved tabs G) = mset (map ot_id tabs) \<and>
    filter (\<lambda>i. i \<in> set (keptOrder saved tabs)) (resolveBrowserTabOrder saved tabs G) = keptOrder saved tabs \<and>
    adjacent \<lparr>ar_order = resolveBrowserTabOrder saved tabs G, ar_groupOf = G\<rparr>"
proof -
  let ?k = "keptOrder saved tabs" and ?Q = "\<lambda>t. ot_id t \<notin> set (keptOrder saved tabs)"
  let ?us = "sort_key recorded (filter ?Q tabs)"
  note f = placeTab_fold [OF kept_adjacent [OF assms(2), of tabs], where byId = "tabById tabs" and us = ?us]
  have "mset ?k = mset (filter (\<lambda>i. i \<in> set ?k) (map ot_id tabs))"
    using assms(1) by (intro set_eq_iff_mset_eq_distinct [THEN iffD1]) (auto simp: keptOrder_def)
  moreover have "mset (map ot_id ?us) = mset (filter (\<lambda>i. i \<notin> set ?k) (map ot_id tabs))"
    by (simp add: filter_map comp_def)
  ultimately have m: "mset (foldl (placeTab (tabById tabs) G) ?k ?us) = mset (map ot_id tabs)"
    unfolding f(2) by (simp add: multiset_partition [symmetric])
  show ?thesis unfolding resolve_kept using m f(1) f(3) [of "\<lambda>i. i \<in> set ?k"] by (simp add: filter_True)
qed

definition tab_ex :: "nat \<Rightarrow> nat option \<Rightarrow> order_tab" where
  "tab_ex i opener = \<lparr>ot_id = [i], ot_openerId = map_option (\<lambda>n. [n]) opener, ot_createdAt = int i,
     ot_lineageCreatedAt = 0, ot_order = 0\<rparr>"

text \<open>A tab opened from inside a group's run, not grouped itself, lands after the whole group.\<close>

theorem tab_resolve_witness:
  "resolveBrowserTabOrder (Some [[1], [2], [9], [3]]) [tab_ex 1 None, tab_ex 2 None, tab_ex 3 None, tab_ex 4 (Some 1)]
     [[1] \<mapsto> [104], [2] \<mapsto> [104]] = [[1], [2], [4], [3]] \<and>
   adjacent \<lparr>ar_order = resolveBrowserTabOrder (Some [[1], [2], [9], [3]])
       [tab_ex 1 None, tab_ex 2 None, tab_ex 3 None, tab_ex 4 (Some 1)] [[1] \<mapsto> [104], [2] \<mapsto> [104]],
     ar_groupOf = [[1] \<mapsto> [104], [2] \<mapsto> [104]]\<rparr>"
proof -
  have "distinct (map ot_id [tab_ex 1 None, tab_ex 2 None, tab_ex 3 None, tab_ex 4 (Some 1)])"
    "adjacent \<lparr>ar_order = (case Some [[1], [2], [9], [3]] of None \<Rightarrow> [] | Some s \<Rightarrow> s),
      ar_groupOf = [[1::nat] \<mapsto> [104], [2] \<mapsto> [104]]\<rparr>" by code_simp+
  from tab_resolve [OF this] show ?thesis by (intro conjI) (code_simp, simp)
qed

end
