(* ===== verification/Bounded_Inbox.thy ===== *)
theory Bounded_Inbox
  imports OS_Prelude
begin

text \<open>
  A socket's bounded inbox (packages/shared/src/boundedAsyncInbox.ts): a queue with ceilings
  in items and bytes, readers that wait for a value, and an optional flow that pauses the
  source at a high-water mark and resumes it at half. What a call makes happen outside the
  inbox (a promise settled, the source paused or resumed) is an output of the operation.
\<close>

record 'a inbox_item =
  it_bytes :: int
  it_value :: 'a

record inbox_flow =
  fl_highWaterBytes :: int
  fl_highWaterItems :: int

record inbox_options =
  io_flow :: "inbox_flow option"
  io_maxBytes :: int
  io_maxItems :: int

text \<open>\<open>Some None\<close> is a close without an error, \<open>Some (Some e)\<close> one with it.\<close>

record ('a, 'e) inbox =
  ib_queue :: "'a inbox_item list"
  ib_waiters :: "nat list"
  ib_bytes :: int
  ib_closed :: "'e option option"
  ib_paused :: bool

datatype ('a, 'e) inbox_output =
    Delivered nat 'a
  | Ended nat
  | Rejected nat 'e
  | PauseSource
  | ResumeSource

definition newInbox :: "('a, 'e) inbox" where
  "newInbox = \<lparr>ib_queue = [], ib_waiters = [], ib_bytes = 0, ib_closed = None, ib_paused = False\<rparr>"

section \<open>Operations\<close>

text \<open>\<open>None\<close> is the overflow the call throws.\<close>

definition ib_push :: "inbox_options \<Rightarrow> 'a inbox_item \<Rightarrow> ('a, 'e) inbox
    \<Rightarrow> (('a, 'e) inbox \<times> ('a, 'e) inbox_output list) option" where
  "ib_push opt item b =
     (if ib_closed b \<noteq> None then Some (b, [])
      else if it_bytes item < 0 \<or> it_bytes item > io_maxBytes opt then None
      else case ib_waiters b of
        w # ws \<Rightarrow> Some (b\<lparr>ib_waiters := ws\<rparr>, [Delivered w (it_value item)])
      | [] \<Rightarrow>
          if int (length (ib_queue b)) \<ge> io_maxItems opt \<or> ib_bytes b + it_bytes item > io_maxBytes opt then None
          else
            let b' = b\<lparr>ib_queue := ib_queue b @ [item], ib_bytes := ib_bytes b + it_bytes item\<rparr>
            in (case io_flow opt of
                  None \<Rightarrow> Some (b', [])
                | Some flow \<Rightarrow>
                    if \<not> ib_paused b' \<and> (ib_bytes b' \<ge> fl_highWaterBytes flow
                         \<or> int (length (ib_queue b')) \<ge> fl_highWaterItems flow)
                    then Some (b'\<lparr>ib_paused := True\<rparr>, [PauseSource])
                    else Some (b', [])))"

definition ib_close :: "'e option \<Rightarrow> ('a, 'e) inbox \<Rightarrow> ('a, 'e) inbox \<times> ('a, 'e) inbox_output list" where
  "ib_close error b =
     (if ib_closed b \<noteq> None then (b, [])
      else (b\<lparr>ib_closed := Some error, ib_waiters := []\<rparr>,
        map (\<lambda>w. case error of Some e \<Rightarrow> Rejected w e | None \<Rightarrow> Ended w) (ib_waiters b)))"

definition ib_next :: "inbox_options \<Rightarrow> nat \<Rightarrow> ('a, 'e) inbox \<Rightarrow> ('a, 'e) inbox \<times> ('a, 'e) inbox_output list" where
  "ib_next opt r b =
     (case ib_queue b of
        item # rest \<Rightarrow>
          let b' = b\<lparr>ib_queue := rest, ib_bytes := ib_bytes b - it_bytes item\<rparr>
          in (case io_flow opt of
                None \<Rightarrow> (b', [Delivered r (it_value item)])
              | Some flow \<Rightarrow>
                  if ib_paused b' \<and> 2 * ib_bytes b' \<le> fl_highWaterBytes flow
                       \<and> 2 * int (length rest) \<le> fl_highWaterItems flow
                  then (b'\<lparr>ib_paused := False\<rparr>, [ResumeSource, Delivered r (it_value item)])
                  else (b', [Delivered r (it_value item)]))
      | [] \<Rightarrow>
          (case ib_closed b of
             Some None \<Rightarrow> (b, [Ended r])
           | Some (Some e) \<Rightarrow> (b, [Rejected r e])
           | None \<Rightarrow> (b\<lparr>ib_waiters := ib_waiters b @ [r]\<rparr>, [])))"

section \<open>Runs\<close>

text \<open>
  What an observer of an inbox sees: the values a call of \<open>push\<close> accepted, the readers that
  asked, and the outputs. Values pushed after the close are dropped, so they are not accepted.
\<close>

datatype ('a, 'e) inbox_event = Push "'a inbox_item" | Close "'e option" | Next

record ('a, 'e) inbox_world =
  iw_inbox :: "('a, 'e) inbox"
  iw_accepted :: "'a list"
  iw_asked :: nat
  iw_out :: "('a, 'e) inbox_output list"

definition newInboxWorld :: "('a, 'e) inbox_world" where
  "newInboxWorld = \<lparr>iw_inbox = newInbox, iw_accepted = [], iw_asked = 0, iw_out = []\<rparr>"

definition inboxStep :: "inbox_options \<Rightarrow> ('a, 'e) inbox_world \<Rightarrow> ('a, 'e) inbox_event \<Rightarrow> ('a, 'e) inbox_world" where
  "inboxStep opt w e =
     (case e of
        Push item \<Rightarrow>
          (case ib_push opt item (iw_inbox w) of
             None \<Rightarrow> w
           | Some (b, out) \<Rightarrow>
               \<lparr>iw_inbox = b,
                iw_accepted = iw_accepted w @ (if ib_closed (iw_inbox w) = None then [it_value item] else []),
                iw_asked = iw_asked w, iw_out = iw_out w @ out\<rparr>)
      | Close error \<Rightarrow>
          (case ib_close error (iw_inbox w) of (b, out) \<Rightarrow>
             \<lparr>iw_inbox = b, iw_accepted = iw_accepted w, iw_asked = iw_asked w, iw_out = iw_out w @ out\<rparr>)
      | Next \<Rightarrow>
          (case ib_next opt (iw_asked w) (iw_inbox w) of (b, out) \<Rightarrow>
             \<lparr>iw_inbox = b, iw_accepted = iw_accepted w, iw_asked = Suc (iw_asked w), iw_out = iw_out w @ out\<rparr>))"

text \<open>The readings of the outputs: the values delivered, the readers answered, the flow signals.\<close>

fun outValue :: "('a, 'e) inbox_output \<Rightarrow> 'a list" where
  "outValue (Delivered _ v) = [v]"
| "outValue _ = []"

fun outReader :: "('a, 'e) inbox_output \<Rightarrow> nat list" where
  "outReader (Delivered r _) = [r]"
| "outReader (Ended r) = [r]"
| "outReader (Rejected r _) = [r]"
| "outReader _ = []"

fun outFlow :: "('a, 'e) inbox_output \<Rightarrow> bool list" where
  "outFlow PauseSource = [True]"
| "outFlow ResumeSource = [False]"
| "outFlow _ = []"

definition delivered :: "('a, 'e) inbox_world \<Rightarrow> 'a list" where
  "delivered w = concat (map outValue (iw_out w))"

definition answered :: "('a, 'e) inbox_world \<Rightarrow> nat list" where
  "answered w = concat (map outReader (iw_out w))"

definition signals :: "('a, 'e) inbox_world \<Rightarrow> bool list" where
  "signals w = concat (map outFlow (iw_out w))"

text \<open>Pauses and resumptions alternate, starting with a pause, and end in the given state.\<close>

fun alternates :: "bool \<Rightarrow> bool list \<Rightarrow> bool \<Rightarrow> bool" where
  "alternates now [] end_state = (now = end_state)"
| "alternates now (x # xs) end_state = (x = (\<not> now) \<and> alternates x xs end_state)"

lemma alternates_append: "alternates a (xs @ ys) c \<longleftrightarrow> (\<exists>b. alternates a xs b \<and> alternates b ys c)"
  by (induction a xs c rule: alternates.induct) auto

section \<open>Invariant\<close>

definition inbox_sizes :: "inbox_options \<Rightarrow> ('a, 'e) inbox \<Rightarrow> bool" where
  "inbox_sizes opt b \<longleftrightarrow>
     ib_bytes b = sum_list (map it_bytes (ib_queue b)) \<and>
     list_all (\<lambda>i. 0 \<le> it_bytes i \<and> it_bytes i \<le> io_maxBytes opt) (ib_queue b) \<and>
     (ib_queue b \<noteq> [] \<longrightarrow> ib_bytes b \<le> io_maxBytes opt \<and> int (length (ib_queue b)) \<le> io_maxItems opt)"

definition inbox_shape :: "('a, 'e) inbox \<Rightarrow> bool" where
  "inbox_shape b \<longleftrightarrow> (ib_waiters b \<noteq> [] \<longrightarrow> ib_queue b = [] \<and> ib_closed b = None)"

definition inbox_flowing :: "inbox_options \<Rightarrow> ('a, 'e) inbox \<Rightarrow> bool" where
  "inbox_flowing opt b \<longleftrightarrow>
     (case io_flow opt of
        None \<Rightarrow> \<not> ib_paused b
      | Some flow \<Rightarrow>
          0 < fl_highWaterBytes flow \<and> 0 < fl_highWaterItems flow \<longrightarrow>
          (if ib_paused b
           then 2 * ib_bytes b > fl_highWaterBytes flow \<or> 2 * int (length (ib_queue b)) > fl_highWaterItems flow
           else ib_bytes b < fl_highWaterBytes flow \<and> int (length (ib_queue b)) < fl_highWaterItems flow))"

definition inbox_books :: "('a, 'e) inbox_world \<Rightarrow> bool" where
  "inbox_books w \<longleftrightarrow>
     delivered w @ map it_value (ib_queue (iw_inbox w)) = iw_accepted w \<and>
     answered w @ ib_waiters (iw_inbox w) = [0..<iw_asked w] \<and>
     alternates False (signals w) (ib_paused (iw_inbox w))"

definition inbox_inv :: "inbox_options \<Rightarrow> ('a, 'e) inbox_world \<Rightarrow> bool" where
  "inbox_inv opt w \<longleftrightarrow> inbox_sizes opt (iw_inbox w) \<and> inbox_shape (iw_inbox w) \<and>
     inbox_flowing opt (iw_inbox w) \<and> inbox_books w"

lemmas inbox_defs = inbox_sizes_def inbox_shape_def inbox_flowing_def

lemma bytes_nonneg: "list_all (\<lambda>i. 0 \<le> it_bytes i \<and> it_bytes i \<le> m) q \<Longrightarrow> 0 \<le> sum_list (map it_bytes q)"
  by (induction q) auto

lemma push_inbox:
  assumes "ib_push opt item b = Some (b', out)" and "inbox_sizes opt b" and "inbox_shape b" and "inbox_flowing opt b"
  shows "inbox_sizes opt b' \<and> inbox_shape b' \<and> inbox_flowing opt b'"
proof (cases "ib_closed b")
  case (Some c)
  then show ?thesis using assms by (simp add: ib_push_def)
next
  case None
  show ?thesis
  proof (cases "ib_waiters b")
    case (Cons w ws)
    then show ?thesis using assms None by (auto simp: ib_push_def inbox_defs split: if_splits option.splits)
  next
    case Nil
    then show ?thesis
      using assms None by (auto simp: ib_push_def inbox_defs Let_def split: if_splits option.splits)
  qed
qed

lemma close_inbox:
  assumes "ib_close err b = (b', out)" and "inbox_sizes opt b" and "inbox_shape b" and "inbox_flowing opt b"
  shows "inbox_sizes opt b' \<and> inbox_shape b' \<and> inbox_flowing opt b'"
  using assms by (auto simp: ib_close_def inbox_defs split: if_splits option.splits)

lemma next_inbox:
  assumes "ib_next opt r b = (b', out)" and "inbox_sizes opt b" and "inbox_shape b" and "inbox_flowing opt b"
  shows "inbox_sizes opt b' \<and> inbox_shape b' \<and> inbox_flowing opt b'"
proof (cases "ib_queue b")
  case Nil
  then show ?thesis using assms by (auto simp: ib_next_def inbox_defs split: option.splits)
next
  case (Cons i q)
  have s: "inbox_sizes opt b'"
    using assms(1,2) Cons bytes_nonneg [of "io_maxBytes opt" q]
    by (auto simp: ib_next_def inbox_sizes_def Let_def split: option.splits if_splits)
  have "inbox_shape b'"
    using assms(1,3) Cons by (auto simp: ib_next_def inbox_shape_def Let_def split: option.splits if_splits)
  moreover have "inbox_flowing opt b'"
    using assms(1,2,4) Cons
    by (auto simp: ib_next_def inbox_flowing_def inbox_sizes_def Let_def split: option.splits if_splits)
  ultimately show ?thesis using s by blast
qed

text \<open>What an operation adds to the books.\<close>

definition inbox_adds :: "('a, 'e) inbox \<Rightarrow> ('a, 'e) inbox \<Rightarrow> ('a, 'e) inbox_output list \<Rightarrow> 'a list \<Rightarrow> nat list \<Rightarrow> bool" where
  "inbox_adds b b' out values readers \<longleftrightarrow>
     concat (map outValue out) @ map it_value (ib_queue b') = map it_value (ib_queue b) @ values \<and>
     concat (map outReader out) @ ib_waiters b' = ib_waiters b @ readers \<and>
     alternates (ib_paused b) (concat (map outFlow out)) (ib_paused b')"

lemma push_adds:
  assumes "ib_push opt item b = Some (b', out)" and "inbox_shape b"
  shows "inbox_adds b b' out (if ib_closed b = None then [it_value item] else []) []"
  using assms
  by (cases "ib_waiters b")
     (auto simp: ib_push_def inbox_shape_def inbox_adds_def Let_def split: if_splits option.splits)

lemma concat_map_Nil: "concat (map (\<lambda>x. []) xs) = []"
  by (induction xs) simp_all

lemma close_adds: "ib_close err b = (b', out) \<Longrightarrow> inbox_adds b b' out [] []"
  by (cases err) (auto simp: ib_close_def inbox_adds_def comp_def concat_map_Nil split: if_splits)

lemma next_adds: "ib_next opt r b = (b', out) \<Longrightarrow> inbox_shape b \<Longrightarrow> inbox_adds b b' out [] [r]"
  by (cases "ib_queue b")
     (auto simp: ib_next_def inbox_shape_def inbox_adds_def Let_def split: if_splits option.splits)

lemma books_add:
  assumes "inbox_books w" and "inbox_adds (iw_inbox w) b' out values readers"
    and "readers = [] \<and> asked' = iw_asked w \<or> readers = [iw_asked w] \<and> asked' = Suc (iw_asked w)"
  shows "inbox_books \<lparr>iw_inbox = b', iw_accepted = iw_accepted w @ values, iw_asked = asked', iw_out = iw_out w @ out\<rparr>"
proof -
  have a: "[0..<asked'] = [0..<iw_asked w] @ readers" using assms(3) by auto
  have d: "delivered w @ map it_value (ib_queue (iw_inbox w)) = iw_accepted w"
    "answered w @ ib_waiters (iw_inbox w) = [0..<iw_asked w]"
    "alternates False (signals w) (ib_paused (iw_inbox w))" using assms(1) by (auto simp: inbox_books_def)
  then show ?thesis using assms(2)
    by (auto simp: inbox_books_def inbox_adds_def delivered_def answered_def signals_def alternates_append a
        simp flip: d(1) d(2))
qed

lemma inboxStep_inv:
  assumes "inbox_inv opt w"
  shows "inbox_inv opt (inboxStep opt w e)"
proof -
  let ?b = "iw_inbox w"
  have i: "inbox_sizes opt ?b" "inbox_shape ?b" "inbox_flowing opt ?b" "inbox_books w"
    using assms by (auto simp: inbox_inv_def)
  show ?thesis
  proof (cases e)
    case (Push item)
    show ?thesis
    proof (cases "ib_push opt item ?b")
      case None
      then show ?thesis using Push assms by (simp add: inboxStep_def)
    next
      case (Some r)
      obtain b' out where r: "ib_push opt item ?b = Some (b', out)" using Some by (cases r) auto
      show ?thesis
        using Push r push_inbox [OF r i(1,2,3)] books_add [OF i(4) push_adds [OF r i(2)]]
        by (simp add: inboxStep_def inbox_inv_def)
    qed
  next
    case (Close err)
    obtain b' out where r: "ib_close err ?b = (b', out)" by (cases "ib_close err ?b")
    show ?thesis
      using Close r close_inbox [OF r i(1,2,3)] books_add [OF i(4) close_adds [OF r]]
      by (simp add: inboxStep_def inbox_inv_def)
  next
    case Next
    obtain b' out where r: "ib_next opt (iw_asked w) ?b = (b', out)" by (cases "ib_next opt (iw_asked w) ?b")
    show ?thesis
      using Next r next_inbox [OF r i(1,2,3)] books_add [OF i(4) next_adds [OF r i(2)]]
      by (simp add: inboxStep_def inbox_inv_def)
  qed
qed

lemma newInbox_inv: "inbox_inv opt newInboxWorld"
  by (simp add: inbox_inv_def inbox_defs newInboxWorld_def newInbox_def inbox_books_def delivered_def
      answered_def signals_def split: option.splits)

interpretation inboxes: invariant_system "inboxStep opt" "inbox_inv opt" for opt
  by unfold_locales (rule inboxStep_inv)

definition inboxRun :: "inbox_options \<Rightarrow> ('a, 'e) inbox_event list \<Rightarrow> ('a, 'e) inbox_world" where
  "inboxRun opt es = foldl (inboxStep opt) newInboxWorld es"

lemma inboxRun_inv: "inbox_inv opt (inboxRun opt es)"
  unfolding inboxRun_def by (rule inboxes.run_inv [OF newInbox_inv])

section \<open>Properties\<close>

text \<open>Whatever is pushed, read and closed in whatever order, the values delivered are exactly the
accepted ones, in order and without loss or repetition up to those still queued; readers are answered
in the order they asked; and no value waits while a reader does.\<close>

theorem inbox_fifo:
  "delivered (inboxRun opt es) @ map it_value (ib_queue (iw_inbox (inboxRun opt es))) = iw_accepted (inboxRun opt es) \<and>
   answered (inboxRun opt es) @ ib_waiters (iw_inbox (inboxRun opt es)) = [0..<iw_asked (inboxRun opt es)] \<and>
   (ib_queue (iw_inbox (inboxRun opt es)) = [] \<or> ib_waiters (iw_inbox (inboxRun opt es)) = [])"
  using inboxRun_inv [of opt es] by (auto simp: inbox_inv_def inbox_books_def inbox_shape_def)

text \<open>The queue never holds more items or bytes than its ceilings, and its byte counter is the
sum of what it holds.\<close>

theorem inbox_bounds:
  assumes "ib_queue (iw_inbox (inboxRun opt es)) \<noteq> []"
  shows "int (length (ib_queue (iw_inbox (inboxRun opt es)))) \<le> io_maxItems opt \<and>
    ib_bytes (iw_inbox (inboxRun opt es)) = sum_list (map it_bytes (ib_queue (iw_inbox (inboxRun opt es)))) \<and>
    0 \<le> ib_bytes (iw_inbox (inboxRun opt es)) \<and> ib_bytes (iw_inbox (inboxRun opt es)) \<le> io_maxBytes opt"
  using inboxRun_inv [of opt es] assms by (auto simp: inbox_inv_def inbox_sizes_def intro: bytes_nonneg)

text \<open>The source is paused and resumed alternately, and a paused source always has queued input
whose reading resumes it: an empty queue is never paused.\<close>

theorem inbox_flow_alternates:
  assumes "io_flow opt = Some flow" and "0 < fl_highWaterBytes flow" and "0 < fl_highWaterItems flow"
  shows "alternates False (signals (inboxRun opt es)) (ib_paused (iw_inbox (inboxRun opt es))) \<and>
    (ib_paused (iw_inbox (inboxRun opt es)) \<longrightarrow> ib_queue (iw_inbox (inboxRun opt es)) \<noteq> []) \<and>
    (\<not> ib_paused (iw_inbox (inboxRun opt es)) \<longrightarrow>
       ib_bytes (iw_inbox (inboxRun opt es)) < fl_highWaterBytes flow \<and>
       int (length (ib_queue (iw_inbox (inboxRun opt es)))) < fl_highWaterItems flow)"
  using inboxRun_inv [of opt es] assms
  by (auto simp: inbox_inv_def inbox_books_def inbox_flowing_def inbox_sizes_def)

definition inbox_ex :: "inbox_options" where
  "inbox_ex = \<lparr>io_flow = Some \<lparr>fl_highWaterBytes = 4, fl_highWaterItems = 2\<rparr>, io_maxBytes = 10, io_maxItems = 3\<rparr>"

definition inbox_ex_events :: "(nat, string) inbox_event list" where
  "inbox_ex_events = [Next, Push \<lparr>it_bytes = 3, it_value = 1\<rparr>, Push \<lparr>it_bytes = 3, it_value = 2\<rparr>,
     Push \<lparr>it_bytes = 3, it_value = 3\<rparr>, Push \<lparr>it_bytes = 9, it_value = 4\<rparr>]"

theorem inbox_bounds_witness:
  "ib_bytes (iw_inbox (inboxRun inbox_ex inbox_ex_events)) = 6 \<and>
   ib_bytes (iw_inbox (inboxRun inbox_ex inbox_ex_events)) \<le> 10"
proof -
  have "ib_queue (iw_inbox (inboxRun inbox_ex inbox_ex_events)) \<noteq> []" by code_simp
  from inbox_bounds [OF this] have "ib_bytes (iw_inbox (inboxRun inbox_ex inbox_ex_events)) \<le> io_maxBytes inbox_ex" by blast
  moreover have "ib_bytes (iw_inbox (inboxRun inbox_ex inbox_ex_events)) = 6" by code_simp
  ultimately show ?thesis by (simp add: inbox_ex_def)
qed

theorem inbox_flow_alternates_witness:
  "ib_paused (iw_inbox (inboxRun inbox_ex inbox_ex_events)) \<and> ib_queue (iw_inbox (inboxRun inbox_ex inbox_ex_events)) \<noteq> [] \<and>
   alternates False (signals (inboxRun inbox_ex inbox_ex_events)) True"
proof -
  have "io_flow inbox_ex = Some \<lparr>fl_highWaterBytes = 4, fl_highWaterItems = 2\<rparr>" by (simp add: inbox_ex_def)
  note inbox_flow_alternates [OF this, of inbox_ex_events]
  moreover have "ib_paused (iw_inbox (inboxRun inbox_ex inbox_ex_events))" by code_simp
  ultimately show ?thesis by simp
qed

end
