(* ===== verification/Wake_Queue.thy ===== *)
theory Wake_Queue
  imports OS_Prelude
begin

text \<open>
  Coalesced passes (packages/shared/src/coalescedWake.ts) and serialized mutations
  (packages/shared/src/mutationQueue.ts). A promise's settlement and the callbacks chained to it
  are separate steps, so every interleaving the event loop allows is a run of these steps. A
  pass is taken not to wake its own queue before its first \<open>await\<close>.
\<close>

section \<open>Coalesced passes\<close>

record wake_state =
  wk_running :: bool
  wk_requested :: bool

datatype 'e wake_event = Wake | PassEnds "'e option" | Stop
datatype 'e wake_output = PassStarted | ErrorSeen 'e | Settled

definition newWake :: wake_state where
  "newWake = \<lparr>wk_running = False, wk_requested = False\<rparr>"

definition wk_wake :: "wake_state \<Rightarrow> wake_state \<times> 'e wake_output list" where
  "wk_wake s = (if wk_running s then (s\<lparr>wk_requested := True\<rparr>, []) else (s\<lparr>wk_running := True\<rparr>, [PassStarted]))"

text \<open>The running pass settles: \<open>catch\<close>, then \<open>finally\<close>.\<close>

definition wk_passEnds :: "'e option \<Rightarrow> wake_state \<Rightarrow> wake_state \<times> 'e wake_output list" where
  "wk_passEnds failure s =
     (let errors = (case failure of None \<Rightarrow> [] | Some e \<Rightarrow> [ErrorSeen e]);
          s1 = s\<lparr>wk_running := False\<rparr>
      in if \<not> wk_requested s1 then (s1, errors @ [Settled])
         else (case wk_wake (s1\<lparr>wk_requested := False\<rparr>) of (s2, out) \<Rightarrow> (s2, errors @ out)))"

text \<open>\<open>stop\<close> forgets the requested pass; the wait for the running one is that pass's end.\<close>

definition wk_stop :: "wake_state \<Rightarrow> wake_state" where
  "wk_stop s = s\<lparr>wk_requested := False\<rparr>"

text \<open>A pass can only end while one runs.\<close>

definition wakeStep :: "wake_state \<times> ('e wake_event + 'e wake_output) list \<Rightarrow> 'e wake_event
    \<Rightarrow> wake_state \<times> ('e wake_event + 'e wake_output) list" where
  "wakeStep sl e =
     (case sl of (s, log) \<Rightarrow>
       (case e of
          Wake \<Rightarrow> (case wk_wake s of (s', out) \<Rightarrow> (s', log @ Inl e # map Inr out))
        | PassEnds f \<Rightarrow>
            if wk_running s then (case wk_passEnds f s of (s', out) \<Rightarrow> (s', log @ Inl e # map Inr out)) else (s, log)
        | Stop \<Rightarrow> (wk_stop s, log @ [Inl e])))"

definition wakeRun :: "'e wake_event list \<Rightarrow> wake_state \<times> ('e wake_event + 'e wake_output) list" where
  "wakeRun es = foldl wakeStep (newWake, []) es"

text \<open>
  Read from the log alone: is a wake still owed a pass (none has started since, and no stop
  forgot it), and how many passes are under way.
\<close>

fun wakeOwed :: "bool \<Rightarrow> ('e wake_event + 'e wake_output) list \<Rightarrow> bool" where
  "wakeOwed b [] = b"
| "wakeOwed b (Inl Wake # l) = wakeOwed True l"
| "wakeOwed b (Inl Stop # l) = wakeOwed False l"
| "wakeOwed b (Inr PassStarted # l) = wakeOwed False l"
| "wakeOwed b (_ # l) = wakeOwed b l"

fun passesUnderWay :: "int \<Rightarrow> ('e wake_event + 'e wake_output) list \<Rightarrow> int" where
  "passesUnderWay n [] = n"
| "passesUnderWay n (Inr PassStarted # l) = passesUnderWay (n + 1) l"
| "passesUnderWay n (Inl (PassEnds _) # l) = passesUnderWay (n - 1) l"
| "passesUnderWay n (_ # l) = passesUnderWay n l"

fun passesStarted :: "('e wake_event + 'e wake_output) list \<Rightarrow> nat" where
  "passesStarted [] = 0"
| "passesStarted (Inr PassStarted # l) = Suc (passesStarted l)"
| "passesStarted (_ # l) = passesStarted l"

fun wakesMade :: "('e wake_event + 'e wake_output) list \<Rightarrow> nat" where
  "wakesMade [] = 0"
| "wakesMade (Inl Wake # l) = Suc (wakesMade l)"
| "wakesMade (_ # l) = wakesMade l"

lemma wakeOwed_append: "wakeOwed b (xs @ ys) = wakeOwed (wakeOwed b xs) ys"
  by (induction b xs rule: wakeOwed.induct) auto

lemma passesUnderWay_append: "passesUnderWay n (xs @ ys) = passesUnderWay (passesUnderWay n xs) ys"
  by (induction n xs rule: passesUnderWay.induct) auto

lemma passesStarted_append: "passesStarted (xs @ ys) = passesStarted xs + passesStarted ys"
  by (induction xs rule: passesStarted.induct) auto

lemma wakesMade_append: "wakesMade (xs @ ys) = wakesMade xs + wakesMade ys"
  by (induction xs rule: wakesMade.induct) auto

lemmas wake_log_append = wakeOwed_append passesUnderWay_append passesStarted_append wakesMade_append

definition wake_inv :: "wake_state \<times> ('e wake_event + 'e wake_output) list \<Rightarrow> bool" where
  "wake_inv sl \<longleftrightarrow> (case sl of (s, log) \<Rightarrow>
     (wk_requested s \<longrightarrow> wk_running s) \<and> wakeOwed False log = wk_requested s \<and>
     passesUnderWay 0 log = (if wk_running s then 1 else 0) \<and>
     passesStarted log + (if wk_requested s then 1 else 0) \<le> wakesMade log)"

lemma wakeStep_inv: "wake_inv sl \<Longrightarrow> wake_inv (wakeStep sl e)"
  by (cases sl; cases e)
     (auto simp: wake_inv_def wakeStep_def wk_wake_def wk_passEnds_def wk_stop_def Let_def wake_log_append
       split: option.splits if_splits)

interpretation wakes: invariant_system wakeStep wake_inv
  by unfold_locales (rule wakeStep_inv)

lemma wakeRun_inv: "wake_inv (wakeRun es)"
  unfolding wakeRun_def by (rule wakes.run_inv) (simp add: wake_inv_def newWake_def)

text \<open>Passes run one at a time, no wake is lost (a wake that no pass has followed and no stop has
forgotten is requested behind a running pass), and wakes coalesce: never more passes than wakes.\<close>

theorem wake_not_lost:
  "passesUnderWay 0 (snd (wakeRun es)) = (if wk_running (fst (wakeRun es)) then 1 else 0) \<and>
   (wakeOwed False (snd (wakeRun es)) = (wk_requested (fst (wakeRun es)) \<and> wk_running (fst (wakeRun es)))) \<and>
   passesStarted (snd (wakeRun es)) \<le> wakesMade (snd (wakeRun es))"
  using wakeRun_inv [of es] by (cases "wakeRun es") (auto simp: wake_inv_def)

text \<open>Once nothing wakes it any more, the running pass and at most one more end the work, whether
they fail or not, and the end is announced.\<close>

theorem wake_settles:
  assumes "wk_running (fst (wakeRun es))"
  shows "\<exists>n \<le> 2. \<not> wk_running (fst (wakeRun (es @ replicate n (PassEnds f)))) \<and>
    last (snd (wakeRun (es @ replicate n (PassEnds f)))) = Inr Settled"
proof -
  obtain s log where r: "wakeRun es = (s, log)" by (cases "wakeRun es")
  have step: "wakeRun (es @ replicate n (PassEnds f)) = foldl wakeStep (s, log) (replicate n (PassEnds f))" for n
    using r by (simp add: wakeRun_def)
  show ?thesis
  proof (cases "wk_requested s")
    case False
    then show ?thesis unfolding step using assms r
      by (intro exI [of _ 1]) (simp add: wakeStep_def wk_passEnds_def Let_def)
  next
    case True
    then show ?thesis unfolding step using assms r
      by (intro exI [of _ 2]) (simp add: wakeStep_def wk_passEnds_def wk_wake_def Let_def numeral_2_eq_2)
  qed
qed

theorem wake_settles_witness:
  "\<exists>n \<le> 2. \<not> wk_running (fst (wakeRun ([Wake, Wake, Wake] @ replicate n (PassEnds (Some ()))))) \<and>
    last (snd (wakeRun ([Wake, Wake, Wake] @ replicate n (PassEnds (Some ()))))) = Inr Settled"
proof -
  have "wk_running (fst (wakeRun ([Wake, Wake, Wake] :: unit wake_event list)))" by code_simp
  then show ?thesis by (rule wake_settles)
qed

section \<open>Serialized mutations\<close>

text \<open>
  One \<open>MutationQueue\<close> is the operations chained to it: those waiting for the chain, the one
  running and those settled whose \<open>finally\<close> callback has not run. An entry of the keyed queue
  is such a queue with the count of its users. Entries are objects the callbacks hold on to,
  also after the map has dropped them, so they live in a heap and the map holds their places.
\<close>

record mutation_queue =
  mq_waiting :: "nat list"
  mq_running :: "nat option"

record keyed_entry =
  ke_key :: ident
  ke_queue :: mutation_queue
  ke_settled :: "nat list"
  ke_users :: int

record keyed_queue =
  kq_heap :: "keyed_entry list"
  kq_entries :: "(ident, nat) jsmap"

datatype keyed_event =
    Run ident nat
  | Begin nat
  | Settle nat
  | Finally nat nat

datatype keyed_output = Submitted ident nat | Started ident nat | Finished ident nat | Released ident nat

definition newKeyed :: keyed_queue where
  "newKeyed = \<lparr>kq_heap = [], kq_entries = []\<rparr>"

definition newMutationQueue :: mutation_queue where
  "newMutationQueue = \<lparr>mq_waiting = [], mq_running = None\<rparr>"

text \<open>\<open>tail.then(operation, operation)\<close>: the operation is chained behind every earlier one.\<close>

definition mq_run :: "nat \<Rightarrow> mutation_queue \<Rightarrow> mutation_queue" where
  "mq_run i q = q\<lparr>mq_waiting := mq_waiting q @ [i]\<rparr>"

text \<open>The tail has settled, so the next operation of the chain is called.\<close>

definition mq_begin :: "mutation_queue \<Rightarrow> (mutation_queue \<times> nat) option" where
  "mq_begin q =
     (case (mq_running q, mq_waiting q) of
        (None, i # rest) \<Rightarrow> Some (q\<lparr>mq_waiting := rest, mq_running := Some i\<rparr>, i)
      | _ \<Rightarrow> None)"

text \<open>The operation settles, fulfilled or rejected alike.\<close>

definition mq_settle :: "mutation_queue \<Rightarrow> (mutation_queue \<times> nat) option" where
  "mq_settle q = map_option (\<lambda>i. (q\<lparr>mq_running := None\<rparr>, i)) (mq_running q)"

definition keyedRun :: "ident \<Rightarrow> nat \<Rightarrow> keyed_queue \<Rightarrow> keyed_queue" where
  "keyedRun key i s =
     (case jget (kq_entries s) key of
        Some e \<Rightarrow>
          s\<lparr>kq_entries := jset key e (kq_entries s),
            kq_heap := (kq_heap s)[e := (kq_heap s ! e)
              \<lparr>ke_users := ke_users (kq_heap s ! e) + 1, ke_queue := mq_run i (ke_queue (kq_heap s ! e))\<rparr>]\<rparr>
      | None \<Rightarrow>
          s\<lparr>kq_entries := jset key (length (kq_heap s)) (kq_entries s),
            kq_heap := kq_heap s @
              [\<lparr>ke_key = key, ke_queue = mq_run i newMutationQueue, ke_settled = [], ke_users = 1\<rparr>]\<rparr>)"

text \<open>The callback of \<open>finally\<close>.\<close>

definition keyedFinally :: "nat \<Rightarrow> nat \<Rightarrow> keyed_queue \<Rightarrow> keyed_queue" where
  "keyedFinally e i s =
     (let entry = kq_heap s ! e;
          entry' = entry\<lparr>ke_settled := remove1 i (ke_settled entry), ke_users := ke_users entry - 1\<rparr>
      in s\<lparr>kq_heap := (kq_heap s)[e := entry'],
           kq_entries := (if ke_users entry' = 0 then jdel (ke_key entry) (kq_entries s) else kq_entries s)\<rparr>)"

definition keyedKeys :: "keyed_queue \<Rightarrow> ident list" where
  "keyedKeys s = jkeys (kq_entries s)"

text \<open>A run: the calls, and the event loop's steps where they are possible.\<close>

definition keyedStep :: "keyed_queue \<times> keyed_output list \<Rightarrow> keyed_event \<Rightarrow> keyed_queue \<times> keyed_output list" where
  "keyedStep sl ev =
     (case sl of (s, log) \<Rightarrow>
       (case ev of
          Run key i \<Rightarrow> (keyedRun key i s, log @ [Submitted key i])
        | Begin e \<Rightarrow>
            if e < length (kq_heap s) then
              (case mq_begin (ke_queue (kq_heap s ! e)) of
                 None \<Rightarrow> (s, log)
               | Some (q, i) \<Rightarrow>
                   (s\<lparr>kq_heap := (kq_heap s)[e := (kq_heap s ! e)\<lparr>ke_queue := q\<rparr>]\<rparr>,
                    log @ [Started (ke_key (kq_heap s ! e)) i]))
            else (s, log)
        | Settle e \<Rightarrow>
            if e < length (kq_heap s) then
              (case mq_settle (ke_queue (kq_heap s ! e)) of
                 None \<Rightarrow> (s, log)
               | Some (q, i) \<Rightarrow>
                   (s\<lparr>kq_heap := (kq_heap s)[e := (kq_heap s ! e)
                       \<lparr>ke_queue := q, ke_settled := ke_settled (kq_heap s ! e) @ [i]\<rparr>]\<rparr>,
                    log @ [Finished (ke_key (kq_heap s ! e)) i]))
            else (s, log)
        | Finally e i \<Rightarrow>
            if e < length (kq_heap s) \<and> i \<in> set (ke_settled (kq_heap s ! e))
            then (keyedFinally e i s, log @ [Released (ke_key (kq_heap s ! e)) i]) else (s, log)))"

definition keyedRuns :: "keyed_event list \<Rightarrow> keyed_queue \<times> keyed_output list" where
  "keyedRuns es = foldl keyedStep (newKeyed, []) es"

section \<open>The log of a key\<close>

fun submittedOf :: "ident \<Rightarrow> keyed_output \<Rightarrow> nat list" where
  "submittedOf k (Submitted k' i) = (if k' = k then [i] else [])"
| "submittedOf k _ = []"

fun startedOf :: "ident \<Rightarrow> keyed_output \<Rightarrow> nat list" where
  "startedOf k (Started k' i) = (if k' = k then [i] else [])"
| "startedOf k _ = []"

fun finishedOf :: "ident \<Rightarrow> keyed_output \<Rightarrow> nat list" where
  "finishedOf k (Finished k' i) = (if k' = k then [i] else [])"
| "finishedOf k _ = []"

fun releasedOf :: "ident \<Rightarrow> keyed_output \<Rightarrow> nat list" where
  "releasedOf k (Released k' i) = (if k' = k then [i] else [])"
| "releasedOf k _ = []"

definition ofLog :: "('o \<Rightarrow> nat list) \<Rightarrow> 'o list \<Rightarrow> nat list" where
  "ofLog f log = concat (map f log)"

lemma ofLog_simps [simp]: "ofLog f [] = []" "ofLog f (xs @ ys) = ofLog f xs @ ofLog f ys" "ofLog f (x # xs) = f x @ ofLog f xs"
  by (simp_all add: ofLog_def)

definition runningOf :: "mutation_queue \<Rightarrow> nat list" where
  "runningOf q = (case mq_running q of None \<Rightarrow> [] | Some i \<Rightarrow> [i])"

definition entryFor :: "keyed_queue \<Rightarrow> ident \<Rightarrow> keyed_entry option" where
  "entryFor s k = map_option (\<lambda>e. kq_heap s ! e) (jget (kq_entries s) k)"

section \<open>Invariant\<close>

definition entry_ok :: "(ident, nat) jsmap \<Rightarrow> nat \<Rightarrow> keyed_entry \<Rightarrow> bool" where
  "entry_ok m e x \<longleftrightarrow>
     ke_users x = int (length (mq_waiting (ke_queue x)) + length (runningOf (ke_queue x)) + length (ke_settled x)) \<and>
     (0 < ke_users x \<longrightarrow> jget m (ke_key x) = Some e)"

definition heap_ok :: "keyed_queue \<Rightarrow> bool" where
  "heap_ok s \<longleftrightarrow>
     (\<forall>e < length (kq_heap s). entry_ok (kq_entries s) e (kq_heap s ! e)) \<and>
     (\<forall>k e. jget (kq_entries s) k = Some e \<longrightarrow>
        e < length (kq_heap s) \<and> ke_key (kq_heap s ! e) = k \<and> 0 < ke_users (kq_heap s ! e))"

definition key_books :: "keyed_entry option \<Rightarrow> nat list \<Rightarrow> nat list \<Rightarrow> nat list \<Rightarrow> nat list \<Rightarrow> bool" where
  "key_books entry sub st fin rel \<longleftrightarrow>
     (case entry of
        None \<Rightarrow> sub = st \<and> st = fin \<and> length rel = length fin
      | Some x \<Rightarrow> sub = st @ mq_waiting (ke_queue x) \<and> st = fin @ runningOf (ke_queue x) \<and>
                  length fin = length rel + length (ke_settled x))"

definition keyed_inv :: "keyed_queue \<times> keyed_output list \<Rightarrow> bool" where
  "keyed_inv sl \<longleftrightarrow> (case sl of (s, log) \<Rightarrow>
     heap_ok s \<and>
     (\<forall>k. key_books (entryFor s k) (ofLog (submittedOf k) log) (ofLog (startedOf k) log)
        (ofLog (finishedOf k) log) (ofLog (releasedOf k) log)))"

lemma heap_okD:
  assumes "heap_ok s"
  shows "e < length (kq_heap s) \<Longrightarrow> entry_ok (kq_entries s) e (kq_heap s ! e)"
    and "jget (kq_entries s) k = Some e \<Longrightarrow>
      e < length (kq_heap s) \<and> ke_key (kq_heap s ! e) = k \<and> 0 < ke_users (kq_heap s ! e)"
  using assms by (auto simp: heap_ok_def)

text \<open>An update of one entry that keeps its users positive, and the map as it is.\<close>

lemma heap_update:
  assumes "heap_ok s" and "jget (kq_entries s) k = Some e" and "entry_ok (kq_entries s) e x"
    and "ke_key x = k" and "0 < ke_users x"
  shows "heap_ok \<lparr>kq_heap = (kq_heap s)[e := x], kq_entries = kq_entries s\<rparr>"
    and "entryFor \<lparr>kq_heap = (kq_heap s)[e := x], kq_entries = kq_entries s\<rparr> k' = (if k' = k then Some x else entryFor s k')"
proof -
  note d = heap_okD [OF assms(1)]
  show "heap_ok \<lparr>kq_heap = (kq_heap s)[e := x], kq_entries = kq_entries s\<rparr>"
    unfolding heap_ok_def
  proof (intro conjI allI impI)
    fix i assume "i < length (kq_heap \<lparr>kq_heap = (kq_heap s)[e := x], kq_entries = kq_entries s\<rparr>)"
    then show "entry_ok (kq_entries \<lparr>kq_heap = (kq_heap s)[e := x], kq_entries = kq_entries s\<rparr>) i
        (kq_heap \<lparr>kq_heap = (kq_heap s)[e := x], kq_entries = kq_entries s\<rparr> ! i)"
      using d(1) assms(3) by (cases "i = e") simp_all
  next
    fix k' i assume "jget (kq_entries \<lparr>kq_heap = (kq_heap s)[e := x], kq_entries = kq_entries s\<rparr>) k' = Some i"
    then have g: "jget (kq_entries s) k' = Some i" by simp
    show "i < length (kq_heap \<lparr>kq_heap = (kq_heap s)[e := x], kq_entries = kq_entries s\<rparr>)"
      "ke_key (kq_heap \<lparr>kq_heap = (kq_heap s)[e := x], kq_entries = kq_entries s\<rparr> ! i) = k'"
      "0 < ke_users (kq_heap \<lparr>kq_heap = (kq_heap s)[e := x], kq_entries = kq_entries s\<rparr> ! i)"
      using d(2) [OF g] d(2) [OF assms(2)] assms(4,5) by (cases "i = e"; simp)+
  qed
  show "entryFor \<lparr>kq_heap = (kq_heap s)[e := x], kq_entries = kq_entries s\<rparr> k' = (if k' = k then Some x else entryFor s k')"
  proof (cases "jget (kq_entries s) k'")
    case None
    then show ?thesis using assms(2) by (auto simp: entryFor_def)
  next
    case (Some i)
    then show ?thesis using d(2) [OF Some] d(2) [OF assms(2)] assms(2) by (cases "i = e") (auto simp: entryFor_def)
  qed
qed

text \<open>An entry with something outstanding is the one its key has.\<close>

lemma busy_current:
  assumes "heap_ok s" and "e < length (kq_heap s)" and "x = kq_heap s ! e"
    and "mq_waiting (ke_queue x) \<noteq> [] \<or> mq_running (ke_queue x) \<noteq> None \<or> ke_settled x \<noteq> []"
  shows "jget (kq_entries s) (ke_key x) = Some e" and "entryFor s (ke_key x) = Some x"
    and "ke_users x = int (length (mq_waiting (ke_queue x)) + length (runningOf (ke_queue x)) + length (ke_settled x))"
proof -
  have o: "entry_ok (kq_entries s) e x" using heap_okD(1) [OF assms(1,2)] assms(3) by simp
  then show u: "ke_users x = int (length (mq_waiting (ke_queue x)) + length (runningOf (ke_queue x)) + length (ke_settled x))"
    by (simp add: entry_ok_def)
  have "0 < length (mq_waiting (ke_queue x)) + length (runningOf (ke_queue x)) + length (ke_settled x)"
    using assms(4) by (auto simp: runningOf_def)
  then have "0 < ke_users x" using u by linarith
  then show "jget (kq_entries s) (ke_key x) = Some e" using o by (simp add: entry_ok_def)
  then show "entryFor s (ke_key x) = Some x" using assms(3) by (simp add: entryFor_def)
qed

text \<open>A step on the entry of one key, which only logs of that key.\<close>

lemma keyed_update:
  assumes "keyed_inv (s, log)" and "jget (kq_entries s) k = Some e" and "entry_ok (kq_entries s) e x"
    and "ke_key x = k" and "0 < ke_users x"
    and "\<And>k'. k' \<noteq> k \<Longrightarrow> ofLog (submittedOf k') out = [] \<and> ofLog (startedOf k') out = [] \<and>
      ofLog (finishedOf k') out = [] \<and> ofLog (releasedOf k') out = []"
    and "\<And>sub st fin rel. key_books (Some (kq_heap s ! e)) sub st fin rel \<Longrightarrow>
      key_books (Some x) (sub @ ofLog (submittedOf k) out) (st @ ofLog (startedOf k) out)
        (fin @ ofLog (finishedOf k) out) (rel @ ofLog (releasedOf k) out)"
  shows "keyed_inv (\<lparr>kq_heap = (kq_heap s)[e := x], kq_entries = kq_entries s\<rparr>, log @ out)"
proof -
  have h: "heap_ok s" and b: "\<And>k. key_books (entryFor s k) (ofLog (submittedOf k) log) (ofLog (startedOf k) log)
        (ofLog (finishedOf k) log) (ofLog (releasedOf k) log)" using assms(1) by (auto simp: keyed_inv_def)
  note u = heap_update [OF h assms(2-5)]
  have cur: "entryFor s k = Some (kq_heap s ! e)" using assms(2) by (simp add: entryFor_def)
  have "key_books (if k' = k then Some x else entryFor s k') (ofLog (submittedOf k') (log @ out))
      (ofLog (startedOf k') (log @ out)) (ofLog (finishedOf k') (log @ out)) (ofLog (releasedOf k') (log @ out))" for k'
    using b [of k'] assms(6) [of k'] assms(7) cur by (cases "k' = k") simp_all
  then show ?thesis unfolding keyed_inv_def by (simp only: u split_conv simp_thms)
qed

lemma keyedRun_inv:
  assumes "keyed_inv (s, log)"
  shows "keyed_inv (keyedRun key i s, log @ [Submitted key i])"
proof (cases "jget (kq_entries s) key")
  case None
  have h: "heap_ok s" using assms by (simp add: keyed_inv_def)
  note d = heap_okD [OF h]
  let ?x = "\<lparr>ke_key = key, ke_queue = mq_run i newMutationQueue, ke_settled = [], ke_users = 1\<rparr>"
  let ?s = "\<lparr>kq_heap = kq_heap s @ [?x], kq_entries = jset key (length (kq_heap s)) (kq_entries s)\<rparr>"
  have r: "keyedRun key i s = ?s" using None by (simp add: keyedRun_def)
  have "entry_ok (kq_entries ?s) e (kq_heap ?s ! e)" if "e < length (kq_heap ?s)" for e
  proof (cases "e < length (kq_heap s)")
    case True
    then show ?thesis using d(1) [OF True] None by (auto simp: nth_append entry_ok_def jget_set)
  next
    case False
    then have "e = length (kq_heap s)" using that by simp
    then show ?thesis by (simp add: entry_ok_def jget_set mq_run_def newMutationQueue_def runningOf_def)
  qed
  moreover have "e < length (kq_heap ?s) \<and> ke_key (kq_heap ?s ! e) = k \<and> 0 < ke_users (kq_heap ?s ! e)"
    if "jget (kq_entries ?s) k = Some e" for k e
    using that d(2) [of k e] by (auto simp: jget_set nth_append split: if_splits)
  ultimately have "heap_ok ?s" unfolding heap_ok_def by blast
  moreover have f: "entryFor ?s k = (if k = key then Some ?x else entryFor s k)" for k
  proof (cases "jget (kq_entries s) k")
    case None
    then show ?thesis by (auto simp: entryFor_def jget_set)
  next
    case (Some e)
    then show ?thesis using d(2) [OF Some] None by (auto simp: entryFor_def jget_set nth_append)
  qed
  moreover have "key_books (entryFor ?s k) (ofLog (submittedOf k) (log @ [Submitted key i]))
      (ofLog (startedOf k) (log @ [Submitted key i])) (ofLog (finishedOf k) (log @ [Submitted key i]))
      (ofLog (releasedOf k) (log @ [Submitted key i]))" for k
  proof -
    have b: "key_books (entryFor s k) (ofLog (submittedOf k) log) (ofLog (startedOf k) log)
        (ofLog (finishedOf k) log) (ofLog (releasedOf k) log)" using assms by (simp add: keyed_inv_def)
    show ?thesis
    proof (cases "k = key")
      case True
      have "entryFor s key = None" using None by (simp add: entryFor_def)
      then show ?thesis
        using b True unfolding f by (simp add: key_books_def mq_run_def newMutationQueue_def runningOf_def)
    next
      case False
      then show ?thesis using b unfolding f by simp
    qed
  qed
  ultimately show ?thesis unfolding r keyed_inv_def by simp
next
  case (Some e)
  have h: "heap_ok s" using assms by (simp add: keyed_inv_def)
  let ?y = "kq_heap s ! e"
  let ?x = "?y\<lparr>ke_users := ke_users ?y + 1, ke_queue := mq_run i (ke_queue ?y)\<rparr>"
  have e: "e < length (kq_heap s)" "ke_key ?y = key" "0 < ke_users ?y" using heap_okD(2) [OF h Some] by auto
  have r: "keyedRun key i s = \<lparr>kq_heap = (kq_heap s)[e := ?x], kq_entries = kq_entries s\<rparr>"
    using Some map_of_SomeD by (cases s) (simp add: keyedRun_def jset_same)
  have o: "entry_ok (kq_entries s) e ?x"
    using heap_okD(1) [OF h e(1)] e Some by (simp add: entry_ok_def mq_run_def runningOf_def)
  have "entryFor s key = Some ?y" using Some by (simp add: entryFor_def)
  then show ?thesis
    unfolding r using keyed_update [OF assms Some o, of "[Submitted key i]"] e
    by (auto simp: key_books_def mq_run_def runningOf_def)
qed

lemma begin_inv:
  assumes "keyed_inv (s, log)" and "e < length (kq_heap s)" and "mq_begin (ke_queue (kq_heap s ! e)) = Some (q, i)"
  shows "keyed_inv (s\<lparr>kq_heap := (kq_heap s)[e := (kq_heap s ! e)\<lparr>ke_queue := q\<rparr>]\<rparr>,
    log @ [Started (ke_key (kq_heap s ! e)) i])"
proof -
  let ?y = "kq_heap s ! e"
  have h: "heap_ok s" using assms(1) by (simp add: keyed_inv_def)
  have q: "mq_running (ke_queue ?y) = None" "mq_waiting (ke_queue ?y) = i # mq_waiting q" "mq_running q = Some i"
    using assms(3) by (auto simp: mq_begin_def split: option.splits list.splits)
  note c = busy_current [OF h assms(2) refl disjI1, unfolded q(2), simplified]
  have u: "ke_users ?y = int (length (mq_waiting q) + length (ke_settled ?y)) + 1" using c(3) q(1) by (simp add: runningOf_def)
  have se: "s\<lparr>kq_heap := (kq_heap s)[e := ?y\<lparr>ke_queue := q\<rparr>]\<rparr> =
      \<lparr>kq_heap = (kq_heap s)[e := ?y\<lparr>ke_queue := q\<rparr>], kq_entries = kq_entries s\<rparr>" by (cases s) simp
  show ?thesis
    unfolding se using keyed_update [OF assms(1) c(1), of "?y\<lparr>ke_queue := q\<rparr>" "[Started (ke_key ?y) i]"] c(1) u q
    by (simp add: entry_ok_def runningOf_def key_books_def)
qed

lemma settle_inv:
  assumes "keyed_inv (s, log)" and "e < length (kq_heap s)" and "mq_settle (ke_queue (kq_heap s ! e)) = Some (q, i)"
  shows "keyed_inv (s\<lparr>kq_heap := (kq_heap s)[e := (kq_heap s ! e)
      \<lparr>ke_queue := q, ke_settled := ke_settled (kq_heap s ! e) @ [i]\<rparr>]\<rparr>,
    log @ [Finished (ke_key (kq_heap s ! e)) i])"
proof -
  let ?y = "kq_heap s ! e"
  let ?x = "?y\<lparr>ke_queue := q, ke_settled := ke_settled ?y @ [i]\<rparr>"
  have h: "heap_ok s" using assms(1) by (simp add: keyed_inv_def)
  have q: "mq_running (ke_queue ?y) = Some i" "mq_waiting q = mq_waiting (ke_queue ?y)" "mq_running q = None"
    using assms(3) by (auto simp: mq_settle_def)
  note c = busy_current [OF h assms(2) refl disjI2 [OF disjI1], unfolded q(1), simplified]
  have u: "ke_users ?y = int (length (mq_waiting q) + length (ke_settled ?y)) + 1" using c(3) q by (simp add: runningOf_def)
  have se: "s\<lparr>kq_heap := (kq_heap s)[e := ?x]\<rparr> = \<lparr>kq_heap = (kq_heap s)[e := ?x], kq_entries = kq_entries s\<rparr>"
    by (cases s) simp
  show ?thesis
    unfolding se using keyed_update [OF assms(1) c(1), of ?x "[Finished (ke_key ?y) i]"] c(1) u q
    by (simp add: entry_ok_def runningOf_def key_books_def)
qed

lemma drop_entry:
  assumes "heap_ok s" and "jget (kq_entries s) k = Some e" and "entry_ok (kq_entries s) e x"
    and "ke_key x = k" and "ke_users x = 0"
  shows "heap_ok \<lparr>kq_heap = (kq_heap s)[e := x], kq_entries = jdel k (kq_entries s)\<rparr>"
    and "entryFor \<lparr>kq_heap = (kq_heap s)[e := x], kq_entries = jdel k (kq_entries s)\<rparr> k' =
      (if k' = k then None else entryFor s k')"
proof -
  let ?s = "\<lparr>kq_heap = (kq_heap s)[e := x], kq_entries = jdel k (kq_entries s)\<rparr>"
  note d = heap_okD [OF assms(1)]
  have other: "i \<noteq> e" if "jget (kq_entries s) k' = Some i" "k' \<noteq> k" for k' i
    using d(2) [OF that(1)] d(2) [OF assms(2)] that(2) by auto
  have "entry_ok (kq_entries ?s) i (kq_heap ?s ! i)" if "i < length (kq_heap ?s)" for i
  proof (cases "i = e")
    case True
    then show ?thesis using assms(3,5) that by (simp add: entry_ok_def)
  next
    case False
    have o: "entry_ok (kq_entries s) i (kq_heap s ! i)" using d(1) that by simp
    then have "ke_key (kq_heap s ! i) = k \<Longrightarrow> \<not> 0 < ke_users (kq_heap s ! i)" using assms(2) False by (auto simp: entry_ok_def)
    then show ?thesis using o False by (auto simp: entry_ok_def jget_del)
  qed
  moreover have "i < length (kq_heap ?s) \<and> ke_key (kq_heap ?s ! i) = k' \<and> 0 < ke_users (kq_heap ?s ! i)"
    if "jget (kq_entries ?s) k' = Some i" for k' i
  proof -
    have g: "k' \<noteq> k" "jget (kq_entries s) k' = Some i" using that by (auto simp: jget_del split: if_splits)
    then show ?thesis using d(2) [OF g(2)] other [OF g(2,1), symmetric] by (simp add: nth_list_update_neq)
  qed
  ultimately show "heap_ok ?s" unfolding heap_ok_def by blast
  show "entryFor ?s k' = (if k' = k then None else entryFor s k')"
  proof (cases "jget (kq_entries s) k'")
    case None
    then show ?thesis by (simp add: entryFor_def jget_del)
  next
    case (Some i)
    then show ?thesis using other [OF Some, symmetric] by (cases "k' = k") (simp_all add: entryFor_def jget_del nth_list_update_neq)
  qed
qed

lemma finally_inv:
  assumes "keyed_inv (s, log)" and "e < length (kq_heap s)" and "i \<in> set (ke_settled (kq_heap s ! e))"
  shows "keyed_inv (keyedFinally e i s, log @ [Released (ke_key (kq_heap s ! e)) i])"
proof -
  let ?y = "kq_heap s ! e"
  let ?x = "?y\<lparr>ke_settled := remove1 i (ke_settled ?y), ke_users := ke_users ?y - 1\<rparr>"
  have h: "heap_ok s" using assms(1) by (simp add: keyed_inv_def)
  have ne: "ke_settled ?y \<noteq> []" using assms(3) by auto
  note c = busy_current [OF h assms(2) refl disjI2 [OF disjI2], OF ne]
  have len: "length (ke_settled ?y) = Suc (length (remove1 i (ke_settled ?y)))"
    using assms(3) length_pos_if_in_set [OF assms(3)] by (simp add: length_remove1)
  have o: "entry_ok (kq_entries s) e ?x" using c(1,3) len by (simp add: entry_ok_def)
  show ?thesis
  proof (cases "ke_users ?x = 0")
    case False
    have r: "keyedFinally e i s = \<lparr>kq_heap = (kq_heap s)[e := ?x], kq_entries = kq_entries s\<rparr>"
      using False by (cases s) (simp add: keyedFinally_def Let_def)
    have "0 < ke_users ?x" using False c(3) len by simp
    then show ?thesis
      unfolding r using keyed_update [OF assms(1) c(1) o, of "[Released (ke_key ?y) i]"] len
      by (simp add: key_books_def)
  next
    case True
    have r: "keyedFinally e i s = \<lparr>kq_heap = (kq_heap s)[e := ?x], kq_entries = jdel (ke_key ?y) (kq_entries s)\<rparr>"
      using True by (cases s) (simp add: keyedFinally_def Let_def)
    note d = drop_entry [OF h c(1) o _ True, simplified]
    have z: "mq_waiting (ke_queue ?y) = []" "runningOf (ke_queue ?y) = []" "length (ke_settled ?y) = 1"
    proof -
      have "int (length (mq_waiting (ke_queue ?y)) + length (runningOf (ke_queue ?y)) + length (ke_settled ?y)) = 1"
        using True c(3) by simp
      then have "length (mq_waiting (ke_queue ?y)) + length (runningOf (ke_queue ?y)) + length (ke_settled ?y) = 1"
        by linarith
      then have "length (mq_waiting (ke_queue ?y)) = 0" "length (runningOf (ke_queue ?y)) = 0"
          "length (ke_settled ?y) = 1" using len by linarith+
      then show "mq_waiting (ke_queue ?y) = []" "runningOf (ke_queue ?y) = []" "length (ke_settled ?y) = 1"
        by simp_all
    qed
    have b: "key_books (entryFor s k) (ofLog (submittedOf k) log) (ofLog (startedOf k) log)
        (ofLog (finishedOf k) log) (ofLog (releasedOf k) log)" for k using assms(1) by (simp add: keyed_inv_def)
    have "key_books (if k = ke_key ?y then None else entryFor s k)
        (ofLog (submittedOf k) (log @ [Released (ke_key ?y) i])) (ofLog (startedOf k) (log @ [Released (ke_key ?y) i]))
        (ofLog (finishedOf k) (log @ [Released (ke_key ?y) i])) (ofLog (releasedOf k) (log @ [Released (ke_key ?y) i]))" for k
      using b [of k] c(2) z by (cases "k = ke_key ?y") (simp_all add: key_books_def)
    then show ?thesis using d unfolding r keyed_inv_def by simp
  qed
qed

lemma keyedStep_inv: "keyed_inv sl \<Longrightarrow> keyed_inv (keyedStep sl ev)"
proof (cases sl)
  case (Pair s log)
  assume i: "keyed_inv sl"
  note i' = i [unfolded Pair]
  show ?thesis
  proof (cases ev)
    case (Run k n)
    then show ?thesis using keyedRun_inv [OF i'] Pair by (simp add: keyedStep_def)
  next
    case (Begin e)
    then show ?thesis using i' begin_inv [OF i', of e] Pair
      by (cases "mq_begin (ke_queue (kq_heap s ! e))") (auto simp: keyedStep_def)
  next
    case (Settle e)
    then show ?thesis using i' settle_inv [OF i', of e] Pair
      by (cases "mq_settle (ke_queue (kq_heap s ! e))") (auto simp: keyedStep_def)
  next
    case (Finally e n)
    then show ?thesis using i' finally_inv [OF i', of e n] Pair by (auto simp: keyedStep_def)
  qed
qed

interpretation keyed: invariant_system keyedStep keyed_inv
  by unfold_locales (rule keyedStep_inv)

lemma keyedRuns_inv: "keyed_inv (keyedRuns es)"
  unfolding keyedRuns_def
  by (rule keyed.run_inv) (simp add: keyed_inv_def newKeyed_def heap_ok_def entryFor_def key_books_def)

section \<open>Properties\<close>

text \<open>Mutations of one key run one at a time and in the order they were submitted, also across the
moments their queue is dropped and made anew: at every moment those started are those finished, in the
same order, with at most one more, and those submitted start with those started.\<close>

theorem keyed_serial:
  "\<exists>running waiting. length running \<le> 1 \<and>
     ofLog (startedOf k) (snd (keyedRuns es)) = ofLog (finishedOf k) (snd (keyedRuns es)) @ running \<and>
     ofLog (submittedOf k) (snd (keyedRuns es)) = ofLog (startedOf k) (snd (keyedRuns es)) @ waiting"
proof -
  obtain s log where r: "keyedRuns es = (s, log)" by (cases "keyedRuns es")
  have b: "key_books (entryFor s k) (ofLog (submittedOf k) log) (ofLog (startedOf k) log)
        (ofLog (finishedOf k) log) (ofLog (releasedOf k) log)"
    using keyedRuns_inv [of es] r by (simp add: keyed_inv_def)
  show ?thesis
  proof (cases "entryFor s k")
    case None
    then show ?thesis using b r by (intro exI [of _ "[]"]) (simp add: key_books_def)
  next
    case (Some x)
    then show ?thesis using b r
      by (intro exI [of _ "runningOf (ke_queue x)"] exI [of _ "mq_waiting (ke_queue x)"])
         (auto simp: key_books_def runningOf_def split: option.splits)
  qed
qed

text \<open>A key has an entry exactly while one of its mutations has not been released, so a keyed queue
leaves no idle entries; and whatever the other keys do, a key with an unfinished mutation can take a step
of its own.\<close>

theorem keyed_no_idle:
  "(k \<in> set (keyedKeys (fst (keyedRuns es))) \<longleftrightarrow>
     length (ofLog (releasedOf k) (snd (keyedRuns es))) < length (ofLog (submittedOf k) (snd (keyedRuns es)))) \<and>
   (ofLog (finishedOf k) (snd (keyedRuns es)) = ofLog (submittedOf k) (snd (keyedRuns es)) \<or>
     (\<exists>x. entryFor (fst (keyedRuns es)) k = Some x \<and> (mq_begin (ke_queue x) \<noteq> None \<or> mq_settle (ke_queue x) \<noteq> None)))"
proof -
  obtain s log where r: "keyedRuns es = (s, log)" by (cases "keyedRuns es")
  have b: "key_books (entryFor s k) (ofLog (submittedOf k) log) (ofLog (startedOf k) log)
        (ofLog (finishedOf k) log) (ofLog (releasedOf k) log)" and h: "heap_ok s"
    using keyedRuns_inv [of es] r by (simp_all add: keyed_inv_def)
  have k: "k \<in> set (keyedKeys s) \<longleftrightarrow> entryFor s k \<noteq> None"
    using map_of_eq_None_iff [of "kq_entries s" k] by (simp only: keyedKeys_def entryFor_def set_map option.map_disc_iff not_not simp_thms)
  show ?thesis
  proof (cases "entryFor s k")
    case None
    then show ?thesis using b r k by (simp add: key_books_def)
  next
    case (Some x)
    then obtain e where e: "jget (kq_entries s) k = Some e" "x = kq_heap s ! e" by (auto simp: entryFor_def)
    have "0 < ke_users x" "entry_ok (kq_entries s) e x" using heap_okD [OF h] e by auto
    then have pos: "0 < length (mq_waiting (ke_queue x)) + length (runningOf (ke_queue x)) + length (ke_settled x)"
      unfolding entry_ok_def by linarith
    have books: "ofLog (submittedOf k) log = (ofLog (finishedOf k) log @ runningOf (ke_queue x)) @ mq_waiting (ke_queue x)"
      "length (ofLog (finishedOf k) log) = length (ofLog (releasedOf k) log) + length (ke_settled x)"
      using b Some by (auto simp: key_books_def)
    have len: "length (ofLog (submittedOf k) log) = length (ofLog (releasedOf k) log) +
        (length (mq_waiting (ke_queue x)) + length (runningOf (ke_queue x)) + length (ke_settled x))"
      unfolding books(1) using books(2) by simp
    have "ofLog (finishedOf k) log = ofLog (submittedOf k) log \<or>
        mq_begin (ke_queue x) \<noteq> None \<or> mq_settle (ke_queue x) \<noteq> None"
      unfolding books(1)
      by (cases "mq_running (ke_queue x)"; cases "mq_waiting (ke_queue x)")
         (simp_all add: runningOf_def mq_begin_def mq_settle_def)
    then show ?thesis using len pos k Some r by (simp only: fst_conv snd_conv) auto
  qed
qed

end
