(* ===== verification/Command_Ledger.thy ===== *)
theory Command_Ledger
  imports JS_Text
begin

text \<open>
  The Runner's command ledger (apps/runner/src/agent/command-ledger.ts): a command delivered
  again under its identity joins the execution already under way instead of running twice. A
  promise is a number; that it settles is an event. The fingerprint of a command (a hash of its
  canonical JSON) comes with the command; the clock is an argument of each call.
\<close>

record protocol_error =
  pe_code :: string
  pe_message :: utf16
  pe_retryable :: bool

datatype command_decision =
    Accepted "utf16 option"
  | Uncertain utf16
  | Rejected protocol_error

text \<open>What an operation comes to: its decision, or what it threw (\<open>None\<close>: not an \<open>Error\<close>).\<close>

datatype operation_outcome = Returned command_decision | Threw "utf16 option"

record ledger_entry =
  le_fingerprint :: ident
  le_result :: nat
  le_touchedAt :: int

record ledger_options =
  lo_maxEntries :: int
  lo_ttlMs :: int

record command_ledger =
  cl_options :: ledger_options
  cl_entries :: "(ident, ledger_entry) jsmap"
  cl_promises :: nat

text \<open>What \<open>execute\<close> answers with: a new execution, the one under way, or a refusal.\<close>

datatype execute_answer = Starts nat | Joins nat | Refused protocol_error

section \<open>Operations\<close>

definition maxSafeInt :: int where
  "maxSafeInt = 2 ^ 53 - 1"

definition newCommandLedger :: "int option \<Rightarrow> int option \<Rightarrow> string + command_ledger" where
  "newCommandLedger maxEntries ttlMs =
     (let m = (case maxEntries of None \<Rightarrow> 10000 | Some n \<Rightarrow> n);
          t = (case ttlMs of None \<Rightarrow> 24 * 60 * 60 * 1000 | Some n \<Rightarrow> n)
      in if \<bar>m\<bar> > maxSafeInt \<or> m < 1 then Inl ''Command ledger maxEntries must be a positive safe integer''
         else if \<bar>t\<bar> > maxSafeInt \<or> t < 1 then Inl ''Command ledger ttlMs must be a positive safe integer''
         else Inr \<lparr>cl_options = \<lparr>lo_maxEntries = m, lo_ttlMs = t\<rparr>, cl_entries = [], cl_promises = 0\<rparr>)"

text \<open>\<open>while (size >= maxEntries)\<close> drops the first entry.\<close>

fun dropOldest :: "int \<Rightarrow> ('k, 'v) jsmap \<Rightarrow> ('k, 'v) jsmap" where
  "dropOldest m [] = []"
| "dropOldest m (x # xs) = (if int (length (x # xs)) \<ge> m then dropOldest m xs else x # xs)"

definition prune :: "int \<Rightarrow> command_ledger \<Rightarrow> command_ledger" where
  "prune now l = l\<lparr>cl_entries := dropOldest (lo_maxEntries (cl_options l))
     (filter (\<lambda>(_, e). \<not> now - le_touchedAt e > lo_ttlMs (cl_options l)) (cl_entries l))\<rparr>"

definition reusedIdentity :: protocol_error where
  "reusedIdentity = \<lparr>pe_code = ''conflict'', pe_message = lit ''Command identity was reused with different content'',
     pe_retryable = False\<rparr>"

definition ledgerExecute :: "ident \<Rightarrow> ident \<Rightarrow> int \<Rightarrow> command_ledger \<Rightarrow> command_ledger \<times> execute_answer" where
  "ledgerExecute commandId fingerprint now l0 =
     (let l = prune now l0 in
      case jget (cl_entries l) commandId of
        Some existing \<Rightarrow>
          let l' = l\<lparr>cl_entries := jset commandId (existing\<lparr>le_touchedAt := now\<rparr>) (cl_entries l)\<rparr>
          in (l', if le_fingerprint existing \<noteq> fingerprint then Refused reusedIdentity else Joins (le_result existing))
      | None \<Rightarrow>
          let result = cl_promises l;
              l' = l\<lparr>cl_entries := jset commandId
                       \<lparr>le_fingerprint = fingerprint, le_result = result, le_touchedAt = now\<rparr> (cl_entries l),
                     cl_promises := Suc result\<rparr>
          in (prune now l', Starts result))"

definition safeErrorMessage :: "utf16 option \<Rightarrow> utf16" where
  "safeErrorMessage err =
     (let message = (case err of None \<Rightarrow> lit ''Runner command failed'' | Some m \<Rightarrow> m)
      in if take 2000 message = [] then lit ''Runner command failed'' else take 2000 message)"

definition toProtocolError :: "utf16 option \<Rightarrow> protocol_error" where
  "toProtocolError err = \<lparr>pe_code = ''internal'', pe_message = safeErrorMessage err, pe_retryable = False\<rparr>"

text \<open>The promise settles: what the caller gets, and the entry it leaves or takes away.\<close>

definition ledgerSettle :: "ident \<Rightarrow> nat \<Rightarrow> operation_outcome \<Rightarrow> command_ledger \<Rightarrow> command_ledger \<times> command_decision" where
  "ledgerSettle commandId result outcome l =
     (let decision = (case outcome of Returned d \<Rightarrow> d | Threw err \<Rightarrow> Rejected (toProtocolError err))
      in case decision of
           Rejected e \<Rightarrow>
             if pe_retryable e \<and> map_option le_result (jget (cl_entries l) commandId) = Some result
             then (l\<lparr>cl_entries := jdel commandId (cl_entries l)\<rparr>, decision) else (l, decision)
         | _ \<Rightarrow> (l, decision))"

section \<open>Runs\<close>

datatype ledger_event = Execute ident ident int | SettleResult ident nat operation_outcome

definition commandStep :: "command_ledger \<Rightarrow> ledger_event \<Rightarrow> command_ledger" where
  "commandStep l e =
     (case e of
        Execute c f now \<Rightarrow> fst (ledgerExecute c f now l)
      | SettleResult c r out \<Rightarrow> fst (ledgerSettle c r out l))"

text \<open>How many of the calls start an execution.\<close>

fun starts :: "command_ledger \<Rightarrow> ledger_event list \<Rightarrow> nat" where
  "starts l [] = 0"
| "starts l (e # es) =
     (case e of
        Execute c f now \<Rightarrow> (case snd (ledgerExecute c f now l) of Starts _ \<Rightarrow> 1 | _ \<Rightarrow> 0)
      | SettleResult _ _ _ \<Rightarrow> 0) + starts (commandStep l e) es"

text \<open>Retryable refusals of one execution, and calls the clock puts past an entry's life.\<close>

fun forgets :: "nat \<Rightarrow> ledger_event \<Rightarrow> bool" where
  "forgets r (SettleResult _ r' (Returned (Rejected e))) = (r' = r \<and> pe_retryable e)"
| "forgets r _ = False"

fun inTime :: "int \<Rightarrow> int \<Rightarrow> ledger_event \<Rightarrow> bool" where
  "inTime since deadline (Execute _ _ now) = (since \<le> now \<and> now \<le> deadline)"
| "inTime since deadline _ = True"

section \<open>Lemmas\<close>

definition command_inv :: "command_ledger \<Rightarrow> bool" where
  "command_inv l \<longleftrightarrow>
     1 \<le> lo_maxEntries (cl_options l) \<and> 1 \<le> lo_ttlMs (cl_options l) \<and> jwf (cl_entries l) \<and>
     int (length (cl_entries l)) \<le> lo_maxEntries (cl_options l) - 1"

lemma dropOldest_drop: "1 \<le> m \<Longrightarrow> dropOldest m xs = drop (length xs - nat (m - 1)) xs"
proof (induction m xs rule: dropOldest.induct)
  case (2 m x xs)
  show ?case
  proof (cases "int (length (x # xs)) \<ge> m")
    case True
    then have "length (x # xs) - nat (m - 1) = Suc (length xs - nat (m - 1))" using "2.prems" by auto
    then show ?thesis using 2 True by simp
  next
    case False
    then have "length (x # xs) - nat (m - 1) = 0" by auto
    then show ?thesis using False by simp
  qed
qed simp

lemma dropOldest_ok: "1 \<le> m \<Longrightarrow> jwf xs \<Longrightarrow> jwf (dropOldest m xs) \<and> int (length (dropOldest m xs)) \<le> m - 1"
  by (auto simp: dropOldest_drop jwf_def drop_map [symmetric])

lemma dropOldest_id: "int (length xs) \<le> m - 1 \<Longrightarrow> dropOldest m xs = xs"
  by (cases xs) auto

lemma jwf_drop: "jwf m \<Longrightarrow> jwf (drop n m)"
  by (simp add: jwf_def drop_map [symmetric])

lemma prune_simps [simp]: "cl_options (prune now l) = cl_options l" "cl_promises (prune now l) = cl_promises l"
  by (simp_all add: prune_def)

definition alive :: "int \<Rightarrow> command_ledger \<Rightarrow> ident \<times> ledger_entry \<Rightarrow> bool" where
  "alive now l = (\<lambda>(_, e). \<not> now - le_touchedAt e > lo_ttlMs (cl_options l))"

lemma prune_entries: "cl_entries (prune now l) = dropOldest (lo_maxEntries (cl_options l)) (filter (alive now l) (cl_entries l))"
  by (simp add: prune_def alive_def)

text \<open>Between calls there is room, so the first prune of a call only forgets what is out of time.\<close>

lemma prune_room:
  assumes "int (length (cl_entries l)) \<le> lo_maxEntries (cl_options l) - 1"
  shows "cl_entries (prune now l) = filter (alive now l) (cl_entries l)"
  using assms length_filter_le [of "alive now l" "cl_entries l"] unfolding prune_entries
  by (intro dropOldest_id) linarith

lemma prune_inv:
  assumes "1 \<le> lo_maxEntries (cl_options l)" and "1 \<le> lo_ttlMs (cl_options l)" and "jwf (cl_entries l)"
  shows "command_inv (prune now l)"
  using assms unfolding command_inv_def prune_entries by (auto simp: dropOldest_drop intro: jwf_drop)

lemma execute_fresh:
  assumes "command_inv l" and "jget (filter (alive now l) (cl_entries l)) c = None"
  shows "snd (ledgerExecute c f now l) = Starts (cl_promises l)"
    and "cl_entries (fst (ledgerExecute c f now l)) = dropOldest (lo_maxEntries (cl_options l))
      (filter (alive now l) (cl_entries l) @ [(c, \<lparr>le_fingerprint = f, le_result = cl_promises l, le_touchedAt = now\<rparr>)])"
    and "cl_options (fst (ledgerExecute c f now l)) = cl_options l"
proof -
  let ?e = "\<lparr>le_fingerprint = f, le_result = cl_promises l, le_touchedAt = now\<rparr>"
  let ?p = "prune now l"
  let ?l' = "?p\<lparr>cl_entries := jset c ?e (cl_entries ?p), cl_promises := Suc (cl_promises l)\<rparr>"
  have p: "cl_entries ?p = filter (alive now l) (cl_entries l)" using assms(1) by (intro prune_room) (simp add: command_inv_def)
  have x: "ledgerExecute c f now l = (prune now ?l', Starts (cl_promises l))"
    using assms(2) p by (simp add: ledgerExecute_def Let_def)
  show "snd (ledgerExecute c f now l) = Starts (cl_promises l)" by (simp add: x)
  show "cl_options (fst (ledgerExecute c f now l)) = cl_options l" by (simp add: x)
  have "alive now ?l' = alive now l" "alive now l (c, ?e)" using assms(1) by (simp_all add: alive_def command_inv_def)
  moreover have "jset c ?e (cl_entries ?p) = cl_entries ?p @ [(c, ?e)]"
    using assms(2) p by (intro jset_fresh) (simp add: map_of_eq_None_iff)
  ultimately have "cl_entries (prune now ?l') = dropOldest (lo_maxEntries (cl_options l))
      (filter (alive now l) (cl_entries l) @ [(c, ?e)])"
    unfolding prune_entries [of now ?l'] by (simp add: p)
  then show "cl_entries (fst (ledgerExecute c f now l)) = dropOldest (lo_maxEntries (cl_options l))
      (filter (alive now l) (cl_entries l) @ [(c, ?e)])"
    by (simp add: x)
qed

lemma execute_known:
  assumes "command_inv l" and "jget (filter (alive now l) (cl_entries l)) c = Some e"
  shows "snd (ledgerExecute c f now l) = (if le_fingerprint e \<noteq> f then Refused reusedIdentity else Joins (le_result e))"
    and "cl_entries (fst (ledgerExecute c f now l)) =
      jset c (e\<lparr>le_touchedAt := now\<rparr>) (filter (alive now l) (cl_entries l))"
    and "cl_options (fst (ledgerExecute c f now l)) = cl_options l"
proof -
  have p: "cl_entries (prune now l) = filter (alive now l) (cl_entries l)"
    using assms(1) by (intro prune_room) (simp add: command_inv_def)
  show "snd (ledgerExecute c f now l) = (if le_fingerprint e \<noteq> f then Refused reusedIdentity else Joins (le_result e))"
    "cl_entries (fst (ledgerExecute c f now l)) = jset c (e\<lparr>le_touchedAt := now\<rparr>) (filter (alive now l) (cl_entries l))"
    "cl_options (fst (ledgerExecute c f now l)) = cl_options l"
    using assms(2) p by (simp_all add: ledgerExecute_def Let_def)
qed

lemma settle_entries:
  "cl_entries (fst (ledgerSettle c r out l)) =
     (if (\<exists>e. out = Returned (Rejected e) \<and> pe_retryable e) \<and> map_option le_result (jget (cl_entries l) c) = Some r
      then jdel c (cl_entries l) else cl_entries l)"
  "cl_options (fst (ledgerSettle c r out l)) = cl_options l"
  by (auto simp: ledgerSettle_def Let_def toProtocolError_def split: command_decision.splits operation_outcome.splits)

lemma commandStep_inv: "command_inv l \<Longrightarrow> command_inv (commandStep l e)"
proof (cases e)
  case (SettleResult c r out)
  assume i: "command_inv l"
  then show ?thesis
    using SettleResult settle_entries [of c r out l] jdel_length [of c "cl_entries l"]
    by (auto simp: commandStep_def command_inv_def)
next
  case (Execute c f now)
  assume i: "command_inv l"
  let ?m = "filter (alive now l) (cl_entries l)"
  have wf: "jwf ?m" using i by (simp add: command_inv_def)
  show ?thesis
  proof (cases "jget ?m c")
    case None
    have w: "jwf (?m @ [(c, x)])" for x using wf None by (auto simp: jwf_def map_of_eq_None_iff)
    have m: "1 \<le> lo_maxEntries (cl_options l)" using i by (simp add: command_inv_def)
    let ?x = "\<lparr>le_fingerprint = f, le_result = cl_promises l, le_touchedAt = now\<rparr>"
    have st: "cl_options (commandStep l e) = cl_options l"
      "cl_entries (commandStep l e) = dropOldest (lo_maxEntries (cl_options l)) (?m @ [(c, ?x)])"
      using execute_fresh [OF i None, of f] Execute by (simp_all add: commandStep_def)
    show ?thesis
      unfolding command_inv_def st using i dropOldest_ok [OF m w [of ?x]] unfolding command_inv_def by blast
  next
    case (Some x)
    let ?v = "x\<lparr>le_touchedAt := now\<rparr>"
    have "c \<in> fst ` set ?m" using map_of_SomeD [OF Some] by (metis fst_conv imageI)
    then have "length (jset c ?v ?m) \<le> length (cl_entries l)"
      using length_filter_le [of "alive now l" "cl_entries l"] by (simp add: jset_length_mem)
    moreover have "cl_options (commandStep l e) = cl_options l" "cl_entries (commandStep l e) = jset c ?v ?m"
      using execute_known [OF i Some, of f] Execute by (simp_all add: commandStep_def)
    ultimately show ?thesis using i jwf_set [OF wf] unfolding command_inv_def by simp
  qed
qed

interpretation commands: invariant_system commandStep command_inv
  by unfold_locales (rule commandStep_inv)

text \<open>A ledger entry and the number of entries made after it.\<close>

definition holds :: "command_ledger \<Rightarrow> ident \<Rightarrow> ident \<Rightarrow> nat \<Rightarrow> int \<Rightarrow> nat \<Rightarrow> bool" where
  "holds l c f r since n \<longleftrightarrow> (\<exists>A e B. cl_entries l = A @ (c, e) # B \<and> length B \<le> n \<and>
     le_fingerprint e = f \<and> le_result e = r \<and> since \<le> le_touchedAt e)"

lemma jset_parts:
  assumes "jwf (A @ (k, v) # B)"
  shows "jset k w (A @ (k, v) # B) = A @ (k, w) # B"
  using assms by (induction A) (auto simp: jwf_def)

lemma jget_parts: "jwf (A @ (k, v) # B) \<Longrightarrow> jget (A @ (k, v) # B) k = Some v"
  by (induction A) (auto simp: jwf_def)

lemma jset_other:
  assumes "c' \<noteq> c"
  shows "\<exists>A' B'. jset c' v (A @ (c, e) # B) = A' @ (c, e) # B' \<and>
    (c' \<in> fst ` set (A @ B) \<longrightarrow> length B' = length B)"
proof (induction A)
  case Nil
  then show ?case using assms jset_length_mem [of c' B v]
    by (intro exI [of _ "[]"] exI [of _ "jset c' v B"]) auto
next
  case (Cons a A)
  then obtain A' B' where IH: "jset c' v (A @ (c, e) # B) = A' @ (c, e) # B'"
    "c' \<in> fst ` set (A @ B) \<longrightarrow> length B' = length B" by blast
  show ?case
  proof (cases "fst a = c'")
    case True
    then show ?thesis by (intro exI [of _ "(c', v) # A"] exI [of _ B]) (cases a; simp)
  next
    case False
    then show ?thesis using IH by (intro exI [of _ "a # A'"] exI [of _ B']) (cases a; auto)
  qed
qed

lemma holds_alive:
  assumes "holds l c f r since n" and "command_inv l" and "since \<le> now" and "now \<le> since + lo_ttlMs (cl_options l)"
  obtains A e B where "filter (alive now l) (cl_entries l) = A @ (c, e) # B" and "length B \<le> n"
    and "le_fingerprint e = f" and "le_result e = r" and "since \<le> le_touchedAt e"
    and "jget (filter (alive now l) (cl_entries l)) c = Some e"
proof -
  obtain A e B where e: "cl_entries l = A @ (c, e) # B" "length B \<le> n" "le_fingerprint e = f" "le_result e = r"
      "since \<le> le_touchedAt e" using assms(1) by (auto simp: holds_def)
  have "alive now l (c, e)" using e(5) assms(4) by (simp add: alive_def)
  then have m: "filter (alive now l) (cl_entries l) = filter (alive now l) A @ (c, e) # filter (alive now l) B"
    using e(1) by simp
  have "jwf (filter (alive now l) (cl_entries l))" using assms(2) by (simp add: command_inv_def)
  then have "jget (filter (alive now l) (cl_entries l)) c = Some e"
    unfolding m by (rule jget_parts)
  then show thesis using that m e(2-) length_filter_le [of "alive now l" B] by (metis order_trans)
qed

lemma holds_joins:
  assumes "holds l c f r since n" and "command_inv l" and "since \<le> now" and "now \<le> since + lo_ttlMs (cl_options l)"
  shows "snd (ledgerExecute c f' now l) = (if f = f' then Joins r else Refused reusedIdentity)"
  using holds_alive [OF assms] execute_known(1) [OF assms(2)] by metis

lemma holds_step:
  assumes h: "holds l c f r since n" and i: "command_inv l" and t: "inTime since (since + lo_ttlMs (cl_options l)) e"
    and nf: "\<not> forgets r e" and room: "int (n + starts l [e]) < lo_maxEntries (cl_options l) - 1"
  shows "holds (commandStep l e) c f r since (n + starts l [e])"
proof (cases e)
  case (SettleResult c' r' out)
  obtain A x B where x: "cl_entries l = A @ (c, x) # B" "length B \<le> n" "le_fingerprint x = f" "le_result x = r"
      "since \<le> le_touchedAt x" using h by (auto simp: holds_def)
  have g: "jget (cl_entries l) c = Some x" using i jget_parts [of A c x B] x(1) by (simp add: command_inv_def)
  show ?thesis
  proof (cases "cl_entries (fst (ledgerSettle c' r' out l)) = cl_entries l")
    case True
    then show ?thesis using SettleResult h by (simp add: commandStep_def holds_def)
  next
    case False
    then have d: "\<exists>e. out = Returned (Rejected e) \<and> pe_retryable e" "map_option le_result (jget (cl_entries l) c') = Some r'"
      "cl_entries (fst (ledgerSettle c' r' out l)) = jdel c' (cl_entries l)"
      using settle_entries [of c' r' out l] by (auto split: if_splits)
    have "c' \<noteq> c" using d nf g x(4) SettleResult by auto
    then have "jdel c' (cl_entries l) = filter (\<lambda>p. c' \<noteq> fst p) A @ (c, x) # filter (\<lambda>p. c' \<noteq> fst p) B"
      by (simp add: x(1) AList.delete_eq case_prod_unfold)
    then have "cl_entries (commandStep l e) = filter (\<lambda>p. c' \<noteq> fst p) A @ (c, x) # filter (\<lambda>p. c' \<noteq> fst p) B"
      using d(3) SettleResult by (simp add: commandStep_def)
    moreover have "length (filter (\<lambda>p. c' \<noteq> fst p) B) \<le> n + starts l [e]"
      using x(2) length_filter_le [of "\<lambda>p. c' \<noteq> fst p" B] by linarith
    ultimately show ?thesis using x(3-) unfolding holds_def by blast
  qed
next
  case (Execute c' f' now)
  have now: "since \<le> now" "now \<le> since + lo_ttlMs (cl_options l)" using t Execute by auto
  let ?m = "filter (alive now l) (cl_entries l)"
  obtain A x B where x: "?m = A @ (c, x) # B" "length B \<le> n" "le_fingerprint x = f" "le_result x = r"
      "since \<le> le_touchedAt x" "jget ?m c = Some x" using holds_alive [OF h i now] .
  have wf: "jwf ?m" using i by (simp add: command_inv_def)
  show ?thesis
  proof (cases "jget ?m c'")
    case None
    let ?new = "(c', \<lparr>le_fingerprint = f', le_result = cl_promises l, le_touchedAt = now\<rparr>)"
    have s: "starts l [e] = 1" using execute_fresh(1) [OF i None] Execute by simp
    have k: "length ?m + 1 - nat (lo_maxEntries (cl_options l) - 1) \<le> length A"
      using room s x(1,2) i by (simp add: command_inv_def)
    have "cl_entries (commandStep l e) = dropOldest (lo_maxEntries (cl_options l)) (?m @ [?new])"
      using execute_fresh(2) [OF i None, of f'] Execute by (simp add: commandStep_def)
    also have "\<dots> = drop (length ?m + 1 - nat (lo_maxEntries (cl_options l) - 1)) A @ (c, x) # (B @ [?new])"
      using k i unfolding x(1) by (simp add: dropOldest_drop command_inv_def)
    finally have "cl_entries (commandStep l e) =
        drop (length ?m + 1 - nat (lo_maxEntries (cl_options l) - 1)) A @ (c, x) # (B @ [?new])" .
    moreover have "length (B @ [?new]) \<le> n + starts l [e]" using x(2) s by simp
    ultimately show ?thesis using x(3-5) unfolding holds_def by blast
  next
    case (Some y)
    have s: "starts l [e] = 0" using execute_known(1) [OF i Some, of f'] Execute by simp
    have st: "cl_entries (commandStep l e) = jset c' (y\<lparr>le_touchedAt := now\<rparr>) ?m"
      using execute_known(2) [OF i Some] Execute by (simp add: commandStep_def)
    show ?thesis
    proof (cases "c' = c")
      case True
      then have "y = x" using Some x(6) by simp
      then have "cl_entries (commandStep l e) = A @ (c, x\<lparr>le_touchedAt := now\<rparr>) # B"
        using st True jset_parts wf x(1) by simp
      moreover have "length B \<le> n + starts l [e]" "le_fingerprint (x\<lparr>le_touchedAt := now\<rparr>) = f"
        "le_result (x\<lparr>le_touchedAt := now\<rparr>) = r" "since \<le> le_touchedAt (x\<lparr>le_touchedAt := now\<rparr>)"
        using x(2-4) now(1) by simp_all
      ultimately show ?thesis unfolding holds_def by blast
    next
      case False
      then have "c' \<in> fst ` set (A @ B)" using map_of_SomeD [OF Some] unfolding x(1) by force
      then obtain A' B' where "cl_entries (commandStep l e) = A' @ (c, x) # B'" "length B' = length B"
        using jset_other [OF False, of "y\<lparr>le_touchedAt := now\<rparr>" A x B] unfolding st x(1) by blast
      moreover from this(2) have "length B' \<le> n + starts l [e]" using x(2) by simp
      ultimately show ?thesis using x(3-5) unfolding holds_def by blast
    qed
  qed
qed

lemma step_options: "command_inv l \<Longrightarrow> cl_options (commandStep l e) = cl_options l"
  by (cases e) (auto simp: commandStep_def settle_entries ledgerExecute_def Let_def split: option.splits)

lemma holds_run:
  assumes "holds l c f r since n" and "command_inv l" and "\<forall>e \<in> set es. inTime since (since + lo_ttlMs (cl_options l)) e"
    and "\<forall>e \<in> set es. \<not> forgets r e" and "int (n + starts l es) < lo_maxEntries (cl_options l) - 1"
  shows "holds (foldl commandStep l es) c f r since (n + starts l es)"
  using assms
proof (induction es arbitrary: l n)
  case (Cons e es)
  have s: "starts l (e # es) = starts l [e] + starts (commandStep l e) es" by simp
  have h: "holds (commandStep l e) c f r since (n + starts l [e])"
    using Cons.prems s by (intro holds_step) auto
  have "holds (foldl commandStep (commandStep l e) es) c f r since (n + starts l [e] + starts (commandStep l e) es)"
    using Cons.prems s step_options [OF Cons.prems(2)] by (intro Cons.IH [OF h commandStep_inv]) auto
  then show ?case using s by (simp add: add.assoc)
qed simp

section \<open>Properties\<close>

definition commandRun :: "int option \<Rightarrow> int option \<Rightarrow> ledger_event list \<Rightarrow> command_ledger option" where
  "commandRun maxEntries ttlMs es =
     (case newCommandLedger maxEntries ttlMs of Inl _ \<Rightarrow> None | Inr l \<Rightarrow> Some (foldl commandStep l es))"

lemma newCommandLedger_inv: "newCommandLedger m t = Inr l \<Longrightarrow> command_inv l"
  by (auto simp: newCommandLedger_def Let_def command_inv_def split: if_splits)

lemma commandRun_inv: "commandRun m t es = Some l \<Longrightarrow> command_inv l"
  by (auto simp: commandRun_def split: sum.splits dest: newCommandLedger_inv intro: commands.run_inv)

text \<open>C17: A command delivered again joins its execution and is not run a second time: once a call has
started it, every call under the same identity within the entry's life gets that execution's result, or the
refusal of a reused identity when its content differs, as long as fewer than \<open>maxEntries\<close> - 1 other
executions have started since and its own was not refused as retryable.\<close>

theorem command_runs_once:
  assumes "commandRun m t es = Some l"
    and "ledgerExecute c f now l = (l1, Starts r)"
    and "\<forall>e \<in> set es'. inTime now (now + lo_ttlMs (cl_options l)) e \<and> \<not> forgets r e"
    and "int (starts l1 es') < lo_maxEntries (cl_options l) - 1"
    and "now \<le> now'" and "now' \<le> now + lo_ttlMs (cl_options l)"
  shows "snd (ledgerExecute c f' now' (foldl commandStep l1 es')) = (if f = f' then Joins r else Refused reusedIdentity)"
proof -
  have i: "command_inv l" using assms(1) by (rule commandRun_inv)
  have none: "jget (filter (alive now l) (cl_entries l)) c = None"
    using assms(2) execute_known(1) [OF i, of now c _ f] by (cases "jget (filter (alive now l) (cl_entries l)) c") (auto split: if_splits)
  note x = execute_fresh [OF i none, of f, unfolded assms(2), simplified]
  have l1: "l1 = commandStep l (Execute c f now)" using assms(2) by (simp add: commandStep_def)
  let ?m = "filter (alive now l) (cl_entries l)"
  have max: "2 \<le> lo_maxEntries (cl_options l)" using assms(4) by linarith
  have len: "int (length ?m) \<le> lo_maxEntries (cl_options l) - 1"
    using i length_filter_le [of "alive now l" "cl_entries l"] unfolding command_inv_def by linarith
  then have "length ?m + 1 - nat (lo_maxEntries (cl_options l) - 1) \<le> length ?m" using max by linarith
  then have "\<exists>A. cl_entries l1 = A @ [(c, \<lparr>le_fingerprint = f, le_result = r, le_touchedAt = now\<rparr>)]"
    using x max by (simp add: dropOldest_drop)
  then have h: "holds l1 c f r now 0" unfolding holds_def by fastforce
  have i1: "command_inv l1" unfolding l1 by (rule commandStep_inv [OF i])
  have "holds (foldl commandStep l1 es') c f r now (0 + starts l1 es')"
    using assms(3,4) x(3) by (intro holds_run [OF h i1]) auto
  moreover have "cl_options (foldl commandStep l1 es') = cl_options l1" if "command_inv l1" for l1
    using that by (induction es' arbitrary: l1) (auto simp: step_options commandStep_inv)
  ultimately show ?thesis using assms(5,6) i1 x(3) by (intro holds_joins commands.run_inv) auto
qed

definition ledger_of :: "int \<Rightarrow> command_ledger" where
  "ledger_of m = \<lparr>cl_options = \<lparr>lo_maxEntries = m, lo_ttlMs = 100\<rparr>, cl_entries = [], cl_promises = 0\<rparr>"

theorem command_runs_once_witness:
  "snd (ledgerExecute ''c'' ''f'' 20 (foldl commandStep (commandStep (ledger_of 4) (Execute ''c'' ''f'' 0))
     [Execute ''d'' ''f'' 5, SettleResult ''c'' 0 (Returned (Accepted None))])) = Joins 0"
proof -
  have r: "commandRun (Some 4) (Some 100) [] = Some (ledger_of 4)" by code_simp
  let ?l1 = "commandStep (ledger_of 4) (Execute ''c'' ''f'' 0)"
  have e: "ledgerExecute ''c'' ''f'' 0 (ledger_of 4) = (?l1, Starts 0)" by code_simp
  have "\<forall>e \<in> set [Execute ''d'' ''f'' 5, SettleResult ''c'' 0 (Returned (Accepted None))].
      inTime 0 (0 + lo_ttlMs (cl_options (ledger_of 4))) e \<and> \<not> forgets 0 e"
    by (simp add: ledger_of_def)
  moreover have "int (starts ?l1 [Execute ''d'' ''f'' 5, SettleResult ''c'' 0 (Returned (Accepted None))])
      < lo_maxEntries (cl_options (ledger_of 4)) - 1" by code_simp
  ultimately have "snd (ledgerExecute ''c'' ''f'' 20 (foldl commandStep ?l1
      [Execute ''d'' ''f'' 5, SettleResult ''c'' 0 (Returned (Accepted None))])) =
      (if ''f'' = ''f'' then Joins 0 else Refused reusedIdentity)"
    by (intro command_runs_once [OF r e]) (simp_all add: ledger_of_def)
  then show ?thesis by simp
qed

text \<open>The limit is one less than \<open>maxEntries\<close>: the entry just stored counts against it, so a
ledger of one entry keeps none, and the same command delivered twice runs twice.\<close>

theorem ledger_capacity:
  assumes "commandRun m t es = Some l"
  shows "int (length (cl_entries l)) \<le> lo_maxEntries (cl_options l) - 1 \<and>
    (lo_maxEntries (cl_options l) = 1 \<longrightarrow>
       (\<exists>r1 r2 l1 l2. ledgerExecute c f now l = (l1, Starts r1) \<and> ledgerExecute c f now l1 = (l2, Starts r2)))"
proof -
  have i: "command_inv l" using assms by (rule commandRun_inv)
  have "snd (ledgerExecute c f now l) = Starts (cl_promises l)" if "command_inv l" "lo_maxEntries (cl_options l) = 1" for l
  proof -
    have "cl_entries l = []" using that by (simp add: command_inv_def)
    then show ?thesis using execute_fresh(1) [OF that(1)] by simp
  qed
  note starts = this
  have "\<exists>r1 r2 l1 l2. ledgerExecute c f now l = (l1, Starts r1) \<and> ledgerExecute c f now l1 = (l2, Starts r2)"
    if one: "lo_maxEntries (cl_options l) = 1"
  proof -
    obtain l1 a where e: "ledgerExecute c f now l = (l1, a)" by (cases "ledgerExecute c f now l")
    then have s: "l1 = commandStep l (Execute c f now)" by (simp add: commandStep_def)
    have i1: "command_inv l1" "lo_maxEntries (cl_options l1) = 1"
      unfolding s using commandStep_inv [OF i] step_options [OF i] one by simp_all
    obtain l2 a2 where e2: "ledgerExecute c f now l1 = (l2, a2)" by (cases "ledgerExecute c f now l1")
    show ?thesis using e e2 starts [OF i one] starts [OF i1] by auto
  qed
  then show ?thesis using i by (simp add: command_inv_def)
qed

theorem ledger_capacity_witness:
  "(\<exists>r1 r2 l1 l2. ledgerExecute ''c'' ''f'' 0 (ledger_of 1) = (l1, Starts r1) \<and> ledgerExecute ''c'' ''f'' 0 l1 = (l2, Starts r2))"
proof -
  have "commandRun (Some 1) (Some 100) [] = Some (ledger_of 1)" by code_simp
  from ledger_capacity [OF this, of "''c''" "''f''" 0] show ?thesis by (simp add: ledger_of_def)
qed

end
