(* ===== verification/Integration_Grants.thy ===== *)
theory Integration_Grants
  imports JS_Text "HOL-Library.Word"
begin

text \<open>
  Which integration tools a Workspace may use (packages/integration-core/src: effect.ts,
  readiness.ts, effective-grants.ts, and packages/core/src/resource-access.ts). Rows come from
  one consistent read of the database. The SHA-256 digest is a parameter; the schema that
  brands a connection's identifier returns it unchanged.
\<close>

section \<open>Rows\<close>

datatype access = Read | ReadWrite
datatype tool_effect = EffectRead | EffectWrite
datatype connection_kind = KindChannel | KindComputer | KindMcpOauth | KindProviderAccount
datatype connection_status = Connected | NeedsAttention | Paused | Pending | Revoked
datatype unit_status = UnitActive | UnitDisabled | UnitNeedsAttention

datatype requirement =
    RequireNone
  | RequireProvider ident ident bool   \<comment> \<open>definition, provider, application required\<close>
  | RequireMcpOauth
  | RequireComputer ident

record connection_authority =
  ca_applicationSourceAvailable :: bool
  ca_connectionKind :: connection_kind
  ca_definitionId :: "ident option"
  ca_id :: ident
  ca_integrationServerId :: "ident option"
  ca_provider :: ident
  ca_status :: connection_status

record grant_connection = connection_authority +
  gc_computerAccess :: "access option"
  gc_displayName :: utf16
  gc_ownerUserId :: ident

record installation =
  in_id :: ident
  in_status :: unit_status
  in_title :: utf16

record integration_tool =
  tl_annotations :: "(string \<times> json) list"
  tl_connectionId :: "ident option"
  tl_id :: ident
  tl_serverId :: ident
  tl_active :: bool
  tl_requirement :: requirement
  tl_installationId :: ident
  tl_serverStatus :: unit_status

record integration_grant =
  ig_access :: access
  ig_alias :: utf16
  ig_connectionId :: "ident option"
  ig_id :: ident
  ig_installationId :: ident
  ig_isDefault :: bool
  ig_ownerUserId :: ident
  ig_active :: bool
  ig_workspaceId :: ident

record inherited_grant =
  ih_access :: access
  ih_alias :: utf16
  ih_connectionId :: "ident option"
  ih_id :: ident
  ih_installationId :: ident
  ih_isDefault :: bool
  ih_ownerUserId :: ident
  ih_workspaceId :: ident

datatype effective_grant = StoredGrant integration_grant | MainInherited inherited_grant

record grants_input =
  gi_connections :: "grant_connection list"
  gi_inheritedMainAccess :: bool
  gi_installations :: "installation list"
  gi_ownerUserId :: ident
  gi_storedGrants :: "integration_grant list"
  gi_tools :: "integration_tool list"
  gi_workspaceId :: ident

section \<open>Access and effects\<close>

text \<open>The ceiling is absent (\<open>None\<close>), denied (\<open>Some None\<close>) or a level.\<close>

definition intersectResourceAccess :: "access option \<Rightarrow> access option option \<Rightarrow> access option" where
  "intersectResourceAccess workspace ceiling =
     (if workspace = None \<or> ceiling = Some None then None
      else if workspace = Some Read \<or> ceiling = Some (Some Read) then Some Read else workspace)"

definition integrationToolEffect :: "(string \<times> json) list \<Rightarrow> tool_effect" where
  "integrationToolEffect annotations =
     (if map_of annotations ''readOnlyHint'' = Some (JBool True) then EffectRead else EffectWrite)"

definition accessCoversEffect :: "access \<Rightarrow> tool_effect \<Rightarrow> bool" where
  "accessCoversEffect acc effect \<longleftrightarrow> acc = ReadWrite \<or> effect = EffectRead"

definition integrationAccessCovers :: "access \<Rightarrow> access \<Rightarrow> bool" where
  "integrationAccessCovers held wanted =
     accessCoversEffect held (if wanted = ReadWrite then EffectWrite else EffectRead)"

definition widerIntegrationAccess :: "access \<Rightarrow> access \<Rightarrow> access" where
  "widerIntegrationAccess first second = (if integrationAccessCovers first second then first else second)"

section \<open>Readiness\<close>

definition isIntegrationConnectionEligible :: "'a connection_authority_scheme \<Rightarrow> requirement \<Rightarrow> ident \<Rightarrow> bool" where
  "isIntegrationConnectionEligible connection req serverId =
     (if ca_status connection \<noteq> Connected then False
      else case req of
        RequireProvider definitionId provider applicationRequired \<Rightarrow>
          ca_connectionKind connection = KindProviderAccount \<and> ca_definitionId connection = Some definitionId \<and>
          ca_provider connection = provider \<and> (\<not> applicationRequired \<or> ca_applicationSourceAvailable connection)
      | RequireComputer definitionId \<Rightarrow>
          ca_connectionKind connection = KindComputer \<and> ca_definitionId connection = Some definitionId
      | RequireMcpOauth \<Rightarrow>
          ca_connectionKind connection = KindMcpOauth \<and> ca_integrationServerId connection = Some serverId
      | RequireNone \<Rightarrow> False)"

datatype readiness_code =
    Ready | AdminConfigurationRequired | UserAuthorizationRequired | ReauthorizationRequired
  | AccessGrantRequired | IntegrationUnavailable

record readiness =
  rd_code :: readiness_code
  rd_connectionId :: "ident option"
  rd_detail :: "utf16 option"
  rd_provider :: "ident option"
  rd_requiredAccess :: "access option"
  rd_serverId :: ident

record provider_authorization =
  pv_ready :: bool
  pv_detail :: "utf16 option"

record readiness_input =
  ri_requirement :: requirement
  ri_connections :: "connection_authority list"
  ri_hasAccess :: "ident option \<Rightarrow> access \<Rightarrow> bool"
  ri_installationStatus :: unit_status
  ri_providerAuthorization :: "provider_authorization option"
  ri_requiredAccess :: access
  ri_requiredConnectionId :: "ident option"
  ri_serverId :: ident
  ri_serverStatus :: unit_status
  ri_statusDetail :: "utf16 option"

definition connectionBelongsToRequirement :: "connection_authority \<Rightarrow> readiness_input \<Rightarrow> bool" where
  "connectionBelongsToRequirement connection input =
     (if (case ri_requiredConnectionId input of None \<Rightarrow> False | Some c \<Rightarrow> c \<noteq> '''' \<and> ca_id connection \<noteq> c) then False
      else case ri_requirement input of
        RequireProvider definitionId provider _ \<Rightarrow>
          ca_connectionKind connection = KindProviderAccount \<and> ca_definitionId connection = Some definitionId \<and>
          ca_provider connection = provider
      | RequireComputer definitionId \<Rightarrow>
          ca_connectionKind connection = KindComputer \<and> ca_definitionId connection = Some definitionId
      | _ \<Rightarrow>
          ca_connectionKind connection = KindMcpOauth \<and> ca_integrationServerId connection = Some (ri_serverId input))"

definition providerFor :: "requirement \<Rightarrow> ident option" where
  "providerFor req = (case req of RequireProvider _ provider _ \<Rightarrow> Some provider | _ \<Rightarrow> None)"

text \<open>The provider's application is required and not authorized; the detail to show then.\<close>

definition adminMissing :: "readiness_input \<Rightarrow> bool" where
  "adminMissing input =
     ((case ri_requirement input of RequireProvider _ _ applicationRequired \<Rightarrow> applicationRequired | _ \<Rightarrow> False) \<and>
      map_option pv_ready (ri_providerAuthorization input) \<noteq> Some True)"

definition adminDetail :: "readiness_input \<Rightarrow> utf16" where
  "adminDetail input =
     (case Option.bind (ri_providerAuthorization input) pv_detail of
        None \<Rightarrow> lit ''Provider authorization is unavailable'' | Some d \<Rightarrow> d)"

definition needsAttention :: "connection_authority \<Rightarrow> bool" where
  "needsAttention c \<longleftrightarrow> ca_status c = NeedsAttention \<or> ca_status c = Paused \<or> \<not> ca_applicationSourceAvailable c"

definition resolveIntegrationReadiness :: "readiness_input \<Rightarrow> readiness" where
  "resolveIntegrationReadiness input =
     (let base = \<lparr>rd_code = IntegrationUnavailable, rd_connectionId = None, rd_detail = ri_statusDetail input,
                   rd_provider = providerFor (ri_requirement input), rd_requiredAccess = None,
                   rd_serverId = ri_serverId input\<rparr>
      in if ri_installationStatus input \<noteq> UnitActive \<or> ri_serverStatus input = UnitDisabled \<or>
            (ri_serverStatus input = UnitNeedsAttention \<and> ri_requirement input \<noteq> RequireMcpOauth)
         then base
         else if ri_requirement input = RequireNone then
           (if ri_hasAccess input None (ri_requiredAccess input) then base\<lparr>rd_code := Ready, rd_provider := None\<rparr>
            else base\<lparr>rd_code := AccessGrantRequired, rd_provider := None,
                      rd_requiredAccess := Some (ri_requiredAccess input)\<rparr>)
         else
           let relevant = filter (\<lambda>c. connectionBelongsToRequirement c input) (ri_connections input);
               eligible = filter (\<lambda>c. isIntegrationConnectionEligible c (ri_requirement input) (ri_serverId input)) relevant
           in (case List.find (\<lambda>c. ri_hasAccess input (Some (ca_id c)) (ri_requiredAccess input)) eligible of
                 Some ready \<Rightarrow> base\<lparr>rd_code := Ready, rd_connectionId := Some (ca_id ready)\<rparr>
               | None \<Rightarrow>
                   (case eligible of
                      e # _ \<Rightarrow> base\<lparr>rd_code := AccessGrantRequired, rd_connectionId := Some (ca_id e),
                                  rd_requiredAccess := Some (ri_requiredAccess input)\<rparr>
                    | [] \<Rightarrow>
                        (case List.find needsAttention relevant of
                           Some attention \<Rightarrow>
                             if adminMissing input
                             then base\<lparr>rd_code := AdminConfigurationRequired, rd_connectionId := Some (ca_id attention),
                                      rd_detail := Some (adminDetail input)\<rparr>
                             else base\<lparr>rd_code := ReauthorizationRequired, rd_connectionId := Some (ca_id attention)\<rparr>
                         | None \<Rightarrow>
                             if adminMissing input
                             then base\<lparr>rd_code := AdminConfigurationRequired, rd_detail := Some (adminDetail input)\<rparr>
                             else base\<lparr>rd_code := UserAuthorizationRequired\<rparr>))))"

section \<open>Effective grants\<close>

definition effectiveIntegrationAccess :: "access \<Rightarrow> grant_connection option \<Rightarrow> access" where
  "effectiveIntegrationAccess acc connection =
     (case intersectResourceAccess (Some acc)
        (case connection of
           Some c \<Rightarrow> if ca_connectionKind c = KindComputer then map_option Some (gc_computerAccess c) else None
         | None \<Rightarrow> None) of
        Some a \<Rightarrow> a | None \<Rightarrow> acc)"

definition grantWithConnectionCeiling :: "integration_grant \<Rightarrow> grant_connection option \<Rightarrow> integration_grant" where
  "grantWithConnectionCeiling grant connection =
     (let acc = effectiveIntegrationAccess (ig_access grant) connection
      in if acc = ig_access grant then grant else grant\<lparr>ig_access := acc\<rparr>)"

definition needsOwnConnection :: "integration_tool \<Rightarrow> bool" where
  "needsOwnConnection tool \<longleftrightarrow>
     (case tl_requirement tool of RequireComputer _ \<Rightarrow> True | RequireMcpOauth \<Rightarrow> True | _ \<Rightarrow> False) \<and>
     tl_connectionId tool = None"

definition toolAuthorityIsCurrent :: "integration_tool \<Rightarrow> grant_connection option \<Rightarrow> bool" where
  "toolAuthorityIsCurrent tool connection =
     (if tl_requirement tool = RequireNone then connection = None \<and> tl_connectionId tool = None
      else case connection of
        None \<Rightarrow> False
      | Some c \<Rightarrow>
          if needsOwnConnection tool then False
          else if tl_connectionId tool \<noteq> None \<and> tl_connectionId tool \<noteq> Some (ca_id c) then False
          else isIntegrationConnectionEligible c (tl_requirement tool) (tl_serverId tool))"

definition matchingUsableConnections :: "integration_tool \<Rightarrow> grant_connection list \<Rightarrow> ident \<Rightarrow> grant_connection list" where
  "matchingUsableConnections tool connections ownerUserId =
     filter (\<lambda>c.
       if gc_ownerUserId c \<noteq> ownerUserId then False
       else if (case tl_connectionId tool of None \<Rightarrow> False | Some i \<Rightarrow> i \<noteq> '''' \<and> i \<noteq> ca_id c) then False
       else if needsOwnConnection tool then False
       else toolAuthorityIsCurrent tool (Some c)) connections"

text \<open>\<open>new Map(rows.map(...))\<close>: the last row of an identifier.\<close>

definition byKey :: "('a \<Rightarrow> 'k) \<Rightarrow> 'a list \<Rightarrow> 'k \<rightharpoonup> 'a" where
  "byKey key rows = map_of (rev (map (\<lambda>r. (key r, r)) rows))"

definition storedGrantTools :: "grants_input \<Rightarrow> integration_grant \<Rightarrow> (effective_grant \<times> integration_tool) list" where
  "storedGrantTools input grant =
     (case byKey in_id (gi_installations input) (ig_installationId grant) of
        None \<Rightarrow> []
      | Some inst \<Rightarrow>
          let connection = (case ig_connectionId grant of
                None \<Rightarrow> None
              | Some i \<Rightarrow> if i = '''' then None
                  else byKey ca_id (filter (\<lambda>c. gc_ownerUserId c = gi_ownerUserId input) (gi_connections input)) i);
              effective = grantWithConnectionCeiling grant connection
          in map (\<lambda>tool. (StoredGrant effective, tool))
               (filter (\<lambda>tool. \<not> (in_status inst \<noteq> UnitActive \<or> tl_installationId tool \<noteq> ig_installationId grant \<or>
                   tl_serverStatus tool \<noteq> UnitActive \<or> \<not> tl_active tool \<or>
                   \<not> accessCoversEffect (ig_access effective) (integrationToolEffect (tl_annotations tool)) \<or>
                   \<not> toolAuthorityIsCurrent tool connection)) (gi_tools input)))"

definition resolveStoredGrants :: "grants_input \<Rightarrow> integration_grant list \<Rightarrow> (effective_grant \<times> integration_tool) list" where
  "resolveStoredGrants input activeGrants = concat (map (storedGrantTools input) activeGrants)"

text \<open>\<open>String.prototype.trim\<close>.\<close>

definition jsSpace :: "nat \<Rightarrow> bool" where
  "jsSpace u \<longleftrightarrow> u \<in> set [9, 10, 11, 12, 13, 32, 160, 0x1680, 0x2028, 0x2029, 0x202f, 0x205f, 0x3000, 0xfeff] \<or>
     (0x2000 \<le> u \<and> u \<le> 0x200a)"

definition jsTrim :: "utf16 \<Rightarrow> utf16" where
  "jsTrim s = rev (dropWhile jsSpace (rev (dropWhile jsSpace s)))"

definition normalizedAuthorityAlias :: "utf16 \<Rightarrow> utf16" where
  "normalizedAuthorityAlias value =
     (let normalized = jsTrim (take 80 (jsTrim value)) in if normalized = [] then lit ''Default'' else normalized)"

text \<open>\<open>`${installationId}\0${connectionId ?? "connectionless"}`\<close>.\<close>

definition integrationAuthorityKey :: "ident \<Rightarrow> ident option \<Rightarrow> ident" where
  "integrationAuthorityKey installationId connectionId =
     installationId @ [char_of (0 :: nat)] @ (case connectionId of None \<Rightarrow> ''connectionless'' | Some c \<Rightarrow> c)"

definition hexOf :: "nat \<Rightarrow> char" where
  "hexOf n = ''0123456789abcdef'' ! n"

definition byteHex :: "8 word \<Rightarrow> string" where
  "byteHex b = [hexOf (unat b div 16), hexOf (unat b mod 16)]"

definition joinNul :: "string list \<Rightarrow> string" where
  "joinNul parts = (case parts of [] \<Rightarrow> [] | p # ps \<Rightarrow> p @ concat (map (\<lambda>q. char_of (0 :: nat) # q) ps))"

unbundle bit_operations_syntax

definition inheritedMainGrantId :: "(string \<Rightarrow> 8 word list) \<Rightarrow> ident option \<Rightarrow> ident \<Rightarrow> ident \<Rightarrow> ident \<Rightarrow> ident" where
  "inheritedMainGrantId sha256 connectionId installationId ownerUserId workspaceId =
     (let bytes0 = take 16 (sha256 (joinNul [''opensteer-main-inherited-integration-v1'', ownerUserId, workspaceId,
            installationId, (case connectionId of None \<Rightarrow> ''connectionless'' | Some c \<Rightarrow> c)]));
          bytes1 = bytes0[6 := (bytes0 ! 6 AND 0x0f) OR 0x80];
          bytes = bytes1[8 := (bytes1 ! 8 AND 0x3f) OR 0x80];
          hex = concat (map byteHex bytes)
      in ''igr_'' @ take 8 hex @ ''-'' @ take 4 (drop 8 hex) @ ''-'' @ take 4 (drop 12 hex) @ ''-'' @
         take 4 (drop 16 hex) @ ''-'' @ drop 20 hex)"

definition inheritedMainGrant :: "(string \<Rightarrow> 8 word list) \<Rightarrow> access \<Rightarrow> utf16 \<Rightarrow> ident option \<Rightarrow> ident \<Rightarrow> bool
    \<Rightarrow> ident \<Rightarrow> ident \<Rightarrow> inherited_grant" where
  "inheritedMainGrant sha256 acc alias connectionId installationId isDefault ownerUserId workspaceId =
     \<lparr>ih_access = acc, ih_alias = normalizedAuthorityAlias alias, ih_connectionId = connectionId,
      ih_id = inheritedMainGrantId sha256 connectionId installationId ownerUserId workspaceId,
      ih_installationId = installationId, ih_isDefault = isDefault, ih_ownerUserId = ownerUserId,
      ih_workspaceId = workspaceId\<rparr>"

text \<open>The grants of one tool in the Main Workspace: through one connection, and all of them.\<close>

definition connectionToolGrants :: "(string \<Rightarrow> 8 word list) \<Rightarrow> grants_input \<Rightarrow> (ident \<rightharpoonup> integration_grant)
    \<Rightarrow> installation \<Rightarrow> integration_tool \<Rightarrow> grant_connection \<Rightarrow> (effective_grant \<times> integration_tool) list" where
  "connectionToolGrants sha256 input overlayByScope inst tool connection =
     (let overlay = overlayByScope (integrationAuthorityKey (in_id inst) (Some (ca_id connection)));
          grant = inheritedMainGrant sha256 (effectiveIntegrationAccess ReadWrite (Some connection))
            (case overlay of None \<Rightarrow> gc_displayName connection | Some g \<Rightarrow> ig_alias g)
            (Some (ca_id connection)) (in_id inst)
            (case overlay of None \<Rightarrow> False | Some g \<Rightarrow> ig_isDefault g)
            (gi_ownerUserId input) (gi_workspaceId input)
      in if \<not> accessCoversEffect (ih_access grant) (integrationToolEffect (tl_annotations tool)) then []
         else [(MainInherited grant, tool)])"

definition inheritedToolGrants :: "(string \<Rightarrow> 8 word list) \<Rightarrow> grants_input \<Rightarrow> (ident \<rightharpoonup> integration_grant)
    \<Rightarrow> installation \<Rightarrow> integration_tool \<Rightarrow> (effective_grant \<times> integration_tool) list" where
  "inheritedToolGrants sha256 input overlayByScope inst tool =
     (let connectionless = (tl_requirement tool = RequireNone \<and> tl_connectionId tool = None);
          overlay0 = overlayByScope (integrationAuthorityKey (in_id inst) None)
      in (if connectionless
          then [(MainInherited (inheritedMainGrant sha256 ReadWrite
                   (case overlay0 of None \<Rightarrow> in_title inst | Some o0 \<Rightarrow> ig_alias o0) None (in_id inst)
                   (case overlay0 of None \<Rightarrow> False | Some o0 \<Rightarrow> ig_isDefault o0)
                   (gi_ownerUserId input) (gi_workspaceId input)), tool)]
          else []) @
         concat (map (connectionToolGrants sha256 input overlayByScope inst tool)
           (matchingUsableConnections tool (gi_connections input) (gi_ownerUserId input))))"

definition resolveInheritedMainGrants :: "(string \<Rightarrow> 8 word list) \<Rightarrow> grants_input \<Rightarrow> integration_grant list
    \<Rightarrow> (effective_grant \<times> integration_tool) list" where
  "resolveInheritedMainGrants sha256 input activeGrants =
     (let activeById = byKey in_id (filter (\<lambda>i. in_status i = UnitActive) (gi_installations input));
          overlayByScope = byKey (\<lambda>g. integrationAuthorityKey (ig_installationId g) (ig_connectionId g)) activeGrants
      in concat (map (\<lambda>tool.
           case activeById (tl_installationId tool) of
             None \<Rightarrow> []
           | Some inst \<Rightarrow>
               if tl_serverStatus tool \<noteq> UnitActive \<or> \<not> tl_active tool then []
               else inheritedToolGrants sha256 input overlayByScope inst tool) (gi_tools input)))"

definition resolveEffectiveGrants :: "(string \<Rightarrow> 8 word list) \<Rightarrow> grants_input \<Rightarrow> (effective_grant \<times> integration_tool) list" where
  "resolveEffectiveGrants sha256 input =
     (let activeGrants = filter (\<lambda>g. ig_active g \<and> ig_ownerUserId g = gi_ownerUserId input) (gi_storedGrants input)
      in if gi_inheritedMainAccess input then resolveInheritedMainGrants sha256 input activeGrants
         else resolveStoredGrants input activeGrants)"

section \<open>Lemmas\<close>

fun accessLe :: "access \<Rightarrow> access \<Rightarrow> bool" where
  "accessLe Read _ = True"
| "accessLe ReadWrite b = (b = ReadWrite)"

lemma access_not_write: "a \<noteq> ReadWrite \<longleftrightarrow> a = Read"
  by (cases a) simp_all

lemma intersect_le: "intersectResourceAccess (Some a) c = Some r \<Longrightarrow> accessLe r a \<and> (\<forall>b. c = Some (Some b) \<longrightarrow> accessLe r b)"
  by (cases a; cases r) (auto simp: intersectResourceAccess_def access_not_write split: if_splits)

lemma intersect_some: "c \<noteq> Some None \<Longrightarrow> \<exists>r. intersectResourceAccess (Some a) c = Some r"
  by (auto simp: intersectResourceAccess_def)

lemma effective_le:
  "accessLe (effectiveIntegrationAccess a c) a"
  "c = Some k \<Longrightarrow> ca_connectionKind k = KindComputer \<Longrightarrow> gc_computerAccess k = Some b \<Longrightarrow>
     accessLe (effectiveIntegrationAccess a c) b"
proof -
  let ?ceil = "case c of Some c \<Rightarrow> if ca_connectionKind c = KindComputer then map_option Some (gc_computerAccess c) else None
         | None \<Rightarrow> None"
  have "?ceil \<noteq> Some None" by (auto split: option.splits)
  then obtain r where r: "intersectResourceAccess (Some a) ?ceil = Some r" using intersect_some by blast
  then have e: "effectiveIntegrationAccess a c = r" by (simp add: effectiveIntegrationAccess_def)
  show "accessLe (effectiveIntegrationAccess a c) a" using intersect_le [OF r] e by simp
  show "c = Some k \<Longrightarrow> ca_connectionKind k = KindComputer \<Longrightarrow> gc_computerAccess k = Some b \<Longrightarrow>
     accessLe (effectiveIntegrationAccess a c) b" using intersect_le [OF r] e by auto
qed

lemma byKey_mem: "byKey key rows k = Some r \<Longrightarrow> r \<in> set rows \<and> key r = k"
  by (auto simp: byKey_def dest: map_of_SomeD)

lemma ceiling_fields:
  "ig_access (grantWithConnectionCeiling g c) = effectiveIntegrationAccess (ig_access g) c"
  "ig_id (grantWithConnectionCeiling g c) = ig_id g"
  "ig_connectionId (grantWithConnectionCeiling g c) = ig_connectionId g"
  "ig_installationId (grantWithConnectionCeiling g c) = ig_installationId g"
  "ig_ownerUserId (grantWithConnectionCeiling g c) = ig_ownerUserId g"
  by (simp_all add: grantWithConnectionCeiling_def Let_def)

lemma inherited_tool: "(g, tool) \<in> set (inheritedToolGrants sha256 input ov inst tool') \<Longrightarrow> tool = tool'"
  by (auto simp: inheritedToolGrants_def connectionToolGrants_def Let_def split: if_splits)

lemma main_parts:
  assumes "(g, tool) \<in> set (resolveEffectiveGrants sha256 input)" and "gi_inheritedMainAccess input"
  obtains inst ov where "tool \<in> set (gi_tools input)"
    and "byKey in_id (filter (\<lambda>i. in_status i = UnitActive) (gi_installations input)) (tl_installationId tool) = Some inst"
    and "tl_serverStatus tool = UnitActive" and "tl_active tool"
    and "(g, tool) \<in> set (inheritedToolGrants sha256 input ov inst tool)"
proof -
  obtain ov tool' where t: "tool' \<in> set (gi_tools input)" and m: "(g, tool) \<in> set (case
      byKey in_id (filter (\<lambda>i. in_status i = UnitActive) (gi_installations input)) (tl_installationId tool') of
        None \<Rightarrow> []
      | Some inst \<Rightarrow> if tl_serverStatus tool' \<noteq> UnitActive \<or> \<not> tl_active tool' then []
          else inheritedToolGrants sha256 input ov inst tool')"
    using assms unfolding resolveEffectiveGrants_def resolveInheritedMainGrants_def Let_def by auto
  then obtain inst where inst: "byKey in_id (filter (\<lambda>i. in_status i = UnitActive) (gi_installations input))
        (tl_installationId tool') = Some inst" "tl_serverStatus tool' = UnitActive" "tl_active tool'"
      "(g, tool) \<in> set (inheritedToolGrants sha256 input ov inst tool')"
    by (cases "byKey in_id (filter (\<lambda>i. in_status i = UnitActive) (gi_installations input)) (tl_installationId tool')")
       (auto split: if_splits)
  have "tool = tool'" by (rule inherited_tool [OF inst(4)])
  then show thesis using that [of inst ov] inst t by simp
qed

section \<open>Properties\<close>

text \<open>The connection a pair of the result rests on, and what it may do.\<close>

definition lends :: "grants_input \<Rightarrow> integration_tool \<Rightarrow> access \<Rightarrow> ident \<Rightarrow> bool" where
  "lends input tool acc c \<longleftrightarrow>
     (\<exists>k \<in> set (gi_connections input). ca_id k = c \<and> gc_ownerUserId k = gi_ownerUserId input \<and>
        ca_status k = Connected \<and> isIntegrationConnectionEligible k (tl_requirement tool) (tl_serverId tool) \<and>
        (ca_connectionKind k = KindComputer \<longrightarrow> (\<forall>b. gc_computerAccess k = Some b \<longrightarrow> accessLe acc b)))"

definition toolUsable :: "grants_input \<Rightarrow> integration_tool \<Rightarrow> bool" where
  "toolUsable input tool \<longleftrightarrow> tool \<in> set (gi_tools input) \<and> tl_active tool \<and> tl_serverStatus tool = UnitActive \<and>
     (\<exists>i \<in> set (gi_installations input). in_id i = tl_installationId tool \<and> in_status i = UnitActive)"

lemma eligible_connected: "isIntegrationConnectionEligible k r s \<Longrightarrow> ca_status k = Connected"
  by (auto simp: isIntegrationConnectionEligible_def split: if_splits)

lemma authority_lends:
  assumes "toolAuthorityIsCurrent tool (Some k)" and "k \<in> set (gi_connections input)"
    and "gc_ownerUserId k = gi_ownerUserId input" and "acc = effectiveIntegrationAccess a (Some k)"
  shows "lends input tool acc (ca_id k)"
proof -
  have "isIntegrationConnectionEligible k (tl_requirement tool) (tl_serverId tool)"
    using assms(1) by (auto simp: toolAuthorityIsCurrent_def split: if_splits)
  then show ?thesis using assms effective_le(2) eligible_connected unfolding lends_def by blast
qed

text \<open>C16: Nobody is given a tool through what is not theirs: in an ordinary Workspace every resolved pair rests
on an active stored grant of the requester and an active tool of an active server and installation, its access
covers the tool's effect, never exceeds the stored grant, and a tool that needs a connection gets it through the
grant's own connection: one the requester owns, connected, eligible, within the computer's ceiling.\<close>

theorem stored_grants_sound:
  assumes "(g, tool) \<in> set (resolveEffectiveGrants sha256 input)" and "\<not> gi_inheritedMainAccess input"
  shows "\<exists>stored eff. g = StoredGrant eff \<and> stored \<in> set (gi_storedGrants input) \<and> ig_active stored \<and>
    ig_ownerUserId stored = gi_ownerUserId input \<and> ig_id eff = ig_id stored \<and>
    ig_connectionId eff = ig_connectionId stored \<and> accessLe (ig_access eff) (ig_access stored) \<and>
    tl_installationId tool = ig_installationId stored \<and> toolUsable input tool \<and>
    accessCoversEffect (ig_access eff) (integrationToolEffect (tl_annotations tool)) \<and>
    (tl_requirement tool \<noteq> RequireNone \<longrightarrow>
       (\<exists>c. ig_connectionId stored = Some c \<and> lends input tool (ig_access eff) c))"
proof -
  from assms obtain stored where s: "stored \<in> set (gi_storedGrants input)" "ig_active stored"
      "ig_ownerUserId stored = gi_ownerUserId input" and r: "(g, tool) \<in> set (storedGrantTools input stored)"
    by (auto simp: resolveEffectiveGrants_def resolveStoredGrants_def Let_def)
  define conn where "conn = (case ig_connectionId stored of None \<Rightarrow> None | Some i \<Rightarrow> if i = '''' then None
      else byKey ca_id (filter (\<lambda>c. gc_ownerUserId c = gi_ownerUserId input) (gi_connections input)) i)"
  let ?eff = "grantWithConnectionCeiling stored conn"
  obtain inst where i: "byKey in_id (gi_installations input) (ig_installationId stored) = Some inst"
    using r by (cases "byKey in_id (gi_installations input) (ig_installationId stored)") (auto simp: storedGrantTools_def)
  have p: "g = StoredGrant ?eff" "tool \<in> set (gi_tools input)" "in_status inst = UnitActive"
      "tl_installationId tool = ig_installationId stored" "tl_serverStatus tool = UnitActive" "tl_active tool"
      "accessCoversEffect (ig_access ?eff) (integrationToolEffect (tl_annotations tool))"
      "toolAuthorityIsCurrent tool conn"
    using r unfolding storedGrantTools_def i option.case conn_def [symmetric] Let_def by auto
  have usable: "toolUsable input tool" using p byKey_mem [OF i] by (auto simp: toolUsable_def)
  have "\<exists>c. ig_connectionId stored = Some c \<and> lends input tool (ig_access ?eff) c" if ne: "tl_requirement tool \<noteq> RequireNone"
  proof -
    obtain k where k: "conn = Some k"
      using p(8) ne by (cases conn) (simp_all add: toolAuthorityIsCurrent_def)
    then obtain c where c: "ig_connectionId stored = Some c"
        "byKey ca_id (filter (\<lambda>c. gc_ownerUserId c = gi_ownerUserId input) (gi_connections input)) c = Some k"
      by (auto simp: conn_def split: option.splits if_splits)
    have "lends input tool (ig_access ?eff) (ca_id k)"
      using p(8) k byKey_mem [OF c(2)] by (intro authority_lends [where a = "ig_access stored"]) (auto simp: ceiling_fields)
    then show ?thesis using byKey_mem [OF c(2)] c(1) by auto
  qed
  then show ?thesis using s p usable effective_le(1) by (auto simp: ceiling_fields)
qed

text \<open>In the Main Workspace every inherited grant is the requester's own, lends at most what its connection
lends, rests on a connection the requester owns or on none for a tool that needs none, and never carries a
stored grant's identity: its identifier depends only on the scope.\<close>

theorem inherited_grants_sound:
  assumes "(g, tool) \<in> set (resolveEffectiveGrants sha256 input)" and "gi_inheritedMainAccess input"
  shows "\<exists>h. g = MainInherited h \<and> ih_ownerUserId h = gi_ownerUserId input \<and> ih_workspaceId h = gi_workspaceId input \<and>
    ih_installationId h = tl_installationId tool \<and> toolUsable input tool \<and>
    ih_id h = inheritedMainGrantId sha256 (ih_connectionId h) (tl_installationId tool) (gi_ownerUserId input) (gi_workspaceId input) \<and>
    accessCoversEffect (ih_access h) (integrationToolEffect (tl_annotations tool)) \<and>
    (case ih_connectionId h of
       None \<Rightarrow> tl_requirement tool = RequireNone \<and> tl_connectionId tool = None
     | Some c \<Rightarrow> lends input tool (ih_access h) c)"
proof -
  from assms obtain inst ov where t: "tool \<in> set (gi_tools input)"
      and inst: "byKey in_id (filter (\<lambda>i. in_status i = UnitActive) (gi_installations input)) (tl_installationId tool) = Some inst"
      and act: "tl_serverStatus tool = UnitActive" "tl_active tool"
      and m: "(g, tool) \<in> set (inheritedToolGrants sha256 input ov inst tool)"
    by (rule main_parts)
  have i: "in_id inst = tl_installationId tool" "in_status inst = UnitActive" "inst \<in> set (gi_installations input)"
    using byKey_mem [OF inst] by auto
  have u: "toolUsable input tool" using t act i by (auto simp: toolUsable_def)
  consider
      (none) h where "g = MainInherited h" "tl_requirement tool = RequireNone" "tl_connectionId tool = None"
        "\<exists>al d. h = inheritedMainGrant sha256 ReadWrite al None (in_id inst) d (gi_ownerUserId input) (gi_workspaceId input)"
    | (some) h k where "g = MainInherited h" "k \<in> set (matchingUsableConnections tool (gi_connections input) (gi_ownerUserId input))"
        "\<exists>al d. h = inheritedMainGrant sha256 (effectiveIntegrationAccess ReadWrite (Some k)) al (Some (ca_id k)) (in_id inst) d
           (gi_ownerUserId input) (gi_workspaceId input)"
        "accessCoversEffect (ih_access h) (integrationToolEffect (tl_annotations tool))"
  proof (cases "\<exists>k \<in> set (matchingUsableConnections tool (gi_connections input) (gi_ownerUserId input)).
      (g, tool) \<in> set (connectionToolGrants sha256 input ov inst tool k)")
    case True
    then obtain k where k: "k \<in> set (matchingUsableConnections tool (gi_connections input) (gi_ownerUserId input))"
      "(g, tool) \<in> set (connectionToolGrants sha256 input ov inst tool k)" by blast
    show thesis by (rule some [OF _ k(1)]) (use k(2) in \<open>auto simp: connectionToolGrants_def Let_def split: if_splits\<close>)
  next
    case False
    then show thesis using m none by (auto simp: inheritedToolGrants_def Let_def split: if_splits)
  qed
  then show ?thesis
  proof cases
    case none
    then show ?thesis using u i by (auto simp: inheritedMainGrant_def accessCoversEffect_def)
  next
    case some
    then have "toolAuthorityIsCurrent tool (Some k)" "k \<in> set (gi_connections input)" "gc_ownerUserId k = gi_ownerUserId input"
      by (auto simp: matchingUsableConnections_def split: if_splits)
    then have "lends input tool (effectiveIntegrationAccess ReadWrite (Some k)) (ca_id k)" by (intro authority_lends) auto
    then show ?thesis using some u i by (auto simp: inheritedMainGrant_def)
  qed
qed

text \<open>
  Readiness as a claim: the installation is active and the server is up (a server in need of attention
  still authorizes over MCP), and either nothing is to be connected and access is granted, or some
  connection belongs to the requirement, is eligible and has been granted the access.
\<close>

definition serverUsable :: "readiness_input \<Rightarrow> bool" where
  "serverUsable input \<longleftrightarrow> ri_installationStatus input = UnitActive \<and> ri_serverStatus input \<noteq> UnitDisabled \<and>
     (ri_serverStatus input = UnitNeedsAttention \<longrightarrow> ri_requirement input = RequireMcpOauth)"

definition usableConnection :: "readiness_input \<Rightarrow> connection_authority \<Rightarrow> bool" where
  "usableConnection input c \<longleftrightarrow> connectionBelongsToRequirement c input \<and>
     isIntegrationConnectionEligible c (ri_requirement input) (ri_serverId input)"

lemma find_some: "List.find P xs = Some x \<Longrightarrow> x \<in> set xs \<and> P x"
  by (auto simp: find_Some_iff)

lemma readiness_unusable:
  assumes "\<not> serverUsable input"
  shows "rd_code (resolveIntegrationReadiness input) = IntegrationUnavailable"
    and "rd_requiredAccess (resolveIntegrationReadiness input) = None"
proof -
  have "ri_installationStatus input \<noteq> UnitActive \<or> ri_serverStatus input = UnitDisabled \<or>
      (ri_serverStatus input = UnitNeedsAttention \<and> ri_requirement input \<noteq> RequireMcpOauth)"
    using assms by (auto simp: serverUsable_def)
  then show "rd_code (resolveIntegrationReadiness input) = IntegrationUnavailable"
    "rd_requiredAccess (resolveIntegrationReadiness input) = None"
    unfolding resolveIntegrationReadiness_def Let_def by simp_all
qed

text \<open>An integration is reported ready exactly when it is: its server is usable and either it needs no
connection and the access is granted, or a usable connection has been granted the access; a ready answer names
such a connection; and the access to ask for is present exactly when an access grant is what is missing.\<close>

theorem readiness_correct:
  "(rd_code (resolveIntegrationReadiness input) = Ready \<longleftrightarrow>
      serverUsable input \<and>
      (if ri_requirement input = RequireNone then ri_hasAccess input None (ri_requiredAccess input)
       else list_ex (\<lambda>c. usableConnection input c \<and> ri_hasAccess input (Some (ca_id c)) (ri_requiredAccess input))
              (ri_connections input))) \<and>
   (rd_code (resolveIntegrationReadiness input) = AccessGrantRequired \<longleftrightarrow>
      rd_requiredAccess (resolveIntegrationReadiness input) \<noteq> None) \<and>
   (case rd_connectionId (resolveIntegrationReadiness input) of
      None \<Rightarrow> True
    | Some c \<Rightarrow> list_ex (\<lambda>k. ca_id k = c \<and> connectionBelongsToRequirement k input) (ri_connections input) \<and>
        (rd_code (resolveIntegrationReadiness input) = Ready \<longrightarrow> ri_hasAccess input (Some c) (ri_requiredAccess input)))"
proof (cases "serverUsable input")
  case False
  have c: "rd_connectionId (resolveIntegrationReadiness input) = None"
    using False by (auto simp: resolveIntegrationReadiness_def Let_def serverUsable_def)
  show ?thesis using readiness_unusable [OF False] False unfolding c by simp
next
  case True
  then have ok: "\<not> (ri_installationStatus input \<noteq> UnitActive \<or> ri_serverStatus input = UnitDisabled \<or>
      (ri_serverStatus input = UnitNeedsAttention \<and> ri_requirement input \<noteq> RequireMcpOauth))"
    by (auto simp: serverUsable_def)
  show ?thesis
  proof (cases "ri_requirement input = RequireNone")
    case none: True
    then show ?thesis using ok True unfolding resolveIntegrationReadiness_def Let_def by simp
  next
    case False
    define relevant where "relevant = filter (\<lambda>c. connectionBelongsToRequirement c input) (ri_connections input)"
    define eligible where "eligible = filter (\<lambda>c. isIntegrationConnectionEligible c (ri_requirement input) (ri_serverId input)) relevant"
    let ?has = "\<lambda>c. ri_hasAccess input (Some (ca_id c)) (ri_requiredAccess input)"
    note unfold = resolveIntegrationReadiness_def Let_def relevant_def [symmetric] eligible_def [symmetric]
    have ex: "list_ex (\<lambda>c. usableConnection input c \<and> ?has c) (ri_connections input) \<longleftrightarrow> (\<exists>c \<in> set eligible. ?has c)"
      by (auto simp: list_ex_iff usableConnection_def eligible_def relevant_def)
    have rel: "list_ex (\<lambda>k. ca_id k = ca_id c \<and> connectionBelongsToRequirement k input) (ri_connections input)"
      if "c \<in> set relevant" for c using that by (auto simp: list_ex_iff relevant_def)
    have sub: "set eligible \<subseteq> set relevant" by (auto simp: eligible_def)
    show ?thesis
    proof (cases "List.find ?has eligible")
      case (Some r)
      then have "r \<in> set eligible" "?has r" using find_some by metis+
      then show ?thesis using ok True False Some ex rel sub unfolding unfold by auto
    next
      case None
      then have no: "\<not> (\<exists>c \<in> set eligible. ?has c)" by (auto simp: find_None_iff)
      show ?thesis
      proof (cases eligible)
        case (Cons e es)
        then show ?thesis using ok True False None no ex rel sub unfolding unfold by auto
      next
        case Nil
        show ?thesis
        proof (cases "List.find needsAttention relevant")
          case a: (Some k)
          then have "k \<in> set relevant" using find_some by metis
          then show ?thesis using ok True False None Nil a no ex rel unfolding unfold by (auto split: if_splits)
        next
          case a: None
          then show ?thesis using ok True False None Nil no ex unfolding unfold by (auto split: if_splits)
        qed
      qed
    qed
  qed
qed

section \<open>Identifiers of inherited grants\<close>

text \<open>The schema of a grant's identifier: \<open>igr_\<close> and a UUID of version 1 to 8 and the standard variant.\<close>

definition hexChars :: "string \<Rightarrow> bool" where
  "hexChars s = list_all (\<lambda>c. c \<in> set ''0123456789abcdef'') s"

definition isGrantId :: "ident \<Rightarrow> bool" where
  "isGrantId s \<longleftrightarrow> length s = 40 \<and> take 4 s = ''igr_'' \<and>
     s ! 12 = CHR ''-'' \<and> s ! 17 = CHR ''-'' \<and> s ! 22 = CHR ''-'' \<and> s ! 27 = CHR ''-'' \<and>
     s ! 18 \<in> set ''12345678'' \<and> s ! 23 \<in> set ''89ab'' \<and>
     hexChars (take 8 (drop 4 s)) \<and> hexChars (take 4 (drop 13 s)) \<and> hexChars (take 4 (drop 18 s)) \<and>
     hexChars (take 4 (drop 23 s)) \<and> hexChars (drop 28 s)"

lemma byteHex_ok: "length (byteHex b) = 2" "hexChars (byteHex b)"
proof -
  have h: "hexOf n \<in> set ''0123456789abcdef''" if "n < 16" for n
    unfolding hexOf_def using that by (intro nth_mem) simp
  have "unat b div 16 < 16" using unsigned_less [of b, where 'a = nat] by (simp add: less_mult_imp_div_less)
  then show "length (byteHex b) = 2" "hexChars (byteHex b)"
    using h unfolding byteHex_def hexChars_def by simp_all
qed

lemma unat_div_16: "unat (w :: 8 word) div 16 = unat (drop_bit 4 w)"
  by (simp add: unat_drop_bit_eq drop_bit_nat_def)

lemma version_nibble: "hd (byteHex ((b AND 0x0f) OR 0x80)) = CHR ''8''"
proof -
  have "drop_bit 4 ((b AND 0x0f) OR 0x80 :: 8 word) = 8" by (simp add: drop_bit_and drop_bit_or)
  then show ?thesis by (simp add: byteHex_def hexOf_def unat_div_16)
qed

lemma variant_nibble: "hd (byteHex ((b AND 0x3f) OR 0x80)) \<in> set ''89ab''"
proof -
  let ?x = "take_bit 2 (drop_bit 4 b)"
  have "drop_bit 4 ((b AND 0x3f) OR 0x80 :: 8 word) = (drop_bit 4 b AND mask 2) OR 8"
    by (simp add: drop_bit_and drop_bit_or mask_eq_exp_minus_1)
  also have "\<dots> = ?x OR 8" by (simp add: take_bit_eq_mask)
  finally have e: "drop_bit 4 ((b AND 0x3f) OR 0x80 :: 8 word) = ?x OR 8" .
  have "unat ?x < 4" using take_bit_nat_less_exp [of 2 "unat (drop_bit 4 b)"] by (simp add: unsigned_take_bit_eq)
  then have "unat ?x = 0 \<or> unat ?x = 1 \<or> unat ?x = 2 \<or> unat ?x = 3" by linarith
  then have "?x = 0 \<or> ?x = 1 \<or> ?x = 2 \<or> ?x = 3" by (simp add: word_unat_eq_iff [of ?x])
  then show ?thesis unfolding byteHex_def unat_div_16 e hexOf_def by auto
qed

lemma pairs_length: "\<forall>x \<in> set xs. length x = 2 \<Longrightarrow> length (concat xs) = 2 * length xs"
  by (induction xs) auto

lemma pairs_nth: "\<forall>x \<in> set xs. length x = 2 \<Longrightarrow> i < length xs \<Longrightarrow> concat xs ! (2 * i) = xs ! i ! 0"
proof (induction xs arbitrary: i)
  case (Cons x xs)
  then show ?case by (cases i) (auto simp: nth_append)
qed simp

lemma hexChars_sub: "hexChars s \<Longrightarrow> hexChars (take n s) \<and> hexChars (drop n s)"
  unfolding hexChars_def list_all_iff by (meson in_set_takeD in_set_dropD)

lemma grantId_parts:
  assumes "length h = 32" and "hexChars h" and "h ! 12 = CHR ''8''" and "h ! 16 \<in> set ''89ab''"
  shows "isGrantId (''igr_'' @ take 8 h @ ''-'' @ take 4 (drop 8 h) @ ''-'' @ take 4 (drop 12 h) @ ''-'' @
         take 4 (drop 16 h) @ ''-'' @ drop 20 h)"
proof -
  define A B C D E where p: "A = take 8 h" "B = take 4 (drop 8 h)" "C = take 4 (drop 12 h)" "D = take 4 (drop 16 h)" "E = drop 20 h"
  have len: "length A = 8" "length B = 4" "length C = 4" "length D = 4" "length E = 12" using assms(1) by (simp_all add: p)
  have hex: "hexChars A" "hexChars B" "hexChars C" "hexChars D" "hexChars E" using assms(2) by (simp_all add: p hexChars_sub)
  have n: "C ! 0 = h ! 12" "D ! 0 = h ! 16" using assms(1) by (simp_all add: p)
  let ?s = "''igr_'' @ A @ ''-'' @ B @ ''-'' @ C @ ''-'' @ D @ ''-'' @ E"
  have at: "length ?s = 40" "take 4 ?s = ''igr_''" "?s ! 12 = CHR ''-''" "?s ! 17 = CHR ''-''" "?s ! 22 = CHR ''-''"
      "?s ! 27 = CHR ''-''" "?s ! 18 = C ! 0" "?s ! 23 = D ! 0"
      "take 8 (drop 4 ?s) = A" "take 4 (drop 13 ?s) = B" "take 4 (drop 18 ?s) = C" "take 4 (drop 23 ?s) = D" "drop 28 ?s = E"
    using len by (simp_all add: nth_append)
  have "isGrantId ?s" unfolding isGrantId_def at n assms(3) using hex assms(4) by simp
  then show ?thesis by (simp only: p)
qed

text \<open>The identifier made for an inherited grant is always one the schema of grant identifiers accepts,
whatever the digest, so branding it never throws.\<close>

theorem inherited_id_valid:
  assumes "\<And>s. 16 \<le> length (sha256 s)"
  shows "isGrantId (inheritedMainGrantId sha256 connectionId installationId ownerUserId workspaceId)"
proof -
  define bs where "bs = take 16 (sha256 (joinNul [''opensteer-main-inherited-integration-v1'', ownerUserId, workspaceId,
            installationId, (case connectionId of None \<Rightarrow> ''connectionless'' | Some c \<Rightarrow> c)]))"
  have len: "length bs = 16" by (simp only: bs_def length_take min_absorb2 assms)
  define bytes where "bytes = (bs[6 := (bs ! 6 AND 0x0f) OR 0x80])[8 := (bs[6 := (bs ! 6 AND 0x0f) OR 0x80] ! 8 AND 0x3f) OR 0x80]"
  have b: "length bytes = 16" "bytes ! 6 = (bs ! 6 AND 0x0f) OR 0x80" "bytes ! 8 = (bs ! 8 AND 0x3f) OR 0x80"
    using len by (simp_all add: bytes_def)
  let ?hex = "concat (map byteHex bytes)"
  have pairs: "\<forall>x \<in> set (map byteHex bytes). length x = 2" by (simp add: byteHex_ok)
  have "hexChars (concat bs)" if "\<forall>b \<in> set bs. hexChars b" for bs
    using that unfolding hexChars_def list_all_iff set_concat by blast
  then have "hexChars ?hex" using byteHex_ok(2) by simp
  moreover have "length ?hex = 32" using pairs_length [OF pairs] b by simp
  moreover have "?hex ! 12 = CHR ''8''" "?hex ! 16 \<in> set ''89ab''"
    using pairs_nth [OF pairs, of 6] pairs_nth [OF pairs, of 8] b version_nibble [of "bs ! 6"] variant_nibble [of "bs ! 8"]
    by (simp_all add: byteHex_def)
  ultimately show ?thesis
    unfolding inheritedMainGrantId_def Let_def bs_def [symmetric] bytes_def [symmetric] by (intro grantId_parts)
qed

theorem inherited_id_valid_witness:
  "isGrantId (inheritedMainGrantId (\<lambda>s. replicate 32 255) (Some ''con_1'') ''iin_1'' ''usr_1'' ''wsp_1'')"
  by (rule inherited_id_valid) simp

section \<open>Examples\<close>

definition inst_ex :: installation where
  "inst_ex = \<lparr>in_id = ''iin'', in_status = UnitActive, in_title = lit ''Mail''\<rparr>"

definition tool_ex :: "requirement \<Rightarrow> integration_tool" where
  "tool_ex req = \<lparr>tl_annotations = [(''readOnlyHint'', JBool True)], tl_connectionId = None, tl_id = ''itl'',
     tl_serverId = ''isv'', tl_active = True, tl_requirement = req, tl_installationId = ''iin'', tl_serverStatus = UnitActive\<rparr>"

definition connection_ex :: "ident \<Rightarrow> grant_connection" where
  "connection_ex owner = \<lparr>ca_applicationSourceAvailable = True, ca_connectionKind = KindProviderAccount,
     ca_definitionId = Some ''mail'', ca_id = ''con'', ca_integrationServerId = None, ca_provider = ''acme'',
     ca_status = Connected, gc_computerAccess = None, gc_displayName = lit ''Me'', gc_ownerUserId = owner\<rparr>"

definition grant_ex :: integration_grant where
  "grant_ex = \<lparr>ig_access = Read, ig_alias = lit ''Mine'', ig_connectionId = Some ''con'', ig_id = ''igr'',
     ig_installationId = ''iin'', ig_isDefault = True, ig_ownerUserId = ''usr'', ig_active = True, ig_workspaceId = ''wsp''\<rparr>"

definition input_ex :: "bool \<Rightarrow> grant_connection list \<Rightarrow> integration_tool list \<Rightarrow> grants_input" where
  "input_ex main conns tools = \<lparr>gi_connections = conns, gi_inheritedMainAccess = main, gi_installations = [inst_ex],
     gi_ownerUserId = ''usr'', gi_storedGrants = [grant_ex], gi_tools = tools, gi_workspaceId = ''wsp''\<rparr>"

lemmas grants_eval = resolveEffectiveGrants_def resolveStoredGrants_def storedGrantTools_def Let_def input_ex_def inst_ex_def
  connection_ex_def tool_ex_def grant_ex_def byKey_def toolAuthorityIsCurrent_def grantWithConnectionCeiling_def
  effectiveIntegrationAccess_def intersectResourceAccess_def accessCoversEffect_def integrationToolEffect_def
  needsOwnConnection_def isIntegrationConnectionEligible_def

lemma stored_ex: "resolveEffectiveGrants (\<lambda>s. []) (input_ex False [connection_ex ''usr'']
    [tool_ex (RequireProvider ''mail'' ''acme'' True)]) = [(StoredGrant grant_ex, tool_ex (RequireProvider ''mail'' ''acme'' True))]"
  by (simp add: grants_eval)

lemma inherited_ex: "map snd (resolveEffectiveGrants (\<lambda>s. replicate 32 0) (input_ex True [connection_ex ''usr'']
    [tool_ex RequireNone])) = [tool_ex RequireNone]"
  by (simp add: grants_eval resolveInheritedMainGrants_def inheritedToolGrants_def matchingUsableConnections_def
      connectionToolGrants_def)

theorem stored_grants_sound_witness:
  "\<exists>acc. lends (input_ex False [connection_ex ''usr''] [tool_ex (RequireProvider ''mail'' ''acme'' True)])
     (tool_ex (RequireProvider ''mail'' ''acme'' True)) acc ''con''"
proof -
  let ?t = "tool_ex (RequireProvider ''mail'' ''acme'' True)"
  let ?i = "input_ex False [connection_ex ''usr''] [?t]"
  have m: "(StoredGrant grant_ex, ?t) \<in> set (resolveEffectiveGrants (\<lambda>s. []) ?i)" unfolding stored_ex by (rule list.set_intros)
  have n: "\<not> gi_inheritedMainAccess ?i" by (simp add: input_ex_def)
  obtain stored acc where s: "stored \<in> set (gi_storedGrants ?i)"
      "tl_requirement ?t \<noteq> RequireNone \<longrightarrow> (\<exists>c. ig_connectionId stored = Some c \<and> lends ?i ?t acc c)"
    using stored_grants_sound [OF m n] by blast
  have "stored = grant_ex" using s(1) by (simp add: input_ex_def)
  moreover have "tl_requirement ?t \<noteq> RequireNone" by (simp add: tool_ex_def)
  ultimately obtain c where "ig_connectionId grant_ex = Some c" "lends ?i ?t acc c" using s(2) by blast
  moreover from this(1) have "c = ''con''" by (simp add: grant_ex_def)
  ultimately show ?thesis by blast
qed

theorem inherited_grants_sound_witness:
  "toolUsable (input_ex True [connection_ex ''usr''] [tool_ex RequireNone]) (tool_ex RequireNone)"
proof -
  let ?i = "input_ex True [connection_ex ''usr''] [tool_ex RequireNone]"
  obtain g where "(g, tool_ex RequireNone) \<in> set (resolveEffectiveGrants (\<lambda>s. replicate 32 0) ?i)"
  proof -
    have "tool_ex RequireNone \<in> set (map snd (resolveEffectiveGrants (\<lambda>s. replicate 32 0) ?i))"
      unfolding inherited_ex by (rule list.set_intros)
    then show thesis using that by (auto simp del: map_map)
  qed
  moreover have "gi_inheritedMainAccess ?i" by (simp add: input_ex_def)
  ultimately show ?thesis using inherited_grants_sound by blast
qed

text \<open>Taking a connection away can give a tool: a stored grant tied to a connection that is no longer among the
rows resolves without one, and then authorizes the installation's tools that need no connection, which it did
not while the connection was there.\<close>

theorem grant_of_missing_connection:
  "resolveEffectiveGrants sha256 (input_ex False [connection_ex ''usr''] [tool_ex RequireNone]) = [] \<and>
   resolveEffectiveGrants sha256 (input_ex False [] [tool_ex RequireNone]) = [(StoredGrant grant_ex, tool_ex RequireNone)]"
  by (simp add: grants_eval)


definition readiness_ex :: "connection_status \<Rightarrow> readiness_input" where
  "readiness_ex status = \<lparr>ri_requirement = RequireProvider ''mail'' ''acme'' False,
     ri_connections = [\<lparr>ca_applicationSourceAvailable = True, ca_connectionKind = KindProviderAccount,
       ca_definitionId = Some ''mail'', ca_id = ''con'', ca_integrationServerId = None, ca_provider = ''acme'',
       ca_status = status\<rparr>],
     ri_hasAccess = (\<lambda>c a. c = Some ''con''), ri_installationStatus = UnitActive, ri_providerAuthorization = None,
     ri_requiredAccess = Read, ri_requiredConnectionId = None, ri_serverId = ''srv'',
     ri_serverStatus = UnitActive, ri_statusDetail = None\<rparr>"

theorem readiness_correct_witness:
  "rd_code (resolveIntegrationReadiness (readiness_ex Connected)) = Ready \<and>
   rd_code (resolveIntegrationReadiness (readiness_ex Paused)) \<noteq> Ready"
  using readiness_correct [of "readiness_ex Connected"] readiness_correct [of "readiness_ex Paused"]
  by (simp add: readiness_ex_def serverUsable_def usableConnection_def connectionBelongsToRequirement_def
      isIntegrationConnectionEligible_def)

end
