(* ===== verification/Run_Queue.thy ===== *)
theory Run_Queue
  imports Core_Events "HOL-Library.Product_Lexorder"
begin

text \<open>
  The Run queue of a client (packages/client/src/host/run-queue-state.ts). Every source is a word about a
  Run at a Workspace sequence; the newest word wins and an ended Run stays ended. An entry is a fresh
  object in every source, so an accepted word that carries one changes what is shown. The locale's
  order of Thread identifiers (\<open>localeCompare\<close>) is a parameter: a key into a linear order.
\<close>

datatype run_status = Queued | Starting | Running | Waiting | Completed | Failed | Interrupted

record queue_entry =
  qe_createdAt :: utf16
  qe_id :: ident
  qe_status :: run_status
  qe_threadId :: ident
  qe_runOrdinal :: int

record run_record =
  rr_entry :: "queue_entry option"
  rr_sequence :: "sequence option"
  rr_status :: run_status
  rr_threadId :: ident
  rr_workspaceId :: ident

record queue_read =
  qr_runQueue :: "queue_entry list"
  qr_threads :: "(ident, sequence) jsmap"
  qr_wholeWorkspace :: bool
  qr_workspaceId :: ident

record run_queue =
  rq_active :: "(ident, run_record) jsmap"
  rq_ended :: "ident list"

text \<open>A word about a Run; a \<open>run.queued\<close> event and a read name the entry, the others the Thread.\<close>

record run_word =
  rw_entry :: "queue_entry option"
  rw_sequence :: sequence
  rw_status :: run_status
  rw_threadId :: "ident option"
  rw_workspaceId :: ident

text \<open>The events the queue reads, with what it reads of them; \<open>OtherEvent\<close> is every other type.\<close>

datatype queue_event_type =
    QueuedEvent queue_entry
  | StartedEvent
  | StatusEvent run_status
  | CompletedEvent | FailedEvent | InterruptedEvent
  | RequestOpenedEvent bool  \<comment> \<open>the request is live\<close>
  | OtherEvent

record queue_event =
  qv_type :: queue_event_type
  qv_runId :: "ident option"
  qv_sequence :: sequence
  qv_threadId :: ident
  qv_workspaceId :: ident

section \<open>Operations\<close>

definition endedMemory :: nat where
  "endedMemory = 4096"

definition emptyQueue :: run_queue where
  "emptyQueue = \<lparr>rq_active = [], rq_ended = []\<rparr>"

definition isActiveRunStatus :: "run_status \<Rightarrow> bool" where
  "isActiveRunStatus s \<longleftrightarrow> s = Queued \<or> s = Starting \<or> s = Running \<or> s = Waiting"

definition toRunQueueEntry :: "queue_entry \<Rightarrow> queue_entry option" where
  "toRunQueueEntry run = (if \<not> isActiveRunStatus (qe_status run) then None else Some run)"

definition rq_end :: "ident \<Rightarrow> run_queue \<Rightarrow> run_queue \<times> bool" where
  "rq_end runId q =
     (let previous = jget (rq_active q) runId;
          ended = filter (\<lambda>r. r \<noteq> runId) (rq_ended q) @ [runId]
      in (\<lparr>rq_active = jdel runId (rq_active q),
           rq_ended = (if length ended > endedMemory then tl ended else ended)\<rparr>,
          (case previous of None \<Rightarrow> False | Some p \<Rightarrow> rr_entry p \<noteq> None)))"

text \<open>\<open>word.entry?.threadId ?? word.threadId\<close>\<close>

definition wordThread :: "run_word \<Rightarrow> ident option" where
  "wordThread w = (case rw_entry w of Some e \<Rightarrow> Some (qe_threadId e) | None \<Rightarrow> rw_threadId w)"

definition newerWord :: "run_word \<Rightarrow> run_record option \<Rightarrow> bool" where
  "newerWord w previous =
     (case previous of
        None \<Rightarrow> True
      | Some p \<Rightarrow> (case rr_sequence p of None \<Rightarrow> True | Some s \<Rightarrow> compareSequence (rw_sequence w) s > 0))"

definition rq_accept :: "ident \<Rightarrow> run_word \<Rightarrow> run_queue \<Rightarrow> run_queue \<times> bool" where
  "rq_accept runId w q =
     (case wordThread w of
        None \<Rightarrow> (q, False)
      | Some threadId \<Rightarrow>
          if runId \<in> set (rq_ended q) then (q, False)
          else
            let previous = jget (rq_active q) runId;
                held = (case previous of None \<Rightarrow> None | Some p \<Rightarrow> rr_entry p);
                shape = (case rw_entry w of Some e \<Rightarrow> Some e | None \<Rightarrow> held);
                newer = newerWord w previous
            in if \<not> newer \<and> (held \<noteq> None \<or> shape = None) then (q, False)
               else
                 let sequence = (case previous of Some p \<Rightarrow> if newer then Some (rw_sequence w) else rr_sequence p
                                  | None \<Rightarrow> Some (rw_sequence w));
                     status = (case previous of Some p \<Rightarrow> if newer then rw_status w else rr_status p
                                | None \<Rightarrow> rw_status w);
                     entry = map_option (\<lambda>e. if qe_status e = status then e else e\<lparr>qe_status := status\<rparr>) shape
                 in (q\<lparr>rq_active := jset runId \<lparr>rr_entry = entry, rr_sequence = sequence, rr_status = status,
                        rr_threadId = threadId, rr_workspaceId = rw_workspaceId w\<rparr> (rq_active q)\<rparr>,
                     entry \<noteq> None \<and> (rw_entry w \<noteq> None \<or> entry \<noteq> held)))"

definition wordOf :: "queue_event \<Rightarrow> run_status \<Rightarrow> run_word" where
  "wordOf event status = \<lparr>rw_entry = None, rw_sequence = qv_sequence event, rw_status = status,
     rw_threadId = Some (qv_threadId event), rw_workspaceId = qv_workspaceId event\<rparr>"

definition entryWord :: "queue_entry \<Rightarrow> sequence \<Rightarrow> ident \<Rightarrow> run_word" where
  "entryWord entry seq workspaceId = \<lparr>rw_entry = Some entry, rw_sequence = seq, rw_status = qe_status entry,
     rw_threadId = None, rw_workspaceId = workspaceId\<rparr>"

definition rq_record :: "queue_event \<Rightarrow> run_queue \<Rightarrow> run_queue \<times> bool" where
  "rq_record event q =
     (case qv_type event of
        QueuedEvent run \<Rightarrow>
          (case toRunQueueEntry run of
             None \<Rightarrow> rq_end (qe_id run) q
           | Some entry \<Rightarrow> rq_accept (qe_id entry) (entryWord entry (qv_sequence event) (qv_workspaceId event)) q)
      | StartedEvent \<Rightarrow>
          (case qv_runId event of None \<Rightarrow> (q, False) | Some r \<Rightarrow> rq_accept r (wordOf event Running) q)
      | StatusEvent status \<Rightarrow>
          (case qv_runId event of
             None \<Rightarrow> (q, False)
           | Some r \<Rightarrow> if isActiveRunStatus status then rq_accept r (wordOf event status) q else rq_end r q)
      | CompletedEvent \<Rightarrow> (case qv_runId event of None \<Rightarrow> (q, False) | Some r \<Rightarrow> rq_end r q)
      | FailedEvent \<Rightarrow> (case qv_runId event of None \<Rightarrow> (q, False) | Some r \<Rightarrow> rq_end r q)
      | InterruptedEvent \<Rightarrow> (case qv_runId event of None \<Rightarrow> (q, False) | Some r \<Rightarrow> rq_end r q)
      | RequestOpenedEvent live \<Rightarrow>
          (case qv_runId event of
             None \<Rightarrow> (q, False)
           | Some r \<Rightarrow> if live then rq_accept r (wordOf event Waiting) q else (q, False))
      | OtherEvent \<Rightarrow> (q, False))"

definition readEntry :: "queue_read \<Rightarrow> run_queue \<times> bool \<times> ident list \<Rightarrow> queue_entry \<Rightarrow> run_queue \<times> bool \<times> ident list" where
  "readEntry rd st entry =
     (case st of (q, changed, listed) \<Rightarrow>
        (case jget (qr_threads rd) (qe_threadId entry) of
           None \<Rightarrow> st
         | Some seq \<Rightarrow>
             (case rq_accept (qe_id entry) (entryWord entry seq (qr_workspaceId rd)) q of
                (q', c) \<Rightarrow> (q', c \<or> changed, qe_id entry # listed))))"

definition readOmission :: "queue_read \<Rightarrow> ident list \<Rightarrow> run_queue \<times> bool \<Rightarrow> ident \<times> run_record \<Rightarrow> run_queue \<times> bool" where
  "readOmission rd listed st kv =
     (case st of (q, changed) \<Rightarrow> case kv of (runId, rcd) \<Rightarrow>
        if rr_workspaceId rcd \<noteq> qr_workspaceId rd \<or> runId \<in> set listed then st
        else
          let asOf = jget (qr_threads rd) (rr_threadId rcd) in
          if asOf = None \<and> \<not> qr_wholeWorkspace rd then st
          else (case (asOf, rr_sequence rcd) of
                  (Some a, Some s) \<Rightarrow>
                    if compareSequence s a < 0
                    then (case rq_end runId q of (q', c) \<Rightarrow> (q', c \<or> changed)) else st
                | _ \<Rightarrow> (q\<lparr>rq_active := jdel runId (rq_active q)\<rparr>, rr_entry rcd \<noteq> None \<or> changed)))"

definition rq_reconcile :: "queue_read \<Rightarrow> run_queue \<Rightarrow> run_queue \<times> bool" where
  "rq_reconcile rd q =
     (case foldl (readEntry rd) (q, False, []) (qr_runQueue rd) of
        (q1, changed, listed) \<Rightarrow> foldl (readOmission rd listed) (q1, changed) (rq_active q1))"

definition rq_acknowledge :: "queue_entry \<Rightarrow> ident \<Rightarrow> run_queue \<Rightarrow> run_queue \<times> bool" where
  "rq_acknowledge entry workspaceId q =
     (if qe_id entry \<in> set (rq_ended q) \<or> jget (rq_active q) (qe_id entry) \<noteq> None then (q, False)
      else (q\<lparr>rq_active := jset (qe_id entry)
              \<lparr>rr_entry = Some entry, rr_sequence = None, rr_status = qe_status entry,
               rr_threadId = qe_threadId entry, rr_workspaceId = workspaceId\<rparr> (rq_active q)\<rparr>, True))"

definition rq_entries :: "(ident \<Rightarrow> 'k :: linorder) \<Rightarrow> run_queue \<Rightarrow> queue_entry list" where
  "rq_entries collate q = sort_key (\<lambda>e. (collate (qe_threadId e), qe_runOrdinal e))
     (List.map_filter rr_entry (jvalues (rq_active q)))"

definition rq_clear :: "run_queue \<Rightarrow> run_queue" where
  "rq_clear q = emptyQueue"

datatype queue_call = Record queue_event | Reconcile queue_read | Acknowledge queue_entry ident

definition queueStep :: "run_queue \<Rightarrow> queue_call \<Rightarrow> run_queue" where
  "queueStep q c =
     (case c of
        Record e \<Rightarrow> fst (rq_record e q)
      | Reconcile r \<Rightarrow> fst (rq_reconcile r q)
      | Acknowledge e w \<Rightarrow> fst (rq_acknowledge e w q))"

section \<open>Invariant\<close>

definition record_ok :: "ident \<Rightarrow> run_record \<Rightarrow> bool" where
  "record_ok r x \<longleftrightarrow> (case rr_entry x of None \<Rightarrow> True | Some e \<Rightarrow> qe_id e = r \<and> qe_status e = rr_status x)"

definition queue_inv :: "run_queue \<Rightarrow> bool" where
  "queue_inv q \<longleftrightarrow> jwf (rq_active q) \<and> distinct (rq_ended q) \<and> length (rq_ended q) \<le> endedMemory \<and>
     (\<forall>r \<in> set (rq_ended q). jget (rq_active q) r = None) \<and>
     (\<forall>r x. jget (rq_active q) r = Some x \<longrightarrow> record_ok r x)"

lemma in_tl: "x \<in> set (tl xs) \<Longrightarrow> x \<in> set xs"
  by (cases xs) auto

lemma end_inv:
  assumes "queue_inv q"
  shows "queue_inv (fst (rq_end r q))"
proof -
  let ?e = "filter (\<lambda>x. x \<noteq> r) (rq_ended q) @ [r]"
  let ?t = "if length ?e > endedMemory then tl ?e else ?e"
  have i: "jwf (rq_active q)" "distinct (rq_ended q)" "length (rq_ended q) \<le> endedMemory"
    "\<And>x. x \<in> set (rq_ended q) \<Longrightarrow> jget (rq_active q) x = None"
    "\<And>k x. jget (rq_active q) k = Some x \<Longrightarrow> record_ok k x"
    using assms by (auto simp: queue_inv_def)
  have "length (filter (\<lambda>x. x \<noteq> r) (rq_ended q)) \<le> endedMemory" using i(3) length_filter_le order_trans by blast
  then have "length ?t \<le> endedMemory" by simp
  moreover have "distinct ?t" using i(2) by (simp add: distinct_tl)
  moreover have "\<forall>x \<in> set ?t. jget (jdel r (rq_active q)) x = None"
    using i(4) by (auto simp: jget_del dest: in_tl split: if_splits)
  ultimately show ?thesis using i(1,5) by (simp add: queue_inv_def rq_end_def Let_def jget_del)
qed

lemma entry_update_id: "qe_id (e\<lparr>qe_status := s\<rparr>) = qe_id e" "qe_status (e\<lparr>qe_status := s\<rparr>) = s"
  by simp_all

text \<open>What an accepted word leaves under its Run, and that it touches nothing else.\<close>

lemma accept_cases:
  obtains (kept) "rq_accept r w q = (q, False)"
  | (set) x c where "rq_accept r w q = (q\<lparr>rq_active := jset r x (rq_active q)\<rparr>, c)" and "r \<notin> set (rq_ended q)"
      and "\<And>e. rr_entry x = Some e \<Longrightarrow> qe_status e = rr_status x \<and>
        (\<exists>e'. qe_id e' = qe_id e \<and> (rw_entry w = Some e' \<or>
           (\<exists>p. jget (rq_active q) r = Some p \<and> rr_entry p = Some e')))"
proof (cases "snd (rq_accept r w q) \<or> fst (rq_accept r w q) \<noteq> q")
  case False
  then show thesis using kept by (cases "rq_accept r w q") auto
next
  case True
  then obtain t where t: "wordThread w = Some t" "r \<notin> set (rq_ended q)"
    by (auto simp: rq_accept_def split: option.splits if_splits)
  let ?prev = "jget (rq_active q) r"
  define held where "held = (case ?prev of None \<Rightarrow> None | Some p \<Rightarrow> rr_entry p)"
  define shape where "shape = (case rw_entry w of Some e \<Rightarrow> Some e | None \<Rightarrow> held)"
  define status where "status = (case ?prev of Some p \<Rightarrow> if newerWord w ?prev then rw_status w else rr_status p
                                | None \<Rightarrow> rw_status w)"
  define sq where "sq = (case ?prev of Some p \<Rightarrow> if newerWord w ?prev then Some (rw_sequence w) else rr_sequence p
                                  | None \<Rightarrow> Some (rw_sequence w))"
  let ?x = "\<lparr>rr_entry = map_option (\<lambda>e. if qe_status e = status then e else e\<lparr>qe_status := status\<rparr>) shape,
      rr_sequence = sq, rr_status = status, rr_threadId = t, rr_workspaceId = rw_workspaceId w\<rparr>"
  have a: "rq_accept r w q = (q\<lparr>rq_active := jset r ?x (rq_active q)\<rparr>, snd (rq_accept r w q))"
    using True t unfolding rq_accept_def Let_def held_def [symmetric] shape_def [symmetric] status_def [symmetric] sq_def [symmetric]
    by (auto split: if_splits)
  show thesis
  proof (rule set [OF a t(2)])
    fix e assume "rr_entry ?x = Some e"
    then obtain e' where e': "shape = Some e'" "e = (if qe_status e' = status then e' else e'\<lparr>qe_status := status\<rparr>)" by auto
    then have "rw_entry w = Some e' \<or> (\<exists>p. ?prev = Some p \<and> rr_entry p = Some e')"
      by (auto simp: shape_def held_def split: option.splits)
    then show "qe_status e = rr_status ?x \<and> (\<exists>e'. qe_id e' = qe_id e \<and> (rw_entry w = Some e' \<or>
           (\<exists>p. ?prev = Some p \<and> rr_entry p = Some e')))" using e'(2) by auto
  qed
qed

definition word_ok :: "ident \<Rightarrow> run_word \<Rightarrow> bool" where
  "word_ok r w \<longleftrightarrow> (case rw_entry w of None \<Rightarrow> True | Some e \<Rightarrow> qe_id e = r)"

text \<open>The Runs a call names.\<close>

definition namedRuns :: "queue_call \<Rightarrow> ident set" where
  "namedRuns c =
     (case c of
        Record e \<Rightarrow> (case qv_type e of QueuedEvent run \<Rightarrow> {qe_id run} | _ \<Rightarrow> set_option (qv_runId e))
      | Reconcile r \<Rightarrow> qe_id ` set (qr_runQueue r)
      | Acknowledge e _ \<Rightarrow> {qe_id e})"

text \<open>What is kept by ending a Run, accepting a word, forgetting a record and acknowledging a Run is kept by every call.\<close>

locale queue_kept =
  fixes P :: "run_queue \<Rightarrow> bool" and V :: "ident set"
  assumes end_keeps: "P q \<Longrightarrow> r \<in> V \<Longrightarrow> P (fst (rq_end r q))"
    and accept_keeps: "P q \<Longrightarrow> r \<in> V \<Longrightarrow> word_ok r w \<Longrightarrow> P (fst (rq_accept r w q))"
    and drop_keeps: "P q \<Longrightarrow> P (q\<lparr>rq_active := jdel r (rq_active q)\<rparr>)"
    and ack_keeps: "P q \<Longrightarrow> qe_id e \<in> V \<Longrightarrow> P (fst (rq_acknowledge e ws q))"
    and known: "P q \<Longrightarrow> (r, x) \<in> set (rq_active q) \<Longrightarrow> r \<in> V"
begin

lemma entries_keep:
  "P (fst st) \<Longrightarrow> qe_id ` set es \<subseteq> V \<Longrightarrow> P (fst (foldl (readEntry rd) st es))"
proof (induction es arbitrary: st)
  case (Cons e es)
  have "P (fst (readEntry rd st e))"
    using Cons.prems accept_keeps [of "fst st" "qe_id e" "entryWord e (the (jget (qr_threads rd) (qe_threadId e))) (qr_workspaceId rd)"]
    by (cases st) (auto simp: readEntry_def word_ok_def entryWord_def split: option.splits prod.splits)
  then show ?case using Cons by simp
qed simp

lemma omissions_keep:
  "P (fst st) \<Longrightarrow> fst ` set kvs \<subseteq> V \<Longrightarrow> P (fst (foldl (readOmission rd listed) st kvs))"
proof (induction kvs arbitrary: st)
  case (Cons kv kvs)
  have "P (fst (readOmission rd listed st kv))"
    using Cons.prems end_keeps [of "fst st" "fst kv"] drop_keeps [of "fst st" "fst kv"]
    by (cases st; cases kv) (auto simp: readOmission_def Let_def split: option.splits prod.splits)
  then show ?case using Cons by simp
qed simp

lemma reconcile_keeps:
  assumes "P q" and "qe_id ` set (qr_runQueue rd) \<subseteq> V"
  shows "P (fst (rq_reconcile rd q))"
proof -
  obtain q1 c l where f: "foldl (readEntry rd) (q, False, []) (qr_runQueue rd) = (q1, c, l)"
    by (cases "foldl (readEntry rd) (q, False, []) (qr_runQueue rd)") auto
  have p1: "P q1" using entries_keep [of "(q, False, [])" "qr_runQueue rd" rd] assms f by simp
  then have "fst ` set (rq_active q1) \<subseteq> V" using known by force
  then show ?thesis using omissions_keep [of "(q1, c)"] p1 f by (simp add: rq_reconcile_def)
qed

lemma record_keeps:
  assumes "P q" and "namedRuns (Record e) \<subseteq> V"
  shows "P (fst (rq_record e q))"
proof -
  have w: "word_ok r (wordOf e s)" for r s by (simp add: word_ok_def wordOf_def)
  show ?thesis
  proof (cases "qv_type e")
    case (QueuedEvent run)
    then have "qe_id run \<in> V" using assms(2) by (simp add: namedRuns_def)
    then show ?thesis
      using QueuedEvent end_keeps [OF assms(1)] accept_keeps [OF assms(1)]
      by (auto simp: rq_record_def toRunQueueEntry_def word_ok_def entryWord_def)
  next
    case (StatusEvent s)
    then show ?thesis
      using assms w end_keeps accept_keeps by (auto simp: rq_record_def namedRuns_def split: option.splits)
  qed (use assms w end_keeps accept_keeps in \<open>auto simp: rq_record_def namedRuns_def split: option.splits\<close>)
qed

lemma step_keeps: "P q \<Longrightarrow> namedRuns c \<subseteq> V \<Longrightarrow> P (queueStep q c)"
  using record_keeps reconcile_keeps ack_keeps
  by (cases c) (auto simp: queueStep_def namedRuns_def)

lemma run_keeps: "P q \<Longrightarrow> \<forall>c \<in> set cs. namedRuns c \<subseteq> V \<Longrightarrow> P (foldl queueStep q cs)"
  by (induction cs arbitrary: q) (auto intro: step_keeps)

end

lemma accept_inv:
  assumes i: "queue_inv q" and w: "word_ok r w"
  shows "queue_inv (fst (rq_accept r w q))"
proof (rule accept_cases [of r w q])
  assume "rq_accept r w q = (q, False)"
  then show ?thesis using i by simp
next
  fix x c
  assume a: "rq_accept r w q = (q\<lparr>rq_active := jset r x (rq_active q)\<rparr>, c)" and n: "r \<notin> set (rq_ended q)"
    and e: "\<And>e. rr_entry x = Some e \<Longrightarrow> qe_status e = rr_status x \<and>
        (\<exists>e'. qe_id e' = qe_id e \<and> (rw_entry w = Some e' \<or> (\<exists>p. jget (rq_active q) r = Some p \<and> rr_entry p = Some e')))"
  have "record_ok r x"
  proof (cases "rr_entry x")
    case (Some e)
    then obtain e' where "qe_id e' = qe_id e" "qe_status e = rr_status x"
        "rw_entry w = Some e' \<or> (\<exists>p. jget (rq_active q) r = Some p \<and> rr_entry p = Some e')" using assms(1) e by blast
    moreover have "qe_id e' = r" if "jget (rq_active q) r = Some p" "rr_entry p = Some e'" for p
    proof -
      have "record_ok r p" using i that(1) by (simp add: queue_inv_def)
      then show ?thesis using that(2) by (simp add: record_ok_def)
    qed
    ultimately show ?thesis using w Some by (auto simp: record_ok_def word_ok_def)
  qed (simp add: record_ok_def)
  then show ?thesis using i n a by (auto simp: queue_inv_def jget_set)
qed

lemma ack_inv: "queue_inv q \<Longrightarrow> queue_inv (fst (rq_acknowledge e ws q))"
  by (auto simp: rq_acknowledge_def queue_inv_def jget_set record_ok_def split: if_splits)

interpretation queues: queue_kept queue_inv UNIV
proof unfold_locales
  show "queue_inv q \<Longrightarrow> queue_inv (q\<lparr>rq_active := jdel r (rq_active q)\<rparr>)" for q r
    by (auto simp: queue_inv_def jget_del)
qed (auto intro: end_inv accept_inv ack_inv)

section \<open>An ended Run stays ended\<close>

definition endedSince :: "ident \<Rightarrow> ident set \<Rightarrow> run_queue \<Rightarrow> bool" where
  "endedSince r V q \<longleftrightarrow> finite V \<and> card (V - {r}) < endedMemory \<and> queue_inv q \<and> fst ` set (rq_active q) \<subseteq> V \<and>
     (\<exists>A B. rq_ended q = A @ r # B \<and> set B \<subseteq> V - {r})"

lemma endedSince_end:
  assumes p: "endedSince r V q" and v: "r' \<in> V"
  shows "endedSince r V (fst (rq_end r' q))"
proof -
  have fin: "finite V" "card (V - {r}) < endedMemory" using p by (auto simp: endedSince_def)
  obtain A B where e: "rq_ended q = A @ r # B" and b: "set B \<subseteq> V - {r}" using p by (auto simp: endedSince_def)
  have i: "queue_inv q" "fst ` set (rq_active q) \<subseteq> V" using p by (auto simp: endedSince_def)
  have d: "distinct (A @ r # B)" using i(1) e by (simp add: queue_inv_def)
  let ?l = "filter (\<lambda>x. x \<noteq> r') (rq_ended q) @ [r']"
  have f: "rq_ended (fst (rq_end r' q)) = (if length ?l > endedMemory then tl ?l else ?l)"
    "rq_active (fst (rq_end r' q)) = jdel r' (rq_active q)" by (simp_all add: rq_end_def Let_def)
  have "\<exists>A B. rq_ended (fst (rq_end r' q)) = A @ r # B \<and> set B \<subseteq> V - {r}"
  proof (cases "r' = r")
    case True
    have "tl ?l = tl (filter (\<lambda>x. x \<noteq> r') (rq_ended q)) @ [r]" if "length ?l > endedMemory"
      using that True by (cases "filter (\<lambda>x. x \<noteq> r') (rq_ended q)") (auto simp: endedMemory_def)
    then show ?thesis unfolding f(1) using True by (intro exI [of _ "if length ?l > endedMemory then _ else _"] exI [of _ "[]"]) auto
  next
    case False
    let ?A = "filter (\<lambda>x. x \<noteq> r') A" and ?B = "filter (\<lambda>x. x \<noteq> r') B @ [r']"
    have l: "?l = ?A @ r # ?B" using e False by simp
    have bv: "set ?B \<subseteq> V - {r}" using b v False by auto
    have "distinct ?B" using d by auto
    then have "length ?B \<le> card (V - {r})" using bv fin(1) by (metis card_mono distinct_card finite_Diff)
    then have short: "length (r # ?B) \<le> endedMemory" using fin(2) by simp
    have "tl ?l = tl ?A @ r # ?B" if "length ?l > endedMemory"
      using that short unfolding l by (cases ?A) auto
    then show ?thesis unfolding f(1) using l bv by (metis (no_types, lifting))
  qed
  then show ?thesis using fin end_inv [OF i(1), of r'] i(2) f(2) by (auto simp: endedSince_def jdel_keys)
qed

lemma endedSince_accept:
  assumes "endedSince r V q" and "r' \<in> V" and "word_ok r' w"
  shows "endedSince r V (fst (rq_accept r' w q))"
proof -
  have "queue_inv (fst (rq_accept r' w q))" using accept_inv assms(1,3) by (simp add: endedSince_def)
  then show ?thesis using assms(1,2)
    by (cases rule: accept_cases [of r' w q]) (auto simp: endedSince_def jset_keys)
qed

interpretation never_back: queue_kept "endedSince r V" V for r V
proof unfold_locales
  show "endedSince r V q \<Longrightarrow> endedSince r V (q\<lparr>rq_active := jdel r' (rq_active q)\<rparr>)" for q r'
    using queues.drop_keeps [of q r'] by (auto simp: endedSince_def jdel_keys)
  show "endedSince r V q \<Longrightarrow> qe_id e \<in> V \<Longrightarrow> endedSince r V (fst (rq_acknowledge e ws q))" for q e ws
    using ack_inv [of q e ws] by (auto simp: endedSince_def rq_acknowledge_def jset_keys)
  show "endedSince r V q \<Longrightarrow> (r', x) \<in> set (rq_active q) \<Longrightarrow> r' \<in> V" for q r' x
    by (force simp: endedSince_def)
qed (auto intro: endedSince_end endedSince_accept)

section \<open>The newest word wins\<close>

definition acceptAll :: "ident \<Rightarrow> run_word list \<Rightarrow> run_queue \<Rightarrow> run_queue" where
  "acceptAll r ws q = foldl (\<lambda>q w. fst (rq_accept r w q)) q ws"

text \<open>A Run's record is what its newest word says.\<close>

definition saysNewest :: "run_word list \<Rightarrow> run_record \<Rightarrow> bool" where
  "saysNewest ws x \<longleftrightarrow>
     (\<exists>w \<in> set ws. (\<forall>v \<in> set ws. rw_sequence v \<le> rw_sequence w) \<and>
        rr_sequence x = Some (rw_sequence w) \<and> rr_status x = rw_status w) \<and>
     (rr_entry x = None \<longleftrightarrow> (\<forall>v \<in> set ws. rw_entry v = None))"

lemma accept_first:
  assumes "r \<notin> set (rq_ended q)" and "jget (rq_active q) r = None" and "wordThread w \<noteq> None"
  shows "\<exists>x. jget (rq_active (fst (rq_accept r w q))) r = Some x \<and> saysNewest [w] x"
  using assms by (auto simp: rq_accept_def Let_def newerWord_def jget_set saysNewest_def split: option.splits)

lemma accept_next:
  assumes "r \<notin> set (rq_ended q)" and "jget (rq_active q) r = Some x" and "saysNewest ws x" and "wordThread w \<noteq> None"
  shows "\<exists>y. jget (rq_active (fst (rq_accept r w q))) r = Some y \<and> saysNewest (ws @ [w]) y"
proof -
  obtain m where m: "m \<in> set ws" "\<forall>v \<in> set ws. rw_sequence v \<le> rw_sequence m" "rr_sequence x = Some (rw_sequence m)"
      "rr_status x = rw_status m" and e: "rr_entry x = None \<longleftrightarrow> (\<forall>v \<in> set ws. rw_entry v = None)"
    using assms(3) by (auto simp: saysNewest_def)
  obtain t where t: "wordThread w = Some t" using assms(4) by auto
  let ?shape = "case rw_entry w of Some e \<Rightarrow> Some e | None \<Rightarrow> rr_entry x"
  show ?thesis
  proof (cases "rw_sequence m < rw_sequence w")
    case True
    then have "\<exists>y. jget (rq_active (fst (rq_accept r w q))) r = Some y \<and> rr_sequence y = Some (rw_sequence w) \<and>
        rr_status y = rw_status w \<and> (rr_entry y = None \<longleftrightarrow> ?shape = None)"
      using assms(1,2) t m(3) True
      by (cases "rr_entry x"; cases "rw_entry w") (simp_all add: rq_accept_def Let_def newerWord_def jget_set)
    moreover have "?shape = None \<longleftrightarrow> (\<forall>v \<in> set (ws @ [w]). rw_entry v = None)" using e by (auto split: option.splits)
    moreover have "\<forall>v \<in> set (ws @ [w]). rw_sequence v \<le> rw_sequence w" using m(2) True by auto
    ultimately show ?thesis unfolding saysNewest_def by (metis in_set_conv_decomp)
  next
    case False
    have "\<exists>y. jget (rq_active (fst (rq_accept r w q))) r = Some y \<and> rr_sequence y = Some (rw_sequence m) \<and>
        rr_status y = rw_status m \<and> (rr_entry y = None \<longleftrightarrow> ?shape = None)"
      using assms(1,2) t m(3,4) False
      by (cases "rr_entry x"; cases "rw_entry w") (auto simp: rq_accept_def Let_def newerWord_def jget_set)
    moreover have "?shape = None \<longleftrightarrow> (\<forall>v \<in> set (ws @ [w]). rw_entry v = None)" using e by (auto split: option.splits)
    moreover have "\<forall>v \<in> set (ws @ [w]). rw_sequence v \<le> rw_sequence m" "m \<in> set (ws @ [w])" using m(1,2) False by auto
    ultimately show ?thesis unfolding saysNewest_def by metis
  qed
qed

lemma accept_ended: "rq_ended (fst (rq_accept r w q)) = rq_ended q"
  by (cases rule: accept_cases [of r w q]) auto

section \<open>Properties\<close>

text \<open>The newest word wins: in whatever order the words about a Run arrive, its record carries the sequence and
status of one no other word is newer than, and names the Run's entry as soon as any word has.\<close>

theorem newest_word_wins:
  assumes "r \<notin> set (rq_ended q)" and "jget (rq_active q) r = None" and "ws \<noteq> []"
    and "list_all (\<lambda>w. wordThread w \<noteq> None) ws"
  shows "\<exists>x. jget (rq_active (acceptAll r ws q)) r = Some x \<and> saysNewest ws x"
  using assms(3,4)
proof (induction ws rule: rev_nonempty_induct)
  case (single w)
  then show ?case using accept_first [OF assms(1,2), of w] by (simp add: acceptAll_def)
next
  case (snoc w ws)
  then obtain x where x: "jget (rq_active (acceptAll r ws q)) r = Some x" "saysNewest ws x" by auto
  have "rq_ended (acceptAll r ws q) = rq_ended q"
    by (induction ws rule: rev_induct) (simp_all add: acceptAll_def accept_ended)
  then show ?case using accept_next [OF _ x, of w] assms(1) snoc.prems by (simp add: acceptAll_def)
qed

definition word_ex :: "sequence \<Rightarrow> run_status \<Rightarrow> run_word" where
  "word_ex n s = \<lparr>rw_entry = None, rw_sequence = n, rw_status = s, rw_threadId = Some ''t'', rw_workspaceId = ''w''\<rparr>"

theorem newest_word_wins_witness:
  "\<exists>x. jget (rq_active (acceptAll ''r'' [word_ex 7 Waiting, word_ex 5 Running] emptyQueue)) ''r'' = Some x \<and>
     saysNewest [word_ex 7 Waiting, word_ex 5 Running] x \<and> rr_status x = Waiting"
proof -
  let ?ws = "[word_ex 7 Waiting, word_ex 5 Running]"
  have "\<exists>x. jget (rq_active (acceptAll ''r'' ?ws emptyQueue)) ''r'' = Some x \<and> saysNewest ?ws x"
    by (rule newest_word_wins) (simp_all add: emptyQueue_def word_ex_def wordThread_def)
  then show ?thesis by (auto simp: saysNewest_def word_ex_def)
qed

text \<open>C25: An ended Run stays ended: after a Run has ended, no event, read or answer, however late, shows it again
until it has been followed by as many other Runs as the client remembers.\<close>

theorem ended_stays_ended:
  assumes "queue_inv q" and "finite V" and "card (V - {r}) < endedMemory"
    and "fst ` set (rq_active q) \<subseteq> V" and "r \<in> V" and "\<forall>c \<in> set cs. namedRuns c \<subseteq> V"
  shows "list_all (\<lambda>e. qe_id e \<noteq> r) (rq_entries collate (foldl queueStep (fst (rq_end r q)) cs))"
proof -
  let ?q = "fst (rq_end r q)"
  have a: "rq_active ?q = jdel r (rq_active q)" by (simp add: rq_end_def Let_def)
  have "\<exists>A B. rq_ended ?q = A @ r # B \<and> set B \<subseteq> V - {r}"
  proof -
    let ?f = "filter (\<lambda>x. x \<noteq> r) (rq_ended q)"
    have "\<exists>A. tl (?f @ [r]) = A @ [r]" if "endedMemory < length (?f @ [r])"
      using that by (cases ?f) (auto simp: endedMemory_def)
    then have "\<exists>A. rq_ended ?q = A @ [r]" by (auto simp: rq_end_def Let_def)
    then show ?thesis by (metis empty_set empty_subsetI)
  qed
  then have "endedSince r V ?q" using assms a end_inv [OF assms(1)] by (auto simp: endedSince_def jdel_keys)
  then have k: "endedSince r V (foldl queueStep ?q cs)" using assms(6) by (rule never_back.run_keeps)
  let ?p = "foldl queueStep ?q cs"
  have i: "queue_inv ?p" "r \<in> set (rq_ended ?p)" using k by (auto simp: endedSince_def)
  have "qe_id e \<noteq> r" if "(r', x) \<in> set (rq_active ?p)" "rr_entry x = Some e" for r' x e
  proof -
    have g: "jget (rq_active ?p) r' = Some x" using i(1) that(1) by (simp add: queue_inv_def jget_mem)
    then have "qe_id e = r'" using i(1) that(2) by (auto simp: queue_inv_def record_ok_def split: option.splits)
    moreover have "r' \<noteq> r" using i g by (auto simp: queue_inv_def)
    ultimately show ?thesis by simp
  qed
  then show ?thesis by (auto simp: rq_entries_def list_all_iff List.map_filter_def) blast
qed

definition run_ex :: "nat \<Rightarrow> run_status \<Rightarrow> queue_event" where
  "run_ex n s = \<lparr>qv_type = QueuedEvent \<lparr>qe_createdAt = [], qe_id = ''r'', qe_status = s, qe_threadId = ''t'', qe_runOrdinal = 1\<rparr>,
     qv_runId = Some ''r'', qv_sequence = n, qv_threadId = ''t'', qv_workspaceId = ''w''\<rparr>"

theorem ended_stays_ended_witness:
  "rq_entries (\<lambda>t. length t) (foldl queueStep (fst (rq_end ''r'' emptyQueue)) [Record (run_ex 9 Running)]) = []"
proof -
  have "list_all (\<lambda>e. qe_id e \<noteq> ''r'') (rq_entries (\<lambda>t. length t)
      (foldl queueStep (fst (rq_end ''r'' emptyQueue)) [Record (run_ex 9 Running)]))"
    by (rule ended_stays_ended [where V = "{''r''}"])
       (simp_all add: emptyQueue_def queue_inv_def endedMemory_def namedRuns_def run_ex_def)
  then show ?thesis by (cases "rq_entries (\<lambda>t. length t) (foldl queueStep (fst (rq_end ''r'' emptyQueue)) [Record (run_ex 9 Running)])")
    (simp_all, code_simp)
qed

end
