(* ===== verification/Thread_States.thy ===== *)
theory Thread_States
  imports Core_Events "HOL-Library.List_Lexorder"
begin

text \<open>
  The Thread states of a client (packages/client/src/host/thread-state.ts). Each source is an absolute
  state of a Thread at its Workspace's sequence; the newest one wins. States of Threads that are not
  loaded are remembered up to a limit, and a floor per Workspace covers what was forgotten. A field
  that may be \<open>undefined\<close> is an option; a nullable one an option within it. Time stamps are strings
  compared unit by unit.
\<close>

record thread_summary =
  th_id :: ident
  th_workspaceId :: ident
  th_status :: ident
  th_inputQueuePaused :: bool
  th_pendingRequests :: nat
  th_updatedAt :: utf16
  th_doneAt :: "utf16 option option"
  th_doneReason :: "ident option option"
  th_title :: utf16
  th_icon :: "ident option option"

record thread_state =
  ts_workspaceId :: ident
  ts_status :: ident
  ts_inputQueuePaused :: bool
  ts_pendingRequests :: nat
  ts_updatedAt :: utf16
  ts_doneAt :: "utf16 option option"
  ts_doneReason :: "ident option option"
  ts_title :: "utf16 option"
  ts_icon :: "ident option option"
  ts_stateSequence :: sequence

record thread_states =
  tp_loaded :: "(ident, thread_state) jsmap"
  tp_unloaded :: "(ident, thread_state) jsmap"
  tp_coverageFloor :: "(ident, sequence) jsmap"


section \<open>Operations\<close>


definition emptyStates :: thread_states where
  "emptyStates = \<lparr>tp_loaded = [], tp_unloaded = [], tp_coverageFloor = []\<rparr>"

definition tp_cover :: "ident \<Rightarrow> sequence \<Rightarrow> thread_states \<Rightarrow> thread_states" where
  "tp_cover workspaceId seq p =
     (case jget (tp_coverageFloor p) workspaceId of
        Some previous \<Rightarrow>
          if compareSequence seq previous > 0
          then p\<lparr>tp_coverageFloor := jset workspaceId seq (tp_coverageFloor p)\<rparr> else p
      | None \<Rightarrow> p\<lparr>tp_coverageFloor := jset workspaceId seq (tp_coverageFloor p)\<rparr>)"



text \<open>The state held of a Thread: \<open>loaded.get(id) ?? unloaded.get(id)\<close>.\<close>

definition heldState :: "thread_states \<Rightarrow> ident \<Rightarrow> thread_state option" where
  "heldState p i = (case jget (tp_loaded p) i of Some s \<Rightarrow> Some s | None \<Rightarrow> jget (tp_unloaded p) i)"

definition mergeState :: "thread_state option \<Rightarrow> thread_state \<Rightarrow> thread_state" where
  "mergeState previous incoming =
     \<lparr>ts_workspaceId = ts_workspaceId incoming, ts_status = ts_status incoming,
      ts_inputQueuePaused = ts_inputQueuePaused incoming, ts_pendingRequests = ts_pendingRequests incoming,
      ts_updatedAt = (case previous of
          Some p \<Rightarrow> if ts_updatedAt p > ts_updatedAt incoming then ts_updatedAt p else ts_updatedAt incoming
        | None \<Rightarrow> ts_updatedAt incoming),
      ts_doneAt = (if ts_doneAt incoming = None then Option.bind previous ts_doneAt else ts_doneAt incoming),
      ts_doneReason = (if ts_doneAt incoming = None then Option.bind previous ts_doneReason
        else (case ts_doneReason incoming of None \<Rightarrow> Some None | Some r \<Rightarrow> Some r)),
      ts_title = (case ts_title incoming of Some t \<Rightarrow> Some t | None \<Rightarrow> Option.bind previous ts_title),
      ts_icon = (if ts_icon incoming = None then Option.bind previous ts_icon else ts_icon incoming),
      ts_stateSequence = ts_stateSequence incoming\<rparr>"






record thread_name =
  nm_doneAt :: "utf16 option option"
  nm_doneReason :: "ident option option"
  nm_title :: utf16
  nm_icon :: "ident option option"

definition tp_name :: "thread_summary \<Rightarrow> thread_states \<Rightarrow> thread_name" where
  "tp_name thread p =
     (let state = heldState p (th_id thread)
      in \<lparr>nm_doneAt = (case Option.bind state ts_doneAt of None \<Rightarrow> th_doneAt thread | Some d \<Rightarrow> Some d),
          nm_doneReason = (case Option.bind state ts_doneAt of
              None \<Rightarrow> th_doneReason thread
            | Some _ \<Rightarrow> (case Option.bind state ts_doneReason of None \<Rightarrow> Some None | Some r \<Rightarrow> Some r)),
          nm_title = (case Option.bind state ts_title of None \<Rightarrow> th_title thread | Some t \<Rightarrow> t),
          nm_icon = (case Option.bind state ts_icon of None \<Rightarrow> th_icon thread | Some i \<Rightarrow> Some i)\<rparr>)"




definition tp_clear :: "thread_states \<Rightarrow> thread_states" where
  "tp_clear p = emptyStates"



section \<open>Invariant\<close>



lemma cover_other [simp]:
  "tp_loaded (tp_cover w n p) = tp_loaded p" "tp_unloaded (tp_cover w n p) = tp_unloaded p"
  by (simp_all add: tp_cover_def split: option.splits)










lemma merge_fields [simp]:
  "ts_workspaceId (mergeState prev s) = ts_workspaceId s" "ts_stateSequence (mergeState prev s) = ts_stateSequence s"
  by (simp_all add: mergeState_def)



















section \<open>Properties\<close>




end
