(* ===== verification/Command_Patches.thy ===== *)
theory Command_Patches
  imports Run_Queue Thread_States
begin

text \<open>
  What a client draws of a command's answer before the Host's events arrive
  (packages/client/src/host/optimistic-command-patches.ts, with \<open>upsertEntry\<close> and
  \<open>isTerminalRunEntryStatus\<close> of transcript.ts). Records carry the fields the patches read; what they
  only move is one field. The locale's order of strings is a key into a linear order, as in Run_Queue.
\<close>

section \<open>Snapshot\<close>

text \<open>Optional properties of a harness: those present, with their values (\<open>None\<close> is \<open>undefined\<close>).\<close>

record harness =
  hs_id :: ident
  hs_driverKind :: ident
  hs_environmentId :: ident
  hs_enabled :: bool
  hs_isDefault :: bool
  hs_name :: utf16
  hs_optional :: "(string, ident option) jsmap"

record browser_profile = bp_id :: ident bp_name :: utf16
record profile_grant = pg_id :: ident pg_profileId :: ident pg_workspaceId :: ident pg_readWrite :: bool
record profile_deletion = pd_profileId :: ident pd_computerId :: ident pd_pendingRestart :: bool
record browser_session = bs_id :: ident bs_state :: ident bs_workspaceId :: ident
record workspace_summary = wk_id :: ident wk_name :: utf16 wk_content :: ident
record workspace_window = ww_itemCount :: nat ww_totalItems :: nat

datatype entry_kind =
    RunKind ident run_status bool   \<comment> \<open>Run, status, stopping\<close>
  | WithdrawnKind utf16             \<comment> \<open>when\<close>
  | MessageKind ident
  | OtherKind ident

record transcript_entry =
  te_id :: ident
  te_kind :: entry_kind

record host_request = hr_id :: ident hr_originatingThreadId :: ident

record queue_item = qi_messageId :: ident qi_content :: ident
record input_queue = iq_paused :: bool iq_items :: "queue_item list"

record task_entry = tk_thread :: thread_summary tk_rest :: ident
record task_list_state = tl_entries :: "task_entry list" tl_rest :: ident
record worker_thread = wt_id :: ident wt_title :: utf16 wt_icon :: "ident option option" wt_rest :: ident
record assignment = as_workerThread :: worker_thread as_rest :: ident

record host_snapshot =
  sn_harnesses :: "harness list"
  sn_browserProfiles :: "browser_profile list"
  sn_browserProfileGrants :: "profile_grant list"
  sn_browserProfileDeletions :: "profile_deletion list option"
  sn_browserSessions :: "browser_session list"
  sn_workspaces :: "workspace_summary list"
  sn_workspaceWindow :: workspace_window
  sn_threads :: "thread_summary list"
  sn_transcripts :: "(ident, transcript_entry list) jsmap"
  sn_requests :: "(ident, host_request list) jsmap"
  sn_waitingRequests :: "host_request list"
  sn_runQueue :: "queue_entry list"
  sn_inputQueues :: "(ident, input_queue) jsmap"
  sn_sharedTaskDoneAvailable :: bool
  sn_tasks :: "task_list_state option"
  sn_activeTasks :: "task_entry list"
  sn_workspaceTasks :: "(ident, task_list_state) jsmap"
  sn_assignments :: "(ident, assignment) jsmap"

section \<open>Transcript\<close>

definition isTerminalRunEntryStatus :: "run_status \<Rightarrow> bool" where
  "isTerminalRunEntryStatus s \<longleftrightarrow> s = Completed \<or> s = Failed \<or> s = Interrupted"

fun upsertEntry :: "transcript_entry list \<Rightarrow> transcript_entry \<Rightarrow> transcript_entry list" where
  "upsertEntry [] entry = [entry]"
| "upsertEntry (e # es) entry = (if te_id e = te_id entry then entry # es else e # upsertEntry es entry)"

section \<open>Harnesses\<close>

text \<open>\<open>{ ...candidate, ...harness }\<close>\<close>

definition spreadHarness :: "harness \<Rightarrow> harness \<Rightarrow> harness" where
  "spreadHarness candidate h = h\<lparr>hs_optional := foldl (\<lambda>m (k, v). jset k v m) (hs_optional candidate) (hs_optional h)\<rparr>"

definition replaceHarnesses :: "harness \<Rightarrow> harness list \<Rightarrow> harness list" where
  "replaceHarnesses h hs = map (\<lambda>c. if hs_id c = hs_id h then spreadHarness c h else c) hs"

definition sameGroup :: "ident \<Rightarrow> ident \<Rightarrow> harness \<Rightarrow> bool" where
  "sameGroup environmentId driverKind c \<longleftrightarrow> hs_environmentId c = environmentId \<and> hs_driverKind c = driverKind"

definition chosenDefault :: "harness list \<Rightarrow> ident option \<Rightarrow> harness option" where
  "chosenDefault grp preferredId =
     (case List.find (\<lambda>c. hs_enabled c \<and> Some (hs_id c) = preferredId) grp of
        Some c \<Rightarrow> Some c
      | None \<Rightarrow>
          (case List.find (\<lambda>c. hs_enabled c \<and> hs_isDefault c) grp of
             Some c \<Rightarrow> Some c
           | None \<Rightarrow> List.find hs_enabled grp))"

definition normalizeHarnessDefaults :: "harness list \<Rightarrow> ident \<Rightarrow> ident \<Rightarrow> ident option \<Rightarrow> harness list" where
  "normalizeHarnessDefaults hs environmentId driverKind preferredId =
     (let chosen = chosenDefault (filter (sameGroup environmentId driverKind) hs) preferredId
      in map (\<lambda>c. if \<not> sameGroup environmentId driverKind c then c
           else let isDefault = (map_option hs_id chosen = Some (hs_id c))
                in if hs_isDefault c = isDefault then c else c\<lparr>hs_isDefault := isDefault\<rparr>) hs)"

definition replaceHarness :: "harness \<Rightarrow> host_snapshot \<Rightarrow> host_snapshot" where
  "replaceHarness h s = s\<lparr>sn_harnesses := replaceHarnesses h (sn_harnesses s)\<rparr>"

definition replaceHarnessAndNormalizeDefaults :: "harness \<Rightarrow> host_snapshot \<Rightarrow> host_snapshot" where
  "replaceHarnessAndNormalizeDefaults h s =
     s\<lparr>sn_harnesses := normalizeHarnessDefaults (replaceHarnesses h (sn_harnesses s)) (hs_environmentId h) (hs_driverKind h)
        (if hs_enabled h \<and> hs_isDefault h then Some (hs_id h) else None)\<rparr>"

definition deleteHarness :: "ident \<Rightarrow> host_snapshot \<Rightarrow> host_snapshot" where
  "deleteHarness harnessInstanceId s =
     (let remaining = filter (\<lambda>h. hs_id h \<noteq> harnessInstanceId) (sn_harnesses s)
      in s\<lparr>sn_harnesses :=
           (case List.find (\<lambda>h. hs_id h = harnessInstanceId) (sn_harnesses s) of
              Some removed \<Rightarrow> normalizeHarnessDefaults remaining (hs_environmentId removed) (hs_driverKind removed) None
            | None \<Rightarrow> remaining)\<rparr>)"

definition setDefaultHarness :: "harness \<Rightarrow> host_snapshot \<Rightarrow> host_snapshot" where
  "setDefaultHarness h s =
     s\<lparr>sn_harnesses := map (\<lambda>c.
        if hs_id c = hs_id h then spreadHarness c h
        else if \<not> sameGroup (hs_environmentId h) (hs_driverKind h) c then c
        else if hs_isDefault c then c\<lparr>hs_isDefault := False\<rparr> else c) (sn_harnesses s)\<rparr>"

section \<open>Requests, profiles, sessions and workspaces\<close>

definition resolveRequest :: "ident \<Rightarrow> host_snapshot \<Rightarrow> host_snapshot" where
  "resolveRequest requestId s =
     (let waiting = filter (\<lambda>r. hr_id r \<noteq> requestId) (sn_waitingRequests s)
      in case List.find (\<lambda>r. hr_id r = requestId) (concat (jvalues (sn_requests s))) of
           None \<Rightarrow> s\<lparr>sn_waitingRequests := waiting\<rparr>
         | Some request \<Rightarrow>
             let threadId = hr_originatingThreadId request;
                 held = (case jget (sn_requests s) threadId of None \<Rightarrow> [] | Some rs \<Rightarrow> rs)
             in s\<lparr>sn_waitingRequests := waiting,
                  sn_requests := jset threadId (filter (\<lambda>r. hr_id r \<noteq> requestId) held) (sn_requests s)\<rparr>)"

definition upsertBrowserProfile :: "browser_profile \<Rightarrow> host_snapshot \<Rightarrow> host_snapshot" where
  "upsertBrowserProfile p s =
     s\<lparr>sn_browserProfiles := p # filter (\<lambda>e. bp_id e \<noteq> bp_id p) (sn_browserProfiles s)\<rparr>"

definition grantProfile :: "profile_grant \<Rightarrow> host_snapshot \<Rightarrow> host_snapshot" where
  "grantProfile g s =
     s\<lparr>sn_browserProfileGrants := g # filter (\<lambda>e. pg_id e \<noteq> pg_id g) (sn_browserProfileGrants s)\<rparr>"

definition revokeProfileGrant :: "ident \<Rightarrow> host_snapshot \<Rightarrow> host_snapshot" where
  "revokeProfileGrant grantId s =
     s\<lparr>sn_browserProfileGrants := filter (\<lambda>g. pg_id g \<noteq> grantId) (sn_browserProfileGrants s)\<rparr>"

definition renameProfile :: "browser_profile \<Rightarrow> host_snapshot \<Rightarrow> host_snapshot" where
  "renameProfile p s =
     s\<lparr>sn_browserProfiles := map (\<lambda>e. if bp_id e = bp_id p then p else e) (sn_browserProfiles s)\<rparr>"

definition deleteProfile :: "ident \<Rightarrow> profile_deletion option \<Rightarrow> host_snapshot \<Rightarrow> host_snapshot" where
  "deleteProfile profileId deletion s =
     s\<lparr>sn_browserProfiles := filter (\<lambda>p. bp_id p \<noteq> profileId) (sn_browserProfiles s),
       sn_browserProfileDeletions := (case deletion of
           Some d \<Rightarrow> Some (filter (\<lambda>i. pd_profileId i \<noteq> profileId)
             (case sn_browserProfileDeletions s of None \<Rightarrow> [] | Some ds \<Rightarrow> ds) @ [d])
         | None \<Rightarrow> map_option (filter (\<lambda>i. pd_profileId i \<noteq> profileId)) (sn_browserProfileDeletions s)),
       sn_browserProfileGrants := filter (\<lambda>g. pg_profileId g \<noteq> profileId) (sn_browserProfileGrants s)\<rparr>"

definition closeSession :: "ident \<Rightarrow> host_snapshot \<Rightarrow> host_snapshot" where
  "closeSession sessionId s =
     s\<lparr>sn_browserSessions := map (\<lambda>e. if bs_id e = sessionId then e\<lparr>bs_state := ''closed''\<rparr> else e) (sn_browserSessions s)\<rparr>"

definition startSession :: "browser_session \<Rightarrow> host_snapshot \<Rightarrow> host_snapshot" where
  "startSession session s =
     s\<lparr>sn_browserSessions := session # filter (\<lambda>e. bs_id e \<noteq> bs_id session) (sn_browserSessions s)\<rparr>"

definition createWorkspace :: "workspace_summary \<Rightarrow> host_snapshot \<Rightarrow> host_snapshot" where
  "createWorkspace w s =
     s\<lparr>sn_workspaces := w # filter (\<lambda>c. wk_id c \<noteq> wk_id w) (sn_workspaces s),
       sn_workspaceWindow := \<lparr>ww_itemCount = ww_itemCount (sn_workspaceWindow s) + 1,
                              ww_totalItems = ww_totalItems (sn_workspaceWindow s) + 1\<rparr>\<rparr>"

definition replaceWorkspace :: "workspace_summary \<Rightarrow> host_snapshot \<Rightarrow> host_snapshot" where
  "replaceWorkspace w s = s\<lparr>sn_workspaces := map (\<lambda>c. if wk_id c = wk_id w then w else c) (sn_workspaces s)\<rparr>"

section \<open>Threads\<close>

definition replaceThread :: "thread_summary \<Rightarrow> host_snapshot \<Rightarrow> host_snapshot" where
  "replaceThread t s =
     s\<lparr>sn_threads := map (\<lambda>c. if th_id c = th_id t
          then t\<lparr>th_updatedAt := if th_updatedAt t > th_updatedAt c then th_updatedAt t else th_updatedAt c\<rparr>
          else c) (sn_threads s)\<rparr>"

definition sharedDone :: "thread_summary \<Rightarrow> host_snapshot \<Rightarrow> host_snapshot" where
  "sharedDone t s = (if sn_sharedTaskDoneAvailable s then replaceThread t s else s)"

definition createThread :: "thread_summary \<Rightarrow> host_snapshot \<Rightarrow> host_snapshot" where
  "createThread t s =
     (if list_ex (\<lambda>c. th_id c = th_id t) (sn_threads s) then replaceThread t s
      else s\<lparr>sn_threads := t # sn_threads s,
             sn_transcripts := jset (th_id t)
               (case jget (sn_transcripts s) (th_id t) of None \<Rightarrow> [] | Some es \<Rightarrow> es) (sn_transcripts s)\<rparr>)"

definition interruptEntry :: "ident \<Rightarrow> transcript_entry \<Rightarrow> transcript_entry" where
  "interruptEntry runId e = (case te_kind e of
     RunKind r status stopping \<Rightarrow>
       if r = runId \<and> \<not> isTerminalRunEntryStatus status then e\<lparr>te_kind := RunKind r status True\<rparr> else e
   | _ \<Rightarrow> e)"

definition interruptRun :: "ident \<Rightarrow> ident \<Rightarrow> host_snapshot \<Rightarrow> host_snapshot" where
  "interruptRun runId threadId s =
     s\<lparr>sn_transcripts := jset threadId
        (map (interruptEntry runId)
          (case jget (sn_transcripts s) threadId of None \<Rightarrow> [] | Some es \<Rightarrow> es)) (sn_transcripts s)\<rparr>"

definition appendQueuedInput :: "ident \<Rightarrow> queue_item option \<Rightarrow> (ident, input_queue) jsmap \<Rightarrow> (ident, input_queue) jsmap" where
  "appendQueuedInput threadId item inputQueues =
     (case (jget inputQueues threadId, item) of
        (Some q, Some i) \<Rightarrow>
          if list_ex (\<lambda>e. qi_messageId e = qi_messageId i) (iq_items q) then inputQueues
          else jset threadId (q\<lparr>iq_items := iq_items q @ [i]\<rparr>) inputQueues
      | _ \<Rightarrow> inputQueues)"

definition dropQueuedInput :: "ident \<Rightarrow> ident \<Rightarrow> host_snapshot \<Rightarrow> host_snapshot" where
  "dropQueuedInput messageId threadId s =
     (case jget (sn_inputQueues s) threadId of
        None \<Rightarrow> s
      | Some q \<Rightarrow>
          if \<not> list_ex (\<lambda>i. qi_messageId i = messageId) (iq_items q) then s
          else s\<lparr>sn_inputQueues := jset threadId
                 (q\<lparr>iq_items := filter (\<lambda>i. qi_messageId i \<noteq> messageId) (iq_items q)\<rparr>) (sn_inputQueues s)\<rparr>)"

definition withdrawQueuedInput :: "ident \<Rightarrow> ident \<Rightarrow> utf16 \<Rightarrow> host_snapshot \<Rightarrow> host_snapshot" where
  "withdrawQueuedInput messageId threadId withdrawnAt s =
     (let dropped = dropQueuedInput messageId threadId s
      in case jget (sn_transcripts dropped) threadId of
           None \<Rightarrow> dropped
         | Some transcript \<Rightarrow>
             if \<not> list_ex (\<lambda>e. te_id e = messageId) transcript then dropped
             else dropped\<lparr>sn_transcripts := jset threadId
                    (upsertEntry transcript \<lparr>te_id = messageId, te_kind = WithdrawnKind withdrawnAt\<rparr>)
                    (sn_transcripts dropped)\<rparr>)"

definition upsertRunQueueEntry :: "(ident \<Rightarrow> 'k :: linorder) \<Rightarrow> queue_entry list \<Rightarrow> queue_entry \<Rightarrow> queue_entry list" where
  "upsertRunQueueEntry collate q entry =
     sort_key (\<lambda>e. (collate (qe_threadId e), qe_runOrdinal e)) (filter (\<lambda>r. qe_id r \<noteq> qe_id entry) q @ [entry])"

record sent_message =
  sm_acceptedRunCreatedAt :: "utf16 option"
  sm_message :: "transcript_entry option"
  sm_queueItem :: "queue_item option"
  sm_run :: "queue_entry option"
  sm_threadId :: ident

definition patchSentMessage :: "(ident \<Rightarrow> 'k :: linorder) \<Rightarrow> (utf16 \<Rightarrow> 'l :: linorder) \<Rightarrow> sent_message
    \<Rightarrow> host_snapshot \<Rightarrow> host_snapshot" where
  "patchSentMessage collate collateTime patch s =
     (let transcript = (case jget (sn_transcripts s) (sm_threadId patch) of None \<Rightarrow> [] | Some es \<Rightarrow> es);
          nextTranscript = (case sm_message patch of
              Some m \<Rightarrow> if list_ex (\<lambda>e. te_id e = te_id m) transcript then transcript else transcript @ [m]
            | None \<Rightarrow> transcript);
          existingRun = (case sm_run patch of
              Some r \<Rightarrow> List.find (\<lambda>e. te_id e = ''run:'' @ qe_id r) nextTranscript | None \<Rightarrow> None);
          terminalRunProjected = (case map_option te_kind existingRun of
              Some (RunKind _ status _) \<Rightarrow> isTerminalRunEntryStatus status | _ \<Rightarrow> False);
          runAlreadyProjected = (case sm_run patch of
              Some r \<Rightarrow> list_ex (\<lambda>e. qe_id e = qe_id r) (sn_runQueue s) | None \<Rightarrow> False);
          addsRun = (sm_run patch \<noteq> None \<and> \<not> terminalRunProjected \<and> \<not> runAlreadyProjected)
      in s\<lparr>sn_inputQueues := appendQueuedInput (sm_threadId patch) (sm_queueItem patch) (sn_inputQueues s),
           sn_runQueue := (case sm_run patch of
               Some r \<Rightarrow> if addsRun then upsertRunQueueEntry collate (sn_runQueue s) r else sn_runQueue s
             | None \<Rightarrow> sn_runQueue s),
           sn_threads := (if addsRun \<and> list_ex (\<lambda>t. th_id t = sm_threadId patch) (sn_threads s)
             then map (\<lambda>t. if th_id t = sm_threadId patch
                 then t\<lparr>th_updatedAt := (case sm_acceptedRunCreatedAt patch of
                     Some c \<Rightarrow> if c \<noteq> [] \<and> collateTime (th_updatedAt t) < collateTime c then c else th_updatedAt t
                   | None \<Rightarrow> th_updatedAt t)\<rparr>
                 else t) (sn_threads s)
             else sn_threads s),
           sn_transcripts := jset (sm_threadId patch) nextTranscript (sn_transcripts s)\<rparr>)"

section \<open>Names\<close>

definition threadNamed :: "(thread_summary \<Rightarrow> thread_name) \<Rightarrow> thread_summary \<Rightarrow> thread_summary" where
  "threadNamed nameOf thread =
     (let name = nameOf thread
      in if nm_title name = th_title thread \<and> nm_icon name = th_icon thread \<and>
            (nm_doneAt name = None \<or> nm_doneAt name = th_doneAt thread) then thread
         else thread\<lparr>th_doneAt := nm_doneAt name, th_doneReason := nm_doneReason name, th_title := nm_title name,
                     th_icon := nm_icon name\<rparr>)"

definition namedEntries :: "(thread_summary \<Rightarrow> thread_name) \<Rightarrow> task_entry list \<Rightarrow> task_entry list" where
  "namedEntries nameOf es = map (\<lambda>e. e\<lparr>tk_thread := threadNamed nameOf (tk_thread e)\<rparr>) es"

definition namedList :: "(thread_summary \<Rightarrow> thread_name) \<Rightarrow> task_list_state \<Rightarrow> task_list_state" where
  "namedList nameOf l = l\<lparr>tl_entries := namedEntries nameOf (tl_entries l)\<rparr>"

definition namedAssignment :: "thread_summary list \<Rightarrow> assignment \<Rightarrow> assignment" where
  "namedAssignment threads a =
     (let w = as_workerThread a
      in case List.find (\<lambda>t. th_id t = wt_id w) threads of
           Some held \<Rightarrow>
             if th_title held \<noteq> wt_title w \<or> th_icon held \<noteq> wt_icon w
             then a\<lparr>as_workerThread := w\<lparr>wt_title := th_title held, wt_icon := th_icon held\<rparr>\<rparr> else a
         | None \<Rightarrow> a)"

definition withThreadNames :: "(thread_summary \<Rightarrow> thread_name) \<Rightarrow> host_snapshot \<Rightarrow> host_snapshot" where
  "withThreadNames nameOf s =
     (let threads = map (threadNamed nameOf) (sn_threads s)
      in s\<lparr>sn_threads := threads,
           sn_assignments := map (\<lambda>(i, a). (i, namedAssignment threads a)) (sn_assignments s),
           sn_tasks := map_option (namedList nameOf) (sn_tasks s),
           sn_activeTasks := namedEntries nameOf (sn_activeTasks s),
           sn_workspaceTasks := map (\<lambda>(i, l). (i, namedList nameOf l)) (sn_workspaceTasks s)\<rparr>)"

section \<open>The patches\<close>

datatype command_patch =
    ProfileCreate browser_profile | ProfileGrant profile_grant | ProfileGrantRevoke ident
  | ProfileRename browser_profile | ProfileDelete ident "profile_deletion option"
  | SessionClose ident | SessionStart browser_session
  | HarnessDelete ident | HarnessDefaultSet harness | HarnessEnabledSet harness | HarnessRename harness
  | RequestRespond ident | RunInterrupt ident ident
  | ThreadSharedDoneSet thread_summary | ThreadRename thread_summary | ThreadIconSet thread_summary
  | ThreadAccessUpdate thread_summary | ThreadCreate thread_summary | ThreadExecutionUpdate thread_summary
  | ThreadInputCancel ident ident utf16 | ThreadInputSteer ident ident | ThreadInputQueueResume thread_summary
  | ThreadSendMessage sent_message
  | WorkspaceCreate workspace_summary | WorkspaceAdoptRelocated workspace_summary
  | WorkspaceStorageRetry workspace_summary | WorkspaceColorSet workspace_summary
  | WorkspaceIconSet workspace_summary | WorkspaceDelete workspace_summary | WorkspaceDeletionRecover workspace_summary

definition applyOptimisticCommandPatch :: "(ident \<Rightarrow> 'k :: linorder) \<Rightarrow> (utf16 \<Rightarrow> 'l :: linorder) \<Rightarrow> command_patch
    \<Rightarrow> host_snapshot \<Rightarrow> host_snapshot" where
  "applyOptimisticCommandPatch collate collateTime patch s =
     (case patch of
        ProfileCreate p \<Rightarrow> upsertBrowserProfile p s
      | ProfileGrant g \<Rightarrow> grantProfile g s
      | ProfileGrantRevoke i \<Rightarrow> revokeProfileGrant i s
      | ProfileRename p \<Rightarrow> renameProfile p s
      | ProfileDelete i d \<Rightarrow> deleteProfile i d s
      | SessionClose i \<Rightarrow> closeSession i s
      | SessionStart b \<Rightarrow> startSession b s
      | HarnessDelete i \<Rightarrow> deleteHarness i s
      | HarnessDefaultSet h \<Rightarrow> setDefaultHarness h s
      | HarnessEnabledSet h \<Rightarrow> replaceHarnessAndNormalizeDefaults h s
      | HarnessRename h \<Rightarrow> replaceHarness h s
      | RequestRespond i \<Rightarrow> resolveRequest i s
      | RunInterrupt r t \<Rightarrow> interruptRun r t s
      | ThreadSharedDoneSet t \<Rightarrow> sharedDone t s
      | ThreadRename t \<Rightarrow> replaceThread t s
      | ThreadIconSet t \<Rightarrow> replaceThread t s
      | ThreadAccessUpdate t \<Rightarrow> replaceThread t s
      | ThreadCreate t \<Rightarrow> createThread t s
      | ThreadExecutionUpdate t \<Rightarrow> replaceThread t s
      | ThreadInputCancel m t w \<Rightarrow> withdrawQueuedInput m t w s
      | ThreadInputSteer m t \<Rightarrow> dropQueuedInput m t s
      | ThreadInputQueueResume t \<Rightarrow> replaceThread t s
      | ThreadSendMessage m \<Rightarrow> patchSentMessage collate collateTime m s
      | WorkspaceCreate w \<Rightarrow> createWorkspace w s
      | WorkspaceAdoptRelocated w \<Rightarrow> replaceWorkspace w s
      | WorkspaceStorageRetry w \<Rightarrow> replaceWorkspace w s
      | WorkspaceColorSet w \<Rightarrow> replaceWorkspace w s
      | WorkspaceIconSet w \<Rightarrow> replaceWorkspace w s
      | WorkspaceDelete w \<Rightarrow> replaceWorkspace w s
      | WorkspaceDeletionRecover w \<Rightarrow> replaceWorkspace w s)"


section \<open>One enabled default per environment and driver\<close>

definition defaultsOf :: "ident \<Rightarrow> ident \<Rightarrow> harness list \<Rightarrow> harness list" where
  "defaultsOf environmentId driverKind hs = filter hs_isDefault (filter (sameGroup environmentId driverKind) hs)"

definition oneDefault :: "ident \<Rightarrow> ident \<Rightarrow> harness list \<Rightarrow> bool" where
  "oneDefault environmentId driverKind hs =
     (case defaultsOf environmentId driverKind hs of
        [] \<Rightarrow> \<not> list_ex hs_enabled (filter (sameGroup environmentId driverKind) hs)
      | [d] \<Rightarrow> hs_enabled d
      | _ \<Rightarrow> False)"

definition defaults_inv :: "harness list \<Rightarrow> bool" where
  "defaults_inv hs \<longleftrightarrow> distinct (map hs_id hs) \<and> (\<forall>e k. oneDefault e k hs)"

text \<open>What the Host's answer says of a harness the client holds: a harness never moves, a rename
  changes neither flag, and a new default is enabled.\<close>

definition answerFits :: "harness list \<Rightarrow> command_patch \<Rightarrow> bool" where
  "answerFits hs patch =
     (case patch of
        HarnessDefaultSet h \<Rightarrow> hs_enabled h \<and> hs_isDefault h \<and>
          list_ex (\<lambda>c. hs_id c = hs_id h \<and> sameGroup (hs_environmentId h) (hs_driverKind h) c) hs
      | HarnessEnabledSet h \<Rightarrow>
          list_all (\<lambda>c. hs_id c = hs_id h \<longrightarrow> sameGroup (hs_environmentId h) (hs_driverKind h) c) hs
      | HarnessRename h \<Rightarrow>
          list_all (\<lambda>c. hs_id c = hs_id h \<longrightarrow> sameGroup (hs_environmentId h) (hs_driverKind h) c \<and>
            hs_enabled c = hs_enabled h \<and> hs_isDefault c = hs_isDefault h) hs
      | _ \<Rightarrow> True)"

lemma spread_fields [simp]:
  "hs_id (spreadHarness c h) = hs_id h" "hs_enabled (spreadHarness c h) = hs_enabled h"
  "hs_isDefault (spreadHarness c h) = hs_isDefault h" "sameGroup e k (spreadHarness c h) = sameGroup e k h"
  "hs_environmentId (spreadHarness c h) = hs_environmentId h" "hs_driverKind (spreadHarness c h) = hs_driverKind h"
  by (simp_all add: spreadHarness_def sameGroup_def)

lemma default_fields [simp]:
  "hs_id (c\<lparr>hs_isDefault := b\<rparr>) = hs_id c" "hs_enabled (c\<lparr>hs_isDefault := b\<rparr>) = hs_enabled c"
  "sameGroup e k (c\<lparr>hs_isDefault := b\<rparr>) = sameGroup e k c"
  by (simp_all add: sameGroup_def)

lemma sameGroup_self [simp]: "sameGroup (hs_environmentId h) (hs_driverKind h) h"
  by (simp add: sameGroup_def)

lemma sameGroup_other: "sameGroup e k c \<Longrightarrow> sameGroup e' k' c \<longleftrightarrow> e' = e \<and> k' = k"
  by (auto simp: sameGroup_def)

lemma filter_single:
  assumes "distinct (map hs_id hs)" and "c \<in> set hs"
  shows "filter (\<lambda>x. hs_id x = hs_id c) hs = [c]"
  using assms by (induction hs) (auto simp: filter_empty_conv image_iff)

lemma filter_single':
  assumes "distinct (map hs_id hs)" and "c \<in> set hs" and "P c" and "\<And>x. x \<in> set hs \<Longrightarrow> P x \<Longrightarrow> hs_id x = hs_id c"
  shows "filter P hs = [c]"
proof -
  have "x = c" if "x \<in> set hs" "hs_id x = hs_id c" for x
    using assms(1,2) that by (metis distinct_map inj_on_eq_iff)
  then have "filter P hs = filter (\<lambda>x. hs_id x = hs_id c) hs"
    by (intro filter_cong) (use assms(3,4) in blast)+
  then show ?thesis using filter_single [OF assms(1,2)] by simp
qed

text \<open>Changing entries one by one keeps a group when it keeps each entry's place in it.\<close>

lemma defaultsOf_map:
  "defaultsOf e k (map f hs) = map f (filter (\<lambda>c. sameGroup e k (f c) \<and> hs_isDefault (f c)) hs)"
  by (simp add: defaultsOf_def filter_map o_def conj_commute)

lemma oneDefault_map:
  assumes "\<And>c. c \<in> set hs \<Longrightarrow> sameGroup e k (f c) = sameGroup e k c \<and>
      (sameGroup e k c \<longrightarrow> hs_isDefault (f c) = hs_isDefault c \<and> hs_enabled (f c) = hs_enabled c)"
  shows "oneDefault e k (map f hs) = oneDefault e k hs"
proof -
  have d: "defaultsOf e k (map f hs) = map f (defaultsOf e k hs)"
    unfolding defaultsOf_map unfolding defaultsOf_def filter_filter
    by (intro arg_cong [of _ _ "map f"] filter_cong) (use assms in auto)
  have x: "list_ex hs_enabled (filter (sameGroup e k) (map f hs)) = list_ex hs_enabled (filter (sameGroup e k) hs)"
    using assms by (auto simp: list_ex_iff)
  have m: "sameGroup e k c \<and> c \<in> set hs" if "c \<in> set (defaultsOf e k hs)" for c
    using that by (auto simp: defaultsOf_def)
  show ?thesis
    unfolding oneDefault_def d x using assms m by (auto split: list.splits)
qed

lemma chosen_in:
  "chosenDefault grp p = Some c \<Longrightarrow> c \<in> set grp \<and> hs_enabled c"
  by (auto simp: chosenDefault_def find_Some_iff split: option.splits)

lemma chosen_none: "chosenDefault grp p = None \<longleftrightarrow> \<not> list_ex hs_enabled grp"
  by (auto simp: chosenDefault_def find_None_iff find_Some_iff list_ex_iff split: option.splits)

lemma normalize_ids: "map hs_id (normalizeHarnessDefaults hs e k p) = map hs_id hs"
  by (simp add: normalizeHarnessDefaults_def Let_def)

lemma normalize_group:
  assumes d: "distinct (map hs_id hs)"
  shows "oneDefault e k (normalizeHarnessDefaults hs e k p)"
proof -
  define grp where "grp = filter (sameGroup e k) hs"
  define f where "f c = (if \<not> sameGroup e k c then c
           else let isDefault = (map_option hs_id (chosenDefault grp p) = Some (hs_id c))
                in if hs_isDefault c = isDefault then c else c\<lparr>hs_isDefault := isDefault\<rparr>)" for c
  have n: "normalizeHarnessDefaults hs e k p = map f hs"
    by (simp add: normalizeHarnessDefaults_def f_def grp_def Let_def)
  have f: "sameGroup e k (f c) = sameGroup e k c" "hs_enabled (f c) = hs_enabled c"
      "sameGroup e k c \<Longrightarrow> hs_isDefault (f c) \<longleftrightarrow> map_option hs_id (chosenDefault grp p) = Some (hs_id c)" for c
    by (simp_all add: f_def Let_def)
  have x: "list_ex hs_enabled (filter (sameGroup e k) (map f hs)) = list_ex hs_enabled grp"
    by (auto simp: list_ex_iff grp_def f)
  show ?thesis
  proof (cases "chosenDefault grp p")
    case None
    then have "defaultsOf e k (map f hs) = []"
      unfolding defaultsOf_map by (simp add: filter_empty_conv f)
    then show ?thesis using None chosen_none x by (simp add: oneDefault_def n)
  next
    case (Some c)
    then have c: "c \<in> set hs" "sameGroup e k c" "hs_enabled c" using chosen_in [OF Some] by (auto simp: grp_def)
    have "filter (\<lambda>x. sameGroup e k (f x) \<and> hs_isDefault (f x)) hs = [c]"
      by (rule filter_single' [OF d c(1)]) (use c(2) Some f in auto)
    then show ?thesis using c(3) f(2) by (simp add: oneDefault_def n defaultsOf_map)
  qed
qed

lemma normalize_other:
  assumes "\<not> (e' = e \<and> k' = k)"
  shows "oneDefault e' k' (normalizeHarnessDefaults hs e k p) = oneDefault e' k' hs"
  unfolding normalizeHarnessDefaults_def Let_def
  by (rule oneDefault_map) (use assms in \<open>auto simp: sameGroup_def\<close>)

lemma normalize_defaults:
  assumes "distinct (map hs_id hs)" and "\<And>e' k'. \<not> (e' = e \<and> k' = k) \<Longrightarrow> oneDefault e' k' hs"
  shows "defaults_inv (normalizeHarnessDefaults hs e k p)"
  using assms normalize_ids normalize_group normalize_other by (metis defaults_inv_def)


lemma replaceHarnesses_ids: "map hs_id (replaceHarnesses h hs) = map hs_id hs"
  by (auto simp: replaceHarnesses_def)

lemma enabledSet_defaults:
  assumes "defaults_inv hs" and "answerFits hs (HarnessEnabledSet h)"
  shows "defaults_inv (normalizeHarnessDefaults (replaceHarnesses h hs) (hs_environmentId h) (hs_driverKind h) p)"
proof (rule normalize_defaults)
  show "distinct (map hs_id (replaceHarnesses h hs))" using assms(1) by (simp add: replaceHarnesses_ids defaults_inv_def)
  fix e k assume "\<not> (e = hs_environmentId h \<and> k = hs_driverKind h)"
  then have "oneDefault e k (replaceHarnesses h hs) = oneDefault e k hs"
    unfolding replaceHarnesses_def
    by (intro oneDefault_map) (use assms(2) in \<open>auto simp: answerFits_def list_all_iff sameGroup_def\<close>)
  then show "oneDefault e k (replaceHarnesses h hs)" using assms(1) by (simp add: defaults_inv_def)
qed

lemma rename_defaults:
  assumes "defaults_inv hs" and "answerFits hs (HarnessRename h)"
  shows "defaults_inv (replaceHarnesses h hs)"
proof -
  have "oneDefault e k (replaceHarnesses h hs) = oneDefault e k hs" for e k
    unfolding replaceHarnesses_def
    by (intro oneDefault_map) (use assms(2) in \<open>auto simp: answerFits_def list_all_iff sameGroup_def\<close>)
  then show ?thesis using assms(1) replaceHarnesses_ids by (metis defaults_inv_def)
qed

lemma defaultSet_defaults:
  assumes "defaults_inv (sn_harnesses s)" and "answerFits (sn_harnesses s) (HarnessDefaultSet h)"
  shows "defaults_inv (sn_harnesses (setDefaultHarness h s))"
proof -
  define hs where "hs = sn_harnesses s"
  define f where "f c = (if hs_id c = hs_id h then spreadHarness c h
        else if \<not> sameGroup (hs_environmentId h) (hs_driverKind h) c then c
        else if hs_isDefault c then c\<lparr>hs_isDefault := False\<rparr> else c)" for c
  have n: "sn_harnesses (setDefaultHarness h s) = map f hs"
    by (simp add: setDefaultHarness_def f_def hs_def)
  have d: "distinct (map hs_id hs)" and o: "\<And>e k. oneDefault e k hs"
    using assms(1) by (auto simp: defaults_inv_def hs_def)
  have h: "hs_enabled h" "hs_isDefault h" using assms(2) by (auto simp: answerFits_def)
  obtain c where c: "c \<in> set hs" "hs_id c = hs_id h" "sameGroup (hs_environmentId h) (hs_driverKind h) c"
    using assms(2) by (auto simp: answerFits_def list_ex_iff hs_def)
  have u: "x = c" if "x \<in> set hs" "hs_id x = hs_id h" for x
    using d c that by (metis distinct_map inj_on_eq_iff)
  have "oneDefault e k (map f hs)" for e k
  proof (cases "e = hs_environmentId h \<and> k = hs_driverKind h")
    case True
    have "filter (\<lambda>x. sameGroup e k (f x) \<and> hs_isDefault (f x)) hs = [c]"
      by (rule filter_single' [OF d c(1)]) (use c(2) True h in \<open>auto simp: f_def split: if_splits\<close>)
    then show ?thesis using c(2) h by (simp add: oneDefault_def defaultsOf_map f_def)
  next
    case False
    then have "oneDefault e k (map f hs) = oneDefault e k hs"
      by (intro oneDefault_map) (use c(3) u in \<open>auto simp: f_def sameGroup_def\<close>)
    then show ?thesis using o by simp
  qed
  moreover have "map hs_id (map f hs) = map hs_id hs" by (simp add: f_def)
  ultimately show ?thesis using d n by (simp only: defaults_inv_def) blast
qed

lemma delete_defaults:
  assumes "defaults_inv (sn_harnesses s)"
  shows "defaults_inv (sn_harnesses (deleteHarness i s))"
proof (cases "List.find (\<lambda>h. hs_id h = i) (sn_harnesses s)")
  case None
  then have "filter (\<lambda>h. hs_id h \<noteq> i) (sn_harnesses s) = sn_harnesses s"
    by (auto simp: find_None_iff intro: filter_True)
  then show ?thesis using assms None by (simp add: deleteHarness_def)
next
  case (Some r)
  then have r: "r \<in> set (sn_harnesses s)" "hs_id r = i" by (auto simp: find_Some_iff)
  have d: "distinct (map hs_id (sn_harnesses s))" using assms by (simp add: defaults_inv_def)
  have u: "x = r" if "x \<in> set (sn_harnesses s)" "hs_id x = i" for x
    using d r that by (metis distinct_map inj_on_eq_iff)
  have "defaults_inv (normalizeHarnessDefaults (filter (\<lambda>h. hs_id h \<noteq> i) (sn_harnesses s))
      (hs_environmentId r) (hs_driverKind r) None)"
  proof (rule normalize_defaults)
    show "distinct (map hs_id (filter (\<lambda>h. hs_id h \<noteq> i) (sn_harnesses s)))" by (rule distinct_map_filter [OF d])
    fix e k assume n: "\<not> (e = hs_environmentId r \<and> k = hs_driverKind r)"
    have g: "filter (sameGroup e k) (filter (\<lambda>h. hs_id h \<noteq> i) (sn_harnesses s)) = filter (sameGroup e k) (sn_harnesses s)"
      unfolding filter_filter by (rule filter_cong) (use u n in \<open>auto simp: sameGroup_def\<close>)
    have "oneDefault e k (sn_harnesses s)" using assms by (simp add: defaults_inv_def)
    then show "oneDefault e k (filter (\<lambda>h. hs_id h \<noteq> i) (sn_harnesses s))"
      unfolding oneDefault_def defaultsOf_def g .
  qed
  then show ?thesis using Some by (simp add: deleteHarness_def)
qed

text \<open>Every other patch leaves the harnesses alone.\<close>

lemma patch_harnesses:
  assumes "\<forall>h. patch \<noteq> HarnessEnabledSet h" and "\<forall>h. patch \<noteq> HarnessRename h" and "\<forall>h. patch \<noteq> HarnessDefaultSet h"
    and "\<forall>i. patch \<noteq> HarnessDelete i"
  shows "sn_harnesses (applyOptimisticCommandPatch collate collateTime patch s) = sn_harnesses s"
  using assms
  by (cases patch)
     (simp_all add: applyOptimisticCommandPatch_def upsertBrowserProfile_def grantProfile_def revokeProfileGrant_def
        renameProfile_def deleteProfile_def closeSession_def startSession_def resolveRequest_def interruptRun_def
        sharedDone_def replaceThread_def createThread_def withdrawQueuedInput_def dropQueuedInput_def
        patchSentMessage_def createWorkspace_def replaceWorkspace_def Let_def split: option.splits)

text \<open>C30: Through any answers that fit what the client holds, every environment and driver has exactly one
  default harness and it is enabled, unless none of its harnesses is; then it has none.
\<close>

theorem patches_keep_one_default:
  assumes "defaults_inv (sn_harnesses s)" and "answerFits (sn_harnesses s) patch"
  shows "defaults_inv (sn_harnesses (applyOptimisticCommandPatch collate collateTime patch s))"
proof (cases "(\<forall>h. patch \<noteq> HarnessEnabledSet h) \<and> (\<forall>h. patch \<noteq> HarnessRename h) \<and>
    (\<forall>h. patch \<noteq> HarnessDefaultSet h) \<and> (\<forall>i. patch \<noteq> HarnessDelete i)")
  case True
  then show ?thesis using patch_harnesses assms(1) by metis
next
  case False
  then show ?thesis
    using assms enabledSet_defaults rename_defaults defaultSet_defaults delete_defaults
    by (auto simp: applyOptimisticCommandPatch_def replaceHarnessAndNormalizeDefaults_def replaceHarness_def)
qed


definition exampleHarness :: "ident \<Rightarrow> bool \<Rightarrow> bool \<Rightarrow> harness" where
  "exampleHarness i enabled isDefault = \<lparr>hs_id = i, hs_driverKind = ''codex'', hs_environmentId = ''env'',
     hs_enabled = enabled, hs_isDefault = isDefault, hs_name = [], hs_optional = []\<rparr>"

definition exampleSnapshot :: "harness list \<Rightarrow> host_snapshot" where
  "exampleSnapshot hs = \<lparr>sn_harnesses = hs, sn_browserProfiles = [], sn_browserProfileGrants = [],
     sn_browserProfileDeletions = None, sn_browserSessions = [], sn_workspaces = [],
     sn_workspaceWindow = \<lparr>ww_itemCount = 0, ww_totalItems = 0\<rparr>, sn_threads = [],
     sn_transcripts = [(''t'', [\<lparr>te_id = ''m'', te_kind = MessageKind ''old''\<rparr>])], sn_requests = [],
     sn_waitingRequests = [], sn_runQueue = [], sn_inputQueues = [], sn_sharedTaskDoneAvailable = True,
     sn_tasks = None, sn_activeTasks = [], sn_workspaceTasks = [], sn_assignments = []\<rparr>"

lemma example_defaults: "defaults_inv (sn_harnesses (exampleSnapshot [exampleHarness ''a'' True True, exampleHarness ''b'' True False]))"
  by (auto simp: defaults_inv_def oneDefault_def defaultsOf_def exampleSnapshot_def exampleHarness_def sameGroup_def)

text \<open>Disabling the default harness makes the other one the default.\<close>

theorem patches_keep_one_default_witness:
  "let s = exampleSnapshot [exampleHarness ''a'' True True, exampleHarness ''b'' True False];
       s' = applyOptimisticCommandPatch length id (HarnessEnabledSet (exampleHarness ''a'' False False)) s
   in defaults_inv (sn_harnesses s') \<and> map hs_isDefault (sn_harnesses s') = [False, True]"
proof -
  let ?s = "exampleSnapshot [exampleHarness ''a'' True True, exampleHarness ''b'' True False]"
  have a: "answerFits (sn_harnesses ?s) (HarnessEnabledSet (exampleHarness ''a'' False False))"
    by (simp add: answerFits_def exampleSnapshot_def exampleHarness_def sameGroup_def)
  have "map hs_isDefault (sn_harnesses (applyOptimisticCommandPatch length id
      (HarnessEnabledSet (exampleHarness ''a'' False False)) ?s)) = [False, True]"
    by (simp add: applyOptimisticCommandPatch_def replaceHarnessAndNormalizeDefaults_def replaceHarnesses_def
        normalizeHarnessDefaults_def exampleSnapshot_def exampleHarness_def sameGroup_def spreadHarness_def
        chosenDefault_def)
  then show ?thesis using patches_keep_one_default [OF example_defaults a, of length id] by (simp add: Let_def)
qed

section \<open>Sending\<close>

lemma upsertQueue_filter:
  assumes "e \<notin> set q" and "\<forall>x \<in> set q. qe_id x \<noteq> qe_id e"
  shows "set (upsertRunQueueEntry collate q e) = insert e (set q)"
    and "length (upsertRunQueueEntry collate q e) = Suc (length q)"
  using assms by (auto simp: upsertRunQueueEntry_def)

text \<open>What a transcript says of a Run: the entry \<open>run:<id>\<close>, if it has ended.\<close>

definition runEnded :: "transcript_entry list \<Rightarrow> ident \<Rightarrow> bool" where
  "runEnded es runId \<longleftrightarrow> (case List.find (\<lambda>e. te_id e = ''run:'' @ runId) es of
     Some e \<Rightarrow> (case te_kind e of RunKind _ status _ \<Rightarrow> isTerminalRunEntryStatus status | _ \<Rightarrow> False)
   | None \<Rightarrow> False)"

lemma find_append: "List.find P (xs @ ys) = (case List.find P xs of Some x \<Rightarrow> Some x | None \<Rightarrow> List.find P ys)"
  by (induction xs) auto

definition transcriptOf :: "host_snapshot \<Rightarrow> ident \<Rightarrow> transcript_entry list" where
  "transcriptOf s t = (case jget (sn_transcripts s) t of None \<Rightarrow> [] | Some es \<Rightarrow> es)"

definition withMessage :: "transcript_entry option \<Rightarrow> transcript_entry list \<Rightarrow> transcript_entry list" where
  "withMessage m es = (case m of
     Some m \<Rightarrow> if list_ex (\<lambda>e. te_id e = te_id m) es then es else es @ [m] | None \<Rightarrow> es)"

definition sendAddsRun :: "sent_message \<Rightarrow> host_snapshot \<Rightarrow> bool" where
  "sendAddsRun m s = (case sm_run m of
     Some r \<Rightarrow> \<not> runEnded (withMessage (sm_message m) (transcriptOf s (sm_threadId m))) (qe_id r) \<and>
       \<not> list_ex (\<lambda>e. qe_id e = qe_id r) (sn_runQueue s)
   | None \<Rightarrow> False)"

definition activeAt :: "(utf16 \<Rightarrow> 'l :: linorder) \<Rightarrow> sent_message \<Rightarrow> thread_summary \<Rightarrow> thread_summary" where
  "activeAt collateTime m t = (if th_id t = sm_threadId m
     then t\<lparr>th_updatedAt := (case sm_acceptedRunCreatedAt m of
         Some c \<Rightarrow> if c \<noteq> [] \<and> collateTime (th_updatedAt t) < collateTime c then c else th_updatedAt t
       | None \<Rightarrow> th_updatedAt t)\<rparr>
     else t)"

lemma patchSentMessage_unfold:
  "patchSentMessage collate collateTime m s =
     s\<lparr>sn_inputQueues := appendQueuedInput (sm_threadId m) (sm_queueItem m) (sn_inputQueues s),
       sn_runQueue := (if sendAddsRun m s then upsertRunQueueEntry collate (sn_runQueue s) (the (sm_run m)) else sn_runQueue s),
       sn_threads := (if sendAddsRun m s \<and> list_ex (\<lambda>t. th_id t = sm_threadId m) (sn_threads s)
         then map (activeAt collateTime m) (sn_threads s) else sn_threads s),
       sn_transcripts := jset (sm_threadId m) (withMessage (sm_message m) (transcriptOf s (sm_threadId m))) (sn_transcripts s)\<rparr>"
proof (cases "sm_run m")
  case None
  then show ?thesis
    by (simp add: patchSentMessage_def sendAddsRun_def transcriptOf_def withMessage_def Let_def)
next
  case (Some r)
  have e: "(case map_option te_kind (List.find P es) of
              Some (RunKind _ status _) \<Rightarrow> isTerminalRunEntryStatus status | _ \<Rightarrow> False) =
    (case List.find P es of Some e \<Rightarrow> (case te_kind e of RunKind _ status _ \<Rightarrow> isTerminalRunEntryStatus status | _ \<Rightarrow> False)
      | None \<Rightarrow> False)" for P es
    by (simp split: option.splits)
  show ?thesis
    by (simp add: patchSentMessage_def Some sendAddsRun_def runEnded_def transcriptOf_def withMessage_def e Let_def
        activeAt_def [abs_def] cong: if_cong option.case_cong)
qed


lemma withMessage_again [simp]: "withMessage m (withMessage m es) = withMessage m es"
  by (auto simp: withMessage_def list_ex_iff split: option.splits)

lemma append_queued_again:
  "appendQueuedInput t i (appendQueuedInput t i m) = appendQueuedInput t i m"
  by (cases "jget m t"; cases i) (auto simp: appendQueuedInput_def jget_set list_ex_iff)

lemma send_again:
  "patchSentMessage collate collateTime m (patchSentMessage collate collateTime m s) = patchSentMessage collate collateTime m s"
proof -
  let ?s = "patchSentMessage collate collateTime m s"
  have t: "transcriptOf ?s (sm_threadId m) = withMessage (sm_message m) (transcriptOf s (sm_threadId m))"
    unfolding patchSentMessage_unfold by (simp add: transcriptOf_def jget_set)
  have "\<not> sendAddsRun m ?s"
  proof (cases "sm_run m")
    case None
    then show ?thesis by (simp add: sendAddsRun_def)
  next
    case (Some r)
    have "list_ex (\<lambda>e. qe_id e = qe_id r) (sn_runQueue ?s)" if "sendAddsRun m s"
      using that unfolding patchSentMessage_unfold by (simp add: Some upsertRunQueueEntry_def list_ex_iff)
    moreover have "sn_runQueue ?s = sn_runQueue s" if "\<not> sendAddsRun m s"
      using that unfolding patchSentMessage_unfold by simp
    ultimately show ?thesis using t by (cases "sendAddsRun m s") (auto simp: sendAddsRun_def Some)
  qed
  then have "patchSentMessage collate collateTime m ?s =
      ?s\<lparr>sn_inputQueues := appendQueuedInput (sm_threadId m) (sm_queueItem m) (sn_inputQueues ?s),
         sn_transcripts := jset (sm_threadId m) (transcriptOf ?s (sm_threadId m)) (sn_transcripts ?s)\<rparr>"
    by (subst patchSentMessage_unfold) (simp add: t)
  also have "\<dots> = ?s"
    unfolding t unfolding patchSentMessage_unfold by (simp add: append_queued_again)
  finally show ?thesis .
qed

lemma send_facts:
  assumes s': "s' = applyOptimisticCommandPatch collate collateTime (ThreadSendMessage m) s"
  shows "\<exists>new. transcriptOf s' (sm_threadId m) = transcriptOf s (sm_threadId m) @ new \<and>
       (case sm_message m of
          None \<Rightarrow> new = []
        | Some e \<Rightarrow> new = (if list_ex (\<lambda>x. te_id x = te_id e) (transcriptOf s (sm_threadId m)) then [] else [e]))"
    and "t \<noteq> sm_threadId m \<Longrightarrow> jget (sn_transcripts s') t = jget (sn_transcripts s) t"
    and "sm_run m = Some r \<Longrightarrow> runEnded (transcriptOf s (sm_threadId m)) (qe_id r) \<or>
         list_ex (\<lambda>e. qe_id e = qe_id r) (sn_runQueue s) \<Longrightarrow>
         sn_runQueue s' = sn_runQueue s \<and> sn_threads s' = sn_threads s"
    and "sm_run m = Some r \<Longrightarrow> \<not> list_ex (\<lambda>e. qe_id e = qe_id r) (sn_runQueue s) \<Longrightarrow>
         sn_runQueue s' \<noteq> sn_runQueue s \<Longrightarrow> set (sn_runQueue s') = insert r (set (sn_runQueue s))"
    and "applyOptimisticCommandPatch collate collateTime (ThreadSendMessage m) s' = s'"
proof -
  have p: "s' = patchSentMessage collate collateTime m s" using s' by (simp add: applyOptimisticCommandPatch_def)
  show "applyOptimisticCommandPatch collate collateTime (ThreadSendMessage m) s' = s'"
    using p send_again by (simp add: applyOptimisticCommandPatch_def)
  show "\<exists>new. transcriptOf s' (sm_threadId m) = transcriptOf s (sm_threadId m) @ new \<and>
       (case sm_message m of
          None \<Rightarrow> new = []
        | Some e \<Rightarrow> new = (if list_ex (\<lambda>x. te_id x = te_id e) (transcriptOf s (sm_threadId m)) then [] else [e]))"
    unfolding p patchSentMessage_unfold by (cases "sm_message m") (simp_all add: transcriptOf_def jget_set withMessage_def)
  show "jget (sn_transcripts s') t = jget (sn_transcripts s) t" if "t \<noteq> sm_threadId m"
    using that unfolding p patchSentMessage_unfold by (simp add: jget_set)
  show "sn_runQueue s' = sn_runQueue s \<and> sn_threads s' = sn_threads s"
    if "sm_run m = Some r" "runEnded (transcriptOf s (sm_threadId m)) (qe_id r) \<or>
        list_ex (\<lambda>e. qe_id e = qe_id r) (sn_runQueue s)"
  proof -
    have "runEnded (withMessage (sm_message m) es) (qe_id r)" if "runEnded es (qe_id r)" for es
      using that by (auto simp: runEnded_def withMessage_def find_append split: option.splits)
    then have "\<not> sendAddsRun m s" using that by (auto simp: sendAddsRun_def)
    then show ?thesis unfolding p patchSentMessage_unfold by simp
  qed
  show "set (sn_runQueue s') = insert r (set (sn_runQueue s))"
    if "sm_run m = Some r" "\<not> list_ex (\<lambda>e. qe_id e = qe_id r) (sn_runQueue s)" "sn_runQueue s' \<noteq> sn_runQueue s"
  proof -
    have "sendAddsRun m s" using that(3) unfolding p patchSentMessage_unfold by (auto split: if_splits)
    moreover have "set (upsertRunQueueEntry collate (sn_runQueue s) r) = insert r (set (sn_runQueue s))"
      by (rule upsertQueue_filter) (use that(2) in \<open>auto simp: list_ex_iff\<close>)
    ultimately show ?thesis using that(1) unfolding p patchSentMessage_unfold by simp
  qed
qed

text \<open>The answer to a send arrives after any number of the events it caused. It adds the message only where
  the conversation has none under its identifier, touches nothing else the conversation holds, and never
  brings back a Run that the conversation shows as ended or that the queue already has.
\<close>

theorem send_answer_fills_gaps:
  "let s' = applyOptimisticCommandPatch collate collateTime (ThreadSendMessage m) s;
       held = transcriptOf s (sm_threadId m)
   in transcriptOf s' (sm_threadId m) =
        (case sm_message m of
           Some e \<Rightarrow> if list_ex (\<lambda>x. te_id x = te_id e) held then held else held @ [e]
         | None \<Rightarrow> held) \<and>
      (\<forall>t. t \<noteq> sm_threadId m \<longrightarrow> jget (sn_transcripts s') t = jget (sn_transcripts s) t) \<and>
      (\<forall>r. sm_run m = Some r \<longrightarrow> runEnded held (qe_id r) \<or> list_ex (\<lambda>e. qe_id e = qe_id r) (sn_runQueue s) \<longrightarrow>
         sn_runQueue s' = sn_runQueue s \<and> sn_threads s' = sn_threads s) \<and>
      (\<forall>r. sm_run m = Some r \<longrightarrow> \<not> list_ex (\<lambda>e. qe_id e = qe_id r) (sn_runQueue s) \<longrightarrow>
         sn_runQueue s' = sn_runQueue s \<or> set (sn_runQueue s') = insert r (set (sn_runQueue s))) \<and>
      applyOptimisticCommandPatch collate collateTime (ThreadSendMessage m) s' = s'"
proof -
  note facts = send_facts [where collate = collate and collateTime = collateTime and m = m and s = s, OF refl]
  show ?thesis
    unfolding Let_def
    using facts(1) facts(5) facts(2,3,4) by (intro conjI allI impI) (auto split: option.splits if_splits)
qed

definition exampleSend :: sent_message where
  "exampleSend = \<lparr>sm_acceptedRunCreatedAt = Some [5], sm_message = Some \<lparr>te_id = ''n'', te_kind = MessageKind ''new''\<rparr>,
     sm_queueItem = None,
     sm_run = Some \<lparr>qe_createdAt = [5], qe_id = ''r'', qe_status = Queued, qe_threadId = ''t'', qe_runOrdinal = 1\<rparr>,
     sm_threadId = ''t''\<rparr>"

definition endedSnapshot :: host_snapshot where
  "endedSnapshot = (exampleSnapshot [])\<lparr>sn_transcripts :=
     [(''t'', [\<lparr>te_id = ''m'', te_kind = MessageKind ''old''\<rparr>, \<lparr>te_id = ''run:r'', te_kind = RunKind ''r'' Completed False\<rparr>])]\<rparr>"

text \<open>The Run of a send whose answer comes after its end stays ended.\<close>

theorem send_answer_fills_gaps_witness:
  "sn_runQueue (applyOptimisticCommandPatch length id (ThreadSendMessage exampleSend) endedSnapshot) = [] \<and>
   map te_id (transcriptOf (applyOptimisticCommandPatch length id (ThreadSendMessage exampleSend) endedSnapshot) ''t'')
     = [''m'', ''run:r'', ''n'']"
proof -
  note g = send_answer_fills_gaps [where collate = length and collateTime = id and m = exampleSend and s = endedSnapshot]
  have e: "sm_threadId exampleSend = ''t''" "sm_message exampleSend = Some \<lparr>te_id = ''n'', te_kind = MessageKind ''new''\<rparr>"
      "sn_runQueue endedSnapshot = []"
      "transcriptOf endedSnapshot ''t'' = [\<lparr>te_id = ''m'', te_kind = MessageKind ''old''\<rparr>,
         \<lparr>te_id = ''run:r'', te_kind = RunKind ''r'' Completed False\<rparr>]"
    by (simp_all add: exampleSend_def endedSnapshot_def exampleSnapshot_def transcriptOf_def)
  have "runEnded (transcriptOf endedSnapshot (sm_threadId exampleSend)) ''r''"
    by (simp add: e runEnded_def isTerminalRunEntryStatus_def)
  then have "sn_runQueue (applyOptimisticCommandPatch length id (ThreadSendMessage exampleSend) endedSnapshot) = []"
    using g e(3) by (simp add: exampleSend_def Let_def)
  then show ?thesis using g by (auto simp: e Let_def)
qed


section \<open>Applying an answer twice\<close>

lemma map_twice: "(\<And>x. x \<in> set xs \<Longrightarrow> f (f x) = f x) \<Longrightarrow> map f (map f xs) = map f xs"
  by simp

lemma spread_keys_again:
  assumes "jwf l"
  shows "foldl (\<lambda>m (k, v). jset k v m) (foldl (\<lambda>m (k, v). jset k v m) m l) l = foldl (\<lambda>m (k, v). jset k v m) m l"
proof -
  have get: "jget (foldl (\<lambda>m (k, v). jset k v m) m l) k = Some v" if "(k, v) \<in> set l" "jwf l" for k v l m
    using that
  proof (induction l arbitrary: m rule: rev_induct)
    case Nil
    then show ?case by simp
  next
    case (snoc kv l)
    obtain a b where kv: "kv = (a, b)" by (cases kv)
    have w: "jwf l" "a \<notin> fst ` set l" using snoc.prems(2) kv by (auto simp: jwf_def)
    show ?case
    proof (cases "(k, v) \<in> set l")
      case True
      then have "k \<noteq> a" using w(2) by (metis fst_conv imageI)
      then show ?thesis using snoc.IH [OF True w(1)] kv by (simp add: jget_set)
    next
      case False
      then show ?thesis using snoc.prems(1) kv by (simp add: jget_set)
    qed
  qed
  have keep: "foldl (\<lambda>m (k, v). jset k v m) m' l' = m'" if "\<forall>(k, v) \<in> set l'. jget m' k = Some v" for m' l'
    using that by (induction l' arbitrary: m') (auto simp: jset_same)
  show ?thesis by (rule keep) (auto intro: get assms)
qed

lemma spread_again: "jwf (hs_optional h) \<Longrightarrow> spreadHarness (spreadHarness c h) h = spreadHarness c h"
  by (simp add: spreadHarness_def spread_keys_again)

lemma replaceHarnesses_again: "jwf (hs_optional h) \<Longrightarrow> replaceHarnesses h (replaceHarnesses h hs) = replaceHarnesses h hs"
  unfolding replaceHarnesses_def by (rule map_twice) (simp add: spread_again)

lemma defaultSet_again: "jwf (hs_optional h) \<Longrightarrow> setDefaultHarness h (setDefaultHarness h s) = setDefaultHarness h s"
  by (auto simp: setDefaultHarness_def spread_again sameGroup_def)

lemma delete_again: "deleteHarness i (deleteHarness i s) = deleteHarness i s"
proof -
  have "hs_id ` set (normalizeHarnessDefaults hs e k p) = hs_id ` set hs" for hs e k p
    using normalize_ids [of hs e k p] by (metis list.set_map)
  then have "i \<notin> hs_id ` set (sn_harnesses (deleteHarness i s))"
    by (cases "List.find (\<lambda>h. hs_id h = i) (sn_harnesses s)") (auto simp: deleteHarness_def)
  then have gone: "\<forall>x \<in> set (sn_harnesses (deleteHarness i s)). hs_id x \<noteq> i" by blast
  then have "List.find (\<lambda>h. hs_id h = i) (sn_harnesses (deleteHarness i s)) = None" by (auto simp: find_None_iff)
  moreover have "filter (\<lambda>h. hs_id h \<noteq> i) (sn_harnesses (deleteHarness i s)) = sn_harnesses (deleteHarness i s)"
    using gone by (intro filter_True) blast
  ultimately show ?thesis by (subst deleteHarness_def) simp
qed

lemma replaceThread_again: "replaceThread t (replaceThread t s) = replaceThread t s"
  by (simp add: replaceThread_def)

lemma createThread_again: "createThread t (createThread t s) = createThread t s"
proof (cases "list_ex (\<lambda>c. th_id c = th_id t) (sn_threads s)")
  case True
  moreover have "map th_id (sn_threads (replaceThread t s)) = map th_id (sn_threads s)"
    by (simp add: replaceThread_def)
  moreover have "list_ex (\<lambda>c. th_id c = i) ts \<longleftrightarrow> i \<in> set (map th_id ts)" for i ts by (auto simp: list_ex_iff)
  ultimately have "list_ex (\<lambda>c. th_id c = th_id t) (sn_threads (replaceThread t s))" by metis
  then show ?thesis using True replaceThread_again by (simp add: createThread_def)
next
  case False
  have "map (\<lambda>c. if th_id c = th_id t then t\<lparr>th_updatedAt := if th_updatedAt t > th_updatedAt c then th_updatedAt t
      else th_updatedAt c\<rparr> else c) (sn_threads s) = sn_threads s"
    using False by (intro map_idI) (auto simp: list_ex_iff)
  then show ?thesis using False by (simp add: createThread_def replaceThread_def)
qed

lemma interrupt_again: "interruptRun r t (interruptRun r t s) = interruptRun r t s"
proof -
  have "interruptEntry r (interruptEntry r e) = interruptEntry r e" for e
    by (simp add: interruptEntry_def split: entry_kind.splits)
  then have "interruptEntry r \<circ> interruptEntry r = interruptEntry r" by (simp add: fun_eq_iff)
  then show ?thesis by (simp add: interruptRun_def jget_set split: option.splits)
qed

lemma drop_again: "dropQueuedInput m t (dropQueuedInput m t s) = dropQueuedInput m t s"
  by (auto simp: dropQueuedInput_def jget_set list_ex_iff split: option.splits if_splits)

lemma upsertEntry_again: "upsertEntry (upsertEntry es e) e = upsertEntry es e"
  by (induction es) auto

lemma upsertEntry_ids: "list_ex (\<lambda>x. te_id x = te_id e) (upsertEntry es e)"
  by (induction es) auto

lemma drop_transcripts [simp]: "sn_transcripts (dropQueuedInput m t s) = sn_transcripts s"
  by (simp add: dropQueuedInput_def split: option.splits)

lemma drop_commutes: "dropQueuedInput m t (s\<lparr>sn_transcripts := x\<rparr>) = (dropQueuedInput m t s)\<lparr>sn_transcripts := x\<rparr>"
  by (simp add: dropQueuedInput_def split: option.splits)

lemma withdraw_again: "withdrawQueuedInput m t w (withdrawQueuedInput m t w s) = withdrawQueuedInput m t w s"
proof (cases "jget (sn_transcripts s) t")
  case None
  then show ?thesis by (simp add: withdrawQueuedInput_def drop_again)
next
  case (Some es)
  show ?thesis
  proof (cases "list_ex (\<lambda>e. te_id e = m) es")
    case True
    then show ?thesis
      using Some upsertEntry_ids [of "\<lparr>te_id = m, te_kind = WithdrawnKind w\<rparr>" es]
      by (simp add: withdrawQueuedInput_def drop_commutes drop_again jget_set upsertEntry_again)
  next
    case False
    then show ?thesis using Some by (simp add: withdrawQueuedInput_def drop_again)
  qed
qed


lemma find_map: "List.find P (map g xs) = map_option g (List.find (P \<circ> g) xs)"
  by (induction xs) auto

text \<open>\<open>normalized\<close> is what \<open>normalizeHarnessDefaults\<close> does to one harness, given the identifier chosen.\<close>

definition normalized :: "ident \<Rightarrow> ident \<Rightarrow> ident option \<Rightarrow> harness \<Rightarrow> harness" where
  "normalized e k chosen c = (if sameGroup e k c then c\<lparr>hs_isDefault := (chosen = Some (hs_id c))\<rparr> else c)"

lemma normalize_map:
  "normalizeHarnessDefaults hs e k p =
     map (normalized e k (map_option hs_id (chosenDefault (filter (sameGroup e k) hs) p))) hs"
  by (auto simp: normalizeHarnessDefaults_def normalized_def Let_def)

lemma normalized_fields [simp]:
  "hs_id (normalized e k i c) = hs_id c" "hs_enabled (normalized e k i c) = hs_enabled c"
  "sameGroup e' k' (normalized e k i c) = sameGroup e' k' c" "spreadHarness (normalized e k i c) h = spreadHarness c h"
  "normalized e k i (normalized e k i c) = normalized e k i c"
  by (auto simp: normalized_def sameGroup_def spreadHarness_def)

text \<open>What a normalized group with one harness as it was before chooses: the same again.\<close>

lemma chosen_again:
  fixes h :: harness and grp :: "harness list"
  defines "p \<equiv> (if hs_enabled h \<and> hs_isDefault h then Some (hs_id h) else None)"
  defines "chosen \<equiv> map_option hs_id (chosenDefault grp p)"
  assumes flags: "\<forall>c \<in> set grp. hs_id c = hs_id h \<longrightarrow> hs_enabled c = hs_enabled h \<and> hs_isDefault c = hs_isDefault h"
    and g: "\<forall>c \<in> set grp. hs_id (g c) = hs_id c \<and> hs_enabled (g c) = hs_enabled c \<and>
      hs_isDefault (g c) = (if hs_id c = hs_id h then hs_isDefault c else chosen = Some (hs_id c))"
  shows "map_option hs_id (chosenDefault (map g grp) p) = chosen"
proof -
  have same: "List.find P (map g grp) = map_option g (List.find P grp)"
    if "\<forall>c \<in> set grp. P (g c) = P c" for P
    unfolding find_map by (intro arg_cong [of _ _ "map_option g"] find_cong refl) (use that in auto)
  have s1: "List.find (\<lambda>c. hs_enabled c \<and> Some (hs_id c) = p) (map g grp) =
      map_option g (List.find (\<lambda>c. hs_enabled c \<and> Some (hs_id c) = p) grp)"
    by (rule same) (use g in auto)
  have s3: "List.find hs_enabled (map g grp) = map_option g (List.find hs_enabled grp)"
    by (rule same) (use g in auto)
  show ?thesis
  proof (cases "List.find (\<lambda>c. hs_enabled c \<and> Some (hs_id c) = p) grp")
    case (Some c)
    then have "c \<in> set grp" by (auto simp: find_Some_iff)
    then show ?thesis using Some s1 g by (simp add: chosen_def chosenDefault_def)
  next
    case none: None
    have nh: "\<not> (hs_enabled h \<and> hs_isDefault h)" if "c \<in> set grp" "hs_id c = hs_id h" for c
      using none flags that by (auto simp: find_None_iff p_def split: if_splits)
    have two: "chosenDefault (map g grp) p = (case List.find (\<lambda>c. hs_enabled c \<and> hs_isDefault c) (map g grp) of
        Some c \<Rightarrow> Some c | None \<Rightarrow> map_option g (List.find hs_enabled grp))"
      using none s1 s3 by (simp add: chosenDefault_def cong: option.case_cong)
    have hit: "\<exists>x \<in> set grp. d = g x \<and> hs_enabled x \<and> hs_id x \<noteq> hs_id h \<and> chosen = Some (hs_id x)"
      if f: "List.find (\<lambda>c. hs_enabled c \<and> hs_isDefault c) (map g grp) = Some d" for d
    proof -
      obtain x where x: "x \<in> set grp" "d = g x" "hs_enabled (g x)" "hs_isDefault (g x)"
        using f by (auto simp: find_Some_iff) (metis nth_mem)
      then have "hs_id x \<noteq> hs_id h" using nh flags g by auto
      then show ?thesis using x g by auto
    qed
    show ?thesis
    proof (cases "List.find (\<lambda>c. hs_enabled c \<and> hs_isDefault c) (map g grp)")
      case (Some d)
      then obtain x where "x \<in> set grp" "d = g x" "chosen = Some (hs_id x)" using hit by blast
      then show ?thesis using two Some g by simp
    next
      case None
      then have nod: "\<forall>x \<in> set grp. hs_enabled x \<longrightarrow> \<not> hs_isDefault (g x)" using g by (auto simp: find_None_iff)
      show ?thesis
      proof (cases "chosenDefault grp p")
        case n: None
        then have "List.find hs_enabled grp = None" using chosen_none by (auto simp: find_None_iff list_ex_iff)
        then show ?thesis using two None n by (simp add: chosen_def)
      next
        case (Some c)
        then have c: "c \<in> set grp" "hs_enabled c" using chosen_in by blast+
        have "chosen = Some (hs_id c)" using Some by (simp add: chosen_def)
        then have "hs_isDefault (g c)" if "hs_id c \<noteq> hs_id h" using that g c(1) by simp
        then have "hs_id c = hs_id h" using nod c by blast
        then have "\<not> hs_isDefault c" using nh flags c by auto
        then have "List.find (\<lambda>c. hs_enabled c \<and> hs_isDefault c) grp = None"
          using Some none by (auto simp: chosenDefault_def find_Some_iff split: option.splits)
        then have "List.find hs_enabled grp = Some c" using Some none by (simp add: chosenDefault_def)
        then show ?thesis using two None Some c g by (simp add: chosen_def)
      qed
    qed
  qed
qed

lemma enabledSet_again:
  assumes w: "jwf (hs_optional h)"
  shows "replaceHarnessAndNormalizeDefaults h (replaceHarnessAndNormalizeDefaults h s) =
    replaceHarnessAndNormalizeDefaults h s"
proof -
  define e where "e = hs_environmentId h"
  define k where "k = hs_driverKind h"
  define p where "p = (if hs_enabled h \<and> hs_isDefault h then Some (hs_id h) else None)"
  define H where "H = replaceHarnesses h (sn_harnesses s)"
  define chosen where "chosen = map_option hs_id (chosenDefault (filter (sameGroup e k) H) p)"
  define f where "f = normalized e k chosen"
  define g where "g y = (if hs_id y = hs_id h then y else f y)" for y
  have N: "normalizeHarnessDefaults H e k p = map f H" by (simp add: normalize_map f_def chosen_def)
  have flags: "\<forall>c \<in> set H. hs_id c = hs_id h \<longrightarrow> spreadHarness c h = c \<and> hs_enabled c = hs_enabled h \<and> hs_isDefault c = hs_isDefault h"
    by (auto simp: H_def replaceHarnesses_def spread_again [OF w])
  have R: "replaceHarnesses h (map f H) = map g H"
    using flags by (auto simp: replaceHarnesses_def g_def f_def)
  have sg: "sameGroup e k (g c) = sameGroup e k c" for c by (simp add: g_def f_def)
  have "map_option hs_id (chosenDefault (map g (filter (sameGroup e k) H)) p) = chosen"
    unfolding chosen_def p_def
    by (rule chosen_again)
       (use flags in \<open>auto simp: g_def f_def normalized_def chosen_def p_def\<close>)
  then have "map_option hs_id (chosenDefault (filter (sameGroup e k) (map g H)) p) = chosen"
    by (simp add: filter_map o_def sg)
  then have "normalizeHarnessDefaults (map g H) e k p = map f (map g H)" by (simp add: normalize_map f_def)
  also have "\<dots> = map f H" by (simp add: g_def f_def)
  finally have "normalizeHarnessDefaults (replaceHarnesses h (map f H)) e k p = map f H" using R by simp
  then show ?thesis
    by (simp add: replaceHarnessAndNormalizeDefaults_def e_def k_def p_def H_def N [unfolded e_def k_def p_def H_def])
qed


text \<open>Every Request is held once, by the Thread it came from.\<close>

definition requests_wf :: "host_snapshot \<Rightarrow> bool" where
  "requests_wf s \<longleftrightarrow> jwf (sn_requests s) \<and> distinct (map hr_id (concat (jvalues (sn_requests s)))) \<and>
     list_all (\<lambda>(t, rs). list_all (\<lambda>r. hr_originatingThreadId r = t) rs) (sn_requests s)"

lemma find_mem: "List.find P xs = Some x \<Longrightarrow> x \<in> set xs \<and> P x"
  by (auto simp: find_Some_iff)

lemma resolve_again:
  assumes wf: "requests_wf s"
  shows "resolveRequest i (resolveRequest i s) = resolveRequest i s"
proof (cases "List.find (\<lambda>r. hr_id r = i) (concat (jvalues (sn_requests s)))")
  case None
  then show ?thesis by (simp add: resolveRequest_def)
next
  case (Some r)
  let ?s = "resolveRequest i s"
  let ?all = "concat (jvalues (sn_requests s))"
  have r: "r \<in> set ?all" "hr_id r = i" using find_mem [OF Some] by blast+
  define t where "t = hr_originatingThreadId r"
  define left where "left = filter (\<lambda>r. hr_id r \<noteq> i) (case jget (sn_requests s) t of None \<Rightarrow> [] | Some rs \<Rightarrow> rs)"
  have s: "sn_requests ?s = jset t left (sn_requests s)"
      "sn_waitingRequests ?s = filter (\<lambda>r. hr_id r \<noteq> i) (sn_waitingRequests s)"
    using Some by (simp_all add: resolveRequest_def t_def left_def Let_def)
  have "hr_id q \<noteq> i" if q: "q \<in> set (concat (jvalues (sn_requests ?s)))" for q
  proof
    assume i: "hr_id q = i"
    obtain t' rs where rs: "(t', rs) \<in> set (sn_requests ?s)" "q \<in> set rs" using q by auto
    have "jwf (sn_requests ?s)" using wf s by (simp add: requests_wf_def)
    then have get: "jget (sn_requests ?s) t' = Some rs" using rs(1) jget_mem by metis
    have "t' \<noteq> t" using get rs(2) i s by (auto simp: jget_set left_def)
    then have m: "(t', rs) \<in> set (sn_requests s)" using get s by (simp add: jget_set map_of_SomeD)
    then have "q \<in> set ?all" using rs(2) by (force intro: bexI [of _ "(t', rs)"])
    then have "q = r" using r i wf by (metis distinct_map inj_on_eq_iff requests_wf_def)
    moreover have "hr_originatingThreadId q = t'" using wf m rs(2) by (auto simp: requests_wf_def list_all_iff)
    ultimately show False using \<open>t' \<noteq> t\<close> by (simp add: t_def)
  qed
  then have "List.find (\<lambda>r. hr_id r = i) (concat (jvalues (sn_requests ?s))) = None" by (auto simp: find_None_iff)
  then show ?thesis using s by (subst resolveRequest_def) simp
qed

text \<open>An answer whose patch can be applied again: a deletion is of the profile it names, a harness has
  each property once, Requests are held once; and it does not create a Workspace.\<close>

definition repeatable :: "host_snapshot \<Rightarrow> command_patch \<Rightarrow> bool" where
  "repeatable s patch =
     (case patch of
        ProfileDelete i d \<Rightarrow> (case d of None \<Rightarrow> True | Some d \<Rightarrow> pd_profileId d = i)
      | HarnessDefaultSet h \<Rightarrow> jwf (hs_optional h)
      | HarnessEnabledSet h \<Rightarrow> jwf (hs_optional h)
      | HarnessRename h \<Rightarrow> jwf (hs_optional h)
      | RequestRespond i \<Rightarrow> requests_wf s
      | WorkspaceCreate w \<Rightarrow> False
      | _ \<Rightarrow> True)"

text \<open>Applying an answer twice is applying it once, so an answer redelivered, or drawn once by the command and
  once by the reducer, changes nothing. Creating a Workspace is the exception: it counts the Workspace again.
\<close>

theorem patches_idempotent:
  assumes "repeatable s patch"
  shows "applyOptimisticCommandPatch collate collateTime patch (applyOptimisticCommandPatch collate collateTime patch s) =
    applyOptimisticCommandPatch collate collateTime patch s"
proof -
  note a = applyOptimisticCommandPatch_def
  show ?thesis
  proof (cases patch)
    case (ProfileDelete i d)
    then show ?thesis using assms
      by (cases d; cases "sn_browserProfileDeletions s") (simp_all add: a deleteProfile_def repeatable_def conj_commute)
  next
    case (HarnessRename h)
    then show ?thesis using assms by (simp add: a replaceHarness_def replaceHarnesses_again repeatable_def)
  next
    case (ThreadSharedDoneSet t)
    then show ?thesis by (auto simp: a sharedDone_def replaceThread_def)
  qed (use assms in \<open>simp_all add: a repeatable_def upsertBrowserProfile_def grantProfile_def revokeProfileGrant_def
      renameProfile_def closeSession_def startSession_def delete_again defaultSet_again enabledSet_again resolve_again
      interrupt_again replaceThread_again createThread_again withdraw_again drop_again send_again replaceWorkspace_def\<close>)
qed

theorem patches_idempotent_witness:
  "let s = exampleSnapshot [exampleHarness ''a'' True False, exampleHarness ''b'' True True];
       p = HarnessEnabledSet (exampleHarness ''a'' False False)
   in applyOptimisticCommandPatch length id p (applyOptimisticCommandPatch length id p s) = applyOptimisticCommandPatch length id p s"
  unfolding Let_def by (rule patches_idempotent) (simp add: repeatable_def exampleHarness_def)

text \<open>
  Creating a Workspace the client already holds, as when its event arrived first or the answer is
  redelivered, leaves one copy of it but counts one more.
\<close>

theorem workspace_create_overcounts:
  "sn_workspaces (createWorkspace w (createWorkspace w s)) = sn_workspaces (createWorkspace w s) \<and>
   ww_itemCount (sn_workspaceWindow (createWorkspace w (createWorkspace w s))) =
     Suc (ww_itemCount (sn_workspaceWindow (createWorkspace w s)))"
  by (simp add: createWorkspace_def)

end
