(* ===== verification/Base64_Url.thy ===== *)
theory Base64_Url
  imports OS_Prelude "HOL-Library.Word"
begin

unbundle bit_operations_syntax

text \<open>
  Unpadded base64url, strictly (packages/shared/src/base64url.ts). Bytes are 8-bit words, the decoder's
  accumulator is the 32-bit integer JavaScript's bit operations work on: it is shifted and never cleared, so
  its upper bits are lost. A string is its UTF-16 code units; a character outside the alphabet is
  refused whether it is read as one code point or as two units.
\<close>

datatype base64_error = ImpossibleLength | OutsideAlphabet | TrailingBits

definition alphabet :: "utf16" where
  "alphabet = [65..<91] @ [97..<123] @ [48..<58] @ [45, 95]"

definition digitOf :: "nat \<Rightarrow> nat option" where
  "digitOf character = map_of (zip alphabet [0..<64]) character"

text \<open>One turn of the loop: three bytes, or the one or two that are left.\<close>

fun encodeBase64Url :: "8 word list \<Rightarrow> utf16" where
  "encodeBase64Url [] = []"
| "encodeBase64Url [first] =
     [alphabet ! unat (drop_bit 2 first), alphabet ! unat (push_bit 4 (first AND 0x03) OR drop_bit 4 (0 :: 8 word))]"
| "encodeBase64Url [first, second] =
     [alphabet ! unat (drop_bit 2 first), alphabet ! unat (push_bit 4 (first AND 0x03) OR drop_bit 4 second),
      alphabet ! unat (push_bit 2 (second AND 0x0f) OR drop_bit 6 (0 :: 8 word))]"
| "encodeBase64Url (first # second # third # rest) =
     alphabet ! unat (drop_bit 2 first) # alphabet ! unat (push_bit 4 (first AND 0x03) OR drop_bit 4 second) #
     alphabet ! unat (push_bit 2 (second AND 0x0f) OR drop_bit 6 third) # alphabet ! unat (third AND 0x3f) #
     encodeBase64Url rest"

record decoder =
  dc_accumulator :: "32 word"
  dc_bits :: nat
  dc_offset :: nat
  dc_bytes :: "8 word list"

text \<open>One character; a write past the end of the array is ignored, as a typed array ignores it.\<close>

definition decodeDigit :: "nat \<Rightarrow> decoder \<Rightarrow> decoder" where
  "decodeDigit digit d =
     (let accumulator = push_bit 6 (dc_accumulator d) OR word_of_nat digit;
          bits = dc_bits d + 6
      in if bits \<ge> 8
         then \<lparr>dc_accumulator = accumulator, dc_bits = bits - 8, dc_offset = dc_offset d + 1,
               dc_bytes = (dc_bytes d)[dc_offset d := ucast (signed_drop_bit (bits - 8) accumulator AND 0xff)]\<rparr>
         else d\<lparr>dc_accumulator := accumulator, dc_bits := bits\<rparr>)"

fun decodeLoop :: "utf16 \<Rightarrow> decoder \<Rightarrow> base64_error + decoder" where
  "decodeLoop [] d = Inr d"
| "decodeLoop (character # rest) d =
     (case digitOf character of
        None \<Rightarrow> Inl OutsideAlphabet
      | Some digit \<Rightarrow> decodeLoop rest (decodeDigit digit d))"

definition decodeBase64Url :: "utf16 \<Rightarrow> base64_error + 8 word list" where
  "decodeBase64Url s =
     (if length s mod 4 = 1 then Inl ImpossibleLength
      else case decodeLoop s \<lparr>dc_accumulator = 0, dc_bits = 0, dc_offset = 0,
                              dc_bytes = replicate (length s * 6 div 8) 0\<rparr> of
        Inl e \<Rightarrow> Inl e
      | Inr d \<Rightarrow>
          if dc_accumulator d AND (push_bit (dc_bits d) 1 - 1) \<noteq> 0 then Inl TrailingBits else Inr (dc_bytes d))"

definition canonicalBase64urlByteLength :: "utf16 \<Rightarrow> nat \<Rightarrow> nat \<Rightarrow> bool" where
  "canonicalBase64urlByteLength s minimum maximum =
     (case decodeBase64Url s of Inl _ \<Rightarrow> False | Inr bytes \<Rightarrow> minimum \<le> length bytes \<and> length bytes \<le> maximum)"

definition canonicalBase64urlBytes :: "utf16 \<Rightarrow> nat \<Rightarrow> bool" where
  "canonicalBase64urlBytes s n = canonicalBase64urlByteLength s n n"

section \<open>The alphabet\<close>

lemma alphabet_facts: "length alphabet = 64" "distinct alphabet"
  by (simp_all add: alphabet_def)

lemma digit_char: "n < 64 \<Longrightarrow> digitOf (alphabet ! n) = Some n"
  unfolding digitOf_def using alphabet_facts
  by (subst map_of_eq_Some_iff) (auto simp: set_zip intro!: exI [of _ n])

lemma char_digit: "digitOf c = Some n \<Longrightarrow> n < 64 \<and> c = alphabet ! n"
  unfolding digitOf_def using alphabet_facts(1) by (auto dest!: map_of_SomeD simp: set_zip)

section \<open>The decoder as arithmetic\<close>

text \<open>
  Only the low bits of the accumulator matter: the value they hold and how many there are. A character
  multiplies it by 64 and adds its digit; a whole byte is taken off the top.
\<close>

definition low :: "decoder \<Rightarrow> nat" where
  "low d = unat (dc_accumulator d) mod 2 ^ dc_bits d"

lemma low_shift:
  assumes "digit < 64" and "b \<le> 6"
  shows "unat (push_bit 6 (acc :: 32 word) OR word_of_nat digit) mod 2 ^ (b + 6) = (unat acc mod 2 ^ b) * 64 + digit"
proof -
  have d: "\<not> bit digit n" if "6 \<le> n" for n
  proof -
    have "take_bit 6 digit = digit" using assms(1) by (simp add: take_bit_nat_eq_self)
    then show ?thesis using that by (metis bit_take_bit_iff not_le)
  qed
  have "unat (push_bit 6 acc OR word_of_nat digit) mod 2 ^ (b + 6) =
      take_bit (b + 6) (push_bit 6 (unat acc) OR digit)"
    unfolding take_bit_eq_mod [symmetric]
    by (rule bit_eqI) (use assms(2) in \<open>auto simp: bit_simps unsigned_or_eq bit_unsigned_iff\<close>)
  also have "\<dots> = push_bit 6 (take_bit b (unat acc)) OR digit"
    by (rule bit_eqI) (use d in \<open>auto simp: bit_simps not_le\<close>)
  also have "\<dots> = push_bit 6 (take_bit b (unat acc)) + digit"
    by (rule disjunctive_add [symmetric]) (use d in \<open>auto simp: bit_simps\<close>)
  finally show ?thesis by (simp add: push_bit_eq_mult take_bit_eq_mod)
qed

lemma byte_off:
  assumes "k \<le> 6"
  shows "(ucast (signed_drop_bit k (acc :: 32 word) AND 0xff) :: 8 word) = word_of_nat (unat acc mod 2 ^ (k + 8) div 2 ^ k)"
proof -
  have m: "(0xff :: 32 word) = mask 8" by (simp add: mask_eq_exp_minus_1)
  have "(ucast (signed_drop_bit k acc AND 0xff) :: 8 word) = word_of_nat (drop_bit k (take_bit (k + 8) (unat acc)))"
    unfolding m
    by (intro bit_word_eqI) (use assms in \<open>auto simp: bit_simps bit_unsigned_iff min_def add.commute\<close>)
  then show ?thesis by (simp add: take_bit_eq_mod drop_bit_eq_div)
qed


lemma decodeDigit_cases:
  assumes "digit < 64" and "dc_bits d \<le> 6"
  shows "dc_bits d < 2 \<Longrightarrow> decodeDigit digit d = d\<lparr>dc_accumulator := push_bit 6 (dc_accumulator d) OR word_of_nat digit,
          dc_bits := dc_bits d + 6\<rparr> \<and> low (decodeDigit digit d) = low d * 64 + digit"
    and "2 \<le> dc_bits d \<Longrightarrow> dc_bits (decodeDigit digit d) = dc_bits d - 2 \<and>
          dc_offset (decodeDigit digit d) = Suc (dc_offset d) \<and>
          dc_bytes (decodeDigit digit d) =
            (dc_bytes d)[dc_offset d := word_of_nat ((low d * 64 + digit) div 2 ^ (dc_bits d - 2))] \<and>
          low (decodeDigit digit d) = (low d * 64 + digit) mod 2 ^ (dc_bits d - 2)"
proof -
  let ?a = "push_bit 6 (dc_accumulator d) OR word_of_nat digit"
  have l: "unat ?a mod 2 ^ (dc_bits d + 6) = low d * 64 + digit"
    using low_shift [OF assms] by (simp add: low_def)
  show "decodeDigit digit d = d\<lparr>dc_accumulator := ?a, dc_bits := dc_bits d + 6\<rparr> \<and>
      low (decodeDigit digit d) = low d * 64 + digit" if "dc_bits d < 2"
    using that l by (simp add: decodeDigit_def low_def Let_def)
  assume b: "2 \<le> dc_bits d"
  let ?k = "dc_bits d - 2"
  have k: "?k \<le> 6" "?k + 8 = dc_bits d + 6" "dc_bits d + 6 - 8 = ?k" "8 \<le> dc_bits d + 6" using assms(2) b by simp_all
  have byte: "(ucast (signed_drop_bit ?k ?a AND 0xff) :: 8 word) = word_of_nat ((low d * 64 + digit) div 2 ^ ?k)"
    using byte_off [OF k(1), of ?a] l k(2) by simp
  have "unat ?a mod 2 ^ ?k = unat ?a mod 2 ^ (dc_bits d + 6) mod 2 ^ ?k"
    by (rule mod_mod_cancel [symmetric]) (use k in \<open>auto intro: le_imp_power_dvd\<close>)
  then show "dc_bits (decodeDigit digit d) = ?k \<and> dc_offset (decodeDigit digit d) = Suc (dc_offset d) \<and>
      dc_bytes (decodeDigit digit d) = (dc_bytes d)[dc_offset d := word_of_nat ((low d * 64 + digit) div 2 ^ ?k)] \<and>
      low (decodeDigit digit d) = (low d * 64 + digit) mod 2 ^ ?k"
    using l byte k by (simp add: decodeDigit_def low_def Let_def)
qed

section \<open>Groups of digits\<close>

text \<open>What each group of up to four digits stands for: its bytes, and the bits its last digit leaves over.\<close>

fun groupBytes :: "nat list \<Rightarrow> nat list \<times> nat" where
  "groupBytes [] = ([], 0)"
| "groupBytes [a] = ([], a)"
| "groupBytes [a, b] = ([a * 4 + b div 16], b mod 16)"
| "groupBytes [a, b, c] = ([a * 4 + b div 16, (b mod 16) * 16 + c div 4], c mod 4)"
| "groupBytes (a # b # c # e # ds) =
     (case groupBytes ds of (bytes, left) \<Rightarrow>
        ((a * 4 + b div 16) # ((b mod 16) * 16 + c div 4) # ((c mod 4) * 64 + e) # bytes, left))"

fun groupDigits :: "nat list \<Rightarrow> nat list" where
  "groupDigits [] = []"
| "groupDigits [x] = [x div 4, (x mod 4) * 16]"
| "groupDigits [x, y] = [x div 4, (x mod 4) * 16 + y div 16, (y mod 16) * 4]"
| "groupDigits (x # y # z # bytes) =
     (x div 4) # ((x mod 4) * 16 + y div 16) # ((y mod 16) * 4 + z div 64) # (z mod 64) # groupDigits bytes"

lemma groupBytes_digits: "\<forall>x \<in> set bytes. x < 256 \<Longrightarrow> groupBytes (groupDigits bytes) = (bytes, 0)"
  by (induction bytes rule: groupDigits.induct) auto

lemma groupDigits_bytes:
  "groupBytes ds = (bytes, 0) \<Longrightarrow> \<forall>d \<in> set ds. d < 64 \<Longrightarrow> length ds mod 4 \<noteq> 1 \<Longrightarrow> groupDigits bytes = ds"
proof (induction ds arbitrary: bytes rule: groupBytes.induct)
  case (5 a b c e ds)
  obtain more left where g: "groupBytes ds = (more, left)" by (cases "groupBytes ds")
  then have b: "bytes = (a * 4 + b div 16) # ((b mod 16) * 16 + c div 4) # ((c mod 4) * 64 + e) # more" "left = 0"
    using "5.prems"(1) by auto
  have "groupDigits more = ds" using "5.IH" [OF g [unfolded b(2)]] "5.prems"(2,3) by auto
  then show ?case using b "5.prems"(2) by auto
qed auto

lemma groupDigits_small: "\<forall>x \<in> set bytes. x < 256 \<Longrightarrow> \<forall>d \<in> set (groupDigits bytes). d < 64"
  by (induction bytes rule: groupDigits.induct) auto

lemma groupDigits_length: "length (groupDigits bytes) mod 4 \<noteq> 1"
  by (induction bytes rule: groupDigits.induct) auto


lemma decodeLoop_digits:
  assumes "\<forall>x \<in> set ds. x < 64"
  shows "decodeLoop (map ((!) alphabet) ds) d = Inr (foldl (\<lambda>d x. decodeDigit x d) d ds)"
  using assms by (induction ds arbitrary: d) (simp_all add: digit_char)

text \<open>A decoder that has written \<open>w\<close>, has room for \<open>n\<close> more bytes and holds \<open>k\<close> bits of value \<open>r\<close>.\<close>

definition writing :: "nat list \<Rightarrow> nat \<Rightarrow> nat \<Rightarrow> nat \<Rightarrow> decoder \<Rightarrow> bool" where
  "writing w n k r d \<longleftrightarrow> dc_bits d = k \<and> dc_offset d = length w \<and>
     dc_bytes d = map word_of_nat w @ replicate n 0 \<and> low d = r"

lemma write_next: "(map word_of_nat w @ replicate (Suc n) 0)[length w := (word_of_nat x :: 8 word)] =
    map word_of_nat (w @ [x]) @ replicate n 0"
  by (simp add: list_update_append)

lemma writing_first:
  assumes "writing w n 0 0 d" and "a < 64"
  shows "writing w n 6 a (decodeDigit a d)"
proof -
  have b: "dc_bits d < 2" "dc_bits d \<le> 6" "low d = 0" using assms(1) by (simp_all add: writing_def)
  note c = decodeDigit_cases(1) [OF assms(2) b(2,1)]
  have "low (decodeDigit a d) = a" using conjunct2 [OF c] b(3) by simp
  moreover have "dc_bits (decodeDigit a d) = 6" "dc_offset (decodeDigit a d) = length w"
      "dc_bytes (decodeDigit a d) = map word_of_nat w @ replicate n 0"
    using conjunct1 [OF c] assms(1) by (simp_all add: writing_def)
  ultimately show ?thesis by (simp add: writing_def)
qed

text \<open>What two neighbouring digits hold at each place of a group.\<close>

lemma group_arith:
  fixes q a :: nat
  shows "(q * 64 + a) div 2 ^ 4 = q * 4 + a div 16" "(q * 64 + a) mod 2 ^ 4 = a mod 16"
    and "(q * 64 + a) div 2 ^ 2 = q * 16 + a div 4" "(q * 64 + a) mod 2 ^ 2 = a mod 4"
    and "(q * 64 + a) div 2 ^ 0 = q * 64 + a" "(q * 64 + a) mod 2 ^ 0 = 0"
proof -
  have e: "q * 64 + a = a + (q * 4) * 16" "q * 64 + a = a + (q * 16) * 4" by simp_all
  have p: "2 ^ 4 = (16 :: nat)" "2 ^ 2 = (4 :: nat)" by simp_all
  show "(q * 64 + a) div 2 ^ 4 = q * 4 + a div 16" unfolding e(1) p by (rule div_mult_self1) simp
  show "(q * 64 + a) mod 2 ^ 4 = a mod 16" unfolding e(1) p by (rule mod_mult_self1)
  show "(q * 64 + a) div 2 ^ 2 = q * 16 + a div 4" unfolding e(2) p by (rule div_mult_self1) simp
  show "(q * 64 + a) mod 2 ^ 2 = a mod 4" unfolding e(2) p by (rule mod_mult_self1)
qed simp_all

lemma writing_next:
  assumes "writing w (Suc n) (k + 2) r d" and "a < 64" and "k \<le> 4"
    and x: "x = (r * 64 + a) div 2 ^ k" and y: "y = (r * 64 + a) mod 2 ^ k"
  shows "writing (w @ [x]) n k y (decodeDigit a d)"
proof -
  have b: "2 \<le> dc_bits d" "dc_bits d \<le> 6" "dc_bits d - 2 = k" "low d = r" using assms(1,3) by (simp_all add: writing_def)
  note c = decodeDigit_cases(2) [OF assms(2) b(2,1), unfolded b(3,4), folded x y]
  show ?thesis using c assms(1) write_next [of w n x] unfolding writing_def by simp
qed

lemma two_digits:
  assumes "writing w (Suc n) 0 0 d" and "a < 64" "b < 64"
  shows "writing (w @ [a * 4 + b div 16]) n 4 (b mod 16) (decodeDigit b (decodeDigit a d))"
proof -
  have "writing w (Suc n) (4 + 2) a (decodeDigit a d)" using writing_first [OF assms(1,2)] by simp
  from writing_next [OF this assms(3) _ refl refl] show ?thesis unfolding group_arith by simp
qed

lemma three_digits:
  assumes "writing w (Suc (Suc n)) 0 0 d" and "a < 64" "b < 64" "c < 64"
  shows "writing (w @ [a * 4 + b div 16, (b mod 16) * 16 + c div 4]) n 2 (c mod 4)
    (decodeDigit c (decodeDigit b (decodeDigit a d)))"
proof -
  have "writing (w @ [a * 4 + b div 16]) (Suc n) (2 + 2) (b mod 16) (decodeDigit b (decodeDigit a d))"
    using two_digits [OF assms(1-3)] by simp
  from writing_next [OF this assms(4) _ refl refl] show ?thesis unfolding group_arith by simp
qed

lemma four_digits:
  assumes "writing w (Suc (Suc (Suc n))) 0 0 d" and "a < 64" "b < 64" "c < 64" "e < 64"
  shows "writing (w @ [a * 4 + b div 16, (b mod 16) * 16 + c div 4, (c mod 4) * 64 + e]) n 0 0
    (decodeDigit e (decodeDigit c (decodeDigit b (decodeDigit a d))))"
proof -
  have "writing (w @ [a * 4 + b div 16, (b mod 16) * 16 + c div 4]) (Suc n) (0 + 2) (c mod 4)
      (decodeDigit c (decodeDigit b (decodeDigit a d)))"
    using three_digits [OF assms(1-4)] by (simp only: add_0)
  from writing_next [OF this assms(5) _ refl refl] show ?thesis unfolding group_arith by simp
qed

lemma decode_groups:
  assumes "writing w (length ds * 6 div 8) 0 0 d" and "\<forall>x \<in> set ds. x < 64" and "length ds mod 4 \<noteq> 1"
  shows "dc_bytes (foldl (\<lambda>d x. decodeDigit x d) d ds) = map word_of_nat (w @ fst (groupBytes ds)) \<and>
    low (foldl (\<lambda>d x. decodeDigit x d) d ds) = snd (groupBytes ds)"
  using assms
proof (induction ds arbitrary: w d rule: groupBytes.induct)
  case 1
  then show ?case by (simp add: writing_def)
next
  case (2 a)
  then show ?case by simp
next
  case (3 a b)
  then show ?case using two_digits [of w 0 d a b] by (simp add: writing_def)
next
  case (4 a b c)
  then show ?case using three_digits [of w 0 d a b c] by (simp add: writing_def numeral_2_eq_2)
next
  case (5 a b c e ds)
  have r: "length (a # b # c # e # ds) * 6 div 8 = Suc (Suc (Suc (length ds * 6 div 8)))" by simp
  have "writing (w @ [a * 4 + b div 16, (b mod 16) * 16 + c div 4, (c mod 4) * 64 + e]) (length ds * 6 div 8) 0 0
      (decodeDigit e (decodeDigit c (decodeDigit b (decodeDigit a d))))"
    by (rule four_digits) (use "5.prems" r in auto)
  from "5.IH" [OF this] "5.prems" show ?case by (simp split: prod.splits)
qed

lemma trailing_bits:
  "(dc_accumulator d AND (push_bit (dc_bits d) 1 - 1) = 0) \<longleftrightarrow> low d = 0"
proof -
  have "dc_accumulator d AND (push_bit (dc_bits d) 1 - 1) = take_bit (dc_bits d) (dc_accumulator d)"
    by (simp add: take_bit_eq_mask mask_eq_decr_exp push_bit_eq_mult)
  moreover have "unat (take_bit (dc_bits d) (dc_accumulator d)) = low d"
    unfolding low_def unsigned_take_bit_eq by (simp only: take_bit_eq_mod)
  ultimately show ?thesis by (metis unat_0 unat_eq_zero)
qed

text \<open>Decoding, as what the groups of digits stand for.\<close>

lemma decode_digits:
  assumes "\<forall>x \<in> set ds. x < 64"
  shows "decodeBase64Url (map ((!) alphabet) ds) =
    (if length ds mod 4 = 1 then Inl ImpossibleLength
     else if snd (groupBytes ds) \<noteq> 0 then Inl TrailingBits else Inr (map word_of_nat (fst (groupBytes ds))))"
proof (cases "length ds mod 4 = 1")
  case True
  then show ?thesis by (simp add: decodeBase64Url_def)
next
  case False
  let ?d = "\<lparr>dc_accumulator = 0, dc_bits = 0, dc_offset = 0, dc_bytes = replicate (length ds * 6 div 8) 0\<rparr>"
  have "writing [] (length ds * 6 div 8) 0 0 ?d" by (simp add: writing_def low_def)
  from decode_groups [OF this assms False] show ?thesis
    using False decodeLoop_digits [OF assms, of ?d] trailing_bits by (simp add: decodeBase64Url_def)
qed

lemma decode_chars:
  assumes "decodeLoop s d = Inr d'"
  shows "\<exists>ds. s = map ((!) alphabet) ds \<and> (\<forall>x \<in> set ds. x < 64)"
  using assms
proof (induction s arbitrary: d)
  case Nil
  then show ?case by simp
next
  case (Cons c s)
  then obtain n where n: "digitOf c = Some n" by (auto split: option.splits)
  with Cons obtain ds where "s = map ((!) alphabet) ds" "\<forall>x \<in> set ds. x < 64" by fastforce
  then have "c # s = map ((!) alphabet) (n # ds) \<and> (\<forall>x \<in> set (n # ds). x < 64)" using char_digit [OF n] by simp
  then show ?case by (rule exI)
qed


section \<open>The encoder as arithmetic\<close>

lemma or_parts:
  assumes "m + s \<le> 8" and "8 - t \<le> s" and "t \<le> 8"
  shows "unat (push_bit s ((x :: 8 word) AND mask m) OR drop_bit t y) = unat x mod 2 ^ m * 2 ^ s + unat y div 2 ^ t"
proof -
  have z: "\<not> bit (unat y) (t + n)" if "s \<le> n" for n
    using that assms bit_imp_le_length [of y "t + n"] by (auto simp: bit_unsigned_iff)
  have "unat (push_bit s (x AND mask m) OR drop_bit t y) = push_bit s (take_bit m (unat x)) OR drop_bit t (unat y)"
    by (rule bit_eqI) (use assms(1) z in \<open>auto simp: bit_simps bit_unsigned_iff\<close>)
  also have "\<dots> = push_bit s (take_bit m (unat x)) + drop_bit t (unat y)"
    by (rule disjunctive_add [symmetric]) (use z in \<open>auto simp: bit_simps\<close>)
  finally show ?thesis by (simp add: push_bit_eq_mult take_bit_eq_mod drop_bit_eq_div)
qed

lemma masks: "(0x03 :: 8 word) = mask 2" "(0x0f :: 8 word) = mask 4" "(0x3f :: 8 word) = mask 6"
  by (simp_all add: mask_eq_exp_minus_1)

lemma byte_parts:
  fixes x y :: "8 word"
  shows "unat (drop_bit 2 x) = unat x div 4"
    and "unat (push_bit 4 (x AND 0x03) OR drop_bit 4 y) = unat x mod 4 * 16 + unat y div 16"
    and "unat (push_bit 2 (x AND 0x0f) OR drop_bit 6 y) = unat x mod 16 * 4 + unat y div 64"
    and "unat (x AND 0x3f) = unat x mod 64"
proof -
  show "unat (drop_bit 2 x) = unat x div 4" by (simp only: unat_drop_bit_eq) (simp only: drop_bit_eq_div, simp)
  show "unat (push_bit 4 (x AND 0x03) OR drop_bit 4 y) = unat x mod 4 * 16 + unat y div 16"
    unfolding masks using or_parts [of 2 4 4 x y] by simp
  show "unat (push_bit 2 (x AND 0x0f) OR drop_bit 6 y) = unat x mod 16 * 4 + unat y div 64"
    unfolding masks using or_parts [of 4 2 6 x y] by simp
  show "unat (x AND 0x3f) = unat x mod 64"
    unfolding masks take_bit_eq_mask [symmetric] unsigned_take_bit_eq by (simp add: take_bit_eq_mod [where 'a = nat])
qed

lemma encode_digits: "encodeBase64Url bytes = map ((!) alphabet) (groupDigits (map unat bytes))"
proof (induction bytes rule: encodeBase64Url.induct)
  case (2 x)
  show ?case using byte_parts(2) [of x 0] by (simp only: encodeBase64Url.simps groupDigits.simps list.map byte_parts(1)) simp
next
  case (3 x y)
  show ?case using byte_parts(3) [of y 0]
    by (simp only: encodeBase64Url.simps groupDigits.simps list.map byte_parts(1,2)) simp
qed (simp_all only: encodeBase64Url.simps groupDigits.simps list.map byte_parts)

section \<open>Properties\<close>

text \<open>C27: Encoding is undone by decoding, and a string decodes to bytes only if it is the one spelling the
  encoder gives them; so no two strings decode to the same bytes.
\<close>

theorem base64url_roundtrip:
  "decodeBase64Url s = Inr bytes \<longleftrightarrow> s = encodeBase64Url bytes"
proof
  assume d: "decodeBase64Url s = Inr bytes"
  then obtain d' where "decodeLoop s \<lparr>dc_accumulator = 0, dc_bits = 0, dc_offset = 0,
      dc_bytes = replicate (length s * 6 div 8) 0\<rparr> = Inr d'"
    by (auto simp: decodeBase64Url_def split: if_splits sum.splits)
  from decode_chars [OF this] obtain ds where s: "s = map ((!) alphabet) ds" and ds: "\<forall>x \<in> set ds. x < 64" by blast
  have g: "length ds mod 4 \<noteq> 1" "groupBytes ds = (fst (groupBytes ds), 0)" "bytes = map word_of_nat (fst (groupBytes ds))"
    using d decode_digits [OF ds] s by (auto simp: prod_eq_iff split: if_splits)
  have b: "\<forall>x \<in> set (fst (groupBytes ds)). x < 256"
    using ds by (induction ds rule: groupBytes.induct) (auto split: prod.splits)
  have "map unat bytes = fst (groupBytes ds)"
    unfolding g(3) map_map by (rule map_idI) (use b in \<open>auto simp: unat_of_nat take_bit_eq_mod\<close>)
  then show "s = encodeBase64Url bytes"
    using s groupDigits_bytes [OF g(2) ds g(1)] by (simp add: encode_digits)
next
  assume s: "s = encodeBase64Url bytes"
  have "unat (w :: 8 word) < 256" for w using unsigned_less [of w] by simp
  then have b: "\<forall>x \<in> set (map unat bytes). x < 256" by simp
  show "decodeBase64Url s = Inr bytes"
    unfolding s encode_digits decode_digits [OF groupDigits_small [OF b]]
    using groupDigits_length groupBytes_digits [OF b] by (simp add: map_idI)
qed

end
