(* ===== verification/Host_Attachment.thy ===== *)
theory Host_Attachment
  imports JS_Text Base64_Url
begin

text \<open>
  How a client reaches a Deployment: which Host a catalog row is
  (packages/deployment-authority/src/fingerprint.ts), which address and access it has
  (packages/client/src/connections/connection-resolver.ts), and the fence that tells its work when that
  changed (packages/client/src/connections/host-attachment-fence.ts). SHA-256 is a parameter. The attachment
  key, a \<open>JSON.stringify\<close> of six values that is only ever compared, is the record of those values.
\<close>

section \<open>Host identity\<close>

record host_authority =
  ha_deploymentId :: ident
  ha_hostInstanceId :: ident
  ha_canonicalOrigin :: ident
  ha_spki :: utf16

record host_identity =
  hi_deploymentId :: ident
  hi_hostInstanceId :: ident
  hi_hostKeyFingerprint :: utf16

datatype connection_error =
    BadHostKey base64_error | DirectRouteGone | NoCanonicalEndpoint | RouteUnavailable | CredentialFailed
  | InvalidHeader | NothingSelected | DeploymentGone

definition hostKeyFingerprint :: "(8 word list \<Rightarrow> 8 word list) \<Rightarrow> utf16 \<Rightarrow> connection_error + utf16" where
  "hostKeyFingerprint sha256 spki =
     (case decodeBase64Url spki of
        Inl e \<Rightarrow> Inl (BadHostKey e)
      | Inr bytes \<Rightarrow> Inr (lit ''sha256:'' @ encodeBase64Url (sha256 bytes)))"

definition hostIdentityReference :: "(8 word list \<Rightarrow> 8 word list) \<Rightarrow> host_authority + host_identity
    \<Rightarrow> connection_error + host_identity" where
  "hostIdentityReference sha256 i =
     (case i of
        Inr r \<Rightarrow> Inr r
      | Inl a \<Rightarrow> (case hostKeyFingerprint sha256 (ha_spki a) of
          Inl e \<Rightarrow> Inl e
        | Inr f \<Rightarrow> Inr \<lparr>hi_deploymentId = ha_deploymentId a, hi_hostInstanceId = ha_hostInstanceId a,
                         hi_hostKeyFingerprint = f\<rparr>))"

definition isSameHost :: "(8 word list \<Rightarrow> 8 word list) \<Rightarrow> host_authority + host_identity
    \<Rightarrow> host_authority + host_identity \<Rightarrow> connection_error + bool" where
  "isSameHost sha256 left right =
     (case hostIdentityReference sha256 left of
        Inl e \<Rightarrow> Inl e
      | Inr l \<Rightarrow> (case hostIdentityReference sha256 right of
          Inl e \<Rightarrow> Inl e
        | Inr r \<Rightarrow> Inr (hi_deploymentId l = hi_deploymentId r \<and> hi_hostInstanceId l = hi_hostInstanceId r \<and>
                       hi_hostKeyFingerprint l = hi_hostKeyFingerprint r)))"

section \<open>Connections\<close>

record access_route = ar_kind :: ident ar_origin :: ident ar_generation :: nat

datatype endpoint = CanonicalEndpoint ident | DirectEndpoint ident

fun endpointOrigin :: "endpoint \<Rightarrow> ident" where
  "endpointOrigin (CanonicalEndpoint ep) = ep"
| "endpointOrigin (DirectEndpoint ep) = ep"

text \<open>\<open>Routed\<close> carries the signed route, if the directory has one, and the account's liveness.\<close>

datatype reachability = CanonicalReach | Routed "access_route option" "utf16 option"

record host_connection =
  hc_personal :: bool
  hc_authority :: host_authority
  hc_bootstrapMethods :: "ident list"
  hc_endpoints :: "endpoint list"
  hc_reachability :: reachability
  hc_preferredEndpointOrigin :: "ident option"

record local_runtime = lr_authority :: host_authority lr_localOrigin :: ident

datatype desktop_access = Owner | Native | RouteAccess ident

record attachment_key =
  ak_deploymentId :: ident
  ak_hostInstanceId :: ident
  ak_fingerprint :: utf16
  ak_origin :: ident
  ak_access :: desktop_access
  ak_generation :: "nat option"

record connection_access =
  cx_access :: "desktop_access option"
  cx_accountLivenessExpiresAt :: "utf16 option"
  cx_canonicalOrigin :: ident
  cx_deploymentId :: ident
  cx_hasSignedRoute :: bool
  cx_hasVerifiedRoute :: bool
  cx_key :: "attachment_key option"
  cx_origin :: ident
  cx_route :: "access_route option"

record resolved_connection =
  rs_access :: desktop_access
  rs_authorization :: "utf16 option"
  rs_bootstrapMethods :: "ident list"
  rs_canonicalOrigin :: ident
  rs_deploymentId :: ident
  rs_key :: attachment_key
  rs_origin :: ident
  rs_route :: "access_route option"

definition attachmentKey :: "(8 word list \<Rightarrow> 8 word list) \<Rightarrow> host_connection \<Rightarrow> ident \<Rightarrow> desktop_access \<Rightarrow> nat option
    \<Rightarrow> connection_error + attachment_key" where
  "attachmentKey sha256 c address acc generation =
     (case hostKeyFingerprint sha256 (ha_spki (hc_authority c)) of
        Inl e \<Rightarrow> Inl e
      | Inr f \<Rightarrow> Inr \<lparr>ak_deploymentId = ha_deploymentId (hc_authority c), ak_hostInstanceId = ha_hostInstanceId (hc_authority c),
                       ak_fingerprint = f, ak_origin = address, ak_access = acc, ak_generation = generation\<rparr>)"

definition verifiedCanonicalOrigin :: "host_connection \<Rightarrow> connection_error + ident" where
  "verifiedCanonicalOrigin c =
     (case List.find (\<lambda>e. e = CanonicalEndpoint (ha_canonicalOrigin (hc_authority c))) (hc_endpoints c) of
        None \<Rightarrow> Inl NoCanonicalEndpoint
      | Some e \<Rightarrow> Inr (endpointOrigin e))"

definition nativeOrigin :: "host_connection \<Rightarrow> ident option \<Rightarrow> connection_error + ident" where
  "nativeOrigin c preferred =
     (case preferred of
        None \<Rightarrow> verifiedCanonicalOrigin c
      | Some p \<Rightarrow> (case List.find (\<lambda>e. e = DirectEndpoint p) (hc_endpoints c) of
          None \<Rightarrow> Inl DirectRouteGone
        | Some e \<Rightarrow> Inr (endpointOrigin e)))"

definition signedRoute :: "host_connection \<Rightarrow> access_route option" where
  "signedRoute c = (case hc_reachability c of Routed route _ \<Rightarrow> route | CanonicalReach \<Rightarrow> None)"

text \<open>\<open>{ ...common, access, hasVerifiedRoute, key, origin, route }\<close>\<close>

definition accessOf :: "host_connection \<Rightarrow> desktop_access option \<Rightarrow> bool \<Rightarrow> attachment_key option \<Rightarrow> ident
    \<Rightarrow> access_route option \<Rightarrow> connection_access" where
  "accessOf c acc verified key address route =
     \<lparr>cx_access = acc,
      cx_accountLivenessExpiresAt = (case hc_reachability c of Routed _ l \<Rightarrow> l | CanonicalReach \<Rightarrow> None),
      cx_canonicalOrigin = ha_canonicalOrigin (hc_authority c), cx_deploymentId = ha_deploymentId (hc_authority c),
      cx_hasSignedRoute = (signedRoute c \<noteq> None), cx_hasVerifiedRoute = verified, cx_key = key, cx_origin = address,
      cx_route = route\<rparr>"

text \<open>The row is the personal Host this computer runs.\<close>

definition ownsHost :: "(8 word list \<Rightarrow> 8 word list) \<Rightarrow> host_connection \<Rightarrow> local_runtime option
    \<Rightarrow> connection_error + local_runtime option" where
  "ownsHost sha256 c localRuntime =
     (case localRuntime of
        None \<Rightarrow> Inr None
      | Some r \<Rightarrow>
          if \<not> hc_personal c then Inr None
          else case isSameHost sha256 (Inl (hc_authority c)) (Inl (lr_authority r)) of
                 Inl e \<Rightarrow> Inl e
               | Inr same \<Rightarrow> Inr (if same then Some r else None))"

definition describeConnectionAccess :: "(8 word list \<Rightarrow> 8 word list) \<Rightarrow> host_connection \<Rightarrow> local_runtime option
    \<Rightarrow> connection_error + connection_access" where
  "describeConnectionAccess sha256 c localRuntime =
     (case ownsHost sha256 c localRuntime of
        Inl e \<Rightarrow> Inl e
      | Inr (Some r) \<Rightarrow>
          (case attachmentKey sha256 c (lr_localOrigin r) Owner None of
             Inl e \<Rightarrow> Inl e
           | Inr k \<Rightarrow> Inr (accessOf c (Some Owner) False (Some k) (lr_localOrigin r) None))
      | Inr None \<Rightarrow>
          (case hc_reachability c of
             Routed route _ \<Rightarrow>
               (case route of
                  Some rt \<Rightarrow>
                    if hc_preferredEndpointOrigin c \<noteq> Some (ar_origin rt)
                    then (case verifiedCanonicalOrigin c of
                            Inl e \<Rightarrow> Inl e
                          | Inr address \<Rightarrow> Inr (accessOf c None False None address route))
                    else (case attachmentKey sha256 c (ar_origin rt) (RouteAccess (ar_kind rt)) (Some (ar_generation rt)) of
                            Inl e \<Rightarrow> Inl e
                          | Inr k \<Rightarrow> Inr (accessOf c (Some (RouteAccess (ar_kind rt))) True (Some k) (ar_origin rt) route))
                | None \<Rightarrow>
                    (case verifiedCanonicalOrigin c of
                       Inl e \<Rightarrow> Inl e
                     | Inr address \<Rightarrow> Inr (accessOf c None False None address None)))
           | CanonicalReach \<Rightarrow>
               (case nativeOrigin c (hc_preferredEndpointOrigin c) of
                  Inl e \<Rightarrow> Inl e
                | Inr address \<Rightarrow>
                    (case attachmentKey sha256 c address Native None of
                       Inl e \<Rightarrow> Inl e
                     | Inr k \<Rightarrow> Inr (accessOf c (Some Native) False (Some k) address None)))))"


definition resolveConnection :: "(8 word list \<Rightarrow> 8 word list) \<Rightarrow> host_connection \<Rightarrow> local_runtime option \<Rightarrow> utf16 option
    \<Rightarrow> connection_error + resolved_connection" where
  "resolveConnection sha256 c localRuntime authorization =
     (case describeConnectionAccess sha256 c localRuntime of
        Inl e \<Rightarrow> Inl e
      | Inr facts \<Rightarrow>
          (case (cx_access facts, cx_key facts) of
             (Some acc, Some key) \<Rightarrow>
               Inr \<lparr>rs_access = acc, rs_authorization = authorization, rs_bootstrapMethods = hc_bootstrapMethods c,
                    rs_canonicalOrigin = cx_canonicalOrigin facts, rs_deploymentId = cx_deploymentId facts,
                    rs_key = key, rs_origin = cx_origin facts, rs_route = cx_route facts\<rparr>
           | _ \<Rightarrow> Inl RouteUnavailable))"


section \<open>Properties\<close>

lemma key_fields:
  assumes "attachmentKey sha256 c address acc generation = Inr k"
  shows "ak_origin k = address \<and> ak_access k = acc \<and> ak_generation k = generation \<and>
    hostIdentityReference sha256 (Inl (hc_authority c)) =
      Inr \<lparr>hi_deploymentId = ak_deploymentId k, hi_hostInstanceId = ak_hostInstanceId k, hi_hostKeyFingerprint = ak_fingerprint k\<rparr>"
  using assms by (auto simp: attachmentKey_def hostIdentityReference_def split: sum.splits)





text \<open>The four shapes of an access.\<close>

lemma describe_cases:
  assumes "describeConnectionAccess sha256 c rt = Inr f"
  obtains (owner) r k where "rt = Some r" "hc_personal c" "isSameHost sha256 (Inl (hc_authority c)) (Inl (lr_authority r)) = Inr True"
      "attachmentKey sha256 c (lr_localOrigin r) Owner None = Inr k" "f = accessOf c (Some Owner) False (Some k) (lr_localOrigin r) None"
    | (verified) r k where "signedRoute c = Some r" "hc_preferredEndpointOrigin c = Some (ar_origin r)"
      "attachmentKey sha256 c (ar_origin r) (RouteAccess (ar_kind r)) (Some (ar_generation r)) = Inr k"
      "f = accessOf c (Some (RouteAccess (ar_kind r))) True (Some k) (ar_origin r) (Some r)"
    | (unreachable) address where "hc_reachability c \<noteq> CanonicalReach" "verifiedCanonicalOrigin c = Inr address"
      "f = accessOf c None False None address (signedRoute c)"
    | (native) address k where "hc_reachability c = CanonicalReach" "nativeOrigin c (hc_preferredEndpointOrigin c) = Inr address"
      "attachmentKey sha256 c address Native None = Inr k" "f = accessOf c (Some Native) False (Some k) address None"
proof -
  note d = assms [unfolded describeConnectionAccess_def]
  show thesis
  proof (cases "ownsHost sha256 c rt")
    case (Inl e)
    then show ?thesis using d by simp
  next
    case (Inr o')
    show ?thesis
    proof (cases o')
      case (Some r)
      then have "rt = Some r" "hc_personal c" "isSameHost sha256 (Inl (hc_authority c)) (Inl (lr_authority r)) = Inr True"
        using Inr by (auto simp: ownsHost_def split: option.splits sum.splits if_splits)
      then show ?thesis using d Inr Some owner by (auto split: sum.splits)
    next
      case None
      show ?thesis
      proof (cases "hc_reachability c")
        case CanonicalReach
        then show ?thesis using d Inr None native by (auto split: sum.splits)
      next
        case (Routed route live)
        show ?thesis
        proof (cases route)
          case n: None
          then show ?thesis using d Inr None Routed unreachable by (auto simp: signedRoute_def split: sum.splits)
        next
          case r: (Some rr)
          show ?thesis
          proof (cases "hc_preferredEndpointOrigin c = Some (ar_origin rr)")
            case True
            then show ?thesis using d Inr None Routed r verified by (auto simp: signedRoute_def split: sum.splits)
          next
            case False
            then show ?thesis using d Inr None Routed r unreachable by (auto simp: signedRoute_def split: sum.splits)
          qed
        qed
      qed
    qed
  qed
qed


text \<open>Equal attachment keys mean the same attachment: the same Host, by its public key, at the same address,
  with the same access and the same generation of its route.
\<close>

theorem attachment_key_identifies:
  assumes "resolveConnection sha256 c1 rt1 auth1 = Inr x1" and "resolveConnection sha256 c2 rt2 auth2 = Inr x2"
    and "rs_key x1 = rs_key x2"
  shows "isSameHost sha256 (Inl (hc_authority c1)) (Inl (hc_authority c2)) = Inr True \<and>
    rs_origin x1 = rs_origin x2 \<and> rs_access x1 = rs_access x2 \<and>
    map_option ar_generation (rs_route x1) = map_option ar_generation (rs_route x2)"
proof -
  have one: "\<exists>i. hostIdentityReference sha256 (Inl (hc_authority c)) = Inr i \<and>
      i = \<lparr>hi_deploymentId = ak_deploymentId (rs_key x), hi_hostInstanceId = ak_hostInstanceId (rs_key x),
           hi_hostKeyFingerprint = ak_fingerprint (rs_key x)\<rparr> \<and>
      rs_origin x = ak_origin (rs_key x) \<and> rs_access x = ak_access (rs_key x) \<and>
      map_option ar_generation (rs_route x) = ak_generation (rs_key x)"
    if r: "resolveConnection sha256 c rt auth = Inr x" for c rt auth x
  proof -
    obtain f where f: "describeConnectionAccess sha256 c rt = Inr f"
      using r by (auto simp: resolveConnection_def split: sum.splits)
    from f show ?thesis
      by (cases rule: describe_cases) (use r f key_fields [of sha256 c] in \<open>auto simp: resolveConnection_def accessOf_def\<close>)
  qed
  from one [OF assms(1)] one [OF assms(2)] assms(3) show ?thesis by (auto simp: isSameHost_def)
qed

definition attached_ex :: "host_connection" where
  "attached_ex = \<lparr>hc_personal = True,
     hc_authority = \<lparr>ha_deploymentId = ''dep'', ha_hostInstanceId = ''hst'', ha_canonicalOrigin = ''http://h'', ha_spki = []\<rparr>,
     hc_bootstrapMethods = [], hc_endpoints = [CanonicalEndpoint ''http://h'', DirectEndpoint ''http://d''],
     hc_reachability = CanonicalReach, hc_preferredEndpointOrigin = Some ''http://d''\<rparr>"

definition access_ex :: connection_access where
  "access_ex = accessOf attached_ex (Some Native) False
     (Some \<lparr>ak_deploymentId = ''dep'', ak_hostInstanceId = ''hst'', ak_fingerprint = lit ''sha256:'', ak_origin = ''http://d'',
            ak_access = Native, ak_generation = None\<rparr>) ''http://d'' None"

lemma describe_ex: "describeConnectionAccess id attached_ex None = Inr access_ex"
  by (simp add: describeConnectionAccess_def ownsHost_def attached_ex_def nativeOrigin_def attachmentKey_def
      hostKeyFingerprint_def decodeBase64Url_def access_ex_def accessOf_def)


theorem attachment_key_identifies_witness:
  "\<exists>x. resolveConnection id attached_ex None None = Inr x \<and>
     isSameHost id (Inl (hc_authority attached_ex)) (Inl (hc_authority attached_ex)) = Inr True"
proof -
  have "\<exists>x. resolveConnection id attached_ex None None = Inr x"
    by (simp add: resolveConnection_def describe_ex) (simp add: access_ex_def accessOf_def)
  then obtain x where x: "resolveConnection id attached_ex None None = Inr x" by blast
  then show ?thesis using attachment_key_identifies [OF x x refl] by blast
qed

end
