(* ===== verification/Attachment_Fence.thy ===== *)
theory Attachment_Fence
  imports Host_Attachment
begin

text \<open>
  The fence every client shares (packages/client/src/connections/host-attachment-fence.ts). A refresh is two
  steps, since others run between them: it takes a turn when it begins and settles with what it read once
  its awaits are over. Calls that await are named by their caller; a superseded refresh begins again for
  the same caller. Effects are the releases and listeners called and the answers given, in order.
\<close>

record deployment_catalog =
  dg_selectedDeploymentId :: "ident option"
  dg_deployments :: "host_connection list"

text \<open>\<open>fe_selectedKey\<close>: not resolved yet (\<open>undefined\<close>), or the key, or none.\<close>

record fence =
  fe_deploymentId :: "ident option"
  fe_listeners :: "ident list"
  fe_releases :: "ident list"
  fe_selectedKey :: "attachment_key option option"
  fe_generation :: nat
  fe_refreshes :: nat
  fe_appliedRefresh :: nat
  fe_calls :: "(ident, nat) jsmap"

datatype fence_effect =
    Released ident
  | Notified ident
  | Answered ident "(host_connection \<times> resolved_connection) option"
  | Failed ident connection_error

section \<open>Operations\<close>

definition newFence :: "ident option \<Rightarrow> fence" where
  "newFence deploymentId = \<lparr>fe_deploymentId = deploymentId, fe_listeners = [], fe_releases = [],
     fe_selectedKey = None, fe_generation = 0, fe_refreshes = 0, fe_appliedRefresh = 0, fe_calls = []\<rparr>"

definition currentKey :: "fence \<Rightarrow> attachment_key option" where
  "currentKey f = (case fe_selectedKey f of Some k \<Rightarrow> k | None \<Rightarrow> None)"

definition fenceSubscribe :: "ident \<Rightarrow> fence \<Rightarrow> fence" where
  "fenceSubscribe l f = (if l \<in> set (fe_listeners f) then f else f\<lparr>fe_listeners := fe_listeners f @ [l]\<rparr>)"

definition fenceUnsubscribe :: "ident \<Rightarrow> fence \<Rightarrow> fence" where
  "fenceUnsubscribe l f = f\<lparr>fe_listeners := filter (\<lambda>x. x \<noteq> l) (fe_listeners f)\<rparr>"

definition onInvalidated :: "ident \<Rightarrow> fence \<Rightarrow> fence" where
  "onInvalidated r f = (if r \<in> set (fe_releases f) then f else f\<lparr>fe_releases := fe_releases f @ [r]\<rparr>)"

definition dropRelease :: "ident \<Rightarrow> fence \<Rightarrow> fence" where
  "dropRelease r f = f\<lparr>fe_releases := filter (\<lambda>x. x \<noteq> r) (fe_releases f)\<rparr>"

definition superseded :: "nat \<Rightarrow> fence \<Rightarrow> fence \<times> bool" where
  "superseded turn f = (if turn < fe_appliedRefresh f then (f, True) else (f\<lparr>fe_appliedRefresh := turn\<rparr>, False))"

definition invalidate :: "fence \<Rightarrow> fence \<times> fence_effect list" where
  "invalidate f = (f\<lparr>fe_generation := fe_generation f + 1\<rparr>, map Released (fe_releases f) @ map Notified (fe_listeners f))"

definition applySelection :: "attachment_key option \<Rightarrow> fence \<Rightarrow> fence \<times> fence_effect list" where
  "applySelection key f =
     (let changed = (fe_selectedKey f \<noteq> None \<and> fe_selectedKey f \<noteq> Some key);
          f' = f\<lparr>fe_selectedKey := Some key\<rparr>
      in if changed then invalidate f' else (f', []))"

text \<open>What the credential provider answered, \<open>None\<close> when it failed, and the header it may be used as.\<close>

definition authorizationHeader :: "utf16 option option \<Rightarrow> connection_error + utf16 option" where
  "authorizationHeader credential =
     (case credential of
        None \<Rightarrow> Inl CredentialFailed
      | Some None \<Rightarrow> Inr None
      | Some (Some value) \<Rightarrow>
          if length value < 8 \<or> length value > 16384 \<or> list_ex (\<lambda>u. u = 13 \<or> u = 10) value then Inl InvalidHeader
          else Inr (Some value))"

definition selectedConnection :: "fence \<Rightarrow> deployment_catalog \<Rightarrow> host_connection option" where
  "selectedConnection f catalog =
     (let deploymentId = (case fe_deploymentId f of Some d \<Rightarrow> Some d | None \<Rightarrow> dg_selectedDeploymentId catalog)
      in List.find (\<lambda>c. Some (ha_deploymentId (hc_authority c)) = deploymentId) (dg_deployments catalog))"

definition beginRefresh :: "ident \<Rightarrow> fence \<Rightarrow> fence" where
  "beginRefresh caller f = f\<lparr>fe_refreshes := fe_refreshes f + 1, fe_calls := jset caller (fe_refreshes f + 1) (fe_calls f)\<rparr>"

text \<open>What a refresh read: its connection, if there is one, and what resolving it gave.\<close>

definition refreshResult :: "(8 word list \<Rightarrow> 8 word list) \<Rightarrow> deployment_catalog \<Rightarrow> local_runtime option \<Rightarrow> utf16 option option
    \<Rightarrow> fence \<Rightarrow> (connection_error + host_connection \<times> resolved_connection) option" where
  "refreshResult sha256 catalog localRuntime credential f =
     (case selectedConnection f catalog of
        None \<Rightarrow> None
      | Some c \<Rightarrow> Some
          (case authorizationHeader credential of
             Inl e \<Rightarrow> Inl e
           | Inr authorization \<Rightarrow>
               (case resolveConnection sha256 c localRuntime authorization of Inl e \<Rightarrow> Inl e | Inr r \<Rightarrow> Inr (c, r))))"

definition settleRefresh :: "ident \<Rightarrow> (connection_error + host_connection \<times> resolved_connection) option \<Rightarrow> fence
    \<Rightarrow> fence \<times> fence_effect list" where
  "settleRefresh caller result f =
     (case jget (fe_calls f) caller of
        None \<Rightarrow> (f, [])
      | Some turn \<Rightarrow>
          (case superseded turn (f\<lparr>fe_calls := jdel caller (fe_calls f)\<rparr>) of (f1, late) \<Rightarrow>
             case result of
               Some (Inl e) \<Rightarrow>
                 if \<not> late \<and> currentKey f1 \<noteq> None
                 then (case invalidate (f1\<lparr>fe_selectedKey := Some None\<rparr>) of (f2, effects) \<Rightarrow> (f2, effects @ [Failed caller e]))
                 else (f1, [Failed caller e])
             | None \<Rightarrow>
                 if late then (beginRefresh caller f1, [])
                 else (case applySelection None f1 of (f2, effects) \<Rightarrow> (f2, effects @ [Answered caller None]))
             | Some (Inr (c, r)) \<Rightarrow>
                 if late then (beginRefresh caller f1, [])
                 else (case applySelection (Some (rs_key r)) f1 of
                         (f2, effects) \<Rightarrow> (f2, effects @ [Answered caller (Some (c, r))]))))"

text \<open>\<open>current\<close>: a refresh that found nothing is a fault.\<close>

definition currentAttachment :: "fence \<Rightarrow> (host_connection \<times> resolved_connection) option
    \<Rightarrow> connection_error + host_connection \<times> resolved_connection" where
  "currentAttachment f selected =
     (case selected of
        Some s \<Rightarrow> Inr s
      | None \<Rightarrow> Inl (if fe_deploymentId f = None then NothingSelected else DeploymentGone))"

text \<open>A refresh whose catalog or local runtime could not be read rejects and changes nothing.\<close>

datatype fence_event =
    Begin ident
  | Settle ident deployment_catalog "local_runtime option" "utf16 option option"
  | ReadFails ident
  | Subscribe ident | Unsubscribe ident | OnInvalidated ident | DropRelease ident

definition fenceStep :: "(8 word list \<Rightarrow> 8 word list) \<Rightarrow> fence \<Rightarrow> fence_event \<Rightarrow> fence \<times> fence_effect list" where
  "fenceStep sha256 f e =
     (case e of
        Begin caller \<Rightarrow> (if jget (fe_calls f) caller = None then beginRefresh caller f else f, [])
      | Settle caller catalog localRuntime credential \<Rightarrow>
          settleRefresh caller (refreshResult sha256 catalog localRuntime credential f) f
      | ReadFails caller \<Rightarrow> (f\<lparr>fe_calls := jdel caller (fe_calls f)\<rparr>, [])
      | Subscribe l \<Rightarrow> (fenceSubscribe l f, [])
      | Unsubscribe l \<Rightarrow> (fenceUnsubscribe l f, [])
      | OnInvalidated r \<Rightarrow> (onInvalidated r f, [])
      | DropRelease r \<Rightarrow> (dropRelease r f, []))"

section \<open>Reads\<close>

text \<open>
  The turns of the refreshes that have settled, each with the key it read (none when there was no
  connection or it could not be resolved); superseded ones too.
\<close>

definition keyRead :: "(connection_error + host_connection \<times> resolved_connection) option \<Rightarrow> attachment_key option" where
  "keyRead result = (case result of Some (Inr (_, r)) \<Rightarrow> Some (rs_key r) | _ \<Rightarrow> None)"

definition readOf :: "(8 word list \<Rightarrow> 8 word list) \<Rightarrow> fence \<Rightarrow> fence_event \<Rightarrow> (nat \<times> attachment_key option) list" where
  "readOf sha256 f e =
     (case e of
        Settle caller catalog localRuntime credential \<Rightarrow>
          (case jget (fe_calls f) caller of
             None \<Rightarrow> []
           | Some turn \<Rightarrow> [(turn, keyRead (refreshResult sha256 catalog localRuntime credential f))])
      | _ \<Rightarrow> [])"

type_synonym traced = "fence \<times> (nat \<times> attachment_key option) list"

definition tracedStep :: "(8 word list \<Rightarrow> 8 word list) \<Rightarrow> traced \<Rightarrow> fence_event \<Rightarrow> traced" where
  "tracedStep sha256 t e = (case t of (f, h) \<Rightarrow> (fst (fenceStep sha256 f e), readOf sha256 f e @ h))"

definition fence_inv :: "traced \<Rightarrow> bool" where
  "fence_inv t \<longleftrightarrow> (case t of (f, h) \<Rightarrow>
     jwf (fe_calls f) \<and> distinct (map snd (fe_calls f) @ map fst h) \<and>
     (\<forall>n \<in> set (map snd (fe_calls f) @ map fst h). 0 < n \<and> n \<le> fe_refreshes f) \<and>
     (\<forall>n \<in> set (map fst h). n \<le> fe_appliedRefresh f) \<and>
     (if h = [] then fe_appliedRefresh f = 0 \<and> fe_selectedKey f = None
      else (fe_appliedRefresh f, currentKey f) \<in> set h))"


section \<open>The invariant is kept\<close>

lemma jdel_split:
  assumes "jwf m" and "jget m k = Some v"
  obtains xs ys where "m = xs @ (k, v) # ys" and "jdel k m = xs @ ys"
proof -
  obtain xs ys where m: "m = xs @ (k, v) # ys" using assms(2) by (meson map_of_SomeD split_list)
  then have "k \<notin> fst ` set xs" "k \<notin> fst ` set ys" using assms(1) by (auto simp: jwf_def)
  then have "jdel k m = xs @ ys"
    using m jdel_fresh [of k xs] jdel_fresh [of k ys] by (simp add: AList.delete_eq)
  then show ?thesis using m that by blast
qed

lemma begin_fields [simp]:
  "fe_selectedKey (beginRefresh c f) = fe_selectedKey f" "fe_appliedRefresh (beginRefresh c f) = fe_appliedRefresh f"
  "fe_generation (beginRefresh c f) = fe_generation f" "currentKey (beginRefresh c f) = currentKey f"
  "fe_refreshes (beginRefresh c f) = Suc (fe_refreshes f)"
  by (simp_all add: beginRefresh_def currentKey_def)

lemma refresh_begin_inv:
  assumes i: "fence_inv (f, h)" and c: "jget (fe_calls f) caller = None"
  shows "fence_inv (beginRefresh caller f, h)"
proof -
  have calls: "fe_calls (beginRefresh caller f) = fe_calls f @ [(caller, Suc (fe_refreshes f))]"
    using c by (simp add: beginRefresh_def jset_fresh map_of_eq_None_iff)
  define N where "N = set (map snd (fe_calls f) @ map fst h)"
  have o: "jwf (fe_calls f)" "distinct (map snd (fe_calls f) @ map fst h)" "\<forall>n \<in> N. 0 < n \<and> n \<le> fe_refreshes f"
    using i by (simp_all add: fence_inv_def N_def)
  have n: "Suc (fe_refreshes f) \<notin> N" using o(3) by (meson Suc_n_not_le_n)
  have w: "jwf (fe_calls (beginRefresh caller f))" using o(1) by (simp add: beginRefresh_def)
  have d: "distinct (map snd (fe_calls (beginRefresh caller f)) @ map fst h)"
    using o(2) n unfolding calls N_def by auto
  have b: "\<forall>n \<in> set (map snd (fe_calls (beginRefresh caller f)) @ map fst h). 0 < n \<and> n \<le> Suc (fe_refreshes f)"
    using o(3) unfolding calls N_def by (auto intro: le_SucI)
  show ?thesis using i w d b by (simp add: fence_inv_def)
qed

lemma invalidate_fields [simp]:
  "fe_calls (fst (invalidate f)) = fe_calls f" "fe_selectedKey (fst (invalidate f)) = fe_selectedKey f"
  "fe_appliedRefresh (fst (invalidate f)) = fe_appliedRefresh f" "fe_refreshes (fst (invalidate f)) = fe_refreshes f"
  "fe_generation (fst (invalidate f)) = Suc (fe_generation f)" "currentKey (fst (invalidate f)) = currentKey f"
  by (simp_all add: invalidate_def currentKey_def)

lemma apply_fields [simp]:
  "fe_calls (fst (applySelection key f)) = fe_calls f" "fe_selectedKey (fst (applySelection key f)) = Some key"
  "fe_appliedRefresh (fst (applySelection key f)) = fe_appliedRefresh f"
  "fe_refreshes (fst (applySelection key f)) = fe_refreshes f" "currentKey (fst (applySelection key f)) = key"
  by (simp_all add: applySelection_def Let_def currentKey_def)

text \<open>What settling a refresh leaves: a late one changes nothing but its own call, one in time decides the key.\<close>

lemma settle_late:
  assumes "jget (fe_calls f) caller = Some turn" and "turn < fe_appliedRefresh f"
  defines "f0 \<equiv> f\<lparr>fe_calls := jdel caller (fe_calls f)\<rparr>"
  shows "fst (settleRefresh caller result f) = f0 \<or> fst (settleRefresh caller result f) = beginRefresh caller f0"
  using assms by (auto simp: settleRefresh_def superseded_def split: option.splits sum.splits)

lemma settle_in_time:
  fixes result :: "(connection_error + host_connection \<times> resolved_connection) option"
  assumes "jget (fe_calls f) caller = Some turn" and "\<not> turn < fe_appliedRefresh f"
  defines "g \<equiv> fst (settleRefresh caller result f)"
  shows "fe_calls g = jdel caller (fe_calls f) \<and> fe_appliedRefresh g = turn \<and> fe_refreshes g = fe_refreshes f \<and>
    currentKey g = keyRead result"
  using assms
  by (auto simp: settleRefresh_def superseded_def keyRead_def currentKey_def split: option.splits sum.splits prod.splits)
     (auto simp: applySelection_def invalidate_def Let_def split: if_splits)

lemma remove_call_inv:
  assumes i: "fence_inv (f, h)"
  shows "fence_inv (f\<lparr>fe_calls := jdel caller (fe_calls f)\<rparr>, h)"
proof (cases "jget (fe_calls f) caller")
  case None
  then show ?thesis using i by (simp add: jdel_fresh map_of_eq_None_iff)
next
  case (Some turn)
  have w: "jwf (fe_calls f)" using i by (simp add: fence_inv_def)
  from w Some obtain xs ys where s: "fe_calls f = xs @ (caller, turn) # ys" "jdel caller (fe_calls f) = xs @ ys"
    by (rule jdel_split)
  define f1 where "f1 = f\<lparr>fe_calls := jdel caller (fe_calls f)\<rparr>"
  have f1: "fe_calls f1 = xs @ ys" "fe_refreshes f1 = fe_refreshes f" "fe_appliedRefresh f1 = fe_appliedRefresh f"
      "fe_selectedKey f1 = fe_selectedKey f" "currentKey f1 = currentKey f" "jwf (xs @ ys)"
    using s(2) jwf_del [OF w, of caller] by (simp_all add: f1_def currentKey_def)
  have "fence_inv (f1, h)" using i unfolding fence_inv_def split_conv s(1) f1(1-5) by (auto simp: f1(6))
  then show ?thesis by (simp add: f1_def)
qed

lemma refresh_settle_inv:
  assumes i: "fence_inv (f, h)" and c: "jget (fe_calls f) caller = Some turn"
  shows "fence_inv (fst (settleRefresh caller result f), (turn, keyRead result) # h)"
proof -
  have w: "jwf (fe_calls f)" using i by (simp add: fence_inv_def)
  from w c obtain xs ys where s: "fe_calls f = xs @ (caller, turn) # ys" "jdel caller (fe_calls f) = xs @ ys"
    by (rule jdel_split)
  have t: "0 < turn" "turn \<le> fe_refreshes f" "turn \<notin> snd ` set (xs @ ys)" "turn \<notin> fst ` set h"
    using i s(1) by (auto simp: fence_inv_def)
  show ?thesis
  proof (cases "turn < fe_appliedRefresh f")
    case True
    define f1 where "f1 = f\<lparr>fe_calls := jdel caller (fe_calls f)\<rparr>"
    have f1: "fe_calls f1 = xs @ ys" "fe_refreshes f1 = fe_refreshes f" "fe_appliedRefresh f1 = fe_appliedRefresh f"
        "currentKey f1 = currentKey f" "jwf (xs @ ys)"
      using s(2) jwf_del [OF w, of caller] by (simp_all add: f1_def currentKey_def)
    have free: "jget (fe_calls f1) caller = None" by (simp add: f1_def jget_del)
    have "h \<noteq> []" using i True by (auto simp: fence_inv_def)
    then have "fence_inv (f1, (turn, keyRead result) # h)"
      using i t True unfolding fence_inv_def split_conv s(1) f1(1-4) by (auto simp: f1(5))
    then show ?thesis using settle_late [OF c True, of result] refresh_begin_inv free by (auto simp: f1_def)
  next
    case False
    note g = settle_in_time [OF c False, of result]
    define g1 where "g1 = fst (settleRefresh caller result f)"
    have g1: "fe_calls g1 = xs @ ys" "fe_refreshes g1 = fe_refreshes f" "fe_appliedRefresh g1 = turn"
        "currentKey g1 = keyRead result" "jwf (xs @ ys)"
      using g s(2) jwf_del [OF w, of caller] by (simp_all add: g1_def)
    have "\<forall>n \<in> set (map fst h). n \<le> turn" using i False by (auto simp: fence_inv_def)
    then have "fence_inv (g1, (turn, keyRead result) # h)"
      using i t unfolding fence_inv_def split_conv s(1) g1(1-4) by (auto simp: g1(5))
    then show ?thesis by (simp add: g1_def)
  qed
qed

lemma other_inv:
  assumes "fence_inv (f, h)" and "fe_calls g = fe_calls f" "fe_selectedKey g = fe_selectedKey f"
    "fe_appliedRefresh g = fe_appliedRefresh f" "fe_refreshes g = fe_refreshes f"
  shows "fence_inv (g, h)"
proof -
  have "currentKey g = currentKey f" using assms(3) by (simp add: currentKey_def)
  then show ?thesis using assms by (simp add: fence_inv_def)
qed

lemma traced_inv: "fence_inv t \<Longrightarrow> fence_inv (tracedStep sha256 t e)"
proof (cases t)
  case (Pair f h)
  assume i: "fence_inv t"
  show ?thesis
  proof (cases e)
    case (Begin caller)
    then show ?thesis using i Pair refresh_begin_inv by (auto simp: tracedStep_def fenceStep_def readOf_def)
  next
    case (Settle caller catalog rt cred)
    then show ?thesis using i Pair refresh_settle_inv
      by (cases "jget (fe_calls f) caller") (auto simp: tracedStep_def fenceStep_def readOf_def settleRefresh_def)
  next
    case (ReadFails caller)
    then show ?thesis using i Pair remove_call_inv by (simp add: tracedStep_def fenceStep_def readOf_def)
  qed (use i Pair in \<open>auto simp: tracedStep_def fenceStep_def readOf_def fenceSubscribe_def fenceUnsubscribe_def
      onInvalidated_def dropRelease_def elim!: other_inv\<close>)
qed

interpretation fence_reads: invariant_system "tracedStep sha256" fence_inv for sha256
  by unfold_locales (rule traced_inv)


lemma new_inv: "fence_inv (newFence d, [])"
  by (simp add: fence_inv_def newFence_def)

lemma traced_fst: "fst (foldl (tracedStep sha256) (f, h) es) = foldl (\<lambda>f e. fst (fenceStep sha256 f e)) f es"
  by (induction es arbitrary: f h) (simp_all add: tracedStep_def)

section \<open>What a step does to the generation\<close>

definition bumps :: "fence \<Rightarrow> fence \<Rightarrow> bool" where
  "bumps f g \<longleftrightarrow> fe_selectedKey f \<noteq> None \<and> fe_selectedKey g \<noteq> fe_selectedKey f"

definition stepGuards :: "fence \<Rightarrow> fence \<times> fence_effect list \<Rightarrow> bool" where
  "stepGuards f st \<longleftrightarrow> (case st of (g, effects) \<Rightarrow>
     fe_generation g = fe_generation f + (if bumps f g then 1 else 0) \<and>
     (fe_selectedKey f \<noteq> None \<longrightarrow> fe_selectedKey g \<noteq> None) \<and>
     (\<exists>answers. effects = (if bumps f g then map Released (fe_releases f) @ map Notified (fe_listeners f) else []) @ answers \<and>
        list_all (\<lambda>a. \<exists>c r e. a = Answered c r \<or> a = Failed c e) answers))"

lemma apply_guards:
  assumes "applySelection key f = (g, effects)"
  shows "fe_generation g = fe_generation f + (if bumps f g then 1 else 0)" "fe_selectedKey g = Some key"
    "effects = (if bumps f g then map Released (fe_releases f) @ map Notified (fe_listeners f) else [])"
  using assms by (auto simp: applySelection_def invalidate_def bumps_def Let_def split: if_splits)

lemma settle_guards: "stepGuards f (settleRefresh caller result f)"
proof (cases "jget (fe_calls f) caller")
  case None
  then show ?thesis by (simp add: settleRefresh_def stepGuards_def bumps_def)
next
  case (Some turn)
  show ?thesis
  proof (cases "turn < fe_appliedRefresh f")
    case True
    then show ?thesis using Some
      by (auto simp: settleRefresh_def superseded_def stepGuards_def bumps_def split: option.splits sum.splits)
  next
    case False
    let ?f1 = "f\<lparr>fe_calls := jdel caller (fe_calls f), fe_appliedRefresh := turn\<rparr>"
    have f1: "superseded turn (f\<lparr>fe_calls := jdel caller (fe_calls f)\<rparr>) = (?f1, False)" using False by (simp add: superseded_def)
    have k: "fe_selectedKey ?f1 = fe_selectedKey f" "fe_generation ?f1 = fe_generation f"
      "fe_releases ?f1 = fe_releases f" "fe_listeners ?f1 = fe_listeners f" "bumps ?f1 g = bumps f g" for g
      by (simp_all add: bumps_def)
    show ?thesis
    proof (cases result)
      case None
      obtain g eff where a: "applySelection None ?f1 = (g, eff)" by fastforce
      show ?thesis using apply_guards [OF a, unfolded k] Some None f1 a by (simp add: settleRefresh_def stepGuards_def)
    next
      case r: (Some r)
      show ?thesis
      proof (cases r)
        case (Inl e)
        then show ?thesis using Some r f1
          by (auto simp: settleRefresh_def stepGuards_def invalidate_def bumps_def currentKey_def split: option.splits)
      next
        case (Inr cr)
        obtain c x where cr: "cr = (c, x)" by fastforce
        obtain g eff where a: "applySelection (Some (rs_key x)) ?f1 = (g, eff)" by fastforce
        show ?thesis using apply_guards [OF a, unfolded k] Some r Inr cr f1 a by (simp add: settleRefresh_def stepGuards_def)
      qed
    qed
  qed
qed

lemma step_guards: "stepGuards f (fenceStep sha256 f e)"
proof (cases e)
  case (Settle caller catalog rt cred)
  then show ?thesis using settle_guards by (simp add: fenceStep_def)
qed (auto simp: fenceStep_def stepGuards_def bumps_def beginRefresh_def fenceSubscribe_def fenceUnsubscribe_def
      onInvalidated_def dropRelease_def)

section \<open>Properties\<close>

definition fenceRun :: "(8 word list \<Rightarrow> 8 word list) \<Rightarrow> fence \<Rightarrow> fence_event list \<Rightarrow> fence" where
  "fenceRun sha256 f es = foldl (\<lambda>f e. fst (fenceStep sha256 f e)) f es"

text \<open>C14: However refreshes overlap, the current key is what the newest refresh that has settled read, so a slower
  read never undoes a newer one; before the first it is unresolved.
\<close>

theorem newest_read_decides:
  fixes es :: "fence_event list" and d :: "ident option" and sha256 :: "8 word list \<Rightarrow> 8 word list"
  defines "reads \<equiv> snd (foldl (tracedStep sha256) (newFence d, []) es)"
    and "f \<equiv> fenceRun sha256 (newFence d) es"
  shows "if reads = [] then fe_selectedKey f = None
    else \<exists>n. (n, currentKey f) \<in> set reads \<and> list_all (\<lambda>(m, k). m \<le> n \<and> (m = n \<longrightarrow> k = currentKey f)) reads"
proof -
  let ?t = "foldl (tracedStep sha256) (newFence d, []) es"
  have i: "fence_inv ?t" by (rule fence_reads.run_inv [OF new_inv])
  have t: "?t = (f, reads)" by (simp add: prod_eq_iff reads_def f_def fenceRun_def traced_fst)
  show ?thesis
  proof (cases "reads = []")
    case True
    then show ?thesis using i t by (simp add: fence_inv_def)
  next
    case False
    then have n: "(fe_appliedRefresh f, currentKey f) \<in> set reads" "distinct (map fst reads)"
        "\<forall>m \<in> fst ` set reads. m \<le> fe_appliedRefresh f"
      using i t by (auto simp: fence_inv_def)
    have "m \<le> fe_appliedRefresh f \<and> (m = fe_appliedRefresh f \<longrightarrow> k = currentKey f)" if "(m, k) \<in> set reads" for m k
      using n that by (metis eq_key_imp_eq_value fst_conv imageI)
    then have "list_all (\<lambda>(m, k). m \<le> fe_appliedRefresh f \<and> (m = fe_appliedRefresh f \<longrightarrow> k = currentKey f)) reads"
      by (auto simp: list_all_iff)
    then show ?thesis using n(1) False by auto
  qed
qed

text \<open>Work that captured the generation and finds it unchanged is still attached where it was, once the fence
  had resolved; and no generation is ever taken back. Each step calls every release, then every listener,
  exactly when the resolved key changed.
\<close>

theorem generation_guards:
  "(case fenceStep sha256 f e of (g, effects) \<Rightarrow>
      \<exists>answers. effects = (if bumps f g then map Released (fe_releases f) @ map Notified (fe_listeners f) else []) @ answers \<and>
        list_all (\<lambda>a. \<exists>c r e. a = Answered c r \<or> a = Failed c e) answers) \<and>
   fe_generation f \<le> fe_generation (fenceRun sha256 f es) \<and>
   (fe_selectedKey f = Some k \<and> fe_generation (fenceRun sha256 f es) = fe_generation f \<longrightarrow>
     currentKey (fenceRun sha256 f es) = k)"
proof -
  have run: "fe_generation f \<le> fe_generation (fenceRun sha256 f es) \<and>
      (fe_selectedKey f \<noteq> None \<and> fe_generation (fenceRun sha256 f es) = fe_generation f \<longrightarrow>
        fe_selectedKey (fenceRun sha256 f es) = fe_selectedKey f)"
  proof (induction es rule: rev_induct)
    case Nil
    then show ?case by (simp add: fenceRun_def)
  next
    case (snoc e es)
    let ?g = "fenceRun sha256 f es"
    obtain g eff where g: "fenceStep sha256 ?g e = (g, eff)" by fastforce
    have "stepGuards ?g (g, eff)" using step_guards [of ?g sha256 e] g by simp
    then have "fe_generation g = fe_generation ?g + (if bumps ?g g then 1 else 0)" by (simp add: stepGuards_def)
    moreover have "fenceRun sha256 f (es @ [e]) = g" using g by (simp add: fenceRun_def)
    ultimately show ?case using snoc.IH by (auto simp: bumps_def split: if_splits)
  qed
  have "currentKey (fenceRun sha256 f es) = k"
    if "fe_selectedKey f = Some k" "fe_generation (fenceRun sha256 f es) = fe_generation f"
    using run that by (simp add: currentKey_def)
  then show ?thesis using run step_guards [of f sha256 e] by (auto simp: stepGuards_def split: prod.splits)
qed

definition catalog_ex :: deployment_catalog where
  "catalog_ex = \<lparr>dg_selectedDeploymentId = Some ''dep'', dg_deployments = [attached_ex]\<rparr>"

definition overlap_ex :: "fence_event list" where
  "overlap_ex = [Begin ''a'', Begin ''b'', Settle ''b'' catalog_ex None (Some None),
     Settle ''a'' \<lparr>dg_selectedDeploymentId = None, dg_deployments = []\<rparr> None (Some None)]"

text \<open>The older of two overlapping refreshes settles last, without the deployment: it begins again.\<close>

lemma overlap_run:
  "fe_selectedKey (fenceRun id (newFence None) overlap_ex) = Some (cx_key access_ex) \<and>
   fe_calls (fenceRun id (newFence None) overlap_ex) = [(''a'', 3)] \<and>
   fe_generation (fenceRun id (newFence None) overlap_ex) = 0"
  by code_simp

theorem newest_read_decides_witness:
  "currentKey (fenceRun id (newFence None) overlap_ex) = cx_key access_ex \<and>
   (\<exists>n. (n, cx_key access_ex) \<in> set (snd (foldl (tracedStep id) (newFence None, []) overlap_ex)))"
proof -
  have k: "currentKey (fenceRun id (newFence None) overlap_ex) = cx_key access_ex"
    using overlap_run by (simp add: currentKey_def)
  show ?thesis using newest_read_decides [of id None overlap_ex] overlap_run k by (auto split: if_splits)
qed

theorem generation_guards_witness:
  "currentKey (fenceRun id (fenceRun id (newFence None) overlap_ex) [Begin ''c'']) = cx_key access_ex"
proof -
  let ?f = "fenceRun id (newFence None) overlap_ex"
  have "fe_generation (fenceRun id ?f [Begin ''c'']) = fe_generation ?f"
    by (simp add: fenceRun_def fenceStep_def)
  then show ?thesis using generation_guards [where ?sha256.0 = id and f = ?f and e = "Begin ''c''" and es = "[Begin ''c'']" and k = "cx_key access_ex"] overlap_run by simp
qed

end
