(* ===== verification/Channel_Routing.thy ===== *)
theory Channel_Routing
  imports OS_Prelude "HOL-Library.Multiset"
begin

text \<open>
  Which binding a message from a channel is routed to (packages/channel-core/src/routing.ts). A selector
  names any of four keys of the conversation; the most specific active binding wins, and two equally
  specific ones are refused when a binding is made and when a message is routed.
\<close>

record route_selector =
  sl_scopeId :: "ident option"
  sl_conversationId :: "ident option"
  sl_threadId :: "ident option"
  sl_conversationType :: "ident option"

datatype binding_status = BindingActive | BindingInactive

record channel_binding =
  cb_id :: ident
  cb_selector :: route_selector
  cb_status :: binding_status

text \<open>A candidate has the four keys too; one it lacks is \<open>None\<close>.\<close>

type_synonym route_candidate = route_selector

definition selectorKeys :: "(route_selector \<Rightarrow> ident option) list" where
  "selectorKeys = [sl_scopeId, sl_conversationId, sl_threadId, sl_conversationType]"

definition routeSpecificity :: "route_selector \<Rightarrow> nat" where
  "routeSpecificity selector = foldl (\<lambda>score key. score + (if key selector = None then 0 else 1)) 0 selectorKeys"

definition selectorMatches :: "route_selector \<Rightarrow> route_candidate \<Rightarrow> bool" where
  "selectorMatches selector candidate =
     list_all (\<lambda>key. key selector = None \<or> key selector = key candidate) selectorKeys"

definition selectorsCanOverlap :: "route_selector \<Rightarrow> route_selector \<Rightarrow> bool" where
  "selectorsCanOverlap left right =
     list_all (\<lambda>key. key left = None \<or> key right = None \<or> key left = key right) selectorKeys"

text \<open>The active bindings that match, most specific first; \<open>sort\<close> keeps the order of equals.\<close>

definition routeMatches :: "channel_binding list \<Rightarrow> route_candidate \<Rightarrow> (channel_binding \<times> nat) list" where
  "routeMatches bindings candidate =
     sort_key (\<lambda>m. - int (snd m))
       (map (\<lambda>b. (b, routeSpecificity (cb_selector b)))
         (filter (\<lambda>b. cb_status b = BindingActive \<and> selectorMatches (cb_selector b) candidate) bindings))"

text \<open>\<open>Inl\<close> is the thrown ambiguity.\<close>

definition resolveChannelBinding :: "channel_binding list \<Rightarrow> route_candidate \<Rightarrow> unit + channel_binding option" where
  "resolveChannelBinding bindings candidate =
     (case routeMatches bindings candidate of
        [] \<Rightarrow> Inr None
      | [first] \<Rightarrow> Inr (Some (fst first))
      | first # second # _ \<Rightarrow> if snd second = snd first then Inl () else Inr (Some (fst first)))"

text \<open>\<open>Inl\<close> names the binding it conflicts with.\<close>

definition assertUnambiguousBinding :: "channel_binding \<Rightarrow> channel_binding list \<Rightarrow> ident + unit" where
  "assertUnambiguousBinding candidate existing =
     (if cb_status candidate \<noteq> BindingActive then Inr ()
      else case List.find (\<lambda>b. cb_id b \<noteq> cb_id candidate \<and> cb_status b = BindingActive \<and>
               routeSpecificity (cb_selector b) = routeSpecificity (cb_selector candidate) \<and>
               selectorsCanOverlap (cb_selector b) (cb_selector candidate)) existing of
             Some conflict \<Rightarrow> Inl (cb_id conflict)
           | None \<Rightarrow> Inr ())"

section \<open>Properties\<close>

lemma overlap_if_match:
  "selectorMatches l c \<Longrightarrow> selectorMatches r c \<Longrightarrow> selectorsCanOverlap l r"
  by (auto simp: selectorMatches_def selectorsCanOverlap_def selectorKeys_def)

lemma matches_set:
  "x \<in> set (routeMatches bs c) \<longleftrightarrow>
     (\<exists>b \<in> set bs. x = (b, routeSpecificity (cb_selector b)) \<and> cb_status b = BindingActive \<and> selectorMatches (cb_selector b) c)"
  by (auto simp: routeMatches_def)

lemma matches_sorted: "sorted (map (\<lambda>m. - int (snd m)) (routeMatches bs c))"
  by (simp add: routeMatches_def)

lemma matches_distinct:
  assumes "distinct (map cb_id bs)"
  shows "distinct (map (\<lambda>m. cb_id (fst m)) (routeMatches bs c))"
proof -
  let ?matching = "filter (\<lambda>b. cb_status b = BindingActive \<and> selectorMatches (cb_selector b) c) bs"
  have "mset (routeMatches bs c) = mset (map (\<lambda>b. (b, routeSpecificity (cb_selector b))) ?matching)"
    by (simp add: routeMatches_def)
  then have "mset (map (\<lambda>m. cb_id (fst m)) (routeMatches bs c)) =
      mset (map (\<lambda>m. cb_id (fst m)) (map (\<lambda>b. (b, routeSpecificity (cb_selector b))) ?matching))"
    by (simp only: mset_map)
  then have "mset (map (\<lambda>m. cb_id (fst m)) (routeMatches bs c)) = mset (map cb_id ?matching)" by (simp add: o_def)
  then show ?thesis using distinct_map_filter [OF assms] by (metis mset_eq_imp_distinct_iff)
qed

text \<open>C32: While every binding is unambiguous among the others, as each was when it was made, routing never fails:
  it answers nothing only when no active binding matches, and otherwise the one matching binding that is
  strictly more specific than every other.
\<close>

theorem routing_unambiguous:
  assumes "distinct (map cb_id bs)" and ok: "list_all (\<lambda>b. assertUnambiguousBinding b bs = Inr ()) bs"
  shows "case resolveChannelBinding bs c of
      Inl _ \<Rightarrow> False
    | Inr None \<Rightarrow> list_all (\<lambda>b. \<not> (cb_status b = BindingActive \<and> selectorMatches (cb_selector b) c)) bs
    | Inr (Some w) \<Rightarrow> w \<in> set bs \<and> cb_status w = BindingActive \<and> selectorMatches (cb_selector w) c \<and>
        list_all (\<lambda>b. cb_status b = BindingActive \<and> selectorMatches (cb_selector b) c \<and> cb_id b \<noteq> cb_id w \<longrightarrow>
          routeSpecificity (cb_selector b) < routeSpecificity (cb_selector w)) bs"
proof -
  have ne: "snd x \<noteq> snd y" if xy: "x \<in> set (routeMatches bs c)" "y \<in> set (routeMatches bs c)" "cb_id (fst x) \<noteq> cb_id (fst y)" for x y
  proof
    assume e: "snd x = snd y"
    obtain a b where a: "x = (a, routeSpecificity (cb_selector a))" "a \<in> set bs" "cb_status a = BindingActive"
        "selectorMatches (cb_selector a) c"
      and b: "y = (b, routeSpecificity (cb_selector b))" "b \<in> set bs" "cb_status b = BindingActive" "selectorMatches (cb_selector b) c"
      using xy(1,2) by (auto simp: matches_set)
    have "assertUnambiguousBinding b bs = Inr ()" using ok b(2) by (simp add: list_all_iff)
    then show False
      using a b e xy(3) overlap_if_match [OF a(4) b(4)]
      by (auto simp: assertUnambiguousBinding_def find_None_iff split: option.splits)
  qed
  note s = matches_sorted [of bs c] and d = matches_distinct [OF assms(1), of c]
  show ?thesis
  proof (cases "routeMatches bs c")
    case Nil
    then show ?thesis using matches_set [of _ bs c] by (auto simp: resolveChannelBinding_def list_all_iff)
  next
    case (Cons w ms)
    have first: "snd m < snd w" if "m \<in> set ms" for m
    proof -
      have "cb_id (fst m) \<noteq> cb_id (fst w)" using d Cons that by (auto simp: image_iff)
      then have "snd m \<noteq> snd w" using ne [of m w] Cons that by simp
      moreover have "snd m \<le> snd w" using s Cons that by auto
      ultimately show ?thesis by simp
    qed
    have r: "resolveChannelBinding bs c = Inr (Some (fst w))"
    proof (cases ms)
      case (Cons m ms')
      then have "snd m < snd w" using first by simp
      then show ?thesis using \<open>routeMatches bs c = w # ms\<close> Cons by (simp add: resolveChannelBinding_def)
    qed (use Cons in \<open>simp add: resolveChannelBinding_def\<close>)
    have w: "fst w \<in> set bs" "cb_status (fst w) = BindingActive" "selectorMatches (cb_selector (fst w)) c"
        "snd w = routeSpecificity (cb_selector (fst w))"
      using matches_set [of w bs c] Cons by auto
    have "routeSpecificity (cb_selector b) < routeSpecificity (cb_selector (fst w))"
      if b: "b \<in> set bs" "cb_status b = BindingActive" "selectorMatches (cb_selector b) c" "cb_id b \<noteq> cb_id (fst w)" for b
    proof -
      have "(b, routeSpecificity (cb_selector b)) \<in> set (w # ms)" using b matches_set [of _ bs c] Cons by auto
      then have "(b, routeSpecificity (cb_selector b)) \<in> set ms" using b(4) by auto
      then show ?thesis using first w(4) by fastforce
    qed
    then show ?thesis using r w by (simp add: list_all_iff)
  qed
qed

definition binding_ex :: "ident \<Rightarrow> ident option \<Rightarrow> ident option \<Rightarrow> channel_binding" where
  "binding_ex i scope conversation = \<lparr>cb_id = i,
     cb_selector = \<lparr>sl_scopeId = scope, sl_conversationId = conversation, sl_threadId = None, sl_conversationType = None\<rparr>,
     cb_status = BindingActive\<rparr>"

theorem routing_unambiguous_witness:
  "resolveChannelBinding [binding_ex ''all'' None None, binding_ex ''one'' (Some ''s'') (Some ''c'')]
     \<lparr>sl_scopeId = Some ''s'', sl_conversationId = Some ''c'', sl_threadId = None, sl_conversationType = Some ''dm''\<rparr>
   \<noteq> Inl ()"
proof -
  let ?bs = "[binding_ex ''all'' None None, binding_ex ''one'' (Some ''s'') (Some ''c'')]"
  have "list_all (\<lambda>b. assertUnambiguousBinding b ?bs = Inr ()) ?bs"
    by (simp add: binding_ex_def assertUnambiguousBinding_def routeSpecificity_def selectorKeys_def)
  then show ?thesis using routing_unambiguous [of ?bs] by (force simp: binding_ex_def split: sum.splits)
qed

end
