(* ===== verification/Model_Candidates.thy ===== *)
theory Model_Candidates
  imports OS_Prelude "HOL-Library.Product_Lexorder" "HOL-Library.Multiset"
begin

text \<open>
  Which account and model runs background work (packages/core/src/model-selection.ts and
  model-candidates.ts), and what a person chose last (packages/core/src/execution-preferences.ts). Texts are
  strings. Two things are parameters: the canonical name of a model (\<open>canonicalModelReference\<close> of
  model-registry.ts, a table of name patterns) and the locale's order of option names, a key into a linear
  order. A candidate's key, a \<open>JSON.stringify\<close> only ever compared, is the tuple of its values.
\<close>

datatype option_value = OptionBool bool | OptionText ident

record model_selection =
  ms_providerId :: ident
  ms_modelId :: ident
  ms_options :: "(ident, option_value) jsmap"
  ms_nativeModelId :: "ident option"

datatype option_kind =
    ToggleOption bool                       \<comment> \<open>its default\<close>
  | SelectOption "ident option" "ident list" \<comment> \<open>its default and its values\<close>

record model_descriptor =
  md_providerId :: ident
  md_modelId :: ident
  md_nativeModelId :: "ident option"
  md_displayName :: ident
  md_isDefault :: bool
  md_unavailableReason :: "ident option"
  md_options :: "(ident \<times> option_kind) list"

record light_model = lm_providerId :: ident lm_modelId :: ident lm_options :: "(ident, option_value) jsmap option"

record selection_catalog =
  sc_status :: ident
  sc_detail :: "ident option"
  sc_models :: "model_descriptor list"
  sc_lightModel :: "light_model option"

record usage_fact =
  uf_providerId :: ident
  uf_modelId :: "ident option"
  uf_exhausted :: bool
  uf_resetsAt :: "nat option"

record model_account =
  ma_environmentId :: ident
  ma_harnessInstanceId :: ident
  ma_harnessRevision :: nat
  ma_driverKind :: ident
  ma_sourceId :: ident
  ma_isDefault :: bool
  ma_enabled :: bool
  ma_removed :: bool
  ma_available :: bool
  ma_catalog :: "selection_catalog option"
  ma_usage :: "usage_fact list"

datatype skip_reason =
    Excluded | Offline | Disabled | Removed | UnsupportedCapability | UnsupportedAccessMode | WrongComputer
  | CatalogNotReady | ModelUnavailable | OptionsUnavailable | EndpointBindingRequired | Unauthorized

datatype eligibility = Eligible | Ineligible skip_reason "ident option"

section \<open>Matching a selection against a catalog\<close>

datatype selection_match =
    Offered model_descriptor
  | NoModel "ident option"
  | NoOption model_descriptor ident

text \<open>A text that is present and not empty.\<close>

definition said :: "ident option \<Rightarrow> bool" where
  "said t \<longleftrightarrow> t \<noteq> None \<and> t \<noteq> Some []"

definition listedValue :: "option_kind \<Rightarrow> option_value \<Rightarrow> bool" where
  "listedValue k v = (case (k, v) of
     (ToggleOption _, OptionBool _) \<Rightarrow> True
   | (SelectOption _ vs, OptionText t) \<Rightarrow> t \<in> set vs
   | _ \<Rightarrow> False)"

definition optionDescriptors :: "model_descriptor \<Rightarrow> (ident, option_kind) jsmap" where
  "optionDescriptors m = foldl (\<lambda>d (i, k). jset i k d) [] (md_options m)"

text \<open>\<open>refuse\<close> is the caller's word on options the model does not list.\<close>

fun firstRefused :: "(ident, option_kind) jsmap \<Rightarrow> bool \<Rightarrow> (ident \<times> option_value) list \<Rightarrow> ident option" where
  "firstRefused descriptors refuse [] = None"
| "firstRefused descriptors refuse ((optionId, v) # rest) =
     (case jget descriptors optionId of
        None \<Rightarrow> if refuse then Some optionId else firstRefused descriptors refuse rest
      | Some k \<Rightarrow> if listedValue k v then firstRefused descriptors refuse rest else Some optionId)"

definition sameModel :: "ident \<Rightarrow> ident \<Rightarrow> model_descriptor \<Rightarrow> bool" where
  "sameModel provider model m \<longleftrightarrow> md_providerId m = provider \<and> md_modelId m = model"

definition matchModelSelection :: "model_descriptor list \<Rightarrow> model_selection \<Rightarrow> bool \<Rightarrow> selection_match" where
  "matchModelSelection models selection refuse =
     (case List.find (sameModel (ms_providerId selection) (ms_modelId selection)) models of
        None \<Rightarrow> NoModel None
      | Some m \<Rightarrow>
          if said (md_unavailableReason m) then NoModel (md_unavailableReason m)
          else (case firstRefused (optionDescriptors m) refuse (ms_options selection) of
                  Some optionId \<Rightarrow> NoOption m optionId
                | None \<Rightarrow> Offered m))"

fun joined :: "ident list \<Rightarrow> ident" where
  "joined [] = []"
| "joined [x] = x"
| "joined (x # xs) = x @ '', '' @ joined xs"

definition modelOptionUnavailableMessage :: "model_descriptor \<Rightarrow> ident \<Rightarrow> ident" where
  "modelOptionUnavailableMessage m optionId =
     ''Model option '' @ optionId @ '' is not available for '' @ md_displayName m @
     (case List.find (\<lambda>(i, _). i = optionId) (md_options m) of
        None \<Rightarrow> ''; it takes no such option''
      | Some (_, ToggleOption _) \<Rightarrow> ''; it takes true or false''
      | Some (_, SelectOption _ vs) \<Rightarrow> ''; it takes '' @ joined vs)"

definition storedModelSelection :: "model_selection \<Rightarrow> model_descriptor \<Rightarrow> model_selection" where
  "storedModelSelection selection m = selection\<lparr>ms_nativeModelId := md_nativeModelId m\<rparr>"

definition optionDefault :: "option_kind \<Rightarrow> option_value option" where
  "optionDefault k = (case k of ToggleOption b \<Rightarrow> Some (OptionBool b) | SelectOption d _ \<Rightarrow> map_option OptionText d)"

definition optionDefaults :: "model_descriptor \<Rightarrow> (ident \<times> option_value) list" where
  "optionDefaults m = List.map_filter (\<lambda>(i, k). map_option (Pair i) (optionDefault k)) (md_options m)"

text \<open>\<open>{ ...Object.fromEntries(entries), ...options }\<close>\<close>

definition putAll :: "('k, 'v) jsmap \<Rightarrow> ('k \<times> 'v) list \<Rightarrow> ('k, 'v) jsmap" where
  "putAll m kvs = foldl (\<lambda>m (k, v). jset k v m) m kvs"

definition runModelSelection :: "model_selection \<Rightarrow> model_descriptor \<Rightarrow> model_selection" where
  "runModelSelection selection m =
     (let stored = storedModelSelection selection m
      in stored\<lparr>ms_options := putAll (putAll [] (optionDefaults m)) (ms_options stored)\<rparr>)"

section \<open>Accounts\<close>

definition automaticAccountOrder :: "model_account list \<Rightarrow> model_account list" where
  "automaticAccountOrder accounts = sort_key (\<lambda>a. if ma_isDefault a then 0 else 1 :: nat) accounts"

definition automaticAccountEligibility :: "ident list \<Rightarrow> (model_account \<Rightarrow> eligibility) \<Rightarrow> model_account \<Rightarrow> eligibility" where
  "automaticAccountEligibility excluded canRun account =
     (if ma_harnessInstanceId account \<in> set excluded then Ineligible Excluded None
      else if ma_removed account then Ineligible Removed None
      else if \<not> ma_enabled account then Ineligible Disabled None
      else if \<not> ma_available account then Ineligible Offline None
      else case canRun account of
        Ineligible r d \<Rightarrow> Ineligible r d
      | Eligible \<Rightarrow>
          if map_option sc_status (ma_catalog account) \<noteq> Some ''ready''
          then Ineligible CatalogNotReady
            (let detail = (case Option.bind (ma_catalog account) sc_detail of
                 Some d \<Rightarrow> Some d | None \<Rightarrow> map_option sc_status (ma_catalog account))
             in if said detail then detail else None)
          else Eligible)"

section \<open>Candidates\<close>

datatype model_want =
    RankModel ident ident ident "(ident, option_value) jsmap"  \<comment> \<open>engine, provider, model, options\<close>
  | RankLight ident
  | WantModel ident ident "(ident, option_value) jsmap option" "ident option"
  | WantEngine ident "ident option"

record original_selection =
  os_environmentId :: ident
  os_harnessInstanceId :: ident
  os_modelSelection :: model_selection
  os_fromPastRun :: bool

record model_candidate =
  mc_environmentId :: ident
  mc_harnessInstanceId :: ident
  mc_harnessRevision :: nat
  mc_account :: model_account
  mc_stored :: model_selection
  mc_run :: model_selection
  mc_usageLimited :: bool
  mc_original :: bool

record skipped_candidate =
  sk_want :: "model_want option"
  sk_harnessInstanceId :: "ident option"
  sk_environmentId :: "ident option"
  sk_reason :: skip_reason
  sk_detail :: "ident option"

record candidates_input =
  ci_wants :: "model_want list"
  ci_original :: "original_selection option"
  ci_accounts :: "model_account list"
  ci_excluded :: "ident list"
  ci_canRun :: "model_account \<Rightarrow> eligibility"
  ci_now :: nat

type_synonym model_reference = "ident \<times> ident"  \<comment> \<open>provider and model\<close>
type_synonym candidate_key = "ident \<times> ident \<times> model_reference \<times> (ident \<times> option_value) list"

definition modelCandidateKey :: "(ident \<Rightarrow> ident \<Rightarrow> model_reference) \<Rightarrow> (ident \<Rightarrow> 'k :: linorder) \<Rightarrow> model_candidate
    \<Rightarrow> candidate_key" where
  "modelCandidateKey canonical collate c =
     (mc_environmentId c, mc_harnessInstanceId c, canonical (ms_modelId (mc_run c)) (ms_providerId (mc_run c)),
      sort_key (\<lambda>(i, _). collate i) (ms_options (mc_run c)))"

definition skipOf :: "model_account \<Rightarrow> model_want option \<Rightarrow> skip_reason \<Rightarrow> ident option \<Rightarrow> skipped_candidate" where
  "skipOf account want reason detail = \<lparr>sk_want = want, sk_harnessInstanceId = Some (ma_harnessInstanceId account),
     sk_environmentId = Some (ma_environmentId account), sk_reason = reason,
     sk_detail = (if said detail then detail else None)\<rparr>"

definition skipInstance :: "ident \<Rightarrow> model_want option \<Rightarrow> skip_reason \<Rightarrow> ident option \<Rightarrow> skipped_candidate" where
  "skipInstance harnessInstanceId want reason detail = \<lparr>sk_want = want, sk_harnessInstanceId = Some harnessInstanceId,
     sk_environmentId = None, sk_reason = reason, sk_detail = detail\<rparr>"

text \<open>\<open>Inl\<close> is a skip.\<close>

definition usable :: "candidates_input \<Rightarrow> model_account \<Rightarrow> model_want option \<Rightarrow> skipped_candidate + selection_catalog" where
  "usable input account want =
     (case automaticAccountEligibility (ci_excluded input) (ci_canRun input) account of
        Ineligible reason detail \<Rightarrow> Inl (skipOf account want reason detail)
      | Eligible \<Rightarrow> (case ma_catalog account of
          Some c \<Rightarrow> Inr c
        | None \<Rightarrow> Inl (skipOf account want CatalogNotReady None)))"

definition usageLimited :: "candidates_input \<Rightarrow> model_account \<Rightarrow> model_selection \<Rightarrow> bool" where
  "usageLimited input account stored =
     list_ex (\<lambda>fact. uf_exhausted fact \<and> uf_providerId fact = ms_providerId stored \<and>
        (\<not> said (uf_modelId fact) \<or> uf_modelId fact = Some (ms_modelId stored)) \<and>
        (case uf_resetsAt fact of None \<Rightarrow> True | Some t \<Rightarrow> t > ci_now input)) (ma_usage account)"

definition inspect :: "candidates_input \<Rightarrow> model_account \<Rightarrow> model_selection \<Rightarrow> model_want option \<Rightarrow> bool
    \<Rightarrow> skipped_candidate + model_candidate" where
  "inspect input account selection want original =
     (case usable input account want of
        Inl s \<Rightarrow> Inl s
      | Inr catalog \<Rightarrow>
          (case matchModelSelection (sc_models catalog) selection True of
             NoModel reason \<Rightarrow> Inl (skipOf account want ModelUnavailable reason)
           | NoOption m optionId \<Rightarrow>
               Inl (skipOf account want OptionsUnavailable (Some (modelOptionUnavailableMessage m optionId)))
           | Offered m \<Rightarrow>
               let stored = storedModelSelection selection m
               in Inr \<lparr>mc_environmentId = ma_environmentId account, mc_harnessInstanceId = ma_harnessInstanceId account,
                    mc_harnessRevision = ma_harnessRevision account, mc_account = account, mc_stored = stored,
                    mc_run = runModelSelection stored m, mc_usageLimited = usageLimited input account stored,
                    mc_original = original\<rparr>))"

definition inspectOriginal :: "candidates_input \<Rightarrow> skipped_candidate + model_candidate option" where
  "inspectOriginal input =
     (case ci_original input of
        None \<Rightarrow> Inr None
      | Some own \<Rightarrow>
          (case List.find (\<lambda>a. ma_environmentId a = os_environmentId own \<and>
                   ma_harnessInstanceId a = os_harnessInstanceId own) (ci_accounts input) of
             None \<Rightarrow> Inl (skipInstance (os_harnessInstanceId own) None Unauthorized None)
           | Some account \<Rightarrow>
               if os_fromPastRun own \<and> ma_sourceId account = ''openai-compatible''
               then Inl (skipInstance (os_harnessInstanceId own) None EndpointBindingRequired None)
               else (case inspect input account (os_modelSelection own) None True of
                       Inl s \<Rightarrow> Inl s | Inr c \<Rightarrow> Inr (Some c))))"

definition wantEngine :: "model_want \<Rightarrow> ident" where
  "wantEngine want = (case want of
     RankModel e _ _ _ \<Rightarrow> e | RankLight e \<Rightarrow> e | WantModel e _ _ _ \<Rightarrow> e | WantEngine e _ \<Rightarrow> e)"

text \<open>The account a person's want names, if it names one.\<close>

definition wantInstance :: "model_want \<Rightarrow> ident option" where
  "wantInstance want = (case want of WantModel _ _ _ i \<Rightarrow> i | WantEngine _ i \<Rightarrow> i | _ \<Rightarrow> None)"

definition concerns :: "model_want \<Rightarrow> model_account \<Rightarrow> bool" where
  "concerns want account \<longleftrightarrow> ma_driverKind account = wantEngine want \<and>
     (said (wantInstance want) \<longrightarrow> wantInstance want = Some (ma_harnessInstanceId account))"

text \<open>The selection a want makes on an account.\<close>

definition lightSelection :: "candidates_input \<Rightarrow> model_account \<Rightarrow> model_want \<Rightarrow> skipped_candidate + model_selection" where
  "lightSelection input account want =
     (case usable input account (Some want) of
        Inl s \<Rightarrow> Inl s
      | Inr catalog \<Rightarrow>
          (case sc_lightModel catalog of
             None \<Rightarrow> Inl (skipOf account (Some want) ModelUnavailable (Some ''This account has no small model''))
           | Some light \<Rightarrow> Inr \<lparr>ms_providerId = lm_providerId light, ms_modelId = lm_modelId light,
                 ms_options = (case lm_options light of None \<Rightarrow> [] | Some o' \<Rightarrow> o'), ms_nativeModelId = None\<rparr>))"

definition exactSelection :: "(ident \<Rightarrow> ident \<Rightarrow> model_reference) \<Rightarrow> model_account \<Rightarrow> model_want \<Rightarrow> ident
    \<Rightarrow> (ident, option_value) jsmap option \<Rightarrow> skipped_candidate + model_selection" where
  "exactSelection canonical account want model options =
     (let models = (case ma_catalog account of None \<Rightarrow> [] | Some c \<Rightarrow> sc_models c);
          pair = filter (\<lambda>m. md_providerId m @ ''/'' @ md_modelId m = model) models;
          reference = canonical model (ma_sourceId account);
          matches = (if pair \<noteq> [] then pair
            else filter (\<lambda>m. md_modelId m = model \<or> sameModel (fst reference) (snd reference) m) models);
          found = (case matches of [m] \<Rightarrow> Some m | _ \<Rightarrow> None)
      in if length matches > 1
         then Inl (skipInstance (ma_harnessInstanceId account) (Some want) ModelUnavailable (Some ''Ambiguous canonical model ID''))
         else Inr \<lparr>ms_providerId = (case found of Some m \<Rightarrow> md_providerId m | None \<Rightarrow> fst reference),
                ms_modelId = (case found of Some m \<Rightarrow> md_modelId m | None \<Rightarrow> snd reference),
                ms_options = (case options of None \<Rightarrow> [] | Some o' \<Rightarrow> o'), ms_nativeModelId = None\<rparr>)"

definition wantSelection :: "(ident \<Rightarrow> ident \<Rightarrow> model_reference) \<Rightarrow> candidates_input \<Rightarrow> model_account \<Rightarrow> model_want
    \<Rightarrow> skipped_candidate + model_selection" where
  "wantSelection canonical input account want =
     (case want of
        RankModel _ provider model options \<Rightarrow>
          Inr \<lparr>ms_providerId = provider, ms_modelId = model, ms_options = options, ms_nativeModelId = None\<rparr>
      | WantModel _ model options _ \<Rightarrow> exactSelection canonical account want model options
      | _ \<Rightarrow> lightSelection input account want)"

text \<open>What a want makes of an account it concerns.\<close>

definition tryAccount :: "(ident \<Rightarrow> ident \<Rightarrow> model_reference) \<Rightarrow> candidates_input \<Rightarrow> model_want \<Rightarrow> model_account
    \<Rightarrow> skipped_candidate + model_candidate" where
  "tryAccount canonical input want account =
     (if ma_sourceId account = ''openai-compatible'' \<and> \<not> said (wantInstance want)
      then Inl (skipInstance (ma_harnessInstanceId account) (Some want) EndpointBindingRequired None)
      else case wantSelection canonical input account want of
        Inl s \<Rightarrow> Inl s
      | Inr selection \<Rightarrow> inspect input account selection (Some want) False)"

record candidates_state =
  cs_seen :: "candidate_key list"
  cs_candidates :: "model_candidate list"
  cs_skipped :: "skipped_candidate list"

definition considerAccount :: "(ident \<Rightarrow> ident \<Rightarrow> model_reference) \<Rightarrow> (ident \<Rightarrow> 'k :: linorder) \<Rightarrow> candidates_input \<Rightarrow> model_want
    \<Rightarrow> candidates_state \<Rightarrow> model_account \<Rightarrow> candidates_state" where
  "considerAccount canonical collate input want s account =
     (if \<not> concerns want account then s
      else case tryAccount canonical input want account of
        Inl skip \<Rightarrow> s\<lparr>cs_skipped := cs_skipped s @ [skip]\<rparr>
      | Inr c \<Rightarrow>
          let key = modelCandidateKey canonical collate c
          in if key \<in> set (cs_seen s) then s
             else s\<lparr>cs_seen := key # cs_seen s, cs_candidates := cs_candidates s @ [c]\<rparr>)"

definition resolveModelCandidates :: "(ident \<Rightarrow> ident \<Rightarrow> model_reference) \<Rightarrow> (ident \<Rightarrow> 'k :: linorder) \<Rightarrow> candidates_input
    \<Rightarrow> model_candidate list \<times> skipped_candidate list" where
  "resolveModelCandidates canonical collate input =
     (let (original, skipped) = (case inspectOriginal input of Inl s \<Rightarrow> (None, [s]) | Inr c \<Rightarrow> (c, []));
          start = \<lparr>cs_seen = (case original of None \<Rightarrow> [] | Some c \<Rightarrow> [modelCandidateKey canonical collate c]),
                   cs_candidates = [], cs_skipped = skipped\<rparr>;
          accounts = automaticAccountOrder (ci_accounts input);
          s = foldl (\<lambda>s want. foldl (considerAccount canonical collate input want) s accounts) start (ci_wants input)
      in (sort_key (\<lambda>c. if mc_usageLimited c then 1 else 0 :: nat) (cs_candidates s) @
            (case original of None \<Rightarrow> [] | Some c \<Rightarrow> [c]),
          cs_skipped s))"

section \<open>Catalog defaults\<close>

definition catalogDefaultModel :: "selection_catalog option \<Rightarrow> model_descriptor option" where
  "catalogDefaultModel catalog =
     (case catalog of
        None \<Rightarrow> None
      | Some c \<Rightarrow>
          if sc_status c \<noteq> ''ready'' then None
          else List.find (\<lambda>m. md_isDefault m \<and> \<not> said (md_unavailableReason m)) (sc_models c))"

definition catalogDefaultModelSelection :: "selection_catalog option \<Rightarrow> model_selection option" where
  "catalogDefaultModelSelection catalog =
     map_option (\<lambda>m. storedModelSelection \<lparr>ms_providerId = md_providerId m, ms_modelId = md_modelId m, ms_options = [],
       ms_nativeModelId = None\<rparr> m) (catalogDefaultModel catalog)"

fun firstDefault :: "ident list \<Rightarrow> (model_account \<Rightarrow> eligibility) \<Rightarrow> model_account list \<Rightarrow> (model_account \<times> model_selection) option" where
  "firstDefault excluded canRun [] = None"
| "firstDefault excluded canRun (account # rest) =
     (if ma_sourceId account = ''openai-compatible'' then firstDefault excluded canRun rest
      else if automaticAccountEligibility excluded canRun account \<noteq> Eligible then firstDefault excluded canRun rest
      else case catalogDefaultModelSelection (ma_catalog account) of
        Some selection \<Rightarrow> Some (account, selection)
      | None \<Rightarrow> firstDefault excluded canRun rest)"

definition catalogDefaultCandidate :: "ident list \<Rightarrow> (model_account \<Rightarrow> eligibility) \<Rightarrow> model_account list
    \<Rightarrow> (model_account \<times> model_selection) option" where
  "catalogDefaultCandidate excluded canRun accounts = firstDefault excluded canRun (automaticAccountOrder accounts)"

section \<open>What a person chose last\<close>

record execution_selection = ex_environmentId :: ident ex_harnessInstanceId :: ident ex_modelSelection :: model_selection
record execution_preferences = ep_accessMode :: ident ep_history :: "execution_selection list"
record execution_choice = xc_accessMode :: "ident option" xc_selection :: "execution_selection option"

definition executionHistoryLimit :: nat where
  "executionHistoryLimit = 64"

definition sameExecutionChoice :: "execution_selection \<Rightarrow> execution_selection \<Rightarrow> bool" where
  "sameExecutionChoice left right \<longleftrightarrow> ex_environmentId left = ex_environmentId right \<and>
     ex_harnessInstanceId left = ex_harnessInstanceId right \<and>
     ms_providerId (ex_modelSelection left) = ms_providerId (ex_modelSelection right) \<and>
     ms_modelId (ex_modelSelection left) = ms_modelId (ex_modelSelection right)"

definition rememberExecutionChoice :: "execution_preferences \<Rightarrow> execution_choice \<Rightarrow> execution_preferences" where
  "rememberExecutionChoice preferences choice =
     \<lparr>ep_accessMode = (case xc_accessMode choice of Some a \<Rightarrow> a | None \<Rightarrow> ep_accessMode preferences),
      ep_history = (case xc_selection choice of
          Some c \<Rightarrow> take executionHistoryLimit (c # filter (\<lambda>e. \<not> sameExecutionChoice e c) (ep_history preferences))
        | None \<Rightarrow> ep_history preferences)\<rparr>"


section \<open>Matching\<close>

lemma firstRefused_none:
  "firstRefused descriptors True kvs = None \<longleftrightarrow>
     (\<forall>(i, v) \<in> set kvs. \<exists>k. jget descriptors i = Some k \<and> listedValue k v)"
  by (induction kvs) (auto split: option.splits if_splits)

lemma offered:
  assumes "matchModelSelection models selection True = Offered m"
  shows "m \<in> set models \<and> sameModel (ms_providerId selection) (ms_modelId selection) m \<and> \<not> said (md_unavailableReason m) \<and>
    (\<forall>(i, v) \<in> set (ms_options selection). \<exists>k. jget (optionDescriptors m) i = Some k \<and> listedValue k v)"
  using assms firstRefused_none
  by (auto simp: matchModelSelection_def find_Some_iff said_def split: option.splits if_splits)

lemma putAll_get: "jget (putAll m kvs) k = (case jget (rev kvs) k of Some v \<Rightarrow> Some v | None \<Rightarrow> jget m k)"
  by (induction kvs arbitrary: m rule: rev_induct)
     (auto simp: putAll_def jget_set map_add_def split: option.splits prod.splits)

text \<open>What runs is a complete choice: an option the person set, as set; any other the catalog gives a
  default, at the (last) default.\<close>

lemma run_options:
  assumes "jwf (ms_options selection)"
  shows "jget (ms_options (runModelSelection selection m)) i =
    (case jget (ms_options selection) i of Some v \<Rightarrow> Some v | None \<Rightarrow> jget (rev (optionDefaults m)) i)"
proof -
  have "jget (rev (ms_options selection)) i = jget (ms_options selection) i"
    using assms by (metis distinct_map distinct_rev jwf_def map_of_inject_set rev_map set_rev)
  then show ?thesis
    by (simp add: runModelSelection_def storedModelSelection_def Let_def putAll_get split: option.splits)
qed

section \<open>Candidates are sound\<close>

definition accountUsable :: "candidates_input \<Rightarrow> model_account \<Rightarrow> selection_catalog \<Rightarrow> bool" where
  "accountUsable input a catalog \<longleftrightarrow> ma_harnessInstanceId a \<notin> set (ci_excluded input) \<and> \<not> ma_removed a \<and> ma_enabled a \<and>
     ma_available a \<and> ci_canRun input a = Eligible \<and> ma_catalog a = Some catalog \<and> sc_status catalog = ''ready''"

definition candidateOk :: "candidates_input \<Rightarrow> model_candidate \<Rightarrow> bool" where
  "candidateOk input c \<longleftrightarrow>
     (let a = mc_account c; stored = mc_stored c
      in a \<in> set (ci_accounts input) \<and> mc_environmentId c = ma_environmentId a \<and>
         mc_harnessInstanceId c = ma_harnessInstanceId a \<and> mc_harnessRevision c = ma_harnessRevision a \<and>
         mc_usageLimited c = usageLimited input a stored \<and>
         (\<exists>catalog m. accountUsable input a catalog \<and> m \<in> set (sc_models catalog) \<and>
            sameModel (ms_providerId stored) (ms_modelId stored) m \<and> \<not> said (md_unavailableReason m) \<and>
            ms_nativeModelId stored = md_nativeModelId m \<and> mc_run c = runModelSelection stored m \<and>
            (\<forall>(i, v) \<in> set (ms_options stored). \<exists>k. jget (optionDescriptors m) i = Some k \<and> listedValue k v)))"

lemma usable_ok: "usable input a want = Inr catalog \<Longrightarrow> accountUsable input a catalog"
  by (auto simp: usable_def automaticAccountEligibility_def accountUsable_def Let_def split: if_splits eligibility.splits option.splits)

lemma inspect_ok:
  assumes "inspect input a selection want orig = Inr c" and "a \<in> set (ci_accounts input)"
  shows "candidateOk input c \<and> mc_account c = a \<and> mc_original c = orig"
proof -
  obtain catalog where u: "usable input a want = Inr catalog" using assms(1) by (auto simp: inspect_def split: sum.splits)
  then obtain m where m: "matchModelSelection (sc_models catalog) selection True = Offered m"
    using assms(1) by (auto simp: inspect_def split: selection_match.splits)
  have c: "c = \<lparr>mc_environmentId = ma_environmentId a, mc_harnessInstanceId = ma_harnessInstanceId a,
      mc_harnessRevision = ma_harnessRevision a, mc_account = a, mc_stored = storedModelSelection selection m,
      mc_run = runModelSelection (storedModelSelection selection m) m,
      mc_usageLimited = usageLimited input a (storedModelSelection selection m), mc_original = orig\<rparr>"
    using assms(1) u m by (simp add: inspect_def Let_def)
  show ?thesis using offered [OF m] usable_ok [OF u] assms(2)
    unfolding c candidateOk_def Let_def by (auto simp: storedModelSelection_def sameModel_def)
qed

lemma original_ok: "inspectOriginal input = Inr (Some c) \<Longrightarrow> candidateOk input c \<and> mc_original c"
  by (auto simp: inspectOriginal_def find_Some_iff split: option.splits if_splits sum.splits dest!: inspect_ok)

lemma try_ok:
  "tryAccount canonical input want a = Inr c \<Longrightarrow> a \<in> set (ci_accounts input) \<Longrightarrow>
     candidateOk input c \<and> mc_account c = a \<and> \<not> mc_original c"
  by (auto simp: tryAccount_def split: if_splits sum.splits dest!: inspect_ok)

lemma skip_names:
  assumes "tryAccount canonical input want a = Inl s"
  shows "sk_want s = Some want \<and> sk_harnessInstanceId s = Some (ma_harnessInstanceId a)"
  using assms
  by (auto simp: tryAccount_def wantSelection_def lightSelection_def exactSelection_def inspect_def usable_def skipOf_def
      skipInstance_def Let_def split: if_splits sum.splits option.splits eligibility.splits selection_match.splits model_want.splits)


section \<open>The search\<close>

lemma foldl_keeps:
  assumes "P s" and "\<And>s x. P s \<Longrightarrow> x \<in> set xs \<Longrightarrow> P (f s x)"
  shows "P (foldl f s xs)"
  using assms by (induction xs arbitrary: s) auto

lemma foldl_reaches:
  assumes "x \<in> set xs" and "\<And>s. Q (f s x)" and "\<And>s y. Q s \<Longrightarrow> Q (f s y)"
  shows "Q (foldl f s xs)"
proof -
  obtain as bs where xs: "xs = as @ x # bs" using assms(1) by (meson split_list)
  have "Q (foldl f (f (foldl f s as) x) bs)" by (rule foldl_keeps) (use assms in auto)
  then show ?thesis by (simp add: xs)
qed

lemma order_set [simp]: "set (automaticAccountOrder accounts) = set accounts"
  by (simp add: automaticAccountOrder_def)

text \<open>Between two accounts: the candidates are sound and their keys are those seen, the original's apart.\<close>

definition search_inv :: "(ident \<Rightarrow> ident \<Rightarrow> model_reference) \<Rightarrow> (ident \<Rightarrow> 'k :: linorder) \<Rightarrow> candidates_input
    \<Rightarrow> model_candidate option \<Rightarrow> candidates_state \<Rightarrow> bool" where
  "search_inv canonical collate input original s \<longleftrightarrow>
     list_all (\<lambda>c. candidateOk input c \<and> \<not> mc_original c) (cs_candidates s) \<and>
     distinct (map (modelCandidateKey canonical collate) (cs_candidates s)) \<and>
     set (cs_seen s) = modelCandidateKey canonical collate ` (set (cs_candidates s) \<union> set_option original) \<and>
     (\<forall>o' \<in> set_option original. modelCandidateKey canonical collate o' \<notin>
        modelCandidateKey canonical collate ` set (cs_candidates s))"

lemma consider_inv:
  assumes "search_inv canonical collate input original s" and "a \<in> set (ci_accounts input)"
  shows "search_inv canonical collate input original (considerAccount canonical collate input want s a)"
proof (cases "tryAccount canonical input want a")
  case (Inl skip)
  then show ?thesis using assms(1) by (simp add: considerAccount_def search_inv_def)
next
  case (Inr c)
  let ?k = "modelCandidateKey canonical collate"
  have c: "candidateOk input c" "\<not> mc_original c" using try_ok [OF Inr assms(2)] by auto
  show ?thesis
  proof (cases "concerns want a \<and> ?k c \<notin> set (cs_seen s)")
    case True
    then have k: "?k c \<notin> ?k ` set (cs_candidates s)" "\<forall>o' \<in> set_option original. ?k o' \<noteq> ?k c"
      using assms(1) by (auto simp: search_inv_def)
    have s: "considerAccount canonical collate input want s a =
        s\<lparr>cs_seen := ?k c # cs_seen s, cs_candidates := cs_candidates s @ [c]\<rparr>"
      using True Inr by (simp add: considerAccount_def Let_def)
    show ?thesis using assms(1) c k unfolding s search_inv_def by auto
  next
    case False
    then have "considerAccount canonical collate input want s a = s"
      using Inr by (auto simp: considerAccount_def Let_def)
    then show ?thesis using assms(1) by simp
  qed
qed

text \<open>A want has been heard for an account: there is a skip for it, or a candidate of it has been seen.\<close>

definition heard :: "model_want \<Rightarrow> model_account \<Rightarrow> candidates_state \<Rightarrow> bool" where
  "heard want a s \<longleftrightarrow>
     (\<exists>k \<in> set (cs_skipped s). sk_want k = Some want \<and> sk_harnessInstanceId k = Some (ma_harnessInstanceId a)) \<or>
     (\<exists>k \<in> set (cs_seen s). fst k = ma_environmentId a \<and> fst (snd k) = ma_harnessInstanceId a)"

lemma heard_keeps: "heard want a s \<Longrightarrow> heard want a (considerAccount canonical collate input want' s a')"
  unfolding heard_def considerAccount_def Let_def by (auto split: sum.splits)

lemma heard_now:
  assumes "concerns want a" and "a \<in> set (ci_accounts input)"
  shows "heard want a (considerAccount canonical collate input want s a)"
proof (cases "tryAccount canonical input want a")
  case (Inl k)
  then have "considerAccount canonical collate input want s a = s\<lparr>cs_skipped := cs_skipped s @ [k]\<rparr>"
    using assms(1) by (simp add: considerAccount_def)
  then show ?thesis using skip_names [OF Inl] by (auto simp: heard_def)
next
  case (Inr c)
  let ?k = "modelCandidateKey canonical collate c"
  have c: "fst ?k = ma_environmentId a" "fst (snd ?k) = ma_harnessInstanceId a"
    using try_ok [OF Inr assms(2)] by (auto simp: modelCandidateKey_def candidateOk_def Let_def)
  have "?k \<in> set (cs_seen (considerAccount canonical collate input want s a))"
    using assms(1) Inr by (simp add: considerAccount_def Let_def)
  then show ?thesis using c unfolding heard_def by blast
qed

definition searchStart :: "(ident \<Rightarrow> ident \<Rightarrow> model_reference) \<Rightarrow> (ident \<Rightarrow> 'k :: linorder) \<Rightarrow> candidates_input \<Rightarrow> candidates_state" where
  "searchStart canonical collate input =
     \<lparr>cs_seen = (case inspectOriginal input of Inr (Some c) \<Rightarrow> [modelCandidateKey canonical collate c] | _ \<Rightarrow> []),
      cs_candidates = [], cs_skipped = (case inspectOriginal input of Inl s \<Rightarrow> [s] | Inr _ \<Rightarrow> [])\<rparr>"

definition search :: "(ident \<Rightarrow> ident \<Rightarrow> model_reference) \<Rightarrow> (ident \<Rightarrow> 'k :: linorder) \<Rightarrow> candidates_input \<Rightarrow> candidates_state" where
  "search canonical collate input =
     foldl (\<lambda>s want. foldl (considerAccount canonical collate input want) s (automaticAccountOrder (ci_accounts input)))
       (searchStart canonical collate input) (ci_wants input)"

definition originalOf :: "candidates_input \<Rightarrow> model_candidate option" where
  "originalOf input = (case inspectOriginal input of Inr c \<Rightarrow> c | Inl _ \<Rightarrow> None)"

lemma resolve_search:
  "resolveModelCandidates canonical collate input =
     (sort_key (\<lambda>c. if mc_usageLimited c then 1 else 0 :: nat) (cs_candidates (search canonical collate input)) @
        (case originalOf input of None \<Rightarrow> [] | Some c \<Rightarrow> [c]),
      cs_skipped (search canonical collate input))"
  by (cases "inspectOriginal input")
     (auto simp: resolveModelCandidates_def search_def searchStart_def originalOf_def Let_def split: option.splits)

lemma search_ok:
  "search_inv canonical collate input (originalOf input) (search canonical collate input)"
  unfolding search_def
proof (rule foldl_keeps)
  show "search_inv canonical collate input (originalOf input) (searchStart canonical collate input)"
    by (auto simp: search_inv_def searchStart_def originalOf_def split: sum.splits option.splits)
next
  fix s want
  assume "search_inv canonical collate input (originalOf input) s"
  then show "search_inv canonical collate input (originalOf input)
      (foldl (considerAccount canonical collate input want) s (automaticAccountOrder (ci_accounts input)))"
    by (rule foldl_keeps) (simp add: consider_inv)
qed

lemma search_heard:
  assumes "want \<in> set (ci_wants input)" and "a \<in> set (ci_accounts input)" and "concerns want a"
  shows "heard want a (search canonical collate input)"
  unfolding search_def
proof (rule foldl_reaches [OF assms(1)])
  show "heard want a (foldl (considerAccount canonical collate input want) s (automaticAccountOrder (ci_accounts input)))" for s
    by (rule foldl_reaches [where x = a]) (use assms heard_now heard_keeps in auto)
  show "heard want a (foldl (considerAccount canonical collate input w) s (automaticAccountOrder (ci_accounts input)))"
    if "heard want a s" for s w
    by (rule foldl_keeps [where P = "heard want a", OF that]) (rule heard_keeps)
qed

text \<open>Sorting by a flag keeps the order on either side of it.\<close>

lemma insort_after:
  "\<forall>y \<in> set A. f y < f x \<Longrightarrow> \<forall>y \<in> set B. f x \<le> f y \<Longrightarrow> insort_key f x (A @ B) = A @ x # B"
  by (induction A) (auto simp: insort_is_Cons)

lemma sort_flag:
  "sort_key (\<lambda>c. if p c then 1 else 0 :: nat) cs = filter (\<lambda>c. \<not> p c) cs @ filter p cs"
proof (induction cs)
  case (Cons c cs)
  let ?f = "\<lambda>c. if p c then 1 else 0 :: nat"
  show ?case
  proof (cases "p c")
    case True
    then show ?thesis using Cons insort_after [of "filter (\<lambda>c. \<not> p c) cs" ?f c "filter p cs"] by simp
  next
    case False
    then show ?thesis using Cons insort_after [of "[]" ?f c "filter (\<lambda>c. \<not> p c) cs @ filter p cs"] by simp
  qed
qed simp

lemma filters_mset: "mset (filter (\<lambda>c. \<not> p c) cs @ filter p cs) = mset cs"
  by (metis mset_sort sort_flag)

section \<open>Properties\<close>

text \<open>C12: Every candidate is an account of the caller that may run now, with a model its catalog offers and options
  the model takes; no two are the same choice; those out of usage come after the others, and the
  original choice, when it can still run, last.
\<close>

theorem candidates_sound:
  "\<exists>free limited original. fst (resolveModelCandidates canonical collate input) = free @ limited @ original \<and>
     list_all (\<lambda>c. candidateOk input c \<and> \<not> mc_original c \<and> \<not> mc_usageLimited c) free \<and>
     list_all (\<lambda>c. candidateOk input c \<and> \<not> mc_original c \<and> mc_usageLimited c) limited \<and>
     list_all (\<lambda>c. candidateOk input c \<and> mc_original c) original \<and> length original \<le> 1 \<and>
     distinct (map (modelCandidateKey canonical collate) (free @ limited @ original))"
proof -
  let ?k = "modelCandidateKey canonical collate"
  define cs where "cs = cs_candidates (search canonical collate input)"
  define free where "free = filter (\<lambda>c. \<not> mc_usageLimited c) cs"
  define limited where "limited = filter mc_usageLimited cs"
  define orig where "orig = (case originalOf input of None \<Rightarrow> [] | Some c \<Rightarrow> [c])"
  have i: "list_all (\<lambda>c. candidateOk input c \<and> \<not> mc_original c) cs" "distinct (map ?k cs)"
      "\<forall>o' \<in> set orig. ?k o' \<notin> ?k ` set cs"
    using search_ok [of canonical collate input] by (auto simp: search_inv_def cs_def orig_def split: option.splits)
  have o': "list_all (\<lambda>c. candidateOk input c \<and> mc_original c) orig" "length orig \<le> 1" "distinct orig"
    using original_ok by (auto simp: orig_def originalOf_def split: sum.splits option.splits)
  have m: "mset (map ?k (free @ limited)) = mset (map ?k cs)"
    unfolding mset_map free_def limited_def filters_mset ..
  then have d: "distinct (map ?k (free @ limited))" "set (map ?k (free @ limited)) = set (map ?k cs)"
    using i(2) by (metis mset_eq_imp_distinct_iff, metis mset_eq_setD)
  have "distinct (map ?k orig)" using o'(2) by (cases orig) auto
  moreover have "set (map ?k (free @ limited)) \<inter> set (map ?k orig) = {}" unfolding d(2) using i(3) by auto
  ultimately have k: "distinct (map ?k (free @ limited @ orig))" using d(1) by (metis append.assoc distinct_append map_append)
  have "fst (resolveModelCandidates canonical collate input) = free @ limited @ orig"
    by (simp add: resolve_search sort_flag free_def limited_def orig_def cs_def)
  moreover have "list_all (\<lambda>c. candidateOk input c \<and> \<not> mc_original c \<and> \<not> mc_usageLimited c) free"
    "list_all (\<lambda>c. candidateOk input c \<and> \<not> mc_original c \<and> mc_usageLimited c) limited"
    using i(1) by (simp_all add: list_all_iff free_def limited_def)
  ultimately show ?thesis using k o' by blast
qed

text \<open>No want is dropped in silence: for every account it concerns, the answer has a candidate on that account
  or a reason why that want skipped it.
\<close>

theorem candidates_complete:
  assumes "want \<in> set (ci_wants input)" and "a \<in> set (ci_accounts input)" and "concerns want a"
  shows "case resolveModelCandidates canonical collate input of (candidates, skipped) \<Rightarrow>
    list_ex (\<lambda>c. mc_environmentId c = ma_environmentId a \<and> mc_harnessInstanceId c = ma_harnessInstanceId a) candidates \<or>
    list_ex (\<lambda>k. sk_want k = Some want \<and> sk_harnessInstanceId k = Some (ma_harnessInstanceId a)) skipped"
proof -
  let ?s = "search canonical collate input" and ?k = "modelCandidateKey canonical collate"
  have key: "mc_environmentId c = fst (?k c)" "mc_harnessInstanceId c = fst (snd (?k c))" for c
    by (simp_all add: modelCandidateKey_def)
  have seen: "set (cs_seen ?s) = ?k ` (set (cs_candidates ?s) \<union> set_option (originalOf input))"
    using search_ok [of canonical collate input] by (simp add: search_inv_def)
  have cands: "set (fst (resolveModelCandidates canonical collate input)) = set (cs_candidates ?s) \<union> set_option (originalOf input)"
    by (auto simp: resolve_search split: option.splits)
  have skipped: "snd (resolveModelCandidates canonical collate input) = cs_skipped ?s" by (simp add: resolve_search)
  from search_heard [OF assms, of canonical collate] show ?thesis
    unfolding heard_def seen cands [symmetric] skipped [symmetric]
    by (auto simp: list_ex_iff key split: prod.splits)
qed

lemma history_distinct:
  assumes "\<not> list_ex (sameExecutionChoice c) h" and "sorted_wrt (\<lambda>x y. \<not> sameExecutionChoice x y) h"
  shows "sorted_wrt (\<lambda>x y. \<not> sameExecutionChoice x y) (take n (c # h))"
  using assms by (intro sorted_wrt_take) (auto simp: list_ex_iff)

lemma same_sym: "sameExecutionChoice x y = sameExecutionChoice y x"
  by (auto simp: sameExecutionChoice_def)

text \<open>A person's history holds each choice once, newest first and at most as many as the limit; the choice just
  made leads it, and the others keep their order.
\<close>

theorem history_remembers:
  assumes "sorted_wrt (\<lambda>x y. \<not> sameExecutionChoice x y) (ep_history p)" and "length (ep_history p) \<le> executionHistoryLimit"
    and "xc_selection choice = Some c"
  defines "h \<equiv> ep_history (rememberExecutionChoice p choice)"
  shows "sorted_wrt (\<lambda>x y. \<not> sameExecutionChoice x y) h \<and> length h \<le> executionHistoryLimit \<and>
    h = c # take (executionHistoryLimit - 1) (filter (\<lambda>x. \<not> sameExecutionChoice x c) (ep_history p)) \<and>
    ep_history (rememberExecutionChoice (rememberExecutionChoice p choice) choice) = h"
proof -
  let ?f = "filter (\<lambda>x. \<not> sameExecutionChoice x c)"
  have h: "h = c # take (executionHistoryLimit - 1) (?f (ep_history p))"
    using assms(3) by (simp add: h_def rememberExecutionChoice_def executionHistoryLimit_def)
  have "sorted_wrt (\<lambda>x y. \<not> sameExecutionChoice x y) h"
    using assms(1,3) history_distinct [of c "?f (ep_history p)"]
    by (simp add: h_def rememberExecutionChoice_def sorted_wrt_filter list_ex_iff same_sym)
  moreover have "?f (take n (?f xs)) = take n (?f xs)" for n xs
    by (intro filter_True) (auto dest: in_set_takeD)
  then have "ep_history (rememberExecutionChoice (rememberExecutionChoice p choice) choice) = h"
    using assms(3) h by (simp add: rememberExecutionChoice_def [of "rememberExecutionChoice p choice"] h_def [symmetric]
        executionHistoryLimit_def sameExecutionChoice_def [of c c])
  ultimately show ?thesis using h by (simp add: executionHistoryLimit_def)
qed


definition descriptor_ex :: model_descriptor where
  "descriptor_ex = \<lparr>md_providerId = ''openai'', md_modelId = ''gpt'', md_nativeModelId = Some ''gpt-native'', md_displayName = ''GPT'',
     md_isDefault = True, md_unavailableReason = None, md_options = [(''effort'', SelectOption (Some ''low'') [''low'', ''high''])]\<rparr>"

definition account_ex :: "ident \<Rightarrow> bool \<Rightarrow> model_account" where
  "account_ex i enabled = \<lparr>ma_environmentId = ''env'', ma_harnessInstanceId = i, ma_harnessRevision = 1, ma_driverKind = ''codex'',
     ma_sourceId = ''openai'', ma_isDefault = False, ma_enabled = enabled, ma_removed = False, ma_available = True,
     ma_catalog = Some \<lparr>sc_status = ''ready'', sc_detail = None, sc_models = [descriptor_ex], sc_lightModel = None\<rparr>, ma_usage = []\<rparr>"

definition candidates_ex :: candidates_input where
  "candidates_ex = \<lparr>ci_wants = [RankModel ''codex'' ''openai'' ''gpt'' [(''effort'', OptionText ''high'')]], ci_original = None,
     ci_accounts = [account_ex ''off'' False, account_ex ''on'' True], ci_excluded = [], ci_canRun = (\<lambda>_. Eligible), ci_now = 0\<rparr>"

text \<open>The disabled account is skipped, the other is the candidate.\<close>

theorem candidates_complete_witness:
  "list_ex (\<lambda>k. sk_harnessInstanceId k = Some ''off'' \<and> sk_reason k = Disabled)
     (snd (resolveModelCandidates (\<lambda>m p. (p, m)) length candidates_ex)) \<and>
   map mc_harnessInstanceId (fst (resolveModelCandidates (\<lambda>m p. (p, m)) length candidates_ex)) = [''on'']"
proof -
  let ?r = "resolveModelCandidates (\<lambda>m p. (p, m)) length candidates_ex"
  have c: "map mc_harnessInstanceId (fst ?r) = [''on'']" by code_simp
  have r: "map sk_reason (snd ?r) = [Disabled]" by code_simp
  have "case ?r of (candidates, skipped) \<Rightarrow>
      list_ex (\<lambda>c. mc_environmentId c = ma_environmentId (account_ex ''off'' False) \<and>
        mc_harnessInstanceId c = ma_harnessInstanceId (account_ex ''off'' False)) candidates \<or>
      list_ex (\<lambda>k. sk_want k = Some (RankModel ''codex'' ''openai'' ''gpt'' [(''effort'', OptionText ''high'')]) \<and>
        sk_harnessInstanceId k = Some (ma_harnessInstanceId (account_ex ''off'' False))) skipped"
    by (rule candidates_complete) (simp_all add: candidates_ex_def concerns_def account_ex_def wantEngine_def wantInstance_def said_def)
  moreover have "\<not> list_ex (\<lambda>c. mc_harnessInstanceId c = ''off'') (fst ?r)"
    using c by (auto simp: list_ex_iff map_eq_Cons_conv)
  ultimately have "list_ex (\<lambda>k. sk_harnessInstanceId k = Some ''off'') (snd ?r)"
    by (auto simp: list_ex_iff account_ex_def split: prod.splits)
  then show ?thesis using r c by (auto simp: list_ex_iff map_eq_Cons_conv)
qed

theorem candidates_sound_witness:
  "list_all (candidateOk candidates_ex) (fst (resolveModelCandidates (\<lambda>m p. (p, m)) length candidates_ex))"
proof -
  obtain free limited original where r: "fst (resolveModelCandidates (\<lambda>m p. (p, m)) length candidates_ex) = free @ limited @ original"
      "list_all (\<lambda>c. candidateOk candidates_ex c \<and> \<not> mc_original c \<and> \<not> mc_usageLimited c) free"
      "list_all (\<lambda>c. candidateOk candidates_ex c \<and> \<not> mc_original c \<and> mc_usageLimited c) limited"
      "list_all (\<lambda>c. candidateOk candidates_ex c \<and> mc_original c) original"
    using candidates_sound [of "\<lambda>m p. (p, m)" length candidates_ex] by blast
  then show ?thesis by (auto simp: list_all_iff)
qed

definition chosen_ex :: "ident \<Rightarrow> execution_selection" where
  "chosen_ex m = \<lparr>ex_environmentId = ''env'', ex_harnessInstanceId = ''on'',
     ex_modelSelection = \<lparr>ms_providerId = ''openai'', ms_modelId = m, ms_options = [], ms_nativeModelId = None\<rparr>\<rparr>"

theorem history_remembers_witness:
  "ep_history (rememberExecutionChoice \<lparr>ep_accessMode = ''ask'', ep_history = [chosen_ex ''a'', chosen_ex ''b'']\<rparr>
     \<lparr>xc_accessMode = None, xc_selection = Some (chosen_ex ''b'')\<rparr>) = [chosen_ex ''b'', chosen_ex ''a'']"
proof -
  let ?p = "\<lparr>ep_accessMode = ''ask'', ep_history = [chosen_ex ''a'', chosen_ex ''b'']\<rparr>"
  have "sorted_wrt (\<lambda>x y. \<not> sameExecutionChoice x y) (ep_history ?p)" "length (ep_history ?p) \<le> executionHistoryLimit"
    by (simp_all add: sameExecutionChoice_def chosen_ex_def executionHistoryLimit_def)
  from history_remembers [OF this, of "\<lparr>xc_accessMode = None, xc_selection = Some (chosen_ex ''b'')\<rparr>" "chosen_ex ''b''"]
  show ?thesis by (simp add: executionHistoryLimit_def sameExecutionChoice_def chosen_ex_def)
qed

end
