(* ===== verification/Cdp_Values.thy ===== *)
theory Cdp_Values
  imports JS_Text
begin

text \<open>
  A value that came over the browser's protocol. Of a number the code reads whether it is finite, whether it is
  whole, and its 32 low bits; a fraction keeps its truncation. A record lists its own properties in the order
  the language enumerates them.
\<close>

datatype js_number = Whole int | Fraction int | NotFinite

datatype js_value =
    JsUndefined | JsNull | JsBool bool | JsNumber js_number | JsText utf16
  | JsArray "js_value list"
  | JsObject "(ident \<times> js_value) list"

type_synonym js_record = "(ident \<times> js_value) list"

datatype path_part = PField ident | PItem nat
type_synonym path = "path_part list"

definition largestSafeInteger :: int where
  "largestSafeInteger = 2 ^ 53 - 1"

text \<open>A property of a record, as reading it gives it.\<close>

definition given :: "js_record \<Rightarrow> ident \<Rightarrow> js_value" where
  "given params name = (case map_of params name of Some v \<Rightarrow> v | None \<Rightarrow> JsUndefined)"

end
