(* ===== verification/Cdp_Allowlist.thy ===== *)
theory Cdp_Allowlist
  imports OS_Prelude
begin

text \<open>
  Everything an agent may send to a page and receive from it (packages/browser-core/src/agent-cdp-allowlist.ts),
  and the methods that only observe (agent-cdp-policy.ts): the tables themselves. A field is its name, what it
  takes and whether it may be left out.
\<close>

datatype cdp_kind =
    KAny | KBoolean | KInteger | KNumber | KRecord | KString
  | KArray cdp_kind
  | KEnum "ident list"
  | KObject "(ident \<times> cdp_kind \<times> bool) list"

type_synonym cdp_field = "ident \<times> cdp_kind \<times> bool"

definition viewport :: "cdp_kind" where
  "viewport =
     KObject [(''height'', KNumber, False), (''scale'', KNumber, False), (''width'', KNumber, False), (''x'', KNumber,
     False), (''y'', KNumber, False)]"

definition rect :: "cdp_kind" where
  "rect =
     KObject [(''height'', KNumber, False), (''width'', KNumber, False), (''x'', KNumber, False), (''y'', KNumber,
     False)]"

definition serializationOptions :: "cdp_kind" where
  "serializationOptions =
     KObject [(''additionalParameters'', KRecord, True), (''maxDepth'', KInteger, True), (''serialization'',
     KEnum [''deep'', ''json'', ''idOnly''], False)]"

definition callArgument :: "cdp_kind" where
  "callArgument =
     KObject [(''objectId'', KString, True), (''unserializableValue'', KString, True), (''value'', KAny, True)]"

definition touchPoint :: "cdp_kind" where
  "touchPoint =
     KObject [(''force'', KNumber, True), (''id'', KNumber, True), (''radiusX'', KNumber, True), (''radiusY'', KNumber,
     True), (''rotationAngle'', KNumber, True), (''tangentialPressure'', KNumber, True), (''tiltX'', KNumber, True),
     (''tiltY'', KNumber, True), (''twist'', KInteger, True), (''x'', KNumber, False), (''y'', KNumber, False)]"

definition dragData :: "cdp_kind" where
  "dragData =
     KObject [(''dragOperationsMask'', KInteger, False), (''files'', KArray (KString), True), (''items'',
     KArray (KObject [(''baseURL'', KString, True), (''data'', KString, False), (''mimeType'', KString, False),
     (''title'', KString, True)]), False)]"

definition mouseButton :: "cdp_kind" where
  "mouseButton =
     KEnum [''none'', ''left'', ''middle'', ''right'', ''back'', ''forward'']"

definition nodeTarget :: "cdp_field list" where
  "nodeTarget =
     [(''backendNodeId'', KInteger, True), (''nodeId'', KInteger, True), (''objectId'', KString, True)]"

definition pageMethods :: "(ident \<times> cdp_field list) list" where
  "pageMethods =
     [(''Page.enable'', [(''enableFileChooserOpenedEvent'', KBoolean, True)]),
      (''Page.disable'', []),
      (''Page.navigate'', [(''frameId'', KString, True), (''transitionType'', KEnum [''link'', ''typed'', ''address_bar'', ''auto_bookmark'',
     ''auto_subframe'', ''manual_subframe'', ''generated'', ''auto_toplevel'', ''form_submit'', ''reload'', ''keyword'',
     ''keyword_generated'', ''other''], True), (''url'', KString, False)]),
      (''Page.reload'', [(''ignoreCache'', KBoolean, True), (''loaderId'', KString, True)]),
      (''Page.stopLoading'', []),
      (''Page.getNavigationHistory'', []),
      (''Page.navigateToHistoryEntry'', [(''entryId'', KInteger, False)]),
      (''Page.getFrameTree'', []),
      (''Page.getLayoutMetrics'', []),
      (''Page.captureScreenshot'', [(''clip'', viewport, True), (''format'', KEnum [''jpeg'', ''png'', ''webp''], True), (''optimizeForSpeed'',
     KBoolean, True), (''quality'', KInteger, True)]),
      (''Page.printToPDF'', [(''displayHeaderFooter'', KBoolean, True), (''footerTemplate'', KString, True), (''generateDocumentOutline'',
     KBoolean, True), (''generateTaggedPDF'', KBoolean, True), (''headerTemplate'', KString, True), (''landscape'',
     KBoolean, True), (''marginBottom'', KNumber, True), (''marginLeft'', KNumber, True), (''marginRight'', KNumber,
     True), (''marginTop'', KNumber, True), (''pageRanges'', KString, True), (''paperHeight'', KNumber, True),
     (''paperWidth'', KNumber, True), (''preferCSSPageSize'', KBoolean, True), (''printBackground'', KBoolean, True),
     (''scale'', KNumber, True), (''transferMode'', KEnum [''ReturnAsBase64''], True)]),
      (''Page.handleJavaScriptDialog'', [(''accept'', KBoolean, False), (''promptText'', KString, True)]),
      (''Page.setLifecycleEventsEnabled'', [(''enabled'', KBoolean, False)]),
      (''Page.bringToFront'', []),
      (''Page.setInterceptFileChooserDialog'', [(''cancel'', KBoolean, True), (''enabled'', KBoolean, False)]),
      (''Page.startScreencast'', [(''everyNthFrame'', KInteger, True), (''format'', KEnum [''jpeg'', ''png''], True), (''maxHeight'', KInteger,
     True), (''maxWidth'', KInteger, True), (''quality'', KInteger, True)]),
      (''Page.screencastFrameAck'', [(''sessionId'', KInteger, False)]),
      (''Page.stopScreencast'', [])]"

definition runtimeMethods :: "(ident \<times> cdp_field list) list" where
  "runtimeMethods =
     [(''Runtime.enable'', []),
      (''Runtime.disable'', []),
      (''Runtime.evaluate'', [(''allowUnsafeEvalBlockedByCSP'', KBoolean, True), (''awaitPromise'', KBoolean, True), (''disableBreaks'',
     KBoolean, True), (''expression'', KString, False), (''generatePreview'', KBoolean, True),
     (''includeCommandLineAPI'', KBoolean, True), (''objectGroup'', KString, True), (''replMode'', KBoolean, True),
     (''returnByValue'', KBoolean, True), (''serializationOptions'', serializationOptions, True), (''silent'', KBoolean,
     True), (''throwOnSideEffect'', KBoolean, True), (''timeout'', KNumber, True), (''userGesture'', KBoolean, True)]),
      (''Runtime.callFunctionOn'', [(''arguments'', KArray (callArgument), True), (''awaitPromise'', KBoolean, True), (''functionDeclaration'',
     KString, False), (''generatePreview'', KBoolean, True), (''objectGroup'', KString, True), (''objectId'', KString,
     False), (''returnByValue'', KBoolean, True), (''serializationOptions'', serializationOptions, True), (''silent'',
     KBoolean, True), (''throwOnSideEffect'', KBoolean, True), (''userGesture'', KBoolean, True)]),
      (''Runtime.getProperties'', [(''accessorPropertiesOnly'', KBoolean, True), (''generatePreview'', KBoolean, True),
     (''nonIndexedPropertiesOnly'', KBoolean, True), (''objectId'', KString, False), (''ownProperties'', KBoolean,
     True)]),
      (''Runtime.awaitPromise'', [(''generatePreview'', KBoolean, True), (''promiseObjectId'', KString, False), (''returnByValue'', KBoolean, True)]),
      (''Runtime.releaseObject'', [(''objectId'', KString, False)]),
      (''Runtime.releaseObjectGroup'', [(''objectGroup'', KString, False)])]"

definition domMethods :: "(ident \<times> cdp_field list) list" where
  "domMethods =
     [(''DOM.enable'', [(''includeWhitespace'', KEnum [''none'', ''all''], True)]),
      (''DOM.disable'', []),
      (''DOM.getDocument'', [(''depth'', KInteger, True), (''pierce'', KBoolean, True)]),
      (''DOM.querySelector'', [(''nodeId'', KInteger, False), (''selector'', KString, False)]),
      (''DOM.querySelectorAll'', [(''nodeId'', KInteger, False), (''selector'', KString, False)]),
      (''DOM.describeNode'', nodeTarget @ [(''depth'', KInteger, True), (''pierce'', KBoolean, True)]),
      (''DOM.resolveNode'', [(''backendNodeId'', KInteger, True), (''nodeId'', KInteger, True), (''objectGroup'', KString, True)]),
      (''DOM.requestNode'', [(''objectId'', KString, False)]),
      (''DOM.getBoxModel'', nodeTarget),
      (''DOM.getContentQuads'', nodeTarget),
      (''DOM.getNodeForLocation'', [(''ignorePointerEventsNone'', KBoolean, True), (''includeUserAgentShadowDOM'', KBoolean, True), (''x'', KInteger,
     False), (''y'', KInteger, False)]),
      (''DOM.getOuterHTML'', nodeTarget @ [(''includeShadowDOM'', KBoolean, True)]),
      (''DOM.getAttributes'', [(''nodeId'', KInteger, False)]),
      (''DOM.scrollIntoViewIfNeeded'', nodeTarget @ [(''rect'', rect, True)]),
      (''DOM.focus'', nodeTarget),
      (''DOM.setFileInputFiles'', nodeTarget @ [(''files'', KArray (KString), False)]),
      (''DOM.setAttributeValue'', [(''name'', KString, False), (''nodeId'', KInteger, False), (''value'', KString, False)]),
      (''DOM.removeAttribute'', [(''name'', KString, False), (''nodeId'', KInteger, False)]),
      (''DOM.setOuterHTML'', [(''nodeId'', KInteger, False), (''outerHTML'', KString, False)]),
      (''DOM.removeNode'', [(''nodeId'', KInteger, False)])]"

definition inputMethods :: "(ident \<times> cdp_field list) list" where
  "inputMethods =
     [(''Input.dispatchMouseEvent'', [(''button'', mouseButton, True), (''buttons'', KInteger, True), (''clickCount'', KInteger, True), (''deltaX'',
     KNumber, True), (''deltaY'', KNumber, True), (''force'', KNumber, True), (''modifiers'', KInteger, True),
     (''pointerType'', KEnum [''mouse'', ''pen''], True), (''tangentialPressure'', KNumber, True), (''tiltX'', KNumber,
     True), (''tiltY'', KNumber, True), (''timestamp'', KNumber, True), (''twist'', KInteger, True), (''type'',
     KEnum [''mousePressed'', ''mouseReleased'', ''mouseMoved'', ''mouseWheel''], False), (''x'', KNumber, False),
     (''y'', KNumber, False)]),
      (''Input.dispatchKeyEvent'', [(''autoRepeat'', KBoolean, True), (''code'', KString, True), (''commands'', KArray (KString), True),
     (''isKeypad'', KBoolean, True), (''isSystemKey'', KBoolean, True), (''key'', KString, True), (''keyIdentifier'',
     KString, True), (''location'', KInteger, True), (''modifiers'', KInteger, True), (''nativeVirtualKeyCode'',
     KInteger, True), (''text'', KString, True), (''timestamp'', KNumber, True), (''type'', KEnum [''keyDown'',
     ''keyUp'', ''rawKeyDown'', ''char''], False), (''unmodifiedText'', KString, True), (''windowsVirtualKeyCode'',
     KInteger, True)]),
      (''Input.insertText'', [(''text'', KString, False)]),
      (''Input.dispatchTouchEvent'', [(''modifiers'', KInteger, True), (''timestamp'', KNumber, True), (''touchPoints'', KArray (touchPoint), False),
     (''type'', KEnum [''touchStart'', ''touchEnd'', ''touchMove'', ''touchCancel''], False)]),
      (''Input.dispatchDragEvent'', [(''data'', dragData, False), (''modifiers'', KInteger, True), (''type'', KEnum [''dragEnter'', ''dragOver'',
     ''drop'', ''dragCancel''], False), (''x'', KNumber, False), (''y'', KNumber, False)])]"

definition emulationMethods :: "(ident \<times> cdp_field list) list" where
  "emulationMethods =
     [(''Emulation.setDeviceMetricsOverride'', [(''deviceScaleFactor'', KNumber, False), (''dontSetVisibleSize'', KBoolean, True), (''height'', KInteger, False),
     (''mobile'', KBoolean, False), (''positionX'', KInteger, True), (''positionY'', KInteger, True), (''screenHeight'',
     KInteger, True), (''screenOrientation'', KObject [(''angle'', KInteger, False), (''type'',
     KEnum [''portraitPrimary'', ''portraitSecondary'', ''landscapePrimary'', ''landscapeSecondary''], False)], True),
     (''screenOrientationLockEmulation'', KBoolean, True), (''screenWidth'', KInteger, True), (''scrollbarType'',
     KEnum [''overlay'', ''default''], True), (''width'', KInteger, False)]),
      (''Emulation.clearDeviceMetricsOverride'', []),
      (''Emulation.setTouchEmulationEnabled'', [(''enabled'', KBoolean, False), (''maxTouchPoints'', KInteger, True)]),
      (''Emulation.setEmulatedMedia'', [(''features'', KArray (KObject [(''name'', KString, False), (''value'', KString, False)]), True), (''media'',
     KString, True)])]"

definition accessibilityMethods :: "(ident \<times> cdp_field list) list" where
  "accessibilityMethods =
     [(''Accessibility.enable'', []),
      (''Accessibility.disable'', []),
      (''Accessibility.getFullAXTree'', [(''depth'', KInteger, True), (''frameId'', KString, True)]),
      (''Accessibility.getPartialAXTree'', nodeTarget @ [(''fetchRelatives'', KBoolean, True)]),
      (''Accessibility.queryAXTree'', nodeTarget @ [(''accessibleName'', KString, True), (''role'', KString, True)])]"

definition domSnapshotMethods :: "(ident \<times> cdp_field list) list" where
  "domSnapshotMethods =
     [(''DOMSnapshot.captureSnapshot'', [(''computedStyles'', KArray (KString), False), (''includeBlendedBackgroundColors'', KBoolean, True),
     (''includeDOMRects'', KBoolean, True), (''includePaintOrder'', KBoolean, True), (''includeTextColorOpacities'',
     KBoolean, True)])]"

definition allowedMethods :: "(ident \<times> cdp_field list) list" where
  "allowedMethods = pageMethods @ runtimeMethods @ domMethods @ inputMethods @ emulationMethods @ accessibilityMethods @ domSnapshotMethods"

definition allowedEvents :: "ident list" where
  "allowedEvents =
     [''Page.domContentEventFired'', ''Page.loadEventFired'', ''Page.lifecycleEvent'', ''Page.frameAttached'',
     ''Page.frameDetached'', ''Page.frameSubtreeWillBeDetached'', ''Page.frameNavigated'', ''Page.documentOpened'',
     ''Page.frameResized'', ''Page.frameStartedNavigating'', ''Page.frameRequestedNavigation'',
     ''Page.frameScheduledNavigation'', ''Page.frameClearedScheduledNavigation'', ''Page.frameStartedLoading'',
     ''Page.frameStoppedLoading'', ''Page.navigatedWithinDocument'', ''Page.javascriptDialogOpening'',
     ''Page.javascriptDialogClosed'', ''Page.fileChooserOpened'', ''Page.windowOpen'', ''Page.screencastFrame'',
     ''Page.screencastVisibilityChanged'', ''Runtime.executionContextCreated'', ''Runtime.executionContextDestroyed'',
     ''Runtime.executionContextsCleared'', ''Runtime.consoleAPICalled'', ''Runtime.exceptionThrown'',
     ''Runtime.exceptionRevoked'', ''DOM.attributeModified'', ''DOM.attributeRemoved'', ''DOM.characterDataModified'',
     ''DOM.childNodeCountUpdated'', ''DOM.childNodeInserted'', ''DOM.childNodeRemoved'', ''DOM.documentUpdated'',
     ''DOM.inlineStyleInvalidated'', ''DOM.pseudoElementAdded'', ''DOM.pseudoElementRemoved'',
     ''DOM.scrollableFlagUpdated'', ''DOM.setChildNodes'', ''DOM.shadowRootPopped'', ''DOM.shadowRootPushed'',
     ''DOM.topLayerElementsUpdated'', ''Accessibility.loadComplete'', ''Accessibility.nodesUpdated'',
     ''Inspector.detached'', ''Inspector.targetCrashed'']"

definition agentObservationMethods :: "ident list" where
  "agentObservationMethods =
     [''Accessibility.disable'', ''Accessibility.enable'', ''Accessibility.getFullAXTree'',
     ''Accessibility.getPartialAXTree'', ''Accessibility.queryAXTree'', ''DOM.describeNode'', ''DOM.disable'',
     ''DOM.enable'', ''DOM.getAttributes'', ''DOM.getBoxModel'', ''DOM.getContentQuads'', ''DOM.getDocument'',
     ''DOM.getNodeForLocation'', ''DOM.getOuterHTML'', ''DOM.querySelector'', ''DOM.querySelectorAll'',
     ''DOM.requestNode'', ''DOM.resolveNode'', ''DOMSnapshot.captureSnapshot'', ''Page.bringToFront'', ''Page.disable'',
     ''Page.enable'', ''Page.getFrameTree'', ''Page.getLayoutMetrics'', ''Page.getNavigationHistory'',
     ''Page.screencastFrameAck'', ''Page.setLifecycleEventsEnabled'', ''Page.startScreencast'', ''Page.stopScreencast'',
     ''Runtime.disable'', ''Runtime.enable'', ''Runtime.getProperties'', ''Runtime.releaseObject'',
     ''Runtime.releaseObjectGroup'']"

end
