(* ===== verification/Cdp_Policy.thy ===== *)
theory Cdp_Policy
  imports Cdp_Values Cdp_Allowlist "HOL-Library.Word"
begin

unbundle bit_operations_syntax

text \<open>
  What an agent may send to a page (packages/browser-core/src/agent-cdp-policy.ts). A refusal is a value with
  what its message names.
\<close>

datatype refusal =
    BrowserInternals ident
  | ContextParameter ident ident
  | CommandLineApi
  | NeedsMainWorldObject
  | InlinePdfOnly
  | NoReloadScript
  | NoPaste
  | NoCopyOrCut
  | NotAccepted ident path
  | Missing ident path
  | Mistyped ident path cdp_kind

section \<open>The schema\<close>

definition isSafeInteger :: "js_value \<Rightarrow> bool" where
  "isSafeInteger v = (case v of JsNumber (Whole i) \<Rightarrow> \<bar>i\<bar> \<le> largestSafeInteger | _ \<Rightarrow> False)"

definition isFiniteNumber :: "js_value \<Rightarrow> bool" where
  "isFiniteNumber v = (case v of JsNumber n \<Rightarrow> n \<noteq> NotFinite | _ \<Rightarrow> False)"

text \<open>The first field that is required and not given.\<close>

definition missingField :: "ident \<Rightarrow> path \<Rightarrow> cdp_field list \<Rightarrow> js_record \<Rightarrow> refusal option" where
  "missingField method path fields params =
     map_option (\<lambda>(name, _). Missing method (path @ [PField name]))
       (List.find (\<lambda>(name, kind, optional). \<not> optional \<and> given params name = JsUndefined) fields)"

fun valueRefusal :: "ident \<Rightarrow> path \<Rightarrow> cdp_kind \<Rightarrow> js_value \<Rightarrow> refusal option"
  and itemsRefusal :: "ident \<Rightarrow> path \<Rightarrow> cdp_kind \<Rightarrow> nat \<Rightarrow> js_value list \<Rightarrow> refusal option"
  and givenRefusal :: "ident \<Rightarrow> path \<Rightarrow> cdp_field list \<Rightarrow> js_record \<Rightarrow> refusal option" where
  "valueRefusal method path KAny v = None"
| "valueRefusal method path KBoolean v = (case v of JsBool _ \<Rightarrow> None | _ \<Rightarrow> Some (Mistyped method path KBoolean))"
| "valueRefusal method path KString v = (case v of JsText _ \<Rightarrow> None | _ \<Rightarrow> Some (Mistyped method path KString))"
| "valueRefusal method path KNumber v = (if isFiniteNumber v then None else Some (Mistyped method path KNumber))"
| "valueRefusal method path KInteger v = (if isSafeInteger v then None else Some (Mistyped method path KInteger))"
| "valueRefusal method path (KEnum vs) v =
     (case v of JsText t \<Rightarrow> if t \<in> lit ` set vs then None else Some (Mistyped method path (KEnum vs))
      | _ \<Rightarrow> Some (Mistyped method path (KEnum vs)))"
| "valueRefusal method path (KArray items) (JsArray xs) = itemsRefusal method path items 0 xs"
| "valueRefusal method path (KArray items) v = Some (Mistyped method path (KArray items))"
| "valueRefusal method path KRecord v = (case v of JsObject _ \<Rightarrow> None | _ \<Rightarrow> Some (Mistyped method path KRecord))"
| "valueRefusal method path (KObject fields) (JsObject params) =
     (case givenRefusal method path fields params of
        Some r \<Rightarrow> Some r
      | None \<Rightarrow> missingField method path fields params)"
| "valueRefusal method path (KObject fields) v = Some (Mistyped method path (KObject fields))"
| "itemsRefusal method path items i [] = None"
| "itemsRefusal method path items i (x # xs) =
     (case valueRefusal method (path @ [PItem i]) items x of
        Some r \<Rightarrow> Some r
      | None \<Rightarrow> itemsRefusal method path items (Suc i) xs)"
| "givenRefusal method path fields [] = None"
| "givenRefusal method path fields ((name, v) # rest) =
     (case map_of fields name of
        None \<Rightarrow> Some (NotAccepted method (path @ [PField name]))
      | Some (kind, _) \<Rightarrow>
          if v = JsUndefined then givenRefusal method path fields rest
          else (case valueRefusal method (path @ [PField name]) kind v of
                  Some r \<Rightarrow> Some r
                | None \<Rightarrow> givenRefusal method path fields rest))"

definition fieldsRefusal :: "ident \<Rightarrow> path \<Rightarrow> cdp_field list \<Rightarrow> js_record \<Rightarrow> refusal option" where
  "fieldsRefusal method path fields params =
     (case givenRefusal method path fields params of
        Some r \<Rightarrow> Some r
      | None \<Rightarrow> missingField method path fields params)"

section \<open>The clipboard\<close>

text \<open>\<open>modifiers & bits\<close> on the low 32 bits of the number.\<close>

definition modifierBits :: "js_value \<Rightarrow> 32 word" where
  "modifierBits v = (case v of JsNumber (Whole i) \<Rightarrow> word_of_int i | JsNumber (Fraction i) \<Rightarrow> word_of_int i | _ \<Rightarrow> 0)"

definition textOf :: "js_value \<Rightarrow> utf16" where
  "textOf v = (case v of JsText t \<Rightarrow> t | _ \<Rightarrow> [])"

text \<open>Case folding as the \<open>iu\<close> flags do it, of the letters in the patterns: the long s folds to s.\<close>

definition foldUnit :: "nat \<Rightarrow> nat" where
  "foldUnit u = (if 65 \<le> u \<and> u \<le> 90 then u + 32 else if u = 0x17f then 115 else u)"

definition containsFolded :: "utf16 \<Rightarrow> utf16 \<Rightarrow> bool" where
  "containsFolded pattern t = list_ex (\<lambda>i. take (length pattern) (drop i (map foldUnit t)) = pattern) [0..<length t + 1]"

definition commandNames :: "js_record \<Rightarrow> utf16 list \<Rightarrow> bool" where
  "commandNames params patterns =
     (case given params ''commands'' of
        JsArray cs \<Rightarrow> list_ex (\<lambda>c. case c of JsText t \<Rightarrow> list_ex (\<lambda>p. containsFolded p t) patterns | _ \<Rightarrow> False) cs
      | _ \<Rightarrow> False)"

definition pressesKey :: "js_record \<Rightarrow> bool" where
  "pressesKey params \<longleftrightarrow> given params ''type'' = JsText (lit ''keyDown'') \<or> given params ''type'' = JsText (lit ''rawKeyDown'')"

definition keyCodeIs :: "js_record \<Rightarrow> int \<Rightarrow> bool" where
  "keyCodeIs params i \<longleftrightarrow> given params ''windowsVirtualKeyCode'' = JsNumber (Whole i)"

definition modifierHeld :: "js_record \<Rightarrow> 32 word \<Rightarrow> bool" where
  "modifierHeld params bits \<longleftrightarrow> modifierBits (given params ''modifiers'') AND bits \<noteq> 0"

definition ctrlModifier :: "32 word" where "ctrlModifier = 2"
definition metaModifier :: "32 word" where "metaModifier = 4"
definition shiftModifier :: "32 word" where "shiftModifier = 8"

definition pastesClipboard :: "js_record \<Rightarrow> bool" where
  "pastesClipboard params =
     (if commandNames params [lit ''paste''] then True
      else if \<not> pressesKey params then False
      else
        let key = textOf (given params ''key'');
            code = textOf (given params ''code'')
        in if key = lit ''Paste'' \<or> code = lit ''Paste'' then True
           else
             let isV = (map foldUnit key = lit ''v'' \<or> code = lit ''KeyV'' \<or> keyCodeIs params 86);
                 isInsert = (key = lit ''Insert'' \<or> code = lit ''Insert'' \<or> keyCodeIs params 45)
             in (isV \<and> modifierHeld params (ctrlModifier OR metaModifier)) \<or> (isInsert \<and> modifierHeld params shiftModifier))"

definition writesClipboard :: "js_record \<Rightarrow> bool" where
  "writesClipboard params =
     (if commandNames params [lit ''copy'', lit ''cut''] then True
      else if \<not> pressesKey params then False
      else
        let key = textOf (given params ''key'');
            code = textOf (given params ''code'')
        in if key \<in> {lit ''Copy'', lit ''Cut''} \<or> code \<in> {lit ''Copy'', lit ''Cut''} then True
           else
             let isCopyOrCutKey = (map foldUnit key \<in> {lit ''c'', lit ''x''} \<or> code \<in> {lit ''KeyC'', lit ''KeyX''} \<or>
                   keyCodeIs params 67 \<or> keyCodeIs params 88);
                 isInsert = (key = lit ''Insert'' \<or> code = lit ''Insert'' \<or> keyCodeIs params 45);
                 isDelete = (key = lit ''Delete'' \<or> code = lit ''Delete'' \<or> keyCodeIs params 46)
             in (isCopyOrCutKey \<and> modifierHeld params (ctrlModifier OR metaModifier)) \<or>
                (isInsert \<and> modifierHeld params ctrlModifier) \<or> (isDelete \<and> modifierHeld params shiftModifier))"

section \<open>A command\<close>

definition contextParameters :: "ident list" where
  "contextParameters = [''contextId'', ''executionContextId'', ''uniqueContextId'']"

text \<open>\<open>value ?? fallback\<close>\<close>

definition orElse :: "js_value \<Rightarrow> js_value \<Rightarrow> js_value" where
  "orElse v fallback = (if v = JsUndefined \<or> v = JsNull then fallback else v)"

definition agentPageCommandRefusal :: "ident \<Rightarrow> js_record \<Rightarrow> bool \<Rightarrow> refusal option" where
  "agentPageCommandRefusal method params machineClipboardShared =
     (case map_of allowedMethods method of
        None \<Rightarrow> Some (BrowserInternals method)
      | Some fields \<Rightarrow>
          (case List.find (\<lambda>(name, _). name \<in> set contextParameters) params of
             Some (name, _) \<Rightarrow> Some (ContextParameter method name)
           | None \<Rightarrow>
               if method = ''Runtime.evaluate'' \<and> orElse (given params ''includeCommandLineAPI'') (JsBool False) \<noteq> JsBool False
               then Some CommandLineApi
               else if method = ''Runtime.callFunctionOn'' \<and> (case given params ''objectId'' of JsText _ \<Rightarrow> False | _ \<Rightarrow> True)
               then Some NeedsMainWorldObject
               else if method = ''Page.printToPDF'' \<and>
                 orElse (given params ''transferMode'') (JsText (lit ''ReturnAsBase64'')) \<noteq> JsText (lit ''ReturnAsBase64'')
               then Some InlinePdfOnly
               else if method = ''Page.reload'' \<and> ''scriptToEvaluateOnLoad'' \<in> fst ` set params then Some NoReloadScript
               else if method = ''Input.dispatchKeyEvent'' \<and> pastesClipboard params then Some NoPaste
               else if method = ''Input.dispatchKeyEvent'' \<and> machineClipboardShared \<and> writesClipboard params
               then Some NoCopyOrCut
               else fieldsRefusal method [] fields params))"

definition isAgentPageEvent :: "ident \<Rightarrow> bool" where
  "isAgentPageEvent method \<longleftrightarrow> method \<in> set allowedEvents"


section \<open>What conforms\<close>

text \<open>The schema as a judgement: what it is for a value to be of a kind.\<close>

inductive conforms :: "cdp_kind \<Rightarrow> js_value \<Rightarrow> bool" where
  any_ok: "conforms KAny v"
| boolean_ok: "conforms KBoolean (JsBool b)"
| text_ok: "conforms KString (JsText t)"
| number_ok: "n \<noteq> NotFinite \<Longrightarrow> conforms KNumber (JsNumber n)"
| integer_ok: "\<bar>i\<bar> \<le> largestSafeInteger \<Longrightarrow> conforms KInteger (JsNumber (Whole i))"
| enum_ok: "v \<in> set vs \<Longrightarrow> conforms (KEnum vs) (JsText (lit v))"
| array_ok: "\<forall>x \<in> set xs. conforms kind x \<Longrightarrow> conforms (KArray kind) (JsArray xs)"
| record_ok: "conforms KRecord (JsObject params)"
| object_ok: "\<forall>(name, v) \<in> set params. \<exists>kind opt. map_of fields name = Some (kind, opt) \<and> (v = JsUndefined \<or> conforms kind v) \<Longrightarrow>
    \<forall>(name, kind, opt) \<in> set fields. opt \<or> given params name \<noteq> JsUndefined \<Longrightarrow>
    conforms (KObject fields) (JsObject params)"

inductive_simps conforms_simps:
  "conforms KAny v" "conforms KBoolean v" "conforms KString v" "conforms KNumber v" "conforms KInteger v"
  "conforms (KEnum vs) v" "conforms (KArray kind) v" "conforms KRecord v" "conforms (KObject fields) v"

inductive_simps conforms_object: "conforms (KObject fields) (JsObject params)"

lemma missing_none:
  "missingField method path fields params = None \<longleftrightarrow> (\<forall>(name, kind, opt) \<in> set fields. opt \<or> given params name \<noteq> JsUndefined)"
  by (auto simp: missingField_def find_None_iff)

lemma conforms_iff:
  "valueRefusal m path kind v = None \<longleftrightarrow> conforms kind v"
  "itemsRefusal m path kind i xs = None \<longleftrightarrow> (\<forall>x \<in> set xs. conforms kind x)"
  "givenRefusal m path fields params = None \<longleftrightarrow>
     (\<forall>(name, v) \<in> set params. \<exists>kind opt. map_of fields name = Some (kind, opt) \<and> (v = JsUndefined \<or> conforms kind v))"
proof (induction m path kind v and m path kind i xs and m path fields params
    rule: valueRefusal_itemsRefusal_givenRefusal.induct)
  case (4 m path v)
  then show ?case by (auto simp: conforms_simps isFiniteNumber_def split: js_value.splits)
next
  case (5 m path v)
  then show ?case by (auto simp: conforms_simps isSafeInteger_def split: js_value.splits js_number.splits)
next
  case (15 m path fields name v rest)
  show ?case
  proof (cases "map_of fields name")
    case None
    then show ?thesis by simp
  next
    case (Some kp)
    obtain kind opt where k: "kp = (kind, opt)" by fastforce
    show ?thesis
    proof (cases "v = JsUndefined")
      case True
      then show ?thesis using "15.IH"(1) [OF Some k[symmetric] True] Some k True by simp
    next
      case False
      have kindOk: "valueRefusal m (path @ [PField name]) kind v = None \<longleftrightarrow> conforms kind v"
        using "15.IH"(2) [OF Some k[symmetric] False] .
      show ?thesis
      proof (cases "valueRefusal m (path @ [PField name]) kind v")
        case None
        then show ?thesis using "15.IH"(3) [OF Some k[symmetric] False None] kindOk Some k False by simp
      next
        case (Some r)
        then show ?thesis using kindOk \<open>map_of fields name = Some kp\<close> k False by simp
      qed
    qed
  qed
qed (auto simp: conforms_simps missing_none split: js_value.splits option.splits)

section \<open>What is admitted\<close>

text \<open>What a key event must not do, beside having the parameters the schema asks for.\<close>

definition keyEventAllowed :: "js_record \<Rightarrow> bool \<Rightarrow> bool" where
  "keyEventAllowed params shared \<longleftrightarrow> \<not> pastesClipboard params \<and> \<not> (shared \<and> writesClipboard params)"

lemma context_parameter_none:
  "List.find (\<lambda>(name, _). name \<in> set contextParameters) params = None \<longleftrightarrow> fst ` set params \<inter> set contextParameters = {}"
  by (force simp: find_None_iff)

lemma fields_none:
  "fieldsRefusal method path fields params = None \<longleftrightarrow> conforms (KObject fields) (JsObject params)"
proof -
  have "fieldsRefusal method path fields params = None \<longleftrightarrow>
    givenRefusal method path fields params = None \<and> missingField method path fields params = None"
    by (simp add: fieldsRefusal_def split: option.split)
  then show ?thesis by (simp only: conforms_iff(3) missing_none conforms_object ex_simps)
qed

text \<open>C11: a command an agent may send is exactly one on the allowlist whose parameters are of the schema there, at
  every depth: every given parameter is named by the schema and of its kind, and every required one is given.
  On top, no parameter chooses an execution context, an evaluation leaves the console helpers out, a function
  is called on an object handle, a PDF comes back inline, a reload runs no script, no key event pastes and, where
  the machine's clipboard is shared, none copies or cuts.
\<close>

theorem admitted_commands_conform:
  "agentPageCommandRefusal method params shared = None \<longleftrightarrow>
     (\<exists>fields. map_of allowedMethods method = Some fields \<and> conforms (KObject fields) (JsObject params)) \<and>
     fst ` set params \<inter> set contextParameters = {} \<and>
     (method = ''Runtime.evaluate'' \<longrightarrow> given params ''includeCommandLineAPI'' \<in> {JsUndefined, JsNull, JsBool False}) \<and>
     (method = ''Runtime.callFunctionOn'' \<longrightarrow> (\<exists>handle. given params ''objectId'' = JsText handle)) \<and>
     (method = ''Page.printToPDF'' \<longrightarrow> given params ''transferMode'' \<in> {JsUndefined, JsNull, JsText (lit ''ReturnAsBase64'')}) \<and>
     (method = ''Page.reload'' \<longrightarrow> ''scriptToEvaluateOnLoad'' \<notin> fst ` set params) \<and>
     (method = ''Input.dispatchKeyEvent'' \<longrightarrow> keyEventAllowed params shared)"
proof (cases "map_of allowedMethods method")
  case None
  then show ?thesis by (simp add: agentPageCommandRefusal_def)
next
  case (Some fields)
  have handle: "(case given params ''objectId'' of JsText _ \<Rightarrow> False | _ \<Rightarrow> True) \<longleftrightarrow> \<not> (\<exists>h. given params ''objectId'' = JsText h)"
    by (simp split: js_value.split)
  show ?thesis
  proof (cases "fst ` set params \<inter> set contextParameters = {}")
    case True
    then have "List.find (\<lambda>(name, _). name \<in> set contextParameters) params = None" by (simp add: context_parameter_none)
    with Some True show ?thesis
      unfolding agentPageCommandRefusal_def keyEventAllowed_def handle
      by (simp add: fields_none orElse_def)
  next
    case False
    then show ?thesis using Some context_parameter_none [of params]
      by (auto simp: agentPageCommandRefusal_def split: option.splits)
  qed
qed


definition copyKey :: js_record where
  "copyKey = [(''type'', JsText (lit ''keyDown'')), (''key'', JsText (lit ''c'')), (''code'', JsText (lit ''KeyC'')),
     (''modifiers'', JsNumber (Whole 2))]"

lemma copy_key_refusals:
  "agentPageCommandRefusal ''Input.dispatchKeyEvent'' copyKey False = None"
  "agentPageCommandRefusal ''Input.dispatchKeyEvent'' copyKey True = Some NoCopyOrCut"
  by code_simp+

theorem admitted_commands_conform_witness:
  "(\<exists>fields. map_of allowedMethods ''Input.dispatchKeyEvent'' = Some fields \<and> conforms (KObject fields) (JsObject copyKey)) \<and>
   keyEventAllowed copyKey False \<and> \<not> pastesClipboard copyKey"
  using admitted_commands_conform [of "''Input.dispatchKeyEvent''" copyKey False] copy_key_refusals
  by (simp add: keyEventAllowed_def)


section \<open>The allowlist as a whole\<close>

text \<open>Every field a schema names, at every depth.\<close>

fun namedFields :: "cdp_kind \<Rightarrow> ident list" where
  "namedFields (KArray kind) = namedFields kind"
| "namedFields (KObject fields) = concat (map (\<lambda>(name, kind, _). name # namedFields kind) fields)"
| "namedFields _ = []"

definition domainOf :: "ident \<Rightarrow> ident" where
  "domainOf method = takeWhile (\<lambda>c. c \<noteq> CHR ''.'') method"

text \<open>the allowlist has one schema per method, stays in the domains that drive a page, and no schema in it, at any
  depth, has a parameter that chooses an execution context. The methods counted as mere observation are methods of the
  list, and no event of the list is of a domain with cookies, headers, storage or logs in it.
\<close>

theorem allowlist_stays_in_page:
  "distinct (map fst allowedMethods) \<and>
   set (map (domainOf \<circ> fst) allowedMethods) =
     {''Accessibility'', ''DOM'', ''DOMSnapshot'', ''Emulation'', ''Input'', ''Page'', ''Runtime''} \<and>
   list_all (\<lambda>(method, fields). set (namedFields (KObject fields)) \<inter> set contextParameters = {}) allowedMethods \<and>
   set agentObservationMethods \<subseteq> set (map fst allowedMethods) \<and>
   set (map domainOf allowedEvents) \<subseteq> {''Accessibility'', ''DOM'', ''Inspector'', ''Page'', ''Runtime''}"
proof (intro conjI)
  show "distinct (map fst allowedMethods)" by code_simp
  show "set (map (domainOf \<circ> fst) allowedMethods) =
     {''Accessibility'', ''DOM'', ''DOMSnapshot'', ''Emulation'', ''Input'', ''Page'', ''Runtime''}" by code_simp
  show "list_all (\<lambda>(method, fields). set (namedFields (KObject fields)) \<inter> set contextParameters = {}) allowedMethods" by code_simp
  show "set agentObservationMethods \<subseteq> set (map fst allowedMethods)" by code_simp
  show "set (map domainOf allowedEvents) \<subseteq> {''Accessibility'', ''DOM'', ''Inspector'', ''Page'', ''Runtime''}" by code_simp
qed

end
