(* ===== verification/Execution_Contexts.thy ===== *)
theory Execution_Contexts
  imports Cdp_Values
begin

text \<open>
  The execution contexts of one CDP session and the object handles that name them
  (packages/browser-core/src/execution-contexts.ts). The inventory keeps its contexts in the order they were
  reported. A handle is V8's \<open>isolate.context.object\<close>, each in canonical decimal.
\<close>

section \<open>One context\<close>

record context_entry =
  description :: js_record
  frameId :: "utf16 option"
  entryId :: int
  mainWorld :: bool
  uniqueId :: "utf16 option"

definition asRecord :: "js_value \<Rightarrow> js_record" where
  "asRecord v = (case v of JsObject members \<Rightarrow> members | _ \<Rightarrow> [])"

definition maximumInt32 :: int where
  "maximumInt32 = 2 ^ 31 - 1"

definition contextEntry :: "js_value \<Rightarrow> context_entry option" where
  "contextEntry v =
     (let reported = asRecord v
      in case given reported ''id'' of
           JsNumber (Whole i) \<Rightarrow>
             if \<bar>i\<bar> > largestSafeInteger \<or> i < 1 \<or> i > maximumInt32 then None
             else
               let auxData = asRecord (given reported ''auxData'');
                   frame = (case given auxData ''frameId'' of
                     JsText t \<Rightarrow> if t = [] then None else Some t | _ \<Rightarrow> None)
               in Some \<lparr>description = reported, frameId = frame, entryId = i,
                    mainWorld = (given auxData ''isDefault'' = JsBool True \<and>
                      given auxData ''type'' = JsText (lit ''default'') \<and> frame \<noteq> None),
                    uniqueId = (case given reported ''uniqueId'' of JsText t \<Rightarrow> Some t | _ \<Rightarrow> None)\<rparr>
         | _ \<Rightarrow> None)"

section \<open>The inventory\<close>

type_synonym inventory = "(int, context_entry) jsmap"

definition observe :: "inventory \<Rightarrow> ident \<Rightarrow> js_record \<Rightarrow> inventory \<times> context_entry option" where
  "observe ctx method params =
     (if method = ''Runtime.executionContextCreated'' then
        (case contextEntry (given params ''context'') of
           None \<Rightarrow> (ctx, None)
         | Some entry \<Rightarrow> (jset (entryId entry) entry (jdel (entryId entry) ctx), Some entry))
      else if method = ''Runtime.executionContextDestroyed'' then
        (let found =
           (case given params ''executionContextUniqueId'' of
              JsText u \<Rightarrow> List.find (\<lambda>candidate. uniqueId candidate = Some u) (jvalues ctx)
            | _ \<Rightarrow>
                (case given params ''executionContextId'' of
                   JsNumber (Whole i) \<Rightarrow> jget ctx i
                 | _ \<Rightarrow> None))
         in case found of
              None \<Rightarrow> (ctx, None)
            | Some entry \<Rightarrow> (jdel (entryId entry) ctx, Some entry))
      else if method = ''Runtime.executionContextsCleared'' then ([], None)
      else (ctx, None))"

definition entries :: "inventory \<Rightarrow> context_entry list" where
  "entries ctx = jvalues ctx"

definition isMainWorld :: "inventory \<Rightarrow> int \<Rightarrow> bool" where
  "isMainWorld ctx i = (case jget ctx i of Some entry \<Rightarrow> mainWorld entry | None \<Rightarrow> False)"

section \<open>Object handles\<close>

definition isDigit :: "nat \<Rightarrow> bool" where
  "isDigit u \<longleftrightarrow> 48 \<le> u \<and> u \<le> 57"

text \<open>\<open>[1-9][0-9]{0,n}\<close>\<close>

definition canonicalDigits :: "nat \<Rightarrow> utf16 \<Rightarrow> bool" where
  "canonicalDigits n t = (case t of [] \<Rightarrow> False | u # us \<Rightarrow> 49 \<le> u \<and> u \<le> 57 \<and> length us \<le> n \<and> list_all isDigit us)"

definition digitsValue :: "utf16 \<Rightarrow> nat" where
  "digitsValue t = foldl (\<lambda>n u. 10 * n + (u - 48)) 0 t"

text \<open>The part before the first full stop, and what follows it.\<close>

definition beforeDot :: "utf16 \<Rightarrow> (utf16 \<times> utf16) option" where
  "beforeDot t = (case dropWhile (\<lambda>u. u \<noteq> 46) t of [] \<Rightarrow> None | _ # rest \<Rightarrow> Some (takeWhile (\<lambda>u. u \<noteq> 46) t, rest))"

definition isolatePart :: "utf16 \<Rightarrow> int option" where
  "isolatePart t =
     (if t = [48] then Some 0
      else if canonicalDigits 18 t then Some (int (digitsValue t))
      else case t of
             u # us \<Rightarrow> if u = 45 \<and> canonicalDigits 18 us then Some (- int (digitsValue us)) else None
           | [] \<Rightarrow> None)"

definition remoteObjectContextId :: "js_value \<Rightarrow> int option" where
  "remoteObjectContextId v =
     (case v of
        JsText t \<Rightarrow>
          (case beforeDot t of
             None \<Rightarrow> None
           | Some (first, rest) \<Rightarrow>
               (case beforeDot rest of
                  None \<Rightarrow> None
                | Some (second, third) \<Rightarrow>
                    (case isolatePart first of
                       None \<Rightarrow> None
                     | Some isolate \<Rightarrow>
                         if \<not> canonicalDigits 9 second \<or> \<not> canonicalDigits 9 third then None
                         else if isolate < - (2 ^ 63) \<or> isolate > 2 ^ 63 - 1 \<or>
                           int (digitsValue second) > maximumInt32 \<or> int (digitsValue third) > maximumInt32 then None
                         else Some (int (digitsValue second)))))
      | _ \<Rightarrow> None)"

definition objectHandleKeys :: "ident list" where
  "objectHandleKeys = [''bodyGetterId'', ''errorObjectId'', ''objectId'', ''promiseObjectId'', ''prototypeObjectId'']"

datatype handle_source = CommandSource | MessageSource

text \<open>The members of a record, in order: the handle that is refused, or the values left to read pushed on the stack.\<close>

fun recordFields ::
  "inventory \<Rightarrow> handle_source \<Rightarrow> bool \<Rightarrow> path \<Rightarrow> js_record \<Rightarrow> (path \<times> js_value) list \<Rightarrow> path + (path \<times> js_value) list" where
  "recordFields ctx source byValue path [] pending = Inr pending"
| "recordFields ctx source byValue path ((key, field) # rest) pending =
     (if key \<in> set objectHandleKeys then
        (case remoteObjectContextId field of
           None \<Rightarrow> Inl (path @ [PField key])
         | Some contextId \<Rightarrow>
             if \<not> isMainWorld ctx contextId then Inl (path @ [PField key])
             else recordFields ctx source byValue path rest pending)
      else if source = MessageSource \<and> key = ''deepSerializedValue'' then recordFields ctx source byValue path rest pending
      else if byValue \<and> key = ''value'' then recordFields ctx source byValue path rest pending
      else recordFields ctx source byValue path rest ((path @ [PField key], field) # pending))"

fun arrayItems :: "path \<Rightarrow> nat \<Rightarrow> js_value list \<Rightarrow> (path \<times> js_value) list \<Rightarrow> (path \<times> js_value) list" where
  "arrayItems path i [] pending = pending"
| "arrayItems path i (x # xs) pending = arrayItems path (Suc i) xs ((path @ [PItem i], x) # pending)"

definition namesByValue :: "handle_source \<Rightarrow> js_record \<Rightarrow> bool" where
  "namesByValue source members = (source = MessageSource \<and> (case given members ''type'' of JsText _ \<Rightarrow> True | _ \<Rightarrow> False))"

text \<open>The values left to read weigh less after every step.\<close>

fun weight :: "js_value \<Rightarrow> nat" where
  "weight (JsArray xs) = Suc (sum_list (map weight xs))"
| "weight (JsObject members) = Suc (sum_list (map (\<lambda>(_, v). weight v) members))"
| "weight _ = 1"

definition pendingWeight :: "(path \<times> js_value) list \<Rightarrow> nat" where
  "pendingWeight pending = sum_list (map (\<lambda>(_, v). weight v) pending)"

lemma weight_pos [simp]: "0 < weight v"
  by (cases v) auto

lemma arrayItems_weight: "pendingWeight (arrayItems path i xs pending) = sum_list (map weight xs) + pendingWeight pending"
  by (induction path i xs pending rule: arrayItems.induct) (simp_all add: pendingWeight_def)

lemma pendingWeight_simps [simp]:
  "pendingWeight [] = 0" "pendingWeight ((path, v) # pending) = weight v + pendingWeight pending"
  by (simp_all add: pendingWeight_def)

lemma recordFields_weight:
  "recordFields ctx source byValue path members pending = Inr pending' \<Longrightarrow>
   pendingWeight pending' \<le> sum_list (map (\<lambda>(_, v). weight v) members) + pendingWeight pending"
proof (induction ctx source byValue path members pending rule: recordFields.induct)
  case (2 ctx source byValue path key field rest pending)
  then show ?case by (fastforce split: if_splits option.splits)
qed simp

function searchHandles :: "inventory \<Rightarrow> handle_source \<Rightarrow> (path \<times> js_value) list \<Rightarrow> path option" where
  "searchHandles ctx source [] = None"
| "searchHandles ctx source ((path, v) # pending) =
     (case v of
        JsArray xs \<Rightarrow> searchHandles ctx source (arrayItems path 0 xs pending)
      | JsObject members \<Rightarrow>
          (case recordFields ctx source (namesByValue source members) path members pending of
             Inl p \<Rightarrow> Some p
           | Inr pending' \<Rightarrow> searchHandles ctx source pending')
      | _ \<Rightarrow> searchHandles ctx source pending)"
  by pat_completeness auto

termination searchHandles
  by (relation "measure (\<lambda>(_, _, pending). pendingWeight pending)")
    (auto simp: arrayItems_weight dest!: recordFields_weight)

definition foreignObjectHandle :: "js_value \<Rightarrow> inventory \<Rightarrow> handle_source \<Rightarrow> path option" where
  "foreignObjectHandle v ctx source = searchHandles ctx source [([], v)]"


section \<open>Which handles are read\<close>

definition skippedField :: "handle_source \<Rightarrow> js_record \<Rightarrow> ident \<Rightarrow> bool" where
  "skippedField source members key \<longleftrightarrow>
     source = MessageSource \<and> key = ''deepSerializedValue'' \<or> namesByValue source members \<and> key = ''value''"

definition mainWorldHandle :: "inventory \<Rightarrow> js_value \<Rightarrow> bool" where
  "mainWorldHandle ctx v \<longleftrightarrow> (\<exists>i. remoteObjectContextId v = Some i \<and> isMainWorld ctx i)"

text \<open>The values inside a value, without page data and without the inside of a handle.\<close>

inductive reaches :: "handle_source \<Rightarrow> js_value \<Rightarrow> path \<Rightarrow> js_value \<Rightarrow> bool" for source where
  here: "reaches source v [] v"
| item: "i < length xs \<Longrightarrow> reaches source (xs ! i) p w \<Longrightarrow> reaches source (JsArray xs) (PItem i # p) w"
| field: "(key, v) \<in> set members \<Longrightarrow> \<not> skippedField source members key \<Longrightarrow>
    key \<notin> set objectHandleKeys \<or> p = [] \<Longrightarrow> reaches source v p w \<Longrightarrow>
    reaches source (JsObject members) (PField key # p) w"

inductive_simps reaches_simps:
  "reaches source v [] w"
  "reaches source v (PItem i # p) w"
  "reaches source v (PField key # p) w"

definition foreignAt :: "inventory \<Rightarrow> handle_source \<Rightarrow> js_value \<Rightarrow> path \<Rightarrow> bool" where
  "foreignAt ctx source v p \<longleftrightarrow>
     (\<exists>q key w. p = q @ [PField key] \<and> key \<in> set objectHandleKeys \<and> reaches source v p w \<and> \<not> mainWorldHandle ctx w)"

lemma foreignAt_cases:
  assumes "foreignAt ctx source v p"
  obtains (item) xs i p' where "v = JsArray xs" "i < length xs" "p = PItem i # p'" "foreignAt ctx source (xs ! i) p'"
  | (here) members key w where "v = JsObject members" "(key, w) \<in> set members" "key \<in> set objectHandleKeys"
      "p = [PField key]" "\<not> mainWorldHandle ctx w"
  | (field) members key w p' where "v = JsObject members" "(key, w) \<in> set members" "key \<notin> set objectHandleKeys"
      "\<not> skippedField source members key" "p = PField key # p'" "foreignAt ctx source w p'"
proof -
  from assms obtain q key w where p: "p = q @ [PField key]" and key: "key \<in> set objectHandleKeys"
    and reach: "reaches source v p w" and foreign: "\<not> mainWorldHandle ctx w"
    unfolding foreignAt_def by blast
  from reach show ?thesis
  proof cases
    case here
    then show ?thesis using p by simp
  next
    case (item i xs p')
    then have "foreignAt ctx source (xs ! i) p'"
      using p key foreign unfolding foreignAt_def by (cases q) auto
    then show ?thesis using that(1) item by blast
  next
    case (field k u members p')
    show ?thesis
    proof (cases "k \<in> set objectHandleKeys")
      case True
      then show ?thesis using that(2) field foreign p by (simp add: reaches_simps)
    next
      case False
      moreover have "p' \<noteq> []" using field False p key by auto
      ultimately have "foreignAt ctx source u p'"
        using field p key foreign unfolding foreignAt_def by (cases q) auto
      then show ?thesis using that(3) field False by blast
    qed
  qed
qed

lemma handle_not_skipped: "key \<in> set objectHandleKeys \<Longrightarrow> \<not> skippedField source members key"
  by (auto simp: objectHandleKeys_def skippedField_def)

lemma foreignAt_item: "i < length xs \<Longrightarrow> foreignAt ctx source (xs ! i) p \<Longrightarrow> foreignAt ctx source (JsArray xs) (PItem i # p)"
  unfolding foreignAt_def by (metis append_Cons item)

lemma foreignAt_here:
  "(key, w) \<in> set members \<Longrightarrow> key \<in> set objectHandleKeys \<Longrightarrow> \<not> mainWorldHandle ctx w \<Longrightarrow>
   foreignAt ctx source (JsObject members) [PField key]"
  unfolding foreignAt_def by (metis append_Nil field here handle_not_skipped)

lemma foreignAt_field:
  "(key, w) \<in> set members \<Longrightarrow> key \<notin> set objectHandleKeys \<Longrightarrow> \<not> skippedField source members key \<Longrightarrow>
   foreignAt ctx source w p \<Longrightarrow> foreignAt ctx source (JsObject members) (PField key # p)"
  unfolding foreignAt_def by (metis append_Cons field)


lemma recordFields_refuses:
  "recordFields ctx source byValue path members pending = Inl p \<Longrightarrow>
   \<exists>(key, w) \<in> set members. key \<in> set objectHandleKeys \<and> \<not> mainWorldHandle ctx w \<and> p = path @ [PField key]"
proof (induction ctx source byValue path members pending rule: recordFields.induct)
  case (2 ctx source byValue path key field rest pending)
  then show ?case by (auto simp: mainWorldHandle_def split: if_splits option.splits)
qed simp

lemma recordFields_reads:
  "recordFields ctx source byValue path members pending = Inr pending' \<Longrightarrow>
   (\<forall>(key, w) \<in> set members. key \<in> set objectHandleKeys \<longrightarrow> mainWorldHandle ctx w) \<and>
   set pending' = set pending \<union> {(path @ [PField key], w) | key w. (key, w) \<in> set members \<and> key \<notin> set objectHandleKeys \<and>
     \<not> (source = MessageSource \<and> key = ''deepSerializedValue'') \<and> \<not> (byValue \<and> key = ''value'')}"
proof (induction ctx source byValue path members pending rule: recordFields.induct)
  case (2 ctx source byValue path key field rest pending)
  show ?case
  proof (cases "key \<in> set objectHandleKeys")
    case True
    then show ?thesis using 2 by (auto simp: mainWorldHandle_def split: if_splits option.splits)
  next
    case False
    then show ?thesis using 2 by (auto split: if_splits)
  qed
qed simp

lemma arrayItems_reads:
  "set (arrayItems path i xs pending) = set pending \<union> {(path @ [PItem (i + j)], xs ! j) | j. j < length xs}"
proof (induction path i xs pending rule: arrayItems.induct)
  case (2 path i x xs pending)
  have "{(path @ [PItem (i + j)], (x # xs) ! j) | j. j < length (x # xs)} =
    insert (path @ [PItem i], x) {(path @ [PItem (Suc i + j)], xs ! j) | j. j < length xs}"
    by (auto simp: less_Suc_eq_0_disj) 
  with 2 show ?case by auto
qed simp

lemma searchHandles_found:
  "searchHandles ctx source pending = Some p \<Longrightarrow> \<exists>(path, v) \<in> set pending. \<exists>p'. p = path @ p' \<and> foreignAt ctx source v p'"
proof (induction ctx source pending rule: searchHandles.induct)
  case (2 ctx source path v pending)
  show ?case
  proof (cases v)
    case (JsArray xs)
    then show ?thesis using "2.IH"(6) [OF JsArray] "2.prems"
      by (fastforce simp: arrayItems_reads dest: foreignAt_item)
  next
    case (JsObject members)
    show ?thesis
    proof (cases "recordFields ctx source (namesByValue source members) path members pending")
      case (Inl q)
      then show ?thesis using "2.prems" JsObject recordFields_refuses [OF Inl] by (auto dest: foreignAt_here)
    next
      case (Inr pending')
      then obtain path' w p' where w: "(path', w) \<in> set pending'" "p = path' @ p'" "foreignAt ctx source w p'"
        using "2.IH"(7) [OF JsObject Inr] "2.prems" JsObject by auto
      show ?thesis
      proof (cases "(path', w) \<in> set pending")
        case True
        then show ?thesis using w by (auto intro: bexI [of _ "(path', w)"])
      next
        case False
        then obtain key where "path' = path @ [PField key]" "(key, w) \<in> set members" "key \<notin> set objectHandleKeys"
          "\<not> skippedField source members key"
          using recordFields_reads [OF Inr] w(1) by (auto simp: skippedField_def)
        then show ?thesis using w JsObject by (auto dest: foreignAt_field)
      qed
    qed
  qed (use "2.IH" "2.prems" in auto)
qed simp


lemma searchHandles_none:
  "searchHandles ctx source pending = None \<Longrightarrow> (path, v) \<in> set pending \<Longrightarrow> \<not> foreignAt ctx source v p"
proof (induction ctx source pending arbitrary: path v p rule: searchHandles.induct)
  case (2 ctx source path' u pending)
  show ?case
  proof (cases "(path, v) \<in> set pending")
    case True
    show ?thesis
    proof (cases u)
      case (JsArray xs)
      then have "searchHandles ctx source (arrayItems path' 0 xs pending) = None" using "2.prems"(1) by simp
      moreover have "(path, v) \<in> set (arrayItems path' 0 xs pending)" using True by (simp add: arrayItems_reads)
      ultimately show ?thesis using "2.IH"(6) [OF JsArray] by blast
    next
      case (JsObject members)
      then obtain pending' where "recordFields ctx source (namesByValue source members) path' members pending = Inr pending'"
        "searchHandles ctx source pending' = None"
        using "2.prems"(1) by (auto split: sum.splits)
      then show ?thesis using "2.IH"(7) [OF JsObject] recordFields_reads True by blast
    qed (use "2.IH" "2.prems" True in auto)
  next
    case False
    then have u: "u = v" "path' = path" using "2.prems"(2) by auto
    show ?thesis
    proof
      assume "foreignAt ctx source v p"
      then show False
      proof (cases rule: foreignAt_cases)
        case (item xs i p')
        then show False using "2.IH"(6) [of xs "path @ [PItem i]" "xs ! i" p'] "2.prems"(1) u
          by (auto simp: arrayItems_reads)
      next
        case (here members key w)
        then obtain pending' where "recordFields ctx source (namesByValue source members) path members pending = Inr pending'"
          using "2.prems"(1) u by (auto split: sum.splits)
        then show False using recordFields_reads here by blast
      next
        case (field members key w p')
        then obtain pending' where r: "recordFields ctx source (namesByValue source members) path members pending = Inr pending'"
          "searchHandles ctx source pending' = None"
          using "2.prems"(1) u by (auto split: sum.splits)
        have "(path @ [PField key], w) \<in> set pending'"
          using recordFields_reads [OF r(1)] field by (auto simp: skippedField_def)
        then show False using "2.IH"(7) [of members pending' "path @ [PField key]" w p'] r u field by simp
      qed
    qed
  qed
qed simp

text \<open>C15: the search of a value for object handles names a handle exactly when there is a foreign one, and names one:
  a path that leads, not through page data, to a handle that is not V8's name of an object in a
  main world the session knows. Every value and every depth is searched, and the search ends.
\<close>

theorem foreign_handle_found:
  "case foreignObjectHandle v ctx source of
     None \<Rightarrow> \<forall>p. \<not> foreignAt ctx source v p
   | Some p \<Rightarrow> foreignAt ctx source v p"
proof (cases "foreignObjectHandle v ctx source")
  case None
  then show ?thesis using searchHandles_none [of ctx source "[([], v)]" "[]" v] by (simp add: foreignObjectHandle_def)
next
  case (Some p)
  then show ?thesis using searchHandles_found [of ctx source "[([], v)]" p] by (auto simp: foreignObjectHandle_def)
qed


section \<open>The name of an object\<close>

text \<open>How V8 writes a handle.\<close>

definition signedDecimal :: "int \<Rightarrow> utf16" where
  "signedDecimal i = (if i < 0 then 45 # decimal (nat (- i)) else decimal (nat i))"

definition remoteObjectId :: "int \<Rightarrow> nat \<Rightarrow> nat \<Rightarrow> utf16" where
  "remoteObjectId isolate context object = signedDecimal isolate @ [46] @ decimal context @ [46] @ decimal object"

lemma digitsValue_snoc [simp]: "digitsValue (t @ [u]) = 10 * digitsValue t + (u - 48)"
  by (simp add: digitsValue_def)

lemma digitsValue_Nil [simp]: "digitsValue [] = 0"
  by (simp add: digitsValue_def)

lemma digitsValue_decimal [simp]: "digitsValue (decimal n) = n"
proof (induction n rule: decimal.induct)
  case (1 n)
  then show ?case by (subst decimal.simps) (simp add: digitsValue_def)
qed

lemma decimal_digits: "list_all isDigit (decimal n)"
proof (induction n rule: decimal.induct)
  case (1 n)
  have "isDigit (48 + n mod 10)" "n < 10 \<Longrightarrow> isDigit (48 + n)" by (simp_all add: isDigit_def less_Suc_eq_le [symmetric])
  with 1 show ?case by (subst decimal.simps) simp
qed

lemma decimal_head: "0 < n \<Longrightarrow> \<exists>u us. decimal n = u # us \<and> 49 \<le> u \<and> u \<le> 57"
proof (induction n rule: decimal.induct)
  case (1 n)
  show ?case
  proof (cases "n < 10")
    case True
    then show ?thesis using 1 by (subst decimal.simps) simp
  next
    case False
    then have "0 < n div 10" by (simp add: div_greater_zero_iff)
    then obtain u us where "decimal (n div 10) = u # us" "49 \<le> u" "u \<le> 57" using 1 False by blast
    then show ?thesis using False by (subst decimal.simps) simp
  qed
qed

lemma decimal_length: "n < 10 ^ Suc k \<Longrightarrow> length (decimal n) \<le> Suc k"
proof (induction k arbitrary: n)
  case 0
  then show ?case by (subst decimal.simps) simp
next
  case (Suc k)
  then have "n div 10 < 10 ^ Suc k" by (simp add: less_mult_imp_div_less)
  then show ?case using Suc.IH by (subst decimal.simps) simp
qed

lemma canonical_decimal: "0 < n \<Longrightarrow> n < 10 ^ Suc k \<Longrightarrow> canonicalDigits k (decimal n)"
  using decimal_head [of n] decimal_digits [of n] decimal_length [of n k]
  by (auto simp: canonicalDigits_def split: list.split)

lemma decimal_digitsValue:
  "list_all isDigit t \<Longrightarrow> 49 \<le> u \<Longrightarrow> u \<le> 57 \<Longrightarrow> 0 < digitsValue (u # t) \<and> decimal (digitsValue (u # t)) = u # t"
proof (induction t rule: rev_induct)
  case Nil
  then show ?case by (simp add: digitsValue_def) (subst decimal.simps, simp)
next
  case (snoc d t)
  obtain e where d: "d = 48 + e" "e < 10" using snoc.prems le_Suc_ex [of 48 d] by (auto simp: isDigit_def)
  moreover have v: "digitsValue (u # t @ [d]) = 10 * digitsValue (u # t) + (d - 48)"
    using digitsValue_snoc [of "u # t" d] by simp
  moreover have "0 < digitsValue (u # t)" "decimal (digitsValue (u # t)) = u # t" using snoc by simp_all
  ultimately show ?case unfolding v using d by (subst decimal.simps) simp
qed

lemma canonicalDigits_iff:
  "canonicalDigits k t \<longleftrightarrow> (\<exists>n > 0. t = decimal n \<and> length t \<le> Suc k)"
proof
  assume c: "canonicalDigits k t"
  then obtain u us where "t = u # us" "49 \<le> u" "u \<le> 57" "list_all isDigit us" "length us \<le> k"
    by (auto simp: canonicalDigits_def split: list.splits)
  then show "\<exists>n > 0. t = decimal n \<and> length t \<le> Suc k"
    using decimal_digitsValue [of us u] by (metis Suc_le_mono length_Cons)
next
  assume "\<exists>n > 0. t = decimal n \<and> length t \<le> Suc k"
  then obtain n where n: "0 < n" "t = decimal n" "length t \<le> Suc k" by blast
  then show "canonicalDigits k t"
    using decimal_head [of n] decimal_digits [of n] by (auto simp: canonicalDigits_def)
qed


lemma beforeDot_iff: "beforeDot t = Some (a, b) \<longleftrightarrow> t = a @ 46 # b \<and> 46 \<notin> set a"
proof
  assume "beforeDot t = Some (a, b)"
  then obtain r where r: "dropWhile (\<lambda>u. u \<noteq> 46) t = r # b" "a = takeWhile (\<lambda>u. u \<noteq> 46) t"
    by (auto simp: beforeDot_def split: list.splits)
  moreover from r(1) have "r = 46" using hd_dropWhile [of "\<lambda>u. u \<noteq> 46" t] by simp
  ultimately show "t = a @ 46 # b \<and> 46 \<notin> set a"
    using takeWhile_dropWhile_id [of "\<lambda>u. u \<noteq> 46" t] by (auto dest: set_takeWhileD)
next
  assume t: "t = a @ 46 # b \<and> 46 \<notin> set a"
  then have "\<forall>u \<in> set a. u \<noteq> 46" by auto
  with t show "beforeDot t = Some (a, b)"
    by (simp add: beforeDot_def dropWhile_append3 takeWhile_tail)
qed

lemma decimal_0 [simp]: "decimal 0 = [48]"
  by (subst decimal.simps) simp

lemma decimal_eq [simp]: "decimal m = decimal n \<longleftrightarrow> m = n"
  using digitsValue_decimal by metis

lemma decimal_no: "u < 48 \<Longrightarrow> u \<notin> set (decimal n)"
  using decimal_digits [of n] by (auto simp: list_all_iff isDigit_def)

lemma signedDecimal_no_dot: "46 \<notin> set (signedDecimal i)"
  by (simp add: signedDecimal_def decimal_no)

lemma isolatePart_iff:
  "isolatePart t = Some i \<longleftrightarrow> t = signedDecimal i \<and> length (decimal (nat \<bar>i\<bar>)) \<le> 19"
proof
  assume p: "isolatePart t = Some i"
  consider "t = [48]" | "t \<noteq> [48]" "canonicalDigits 18 t" | us where "t \<noteq> [48]" "\<not> canonicalDigits 18 t" "t = 45 # us" "canonicalDigits 18 us"
    using p by (auto simp: isolatePart_def split: if_splits list.splits)
  then show "t = signedDecimal i \<and> length (decimal (nat \<bar>i\<bar>)) \<le> 19"
  proof cases
    case 1
    then show ?thesis using p by (simp add: isolatePart_def signedDecimal_def)
  next
    case 2
    then obtain n where "0 < n" "t = decimal n" "length t \<le> 19" by (auto simp: canonicalDigits_iff)
    then show ?thesis using p 2 by (auto simp: isolatePart_def signedDecimal_def)
  next
    case (3 us)
    then obtain n where "0 < n" "us = decimal n" "length us \<le> 19" by (auto simp: canonicalDigits_iff)
    then show ?thesis using p 3 by (auto simp: isolatePart_def signedDecimal_def)
  qed
next
  assume t: "t = signedDecimal i \<and> length (decimal (nat \<bar>i\<bar>)) \<le> 19"
  consider "i = 0" | "0 < i" | "i < 0" by linarith
  then show "isolatePart t = Some i"
  proof cases
    case 1
    then show ?thesis using t by (simp add: signedDecimal_def isolatePart_def)
  next
    case 2
    then have "canonicalDigits 18 t" using t by (auto simp: canonicalDigits_iff signedDecimal_def intro!: exI [of _ "nat i"])
    moreover have "t \<noteq> [48]" using t 2 decimal_eq [of "nat i" 0] by (simp add: signedDecimal_def del: decimal_eq)
    ultimately show ?thesis using t 2 by (simp add: isolatePart_def signedDecimal_def)
  next
    case 3
    then have "canonicalDigits 18 (decimal (nat (- i)))" using t by (auto simp: canonicalDigits_iff intro!: exI [of _ "nat (- i)"])
    then show ?thesis using t 3 by (simp add: isolatePart_def signedDecimal_def canonicalDigits_def)
  qed
qed

text \<open>C28: what is read as an object handle is exactly what V8 writes for one: the canonical decimals of an isolate of 64
  bits and of a context and an object that are positive and of 31 bits, and the context read is the one written. No
  other text, and no other value, names a context.
\<close>

theorem remote_object_id_roundtrip:
  "remoteObjectContextId v = Some c \<longleftrightarrow>
     (\<exists>isolate context object. v = JsText (remoteObjectId isolate context object) \<and> c = int context \<and>
        - (2 ^ 63) \<le> isolate \<and> isolate < 2 ^ 63 \<and> 0 < context \<and> context < 2 ^ 31 \<and> 0 < object \<and> object < 2 ^ 31)"
proof
  assume "remoteObjectContextId v = Some c"
  then obtain t first rest second third isolate where p: "v = JsText t" "beforeDot t = Some (first, rest)"
    "beforeDot rest = Some (second, third)" "isolatePart first = Some isolate"
    "canonicalDigits 9 second" "canonicalDigits 9 third" "- (2 ^ 63) \<le> isolate" "isolate < 2 ^ 63"
    "int (digitsValue second) \<le> maximumInt32" "int (digitsValue third) \<le> maximumInt32" "c = int (digitsValue second)"
    by (auto simp: remoteObjectContextId_def split: js_value.splits option.splits if_splits)
  from p(5,6) obtain m n where m: "0 < m" "second = decimal m" and n: "0 < n" "third = decimal n"
    by (auto simp: canonicalDigits_iff)
  have "t = remoteObjectId isolate m n"
    using p(2,3,4) m n by (simp add: beforeDot_iff isolatePart_iff remoteObjectId_def)
  then show "\<exists>isolate context object. v = JsText (remoteObjectId isolate context object) \<and> c = int context \<and>
        - (2 ^ 63) \<le> isolate \<and> isolate < 2 ^ 63 \<and> 0 < context \<and> context < 2 ^ 31 \<and> 0 < object \<and> object < 2 ^ 31"
    using p m n by (intro exI [of _ isolate] exI [of _ m] exI [of _ n]) (simp add: maximumInt32_def)
next
  assume "\<exists>isolate context object. v = JsText (remoteObjectId isolate context object) \<and> c = int context \<and>
        - (2 ^ 63) \<le> isolate \<and> isolate < 2 ^ 63 \<and> 0 < context \<and> context < 2 ^ 31 \<and> 0 < object \<and> object < 2 ^ 31"
  then obtain isolate m n where v: "v = JsText (remoteObjectId isolate m n)" "c = int m"
    and i: "- (2 ^ 63) \<le> isolate" "isolate < 2 ^ 63" and m: "0 < m" "m < 2 ^ 31" and n: "0 < n" "n < 2 ^ 31" by blast
  have "beforeDot (remoteObjectId isolate m n) = Some (signedDecimal isolate, decimal m @ [46] @ decimal n)"
    "beforeDot (decimal m @ [46] @ decimal n) = Some (decimal m, decimal n)"
    by (simp_all add: beforeDot_iff remoteObjectId_def signedDecimal_no_dot decimal_no)
  moreover have "isolatePart (signedDecimal isolate) = Some isolate"
    using i decimal_length [of "nat \<bar>isolate\<bar>" 18] by (simp add: isolatePart_iff)
  moreover have "canonicalDigits 9 (decimal m)" "canonicalDigits 9 (decimal n)"
    using m n by (simp_all add: canonical_decimal)
  ultimately show "remoteObjectContextId v = Some c"
    using v i m n by (simp add: remoteObjectContextId_def maximumInt32_def)
qed


section \<open>The inventory over a session\<close>

text \<open>One entry per id, kept under its own id; a main world always has its frame.\<close>

definition entryOk :: "context_entry \<Rightarrow> bool" where
  "entryOk entry \<longleftrightarrow> 1 \<le> entryId entry \<and> entryId entry \<le> maximumInt32 \<and> (mainWorld entry \<longrightarrow> frameId entry \<noteq> None)"

definition inventory_inv :: "inventory \<Rightarrow> bool" where
  "inventory_inv ctx \<longleftrightarrow> jwf ctx \<and> (\<forall>(i, entry) \<in> set ctx. i = entryId entry \<and> entryOk entry)"

lemma contextEntry_ok: "contextEntry v = Some entry \<Longrightarrow> entryOk entry"
  by (auto simp: contextEntry_def Let_def entryOk_def split: js_value.splits js_number.splits if_splits)

lemma jdel_entries: "inventory_inv ctx \<Longrightarrow> inventory_inv (jdel i ctx)"
  by (auto simp: inventory_inv_def AList.delete_eq)

lemma jset_entries: "inventory_inv ctx \<Longrightarrow> entryOk entry \<Longrightarrow> inventory_inv (jset (entryId entry) entry (jdel (entryId entry) ctx))"
proof -
  assume inv: "inventory_inv ctx" and ok: "entryOk entry"
  have "entryId entry \<notin> fst ` set (jdel (entryId entry) ctx)" by (auto simp: AList.delete_eq)
  with jdel_entries [OF inv, of "entryId entry"] ok show ?thesis
    by (auto simp: inventory_inv_def jset_fresh jwf_def)
qed

lemma no_entries [simp]: "inventory_inv []"
  by (simp add: inventory_inv_def)

lemma observe_keeps: "inventory_inv ctx \<Longrightarrow> inventory_inv (fst (observe ctx method params))"
  by (auto simp: observe_def Let_def jdel_entries jset_entries contextEntry_ok split: option.split)

definition observeAll :: "inventory \<Rightarrow> (ident \<times> js_record) list \<Rightarrow> inventory" where
  "observeAll ctx events = foldl (\<lambda>ctx (method, params). fst (observe ctx method params)) ctx events"

interpretation contexts: invariant_system "\<lambda>ctx (method, params). fst (observe ctx method params)" inventory_inv
  by unfold_locales (auto simp: observe_keeps)

lemma observeAll_inv: "inventory_inv (observeAll [] events)"
  unfolding observeAll_def by (rule contexts.run_inv) (simp add: inventory_inv_def)

text \<open>A context that was destroyed, by its id or by its unique id, names no main world any more.\<close>

lemma destroyed_forgotten:
  assumes "inventory_inv ctx" "observe ctx ''Runtime.executionContextDestroyed'' params = (ctx', Some entry)"
  shows "\<not> isMainWorld ctx' (entryId entry)"
  using assms(2) by (auto simp: observe_def Let_def isMainWorld_def jget_del split: option.splits)

lemma created_described:
  assumes "observe ctx ''Runtime.executionContextCreated'' params = (ctx', Some entry)"
  shows "isMainWorld ctx' (entryId entry) \<longleftrightarrow> mainWorld entry"
  using assms by (auto simp: observe_def isMainWorld_def jget_set split: option.splits)

end
