(* ===== verification/Realtime_Subscriber.thy ===== *)
theory Realtime_Subscriber
  imports JS_Text
begin

text \<open>
  One client's view of one Workspace's durable stream: the \<open>Subscriber\<close> of
  packages/orchestration/src/realtime-hub.ts. What runs between two awaits is one step, and every await is a
  step of its own, so that any interleaving of publications, sends, timers and store reads is a sequence of
  steps. The wire is what the sink was given, in order. An event and a live frame carry their JSON text, of
  which the code reads the bytes. A sequence is compared as a number.
\<close>

section \<open>Events, frames and messages\<close>

record hub_event =
  he_sequence :: nat
  he_type :: ident
  he_workspaceId :: ident
  he_threadId :: ident
  he_listed :: bool
  he_json :: utf16

record hub_frame =
  hf_afterSequence :: nat
  hf_workspaceId :: ident
  hf_json :: utf16

datatype notice_kind = SessionsChanged | UsageChanged | TriggersChanged
datatype viewer_kind = ReadStates | ReadMarkers | NotificationPreferences
datatype resync_reason = CursorAhead | CursorExpired | SlowConsumer | BufferOverflow

record workspace_notice =
  wn_kind :: notice_kind
  wn_workspaceId :: ident
  wn_threadIds :: "ident list"

datatype hub_message =
    EventsMessage "hub_event list"
  | LiveMessage nat hub_frame
  | SynchronizedMessage nat
  | SnapshotMessage nat
  | ResyncMessage resync_reason
  | NoticeMessage workspace_notice
  | ViewerMessage viewer_kind utf16
  | PlainMessage ident

definition eventBytes :: "hub_event \<Rightarrow> int" where
  "eventBytes e = int (utf8Length (he_json e))"

definition liveFrameBytes :: "hub_frame \<Rightarrow> int" where
  "liveFrameBytes f = int (utf8Length (hf_json f))"

text \<open>Notices held while a subscriber synchronizes collapse by kind; usage notices merge what they name.\<close>

definition usageNoticeThreadLimit :: nat where
  "usageNoticeThreadLimit = 100"

definition mergeWorkspaceNotices :: "workspace_notice option \<Rightarrow> workspace_notice \<Rightarrow> workspace_notice" where
  "mergeWorkspaceNotices held new =
     (case held of
        None \<Rightarrow> new
      | Some h \<Rightarrow>
          if wn_kind h \<noteq> UsageChanged \<or> wn_kind new \<noteq> UsageChanged then new
          else new\<lparr>wn_threadIds := rev (remdups (rev (wn_threadIds h @ wn_threadIds new)))\<rparr>)"

fun chunks :: "nat \<Rightarrow> 'a list \<Rightarrow> 'a list list" where
  "chunks n [] = []"
| "chunks n (x # xs) = (if n = 0 then [] else take n (x # xs) # chunks n (drop n (x # xs)))"

definition wireNotices :: "workspace_notice \<Rightarrow> workspace_notice list" where
  "wireNotices notice =
     (if wn_kind notice \<noteq> UsageChanged then [notice]
      else map (\<lambda>ids. notice\<lparr>wn_threadIds := ids\<rparr>) (chunks usageNoticeThreadLimit (wn_threadIds notice)))"

section \<open>Batches\<close>

text \<open>The bytes of \<open>{"events":[],"type":"host.events"}\<close>.\<close>

definition hostEventsEnvelopeBytes :: int where
  "hostEventsEnvelopeBytes =
     int (utf8Length (stringify (JObj [(''events'', JArr []), (''type'', JStr (lit ''host.events''))])))"

lemma envelope_bytes [code]: "hostEventsEnvelopeBytes = 34"
  by (simp add: hostEventsEnvelopeBytes_def jsonString_def escapeUnit_def isHighSurrogate_def isLowSurrogate_def)

definition maxBatchEvents :: nat where
  "maxBatchEvents = 2000"

text \<open>The finished batches, the open one and its bytes; \<open>None\<close> is the thrown ceiling.\<close>

fun batchLoop ::
  "int \<Rightarrow> hub_event list \<Rightarrow> hub_event list list \<times> hub_event list \<times> int \<Rightarrow> (hub_event list list \<times> hub_event list \<times> int) option" where
  "batchLoop maxWire [] st = Some st"
| "batchLoop maxWire (e # es) (done, batch, batchBytes) =
     (let size = eventBytes e + (if batch = [] then 0 else 1)
      in if hostEventsEnvelopeBytes + size > maxWire then None
         else if length batch \<ge> maxBatchEvents \<or> batchBytes + size > maxWire
         then batchLoop maxWire es (done @ [batch], [e], hostEventsEnvelopeBytes + eventBytes e)
         else batchLoop maxWire es (done, batch @ [e], batchBytes + (eventBytes e + (if batch = [] then 0 else 1))))"

definition boundedEventBatches :: "int \<Rightarrow> hub_event list \<Rightarrow> hub_event list list option" where
  "boundedEventBatches maxWire events =
     map_option (\<lambda>(done, batch, _). if batch = [] then done else done @ [batch])
       (batchLoop maxWire events ([], [], hostEventsEnvelopeBytes))"

section \<open>The subscriber\<close>

record subscriber_options =
  so_personShow :: bool
  so_placeEvents :: bool
  so_cursor :: nat
  so_maxBufferedBytes :: int
  so_maxBufferedEvents :: nat
  so_maxLiveBytes :: int
  so_maxWireBytes :: int

datatype subscriber_state = Synchronizing | Live | Closed

text \<open>A link of the send chain, as it was chained; \<open>SynchronizedLink\<close> is the send that opens it.\<close>

datatype send_link =
    EventsLink "hub_event list"
  | LiveLink hub_frame
  | MessageLink hub_message
  | SynchronizedLink

text \<open>
  Where \<open>synchronize\<close> stands: not called, sending a message with those after it, in the viewer's snapshot,
  sending from its loop, or over.
\<close>

datatype sync_phase =
    NotBegun
  | Replaying "hub_message list" nat
  | Snapshotting
  | Flushing "hub_message list"
  | Over

record subscriber =
  su_options :: subscriber_options
  su_state :: subscriber_state
  su_phase :: sync_phase
  su_syncBuffer :: "hub_event list"
  su_syncBufferedBytes :: int
  su_syncNotices :: "(notice_kind, workspace_notice) jsmap"
  su_syncViewerMessages :: "(viewer_kind \<times> utf16) list"
  su_viewerBufferedBytes :: int
  su_pending :: "(nat, hub_event) jsmap"
  su_pendingBytes :: int
  su_pendingLive :: "(hub_frame \<times> bool) list"
  su_pendingLiveBytes :: int
  su_queuedEvents :: int
  su_queuedBytes :: int
  su_liveInFlightBytes :: int
  su_chain :: "send_link list"
  su_running :: "(send_link \<times> hub_message list) option"
  su_queuedThrough :: nat
  su_visibleThrough :: nat
  su_handedThrough :: nat
  su_gapTimer :: bool
  su_filling :: "(nat \<times> nat) option"
  su_wire :: "hub_message list"
  su_sinkClosed :: "nat list"

definition newSubscriber :: "subscriber_options \<Rightarrow> subscriber" where
  "newSubscriber options = \<lparr>su_options = options, su_state = Synchronizing, su_phase = NotBegun, su_syncBuffer = [],
     su_syncBufferedBytes = 0, su_syncNotices = [], su_syncViewerMessages = [], su_viewerBufferedBytes = 0,
     su_pending = [], su_pendingBytes = 0, su_pendingLive = [], su_pendingLiveBytes = 0, su_queuedEvents = 0,
     su_queuedBytes = 0, su_liveInFlightBytes = 0, su_chain = [], su_running = None,
     su_queuedThrough = so_cursor options, su_visibleThrough = so_cursor options, su_handedThrough = so_cursor options,
     su_gapTimer = False, su_filling = None, su_wire = [], su_sinkClosed = []\<rparr>"

section \<open>Sending and closing\<close>

definition giveSink :: "hub_message \<Rightarrow> subscriber \<Rightarrow> subscriber" where
  "giveSink m s = s\<lparr>su_wire := su_wire s @ [m]\<rparr>"

definition isPlace :: "hub_event \<Rightarrow> bool" where
  "isPlace e \<longleftrightarrow> he_type e = ''place.entered''"

text \<open>\<open>#send\<close>: a client that did not ask for place events is sent the others.\<close>

definition sendMessage :: "hub_message \<Rightarrow> subscriber \<Rightarrow> subscriber" where
  "sendMessage m s =
     (if so_placeEvents (su_options s) then giveSink m s
      else case m of
        EventsMessage events \<Rightarrow>
          (let visible = filter (\<lambda>e. \<not> isPlace e) events;
               s1 = s\<lparr>su_handedThrough := if events = [] then su_handedThrough s else he_sequence (last events),
                      su_visibleThrough := if visible = [] then su_visibleThrough s else he_sequence (last visible)\<rparr>
           in if visible = [] then s1 else giveSink (EventsMessage visible) s1)
      | LiveMessage afterSequence f \<Rightarrow>
          if afterSequence > su_visibleThrough s \<and> afterSequence \<le> su_handedThrough s
          then giveSink (LiveMessage (su_visibleThrough s) f) s
          else giveSink m s
      | SynchronizedMessage q \<Rightarrow> giveSink m (s\<lparr>su_visibleThrough := q, su_handedThrough := q\<rparr>)
      | _ \<Rightarrow> giveSink m s)"

definition closeSubscriber :: "subscriber \<Rightarrow> subscriber" where
  "closeSubscriber s = (if su_state s = Closed then s else s\<lparr>su_state := Closed, su_gapTimer := False\<rparr>)"

definition resync :: "resync_reason \<Rightarrow> subscriber \<Rightarrow> subscriber" where
  "resync reason s =
     (if su_state s = Closed then s
      else (giveSink (ResyncMessage reason) (closeSubscriber s))\<lparr>su_sinkClosed := su_sinkClosed s @ [4009]\<rparr>)"

definition failDelivery :: "subscriber \<Rightarrow> subscriber" where
  "failDelivery s =
     (if su_state s = Closed then s else (closeSubscriber s)\<lparr>su_sinkClosed := su_sinkClosed s @ [1011]\<rparr>)"

definition acceptsPersonShow :: "subscriber \<Rightarrow> bool" where
  "acceptsPersonShow s \<longleftrightarrow> su_state s = Live \<and> so_personShow (su_options s)"

definition showPerson :: "subscriber \<Rightarrow> subscriber" where
  "showPerson s = (if acceptsPersonShow s then giveSink (PlainMessage ''host.show'') s else s)"

section \<open>Held events\<close>

definition hold :: "hub_event \<Rightarrow> subscriber \<Rightarrow> subscriber \<times> bool" where
  "hold e s =
     (if jget (su_pending s) (he_sequence e) \<noteq> None then (s, True)
      else if length (su_pending s) \<ge> so_maxBufferedEvents (su_options s) \<or>
              su_pendingBytes s + eventBytes e > so_maxBufferedBytes (su_options s)
      then (resync (if su_state s = Synchronizing then BufferOverflow else SlowConsumer) s, False)
      else (s\<lparr>su_pending := jset (he_sequence e) e (su_pending s), su_pendingBytes := su_pendingBytes s + eventBytes e\<rparr>, True))"

definition discardDelivered :: "subscriber \<Rightarrow> subscriber" where
  "discardDelivered s =
     (let gone = filter (\<lambda>(q, e). q \<le> su_queuedThrough s) (su_pending s)
      in s\<lparr>su_pending := filter (\<lambda>(q, e). q > su_queuedThrough s) (su_pending s),
           su_pendingBytes := su_pendingBytes s - sum_list (map (\<lambda>(_, e). eventBytes e) gone)\<rparr>)"

text \<open>The held events that continue \<open>through\<close>, the sequence they reach and what stays held.\<close>

function contiguousFrom :: "nat \<Rightarrow> (nat, hub_event) jsmap \<Rightarrow> hub_event list \<times> nat \<times> (nat, hub_event) jsmap" where
  "contiguousFrom through pending =
     (case jget pending (Suc through) of
        None \<Rightarrow> ([], through, pending)
      | Some e \<Rightarrow>
          (case contiguousFrom (Suc through) (jdel (Suc through) pending) of
             (batch, reached, rest) \<Rightarrow> (e # batch, reached, rest)))"
  by pat_completeness auto

lemma jdel_shorter: "jget m k = Some v \<Longrightarrow> length (jdel k m) < length m"
  by (induction m) (auto simp: less_Suc_eq_le AList.delete_eq intro: le_less_trans [OF length_filter_le] split: if_splits)

termination contiguousFrom
  by (relation "measure (\<lambda>(_, pending). length pending)") (auto simp: jdel_shorter)

declare contiguousFrom.simps [simp del]

definition takeContiguous :: "subscriber \<Rightarrow> hub_event list \<times> subscriber" where
  "takeContiguous s =
     (case contiguousFrom (su_queuedThrough s) (su_pending s) of
        (batch, reached, rest) \<Rightarrow>
          (batch, s\<lparr>su_pending := rest, su_queuedThrough := reached,
                    su_pendingBytes := su_pendingBytes s - sum_list (map eventBytes batch)\<rparr>))"

section \<open>The send chain\<close>

definition chainLink :: "send_link \<Rightarrow> subscriber \<Rightarrow> subscriber" where
  "chainLink l s = s\<lparr>su_chain := su_chain s @ [l]\<rparr>"

definition sendEvents :: "hub_event list \<Rightarrow> subscriber \<Rightarrow> subscriber" where
  "sendEvents events s =
     (let bytes = sum_list (map eventBytes events)
      in if su_queuedEvents s + int (length events) > int (so_maxBufferedEvents (su_options s)) \<or>
            su_queuedBytes s + bytes > so_maxBufferedBytes (su_options s)
         then resync SlowConsumer s
         else chainLink (EventsLink events)
                (s\<lparr>su_queuedEvents := su_queuedEvents s + int (length events), su_queuedBytes := su_queuedBytes s + bytes\<rparr>))"

definition sendLive :: "hub_frame \<Rightarrow> bool \<Rightarrow> subscriber \<Rightarrow> subscriber" where
  "sendLive f replacement s =
     (if \<not> replacement \<and> su_liveInFlightBytes s + liveFrameBytes f > so_maxLiveBytes (su_options s) then s
      else chainLink (LiveLink f) (s\<lparr>su_liveInFlightBytes := su_liveInFlightBytes s + liveFrameBytes f\<rparr>))"

definition holdLive :: "hub_frame \<Rightarrow> bool \<Rightarrow> subscriber \<Rightarrow> subscriber" where
  "holdLive f replacement s =
     s\<lparr>su_pendingLive := su_pendingLive s @ [(f, replacement)], su_pendingLiveBytes := su_pendingLiveBytes s + liveFrameBytes f\<rparr>"

definition releaseLive :: "subscriber \<Rightarrow> subscriber" where
  "releaseLive s =
     foldl (\<lambda>s (f, replacement).
              if hf_afterSequence f \<le> su_queuedThrough s then sendLive f replacement s else holdLive f replacement s)
       (s\<lparr>su_pendingLive := [], su_pendingLiveBytes := 0\<rparr>) (su_pendingLive s)"

definition offerLiveFrame :: "hub_frame \<Rightarrow> bool \<Rightarrow> subscriber \<Rightarrow> subscriber" where
  "offerLiveFrame f replacement s =
     (if hf_afterSequence f \<le> su_queuedThrough s then sendLive f replacement s
      else if \<not> replacement \<and> su_pendingLiveBytes s + liveFrameBytes f > so_maxLiveBytes (su_options s) then s
      else holdLive f replacement s)"

definition offerLive :: "hub_frame \<Rightarrow> subscriber \<Rightarrow> subscriber" where
  "offerLive f s = (if su_state s \<noteq> Live then s else offerLiveFrame f False s)"

definition scheduleGapFill :: "subscriber \<Rightarrow> subscriber" where
  "scheduleGapFill s =
     (if su_pending s = [] then s\<lparr>su_gapTimer := False\<rparr>
      else if su_gapTimer s \<or> su_filling s \<noteq> None then s
      else s\<lparr>su_gapTimer := True\<rparr>)"

definition drain :: "subscriber \<Rightarrow> subscriber" where
  "drain s =
     (if su_state s \<noteq> Live then s
      else case takeContiguous s of
        (batch, s1) \<Rightarrow> scheduleGapFill (releaseLive (if batch = [] then s1 else sendEvents batch s1)))"

definition offer :: "hub_event \<Rightarrow> subscriber \<Rightarrow> subscriber" where
  "offer e s =
     (if su_state s = Closed \<or> he_sequence e \<le> su_queuedThrough s then s
      else if su_state s = Synchronizing then
        (if length (su_syncBuffer s) \<ge> so_maxBufferedEvents (su_options s) \<or>
            su_syncBufferedBytes s + eventBytes e > so_maxBufferedBytes (su_options s)
         then resync BufferOverflow s
         else s\<lparr>su_syncBuffer := su_syncBuffer s @ [e], su_syncBufferedBytes := su_syncBufferedBytes s + eventBytes e\<rparr>)
      else (case hold e s of (s1, held) \<Rightarrow> if held then drain s1 else s1))"


definition viewerBytes :: "viewer_kind \<times> utf16 \<Rightarrow> int" where
  "viewerBytes v = int (utf8Length (snd v))"

text \<open>A message that is neither a notice nor viewer state is dropped while the subscriber synchronizes.\<close>

definition enqueueMessage :: "hub_message \<Rightarrow> subscriber \<Rightarrow> subscriber" where
  "enqueueMessage m s =
     (case su_state s of
        Synchronizing \<Rightarrow>
          (case m of
             NoticeMessage notice \<Rightarrow>
               s\<lparr>su_syncNotices := jset (wn_kind notice)
                   (mergeWorkspaceNotices (jget (su_syncNotices s) (wn_kind notice)) notice) (su_syncNotices s)\<rparr>
           | ViewerMessage kind json \<Rightarrow>
               if su_viewerBufferedBytes s + viewerBytes (kind, json) > so_maxBufferedBytes (su_options s) \<or>
                  length (su_syncViewerMessages s) \<ge> so_maxBufferedEvents (su_options s)
               then resync BufferOverflow s
               else s\<lparr>su_viewerBufferedBytes := su_viewerBufferedBytes s + viewerBytes (kind, json),
                      su_syncViewerMessages := su_syncViewerMessages s @ [(kind, json)]\<rparr>
           | _ \<Rightarrow> s)
      | Live \<Rightarrow> chainLink (MessageLink m) s
      | Closed \<Rightarrow> s)"

text \<open>What a link gives back when it is over.\<close>

definition releaseLink :: "send_link \<Rightarrow> subscriber \<Rightarrow> subscriber" where
  "releaseLink l s =
     (case l of
        EventsLink events \<Rightarrow>
          s\<lparr>su_queuedEvents := su_queuedEvents s - int (length events),
            su_queuedBytes := su_queuedBytes s - sum_list (map eventBytes events)\<rparr>
      | LiveLink f \<Rightarrow> s\<lparr>su_liveInFlightBytes := su_liveInFlightBytes s - liveFrameBytes f\<rparr>
      | _ \<Rightarrow> s)"

text \<open>Gives the sink a link's next message, or ends the link.\<close>

definition sendNext :: "send_link \<Rightarrow> hub_message list \<Rightarrow> subscriber \<Rightarrow> subscriber" where
  "sendNext l messages s =
     (case messages of
        [] \<Rightarrow> releaseLink l (s\<lparr>su_running := None\<rparr>)
      | m # ms \<Rightarrow> (sendMessage m s)\<lparr>su_running := Some (l, ms)\<rparr>)"

definition startLink :: "subscriber \<Rightarrow> subscriber" where
  "startLink s =
     (if su_running s \<noteq> None then s
      else case su_chain s of
        [] \<Rightarrow> s
      | l # rest \<Rightarrow>
          (let s1 = s\<lparr>su_chain := rest\<rparr>
           in case l of
                EventsLink events \<Rightarrow>
                  if su_state s = Closed then releaseLink l s1
                  else (case boundedEventBatches (so_maxWireBytes (su_options s)) events of
                          None \<Rightarrow> releaseLink l (failDelivery s1)
                        | Some batches \<Rightarrow> sendNext l (map EventsMessage batches) s1)
              | LiveLink f \<Rightarrow> if su_state s = Live then sendNext l [LiveMessage (hf_afterSequence f) f] s1 else releaseLink l s1
              | MessageLink m \<Rightarrow> if su_state s = Live then sendNext l [m] s1 else s1
              | SynchronizedLink \<Rightarrow> s1))"

text \<open>
  The sink settled the send of the running link. A failed opening send fails the link chained on it, or,
  with none chained, ends the subscription.
\<close>

definition settleLink :: "bool \<Rightarrow> subscriber \<Rightarrow> subscriber" where
  "settleLink ok s =
     (case su_running s of
        None \<Rightarrow> s
      | Some (l, messages) \<Rightarrow>
          if ok then sendNext l messages s
          else if l = SynchronizedLink then
            (case su_chain s of
               [] \<Rightarrow> closeSubscriber (s\<lparr>su_running := None\<rparr>)
             | chained # rest \<Rightarrow> releaseLink chained (failDelivery (s\<lparr>su_running := None, su_chain := rest\<rparr>)))
          else releaseLink l (failDelivery (s\<lparr>su_running := None\<rparr>)))"

section \<open>Filling a hole from the store\<close>

record fill_window =
  fw_events :: "hub_event list"
  fw_hasMore :: bool
  fw_scannedThrough :: nat

definition lowestPending :: "subscriber \<Rightarrow> nat" where
  "lowestPending s = (case jkeys (su_pending s) of [] \<Rightarrow> 0 | q # qs \<Rightarrow> foldl min q qs)"

definition finishFill :: "subscriber \<Rightarrow> subscriber" where
  "finishFill s = drain ((discardDelivered s)\<lparr>su_filling := None\<rparr>)"

definition fillGap :: "subscriber \<Rightarrow> subscriber" where
  "fillGap s =
     (if su_state s \<noteq> Live \<or> su_pending s = [] then s
      else let through = lowestPending s - 1
           in if su_queuedThrough s < through then s\<lparr>su_filling := Some (su_queuedThrough s, through)\<rparr> else finishFill s)"

definition timerFires :: "subscriber \<Rightarrow> subscriber" where
  "timerFires s = (if su_gapTimer s then fillGap (s\<lparr>su_gapTimer := False\<rparr>) else s)"

text \<open>The read of the window asked for came back, or failed or timed out.\<close>

definition settleFill :: "nat \<Rightarrow> nat \<Rightarrow> fill_window option \<Rightarrow> subscriber \<Rightarrow> subscriber" where
  "settleFill from through answer s =
     (if su_filling s \<noteq> Some (from, through) then s
      else case answer of
        None \<Rightarrow> (resync CursorExpired s)\<lparr>su_filling := None\<rparr>
      | Some window \<Rightarrow>
          (let fresh = filter (\<lambda>e. he_sequence e > su_queuedThrough s \<and> he_sequence e \<le> through) (fw_events window);
               s1 = (if fresh = [] then s else (sendEvents fresh s)\<lparr>su_queuedThrough := he_sequence (last fresh)\<rparr>)
           in if \<not> fw_hasMore window then finishFill (s1\<lparr>su_queuedThrough := max through (su_queuedThrough s1)\<rparr>)
              else let s2 = s1\<lparr>su_queuedThrough := max (fw_scannedThrough window) (su_queuedThrough s1)\<rparr>
                   in if su_queuedThrough s2 \<le> from then (resync CursorExpired s2)\<lparr>su_filling := None\<rparr>
                      else if su_state s2 = Live \<and> su_queuedThrough s2 < through
                      then s2\<lparr>su_filling := Some (su_queuedThrough s2, through)\<rparr>
                      else finishFill s2))"

section \<open>Synchronizing\<close>

text \<open>The catch of \<open>subscribe\<close> closes the subscriber.\<close>

definition endSync :: "subscriber \<Rightarrow> subscriber" where
  "endSync s = (closeSubscriber s)\<lparr>su_phase := Over\<rparr>"

definition beginSync :: "hub_message list \<Rightarrow> nat \<Rightarrow> subscriber \<Rightarrow> subscriber" where
  "beginSync messages cursor s =
     (if su_phase s \<noteq> NotBegun then s
      else case messages of
        [] \<Rightarrow> s\<lparr>su_queuedThrough := cursor, su_phase := Snapshotting\<rparr>
      | m # ms \<Rightarrow> (sendMessage m s)\<lparr>su_phase := Replaying ms cursor\<rparr>)"

fun holdBuffered :: "hub_event list \<Rightarrow> subscriber \<Rightarrow> subscriber \<times> bool" where
  "holdBuffered [] s = (s, True)"
| "holdBuffered (e # es) s =
     (if he_sequence e > su_queuedThrough s
      then (case hold e s of (s1, held) \<Rightarrow> if held then holdBuffered es s1 else (s1, False))
      else holdBuffered es s)"

text \<open>The messages of the first notice that has any, and the notices behind it.\<close>

fun takeNotice :: "(notice_kind, workspace_notice) jsmap \<Rightarrow> workspace_notice list \<times> (notice_kind, workspace_notice) jsmap" where
  "takeNotice [] = ([], [])"
| "takeNotice ((kind, notice) # rest) = (if wireNotices notice = [] then takeNotice rest else (wireNotices notice, rest))"

definition flushSync :: "hub_message list \<Rightarrow> subscriber \<Rightarrow> subscriber" where
  "flushSync messages s =
     (case messages of [] \<Rightarrow> s | m # ms \<Rightarrow> (sendMessage m s)\<lparr>su_phase := Flushing ms\<rparr>)"

text \<open>Going live and taking over the open streams, given whole, are one step.\<close>

definition goLive :: "hub_frame list \<Rightarrow> subscriber \<Rightarrow> subscriber" where
  "goLive frames s =
     (let s1 = (sendMessage (SynchronizedMessage (su_queuedThrough s)) s)
                 \<lparr>su_running := Some (SynchronizedLink, []), su_state := Live, su_phase := Over\<rparr>
      in drain (foldl (\<lambda>s f. offerLiveFrame f True s) s1 frames))"

definition syncLoop :: "hub_frame list \<Rightarrow> subscriber \<Rightarrow> subscriber" where
  "syncLoop frames s =
     (if su_state s \<noteq> Synchronizing then s\<lparr>su_phase := Over\<rparr>
      else case holdBuffered (su_syncBuffer s) (s\<lparr>su_syncBuffer := []\<rparr>) of (s1, held) \<Rightarrow>
        if \<not> held then s1\<lparr>su_phase := Over\<rparr>
        else case takeContiguous (s1\<lparr>su_syncBufferedBytes := 0\<rparr>) of (batch, s2) \<Rightarrow>
          if batch \<noteq> [] then
            (case boundedEventBatches (so_maxWireBytes (su_options s2)) batch of
               None \<Rightarrow> endSync s2
             | Some batches \<Rightarrow> flushSync (map EventsMessage batches) s2)
          else case takeNotice (su_syncNotices s2) of (notices, rest) \<Rightarrow>
            (let s3 = s2\<lparr>su_syncNotices := rest\<rparr>
             in if notices \<noteq> [] then flushSync (map NoticeMessage notices) s3
                else case su_syncViewerMessages s3 of
                  v # vs \<Rightarrow>
                    flushSync [ViewerMessage (fst v) (snd v)] (s3\<lparr>su_syncViewerMessages := vs,
                      su_viewerBufferedBytes := su_viewerBufferedBytes s3 - viewerBytes v\<rparr>)
                | [] \<Rightarrow> goLive frames s3))"

text \<open>The sink settled a send of \<open>synchronize\<close>.\<close>

definition settleSync :: "bool \<Rightarrow> hub_frame list \<Rightarrow> subscriber \<Rightarrow> subscriber" where
  "settleSync ok frames s =
     (case su_phase s of
        Replaying messages cursor \<Rightarrow>
          if \<not> ok then endSync s
          else (case messages of
                  [] \<Rightarrow> s\<lparr>su_queuedThrough := cursor, su_phase := Snapshotting\<rparr>
                | m # ms \<Rightarrow> (sendMessage m s)\<lparr>su_phase := Replaying ms cursor\<rparr>)
      | Flushing messages \<Rightarrow>
          if \<not> ok then endSync s
          else (case messages of
                  [] \<Rightarrow> syncLoop frames s
                | m # ms \<Rightarrow> (sendMessage m s)\<lparr>su_phase := Flushing ms\<rparr>)
      | _ \<Rightarrow> s)"

text \<open>The viewer's snapshot is over: what it gave the sink, and whether it succeeded.\<close>

definition settleSnapshot :: "(viewer_kind \<times> utf16) list \<Rightarrow> bool \<Rightarrow> hub_frame list \<Rightarrow> subscriber \<Rightarrow> subscriber" where
  "settleSnapshot given ok frames s =
     (if su_phase s \<noteq> Snapshotting then s
      else let s1 = s\<lparr>su_wire := su_wire s @ map (\<lambda>(kind, json). ViewerMessage kind json) given\<rparr>
           in if ok then syncLoop frames s1 else endSync s1)"

section \<open>Steps\<close>

datatype sub_event =
    Offer hub_event
  | OfferLive hub_frame
  | Enqueue hub_message
  | Resync resync_reason
  | CloseSubscriber
  | Show
  | StartLink
  | SettleLink bool
  | TimerFires
  | SettleFill nat nat "fill_window option"
  | BeginSync "hub_message list" nat
  | SettleSync bool "hub_frame list"
  | SettleSnapshot "(viewer_kind \<times> utf16) list" bool "hub_frame list"

fun subStep :: "subscriber \<Rightarrow> sub_event \<Rightarrow> subscriber" where
  "subStep s (Offer e) = offer e s"
| "subStep s (OfferLive f) = offerLive f s"
| "subStep s (Enqueue m) = enqueueMessage m s"
| "subStep s (Resync reason) = resync reason s"
| "subStep s CloseSubscriber = closeSubscriber s"
| "subStep s Show = showPerson s"
| "subStep s StartLink = startLink s"
| "subStep s (SettleLink ok) = settleLink ok s"
| "subStep s TimerFires = timerFires s"
| "subStep s (SettleFill from through answer) = settleFill from through answer s"
| "subStep s (BeginSync messages cursor) = beginSync messages cursor s"
| "subStep s (SettleSync ok frames) = settleSync ok frames s"
| "subStep s (SettleSnapshot given ok frames) = settleSnapshot given ok frames s"

end
