(* ===== verification/Realtime_Delivery.thy ===== *)
theory Realtime_Delivery
  imports Realtime_Subscriber
begin

text \<open>
  What a subscriber is given: whatever the interleaving, the events on the wire are the durable log from
  where the client stood, in order, with nothing lost and nothing twice.
\<close>

section \<open>The log\<close>

text \<open>The events of the Workspace by sequence; a sequence may have none.\<close>

type_synonym event_log = "nat \<Rightarrow> hub_event option"

definition isLog :: "event_log \<Rightarrow> bool" where
  "isLog L \<longleftrightarrow> (\<forall>q e. L q = Some e \<longrightarrow> he_sequence e = q)"

text \<open>The events after one sequence and up to another, in order.\<close>

definition logEvents :: "event_log \<Rightarrow> nat \<Rightarrow> nat \<Rightarrow> hub_event list" where
  "logEvents L a b = List.map_filter L [Suc a..<Suc b]"

lemma log_self [simp]: "b \<le> a \<Longrightarrow> logEvents L a b = []"
  by (simp add: logEvents_def map_filter_def)

lemma log_split: "a \<le> b \<Longrightarrow> b \<le> c \<Longrightarrow> logEvents L a c = logEvents L a b @ logEvents L b c"
proof -
  assume "a \<le> b" "b \<le> c"
  then have "[Suc a..<Suc c] = [Suc a..<Suc b] @ [Suc b..<Suc c]"
    by (metis Suc_le_mono le_add_diff_inverse upt_add_eq_append)
  then show ?thesis by (simp add: logEvents_def map_filter_def)
qed

lemma log_Suc: "logEvents L a (Suc a) = (case L (Suc a) of Some e \<Rightarrow> [e] | None \<Rightarrow> [])"
  by (simp add: logEvents_def map_filter_def split: option.split)

lemma log_seq: "isLog L \<Longrightarrow> e \<in> set (logEvents L a b) \<Longrightarrow> a < he_sequence e \<and> he_sequence e \<le> b \<and> L (he_sequence e) = Some e"
  by (auto simp: isLog_def logEvents_def map_filter_def)

lemma log_after: "isLog L \<Longrightarrow> a \<le> q \<Longrightarrow> filter (\<lambda>e. q < he_sequence e) (logEvents L a b) = logEvents L q b"
proof (cases "q \<le> b")
  case True
  assume L: "isLog L" and a: "a \<le> q"
  have "filter (\<lambda>e. q < he_sequence e) (logEvents L a q) = []"
    using log_seq [OF L] by (fastforce simp: filter_empty_conv)
  moreover have "filter (\<lambda>e. q < he_sequence e) (logEvents L q b) = logEvents L q b"
    using log_seq [OF L] by (fastforce intro: filter_True)
  ultimately show ?thesis using log_split [OF a True] by simp
next
  case False
  assume L: "isLog L"
  have "filter (\<lambda>e. q < he_sequence e) (logEvents L a b) = []"
    using log_seq [OF L] False by (fastforce simp: filter_empty_conv)
  then show ?thesis using False by simp
qed

lemma log_upto: "isLog L \<Longrightarrow> b \<le> c \<Longrightarrow> filter (\<lambda>e. he_sequence e \<le> c) (logEvents L a b) = logEvents L a b"
  using log_seq by (fastforce intro: filter_True)

text \<open>What of it a client is sent.\<close>

definition visible :: "subscriber_options \<Rightarrow> hub_event list \<Rightarrow> hub_event list" where
  "visible options events = (if so_placeEvents options then events else filter (\<lambda>e. \<not> isPlace e) events)"

lemma visible_simps [simp]:
  "visible options [] = []" "visible options (xs @ ys) = visible options xs @ visible options ys"
  by (simp_all add: visible_def)

lemma visible_set: "e \<in> set (visible options events) \<Longrightarrow> e \<in> set events"
  by (auto simp: visible_def split: if_splits)

text \<open>Whatever precedes some part of what is visible of the log is itself visible of a beginning of the log.\<close>

lemma visible_prefix:
  "xs @ ys = visible options (logEvents L base n) \<Longrightarrow> base \<le> n \<Longrightarrow>
   \<exists>m. base \<le> m \<and> xs = visible options (logEvents L base m)"
proof (induction n arbitrary: ys)
  case 0
  then show ?case by (intro exI [of _ 0]) simp
next
  case (Suc n)
  show ?case
  proof (cases "ys = [] \<or> base = Suc n")
    case True
    then show ?thesis using Suc.prems by (intro exI [of _ "Suc n"]) auto
  next
    case False
    then obtain ys' y where ys: "ys = ys' @ [y]" and base: "base \<le> n"
      using Suc.prems(2) by (metis le_SucE rev_exhaust)
    define z where "z = visible options (case L (Suc n) of Some e \<Rightarrow> [e] | None \<Rightarrow> [])"
    have "xs @ ys = visible options (logEvents L base n) @ z"
      using Suc.prems(1) log_split [of base n "Suc n" L] base by (simp add: log_Suc z_def)
    moreover have "z = [] \<or> (\<exists>e. z = [e])" by (auto simp: z_def visible_def split: option.split)
    ultimately have "xs @ ys = visible options (logEvents L base n) \<or> xs @ ys' = visible options (logEvents L base n)"
      unfolding ys by auto
    then show ?thesis using Suc.IH base by blast
  qed
qed

section \<open>Held events\<close>

definition pendingOk :: "event_log \<Rightarrow> (nat, hub_event) jsmap \<Rightarrow> bool" where
  "pendingOk L pending \<longleftrightarrow> (\<forall>(q, e) \<in> set pending. he_sequence e = q \<and> L q = Some e)"

lemma pendingOk_Nil [simp]: "pendingOk L []"
  by (simp add: pendingOk_def)

lemma pendingOk_jdel: "pendingOk L pending \<Longrightarrow> pendingOk L (jdel q pending)"
  by (auto simp: pendingOk_def AList.delete_eq)

lemma pendingOk_filter: "pendingOk L pending \<Longrightarrow> pendingOk L (filter P pending)"
  by (auto simp: pendingOk_def)

lemma set_jset: "set (jset k v m) \<subseteq> insert (k, v) (set m)"
  by (induction m) auto

lemma pendingOk_jset: "pendingOk L pending \<Longrightarrow> L (he_sequence e) = Some e \<Longrightarrow> pendingOk L (jset (he_sequence e) e pending)"
  using set_jset [of "he_sequence e" e pending] by (fastforce simp: pendingOk_def)

lemma contiguous_log:
  "contiguousFrom t pending = (batch, reached, rest) \<Longrightarrow> pendingOk L pending \<Longrightarrow>
   t \<le> reached \<and> batch = logEvents L t reached \<and> pendingOk L rest \<and> jget rest (Suc reached) = None"
proof (induction t pending arbitrary: batch reached rest rule: contiguousFrom.induct)
  case (1 t pending)
  show ?case
  proof (cases "jget pending (Suc t)")
    case None
    then show ?thesis using 1 by (subst (asm) (2) contiguousFrom.simps) simp
  next
    case (Some e)
    obtain b r p where c: "contiguousFrom (Suc t) (jdel (Suc t) pending) = (b, r, p)" by (metis prod_cases3)
    then have out: "batch = e # b" "reached = r" "rest = p"
      using 1(2) Some by (simp_all add: contiguousFrom.simps [of t pending])
    have "(Suc t, e) \<in> set pending" using Some by (rule map_of_SomeD)
    then have "L (Suc t) = Some e" using 1(3) by (auto simp: pendingOk_def)
    moreover have "Suc t \<le> r" "b = logEvents L (Suc t) r" "pendingOk L p" "jget p (Suc r) = None"
      using "1.IH" [OF Some c] 1(3) by (simp_all add: pendingOk_jdel)
    ultimately show ?thesis using out log_split [of t "Suc t" r L] by (simp add: log_Suc)
  qed
qed

section \<open>Batches\<close>

lemma batchLoop_concat:
  "batchLoop maxWire es (bs, batch, n) = Some (bs', batch', n') \<Longrightarrow>
   concat bs' @ batch' = concat bs @ batch @ es \<and> (es \<noteq> [] \<or> batch \<noteq> [] \<longrightarrow> batch' \<noteq> [])"
proof (induction es arbitrary: bs batch n)
  case (Cons e es)
  from Cons.prems show ?case
    by (auto simp: Let_def split: if_splits dest!: Cons.IH)
qed simp

lemma batches_concat: "boundedEventBatches maxWire es = Some batches \<Longrightarrow> concat batches = es"
  using batchLoop_concat [of maxWire es "[]" "[]"] by (auto simp: boundedEventBatches_def split: if_splits)

lemma batches_Nil: "boundedEventBatches maxWire es = Some batches \<Longrightarrow> es \<noteq> [] \<Longrightarrow> batches \<noteq> []"
  using batches_concat by fastforce


section \<open>What is on the wire and on the way to it\<close>

definition messageEvents :: "hub_message \<Rightarrow> hub_event list" where
  "messageEvents m = (case m of EventsMessage events \<Rightarrow> events | _ \<Rightarrow> [])"

definition eventsOf :: "hub_message list \<Rightarrow> hub_event list" where
  "eventsOf ms = concat (map messageEvents ms)"

lemma eventsOf_simps [simp]:
  "eventsOf [] = []" "eventsOf (m # ms) = messageEvents m @ eventsOf ms" "eventsOf (xs @ ys) = eventsOf xs @ eventsOf ys"
  by (simp_all add: eventsOf_def)

lemma messageEvents_simps [simp]:
  "messageEvents (EventsMessage events) = events" "messageEvents (LiveMessage q f) = []"
  "messageEvents (SynchronizedMessage q) = []" "messageEvents (SnapshotMessage q) = []"
  "messageEvents (ResyncMessage r) = []" "messageEvents (NoticeMessage n) = []"
  "messageEvents (ViewerMessage k j) = []" "messageEvents (PlainMessage p) = []"
  by (simp_all add: messageEvents_def)

lemma eventsOf_batches [simp]: "eventsOf (map EventsMessage bs) = concat bs"
  by (induction bs) simp_all

lemma eventsOf_notices [simp]: "eventsOf (map NoticeMessage ns) = []"
  by (induction ns) simp_all

lemma eventsOf_viewer [simp]: "eventsOf (map (\<lambda>(kind, json). ViewerMessage kind json) vs) = []"
  by (induction vs) auto

lemma sendMessage_keeps [simp]:
  "su_options (sendMessage m s) = su_options s" "su_state (sendMessage m s) = su_state s"
  "su_phase (sendMessage m s) = su_phase s" "su_syncBuffer (sendMessage m s) = su_syncBuffer s"
  "su_pending (sendMessage m s) = su_pending s" "su_chain (sendMessage m s) = su_chain s"
  "su_running (sendMessage m s) = su_running s" "su_queuedThrough (sendMessage m s) = su_queuedThrough s"
  "su_filling (sendMessage m s) = su_filling s" "su_gapTimer (sendMessage m s) = su_gapTimer s"
  "su_pendingLive (sendMessage m s) = su_pendingLive s"
  by (simp_all add: sendMessage_def giveSink_def Let_def split: hub_message.split)

lemma sendMessage_wire [simp]:
  "eventsOf (su_wire (sendMessage m s)) = eventsOf (su_wire s) @ visible (su_options s) (messageEvents m)"
  by (simp add: sendMessage_def giveSink_def Let_def visible_def split: hub_message.split)

lemma closeSubscriber_keeps [simp]:
  "su_options (closeSubscriber s) = su_options s" "su_state (closeSubscriber s) = Closed"
  "su_phase (closeSubscriber s) = su_phase s" "su_syncBuffer (closeSubscriber s) = su_syncBuffer s"
  "su_pending (closeSubscriber s) = su_pending s" "su_chain (closeSubscriber s) = su_chain s"
  "su_running (closeSubscriber s) = su_running s" "su_queuedThrough (closeSubscriber s) = su_queuedThrough s"
  "su_filling (closeSubscriber s) = su_filling s" "su_wire (closeSubscriber s) = su_wire s"
  "su_pendingLive (closeSubscriber s) = su_pendingLive s"
  by (simp_all add: closeSubscriber_def)

lemma resync_keeps [simp]:
  "su_options (resync r s) = su_options s" "su_state (resync r s) = Closed"
  "su_phase (resync r s) = su_phase s" "su_syncBuffer (resync r s) = su_syncBuffer s"
  "su_pending (resync r s) = su_pending s" "su_chain (resync r s) = su_chain s"
  "su_running (resync r s) = su_running s" "su_queuedThrough (resync r s) = su_queuedThrough s"
  "su_filling (resync r s) = su_filling s" "eventsOf (su_wire (resync r s)) = eventsOf (su_wire s)"
  "su_pendingLive (resync r s) = su_pendingLive s"
  by (simp_all add: resync_def giveSink_def)

lemma failDelivery_keeps [simp]:
  "su_options (failDelivery s) = su_options s" "su_state (failDelivery s) = Closed"
  "su_phase (failDelivery s) = su_phase s" "su_syncBuffer (failDelivery s) = su_syncBuffer s"
  "su_pending (failDelivery s) = su_pending s" "su_chain (failDelivery s) = su_chain s"
  "su_running (failDelivery s) = su_running s" "su_queuedThrough (failDelivery s) = su_queuedThrough s"
  "su_filling (failDelivery s) = su_filling s" "su_wire (failDelivery s) = su_wire s"
  "su_pendingLive (failDelivery s) = su_pendingLive s"
  by (simp_all add: failDelivery_def)

lemma releaseLink_keeps [simp]:
  "su_options (releaseLink l s) = su_options s" "su_state (releaseLink l s) = su_state s"
  "su_phase (releaseLink l s) = su_phase s" "su_syncBuffer (releaseLink l s) = su_syncBuffer s"
  "su_pending (releaseLink l s) = su_pending s" "su_chain (releaseLink l s) = su_chain s"
  "su_running (releaseLink l s) = su_running s" "su_queuedThrough (releaseLink l s) = su_queuedThrough s"
  "su_filling (releaseLink l s) = su_filling s" "su_wire (releaseLink l s) = su_wire s"
  "su_pendingLive (releaseLink l s) = su_pendingLive s" "su_gapTimer (releaseLink l s) = su_gapTimer s"
  by (simp_all add: releaseLink_def split: send_link.split)

lemma takeContiguous_keeps:
  assumes "takeContiguous s = (batch, s')"
  shows "su_options s' = su_options s" "su_state s' = su_state s" "su_phase s' = su_phase s"
    "su_syncBuffer s' = su_syncBuffer s" "su_chain s' = su_chain s" "su_running s' = su_running s"
    "su_filling s' = su_filling s" "su_wire s' = su_wire s" "su_pendingLive s' = su_pendingLive s" "su_gapTimer s' = su_gapTimer s"
    "su_syncNotices s' = su_syncNotices s" "su_syncViewerMessages s' = su_syncViewerMessages s"
  using assms by (auto simp: takeContiguous_def split: prod.splits)

lemma takeContiguous_log:
  assumes "takeContiguous s = (batch, s')" "pendingOk L (su_pending s)"
  shows "su_queuedThrough s \<le> su_queuedThrough s' \<and> batch = logEvents L (su_queuedThrough s) (su_queuedThrough s') \<and>
    pendingOk L (su_pending s') \<and> jget (su_pending s') (Suc (su_queuedThrough s')) = None"
  using assms by (auto simp: takeContiguous_def split: prod.splits dest: contiguous_log)

lemma sendEvents_cases:
  obtains (sent) "su_chain (sendEvents events s) = su_chain s @ [EventsLink events]"
      "su_state (sendEvents events s) = su_state s" "su_wire (sendEvents events s) = su_wire s"
      "su_gapTimer (sendEvents events s) = su_gapTimer s"
  | (overflow) "su_state (sendEvents events s) = Closed" "su_chain (sendEvents events s) = su_chain s"
      "eventsOf (su_wire (sendEvents events s)) = eventsOf (su_wire s)"
proof (cases "su_queuedEvents s + int (length events) > int (so_maxBufferedEvents (su_options s)) \<or>
            su_queuedBytes s + sum_list (map eventBytes events) > so_maxBufferedBytes (su_options s)")
  case True
  then show ?thesis using overflow by (simp add: sendEvents_def)
next
  case False
  then show ?thesis using sent by (simp add: sendEvents_def chainLink_def)
qed

lemma sendEvents_keeps [simp]:
  "su_options (sendEvents events s) = su_options s" "su_phase (sendEvents events s) = su_phase s"
  "su_syncBuffer (sendEvents events s) = su_syncBuffer s" "su_pending (sendEvents events s) = su_pending s"
  "su_running (sendEvents events s) = su_running s" "su_queuedThrough (sendEvents events s) = su_queuedThrough s"
  "su_filling (sendEvents events s) = su_filling s" "su_pendingLive (sendEvents events s) = su_pendingLive s"
  by (simp_all add: sendEvents_def chainLink_def Let_def)


section \<open>The invariant of delivery\<close>

definition linkEvents :: "send_link \<Rightarrow> hub_event list" where
  "linkEvents l = (case l of EventsLink events \<Rightarrow> events | MessageLink m \<Rightarrow> messageEvents m | _ \<Rightarrow> [])"

definition chained :: "subscriber \<Rightarrow> hub_event list" where
  "chained s = concat (map linkEvents (su_chain s))"

text \<open>The events that will still be given to the sink, in order.\<close>

definition due :: "subscriber \<Rightarrow> hub_event list" where
  "due s =
     (case su_running s of Some (l, ms) \<Rightarrow> eventsOf ms | None \<Rightarrow> []) @
     (if su_state s = Live then chained s else []) @
     (case su_phase s of Replaying ms c \<Rightarrow> eventsOf ms | Flushing ms \<Rightarrow> eventsOf ms | _ \<Rightarrow> [])"

text \<open>The sequence they reach; a subscriber that closed may stop anywhere.\<close>

definition dueThrough :: "nat \<Rightarrow> subscriber \<Rightarrow> nat option" where
  "dueThrough base s =
     (case su_phase s of
        NotBegun \<Rightarrow> Some base
      | Replaying ms c \<Rightarrow> Some c
      | _ \<Rightarrow> if su_state s = Closed then None else Some (su_queuedThrough s))"

definition drawn :: "event_log \<Rightarrow> nat \<Rightarrow> subscriber \<Rightarrow> bool" where
  "drawn L base s \<longleftrightarrow>
     (\<exists>n \<ge> base. eventsOf (su_wire s) @ visible (su_options s) (due s) = visible (su_options s) (logEvents L base n) \<and>
        (dueThrough base s = None \<or> dueThrough base s = Some n))"

definition phased :: "subscriber \<Rightarrow> bool" where
  "phased s \<longleftrightarrow> (su_state s = Live \<longrightarrow> su_phase s = Over) \<and> (su_state s = Synchronizing \<longrightarrow> su_phase s \<noteq> Over) \<and>
     (su_phase s \<noteq> Over \<longrightarrow> su_chain s = [] \<and> su_running s = None \<and> su_filling s = None)"

definition heldOk :: "event_log \<Rightarrow> subscriber \<Rightarrow> bool" where
  "heldOk L s \<longleftrightarrow> pendingOk L (su_pending s) \<and> (\<forall>e \<in> set (su_syncBuffer s). L (he_sequence e) = Some e) \<and>
     (\<forall>from through. su_filling s = Some (from, through) \<longrightarrow> from \<le> su_queuedThrough s)"

definition delivery_inv :: "event_log \<Rightarrow> nat \<Rightarrow> subscriber \<Rightarrow> bool" where
  "delivery_inv L base s \<longleftrightarrow> drawn L base s \<and> phased s \<and> heldOk L s"

text \<open>Steps that give the sink no event leave delivery as it is.\<close>

definition sameDelivery :: "subscriber \<Rightarrow> subscriber \<Rightarrow> bool" where
  "sameDelivery s s' \<longleftrightarrow>
     su_options s' = su_options s \<and> su_state s' = su_state s \<and> su_phase s' = su_phase s \<and> su_syncBuffer s' = su_syncBuffer s \<and>
     su_pending s' = su_pending s \<and> su_running s' = su_running s \<and> su_queuedThrough s' = su_queuedThrough s \<and>
     su_filling s' = su_filling s \<and> eventsOf (su_wire s') = eventsOf (su_wire s) \<and> chained s' = chained s"

lemma same_refl [simp]: "sameDelivery s s"
  by (simp add: sameDelivery_def)

lemma same_trans: "sameDelivery s t \<Longrightarrow> sameDelivery t u \<Longrightarrow> sameDelivery s u"
  by (simp add: sameDelivery_def)

lemma same_inv:
  assumes "delivery_inv L base s" "sameDelivery s s'" "su_phase s = Over \<or> su_chain s' = su_chain s"
  shows "delivery_inv L base s'"
proof -
  have "due s' = due s" "dueThrough base s' = dueThrough base s"
    using assms(2) by (simp_all add: sameDelivery_def due_def dueThrough_def split: sync_phase.split)
  then have "drawn L base s' = drawn L base s" using assms(2) by (simp add: drawn_def sameDelivery_def)
  moreover have "phased s \<longrightarrow> phased s'" "heldOk L s' = heldOk L s"
    using assms(2,3) by (auto simp: sameDelivery_def phased_def heldOk_def)
  ultimately show ?thesis using assms(1) by (simp add: delivery_inv_def)
qed

lemma held_inv:
  assumes "delivery_inv L base s" "heldOk L s'" "su_phase s = Over \<or> su_filling s' = su_filling s"
    and "su_options s' = su_options s" "su_state s' = su_state s" "su_phase s' = su_phase s" "su_running s' = su_running s"
      "su_queuedThrough s' = su_queuedThrough s" "eventsOf (su_wire s') = eventsOf (su_wire s)" "su_chain s' = su_chain s"
  shows "delivery_inv L base s'"
proof -
  have "due s' = due s" "dueThrough base s' = dueThrough base s"
    using assms by (simp_all add: due_def chained_def dueThrough_def split: sync_phase.split)
  then show ?thesis using assms by (auto simp: delivery_inv_def drawn_def phased_def)
qed

lemma drawn_start: "drawn L base s \<Longrightarrow> \<exists>m \<ge> base. eventsOf (su_wire s) = visible (su_options s) (logEvents L base m)"
  by (metis drawn_def visible_prefix)

text \<open>Closing keeps what was given and gives up what was not yet running.\<close>

lemma close_inv:
  assumes inv: "delivery_inv L base s"
    and closed: "su_state s' = Closed" and options: "su_options s' = su_options s"
    and wire: "eventsOf (su_wire s') = eventsOf (su_wire s)" and phase: "su_phase s' = su_phase s"
    and running: "su_running s' = su_running s \<or> su_phase s = Over \<and> su_running s' = None"
    and chain: "su_phase s = Over \<or> su_chain s' = su_chain s"
    and pending: "su_pending s' = su_pending s" "su_syncBuffer s' = su_syncBuffer s"
    and filling: "su_filling s' = su_filling s \<or> su_filling s' = None" "su_queuedThrough s \<le> su_queuedThrough s'"
  shows "delivery_inv L base s'"
proof -
  have "phased s'" using inv closed phase running chain filling by (auto simp: delivery_inv_def phased_def)
  moreover have "heldOk L s'" using inv pending filling unfolding delivery_inv_def heldOk_def by (metis le_trans option.distinct(1))
  moreover have "drawn L base s'"
  proof (cases "su_phase s = Over")
    case True
    have start: "\<exists>ys. eventsOf (su_wire s) @ visible (su_options s) (due s) =
      (eventsOf (su_wire s') @ visible (su_options s') (due s')) @ ys"
      using wire options closed True phase running by (auto simp: due_def split: option.split)
    from inv obtain n where "base \<le> n" "eventsOf (su_wire s) @ visible (su_options s) (due s) = visible (su_options s) (logEvents L base n)"
      by (auto simp: delivery_inv_def drawn_def)
    with start obtain m where "base \<le> m"
      "eventsOf (su_wire s') @ visible (su_options s') (due s') = visible (su_options s) (logEvents L base m)"
      by (metis visible_prefix)
    then show ?thesis using closed True phase options by (auto simp: drawn_def dueThrough_def)
  next
    case False
    then have "su_chain s = []" "su_running s = None" using inv by (auto simp: delivery_inv_def phased_def)
    then have "due s' = due s" using False phase running chain by (auto simp: due_def chained_def)
    moreover have "dueThrough base s' = None \<or> dueThrough base s' = dueThrough base s"
      using phase closed by (auto simp: dueThrough_def split: sync_phase.split)
    ultimately show ?thesis using inv wire options by (auto simp: delivery_inv_def drawn_def)
  qed
  ultimately show ?thesis by (simp add: delivery_inv_def)
qed

lemma over_inv:
  assumes inv: "delivery_inv L base s" and closed: "su_state s' = Closed" "su_phase s' = Over" "su_running s' = None"
    and same: "su_options s' = su_options s" "eventsOf (su_wire s') = eventsOf (su_wire s)" "heldOk L s'"
  shows "delivery_inv L base s'"
proof -
  obtain m where "base \<le> m" "eventsOf (su_wire s) = visible (su_options s) (logEvents L base m)"
    using drawn_start inv unfolding delivery_inv_def by blast
  then have "drawn L base s'" using closed same by (auto simp: drawn_def due_def dueThrough_def)
  then show ?thesis using closed same by (simp add: delivery_inv_def phased_def)
qed

text \<open>A live subscriber chains the events that follow, or closes.\<close>

lemma extend_inv:
  assumes inv: "delivery_inv L base s" and live: "su_state s = Live" and q: "su_queuedThrough s \<le> su_queuedThrough s'"
    and same: "su_options s' = su_options s" "su_phase s' = su_phase s" "su_running s' = su_running s"
      "eventsOf (su_wire s') = eventsOf (su_wire s)" "heldOk L s'"
    and more: "su_state s' = Closed \<or>
      su_state s' = Live \<and> chained s' = chained s @ logEvents L (su_queuedThrough s) (su_queuedThrough s')"
  shows "delivery_inv L base s'"
proof -
  have over: "su_phase s = Over" using inv live by (simp add: delivery_inv_def phased_def)
  have n: "base \<le> su_queuedThrough s"
    "eventsOf (su_wire s) @ visible (su_options s) (due s) = visible (su_options s) (logEvents L base (su_queuedThrough s))"
    using inv live over by (auto simp: delivery_inv_def drawn_def dueThrough_def)
  show ?thesis
  proof (cases "su_state s' = Closed")
    case True
    have "\<exists>ys. visible (su_options s) (logEvents L base (su_queuedThrough s)) =
      (eventsOf (su_wire s') @ visible (su_options s') (due s')) @ ys"
      using n(2)[symmetric] same True over live by (auto simp: due_def split: option.split)
    then obtain m where "base \<le> m"
      "eventsOf (su_wire s') @ visible (su_options s') (due s') = visible (su_options s) (logEvents L base m)"
      by (metis n(1) visible_prefix)
    then have "drawn L base s'" using True over same by (auto simp: drawn_def dueThrough_def)
    then show ?thesis using True over same by (simp add: delivery_inv_def phased_def)
  next
    case False
    then have "due s' = due s @ logEvents L (su_queuedThrough s) (su_queuedThrough s')"
      using more same over live by (simp add: due_def)
    then have "eventsOf (su_wire s') @ visible (su_options s') (due s') =
      visible (su_options s) (logEvents L base (su_queuedThrough s'))"
      using n same log_split [OF n(1) q, of L] by (metis append_assoc visible_simps(2))
    then have "drawn L base s'" using False more over same n q
      by (auto simp: drawn_def dueThrough_def intro!: exI [of _ "su_queuedThrough s'"])
    then show ?thesis using False more over same by (simp add: delivery_inv_def phased_def)
  qed
qed


section \<open>Every step keeps it\<close>

lemma chained_link [simp]: "chained (chainLink l s) = chained s @ linkEvents l"
  by (simp add: chainLink_def chained_def)

lemma linkEvents_simps [simp]:
  "linkEvents (EventsLink events) = events" "linkEvents (LiveLink f) = []"
  "linkEvents (MessageLink m) = messageEvents m" "linkEvents SynchronizedLink = []"
  by (simp_all add: linkEvents_def)

lemma sendLive_same: "sameDelivery s (sendLive f r s)"
  by (simp add: sendLive_def sameDelivery_def chainLink_def chained_def)

lemma holdLive_same: "sameDelivery s (holdLive f r s)"
  by (simp add: holdLive_def sameDelivery_def chained_def)

lemma offerLiveFrame_same: "sameDelivery s (offerLiveFrame f r s)"
  by (simp add: offerLiveFrame_def sendLive_same holdLive_same)

lemma foldl_same: "(\<And>t x. sameDelivery t (g t x)) \<Longrightarrow> sameDelivery s (foldl g s xs)"
  by (induction xs arbitrary: s) (auto intro: same_trans)

lemma releaseLive_same: "sameDelivery s (releaseLive s)"
proof -
  have "sameDelivery s (s\<lparr>su_pendingLive := [], su_pendingLiveBytes := 0\<rparr>)"
    by (simp add: sameDelivery_def chained_def)
  then show ?thesis unfolding releaseLive_def
    by (rule same_trans) (auto intro!: foldl_same simp: sendLive_same holdLive_same)
qed

lemma scheduleGapFill_same: "sameDelivery s (scheduleGapFill s)"
  by (simp add: scheduleGapFill_def sameDelivery_def chained_def)

lemma drain_inv:
  assumes inv: "delivery_inv L base s" shows "delivery_inv L base (drain s)"
proof (cases "su_state s = Live")
  case live: True
  obtain batch s1 where t: "takeContiguous s = (batch, s1)" by fastforce
  define s2 where "s2 = (if batch = [] then s1 else sendEvents batch s1)"
  note k = takeContiguous_keeps [OF t]
  have pend: "pendingOk L (su_pending s)" using inv by (simp add: delivery_inv_def heldOk_def)
  note l = takeContiguous_log [OF t pend]
  have "su_state s2 = Closed \<or> su_state s2 = Live \<and> chained s2 = chained s @ batch"
    using k live by (cases rule: sendEvents_cases [of batch s1]) (auto simp: s2_def chained_def)
  moreover have "eventsOf (su_wire s2) = eventsOf (su_wire s)"
    using k by (cases rule: sendEvents_cases [of batch s1]) (auto simp: s2_def)
  moreover have "heldOk L s2" using inv k l by (auto simp: s2_def delivery_inv_def heldOk_def intro: le_trans)
  ultimately have "delivery_inv L base s2"
    by (intro extend_inv [OF inv live]) (use k l in \<open>auto simp: s2_def\<close>)
  moreover have "sameDelivery s2 (scheduleGapFill (releaseLive s2))"
    using releaseLive_same scheduleGapFill_same same_trans by blast
  moreover have "su_phase s2 = Over" using inv live k by (simp add: s2_def delivery_inv_def phased_def)
  ultimately have "delivery_inv L base (scheduleGapFill (releaseLive s2))" using same_inv by blast
  then show ?thesis using live t by (simp add: drain_def s2_def)
next
  case False
  then show ?thesis using inv by (simp add: drain_def)
qed

lemma hold_inv:
  assumes inv: "delivery_inv L base s" and e: "L (he_sequence e) = Some e"
  shows "delivery_inv L base (fst (hold e s))"
proof -
  have "delivery_inv L base (resync r s)" for r by (rule close_inv [OF inv]) simp_all
  moreover have "delivery_inv L base (s\<lparr>su_pending := jset (he_sequence e) e (su_pending s), su_pendingBytes := b\<rparr>)" for b
    using inv e by (intro held_inv [OF inv]) (auto simp: delivery_inv_def heldOk_def phased_def pendingOk_jset)
  ultimately show ?thesis using inv by (simp add: hold_def)
qed

lemma resync_inv: "delivery_inv L base s \<Longrightarrow> delivery_inv L base (resync r s)"
  by (rule close_inv [of L base s]) simp_all

lemma closeSubscriber_inv: "delivery_inv L base s \<Longrightarrow> delivery_inv L base (closeSubscriber s)"
  by (rule close_inv [of L base s]) simp_all

lemma offer_inv:
  assumes inv: "delivery_inv L base s" and e: "L (he_sequence e) = Some e"
  shows "delivery_inv L base (offer e s)"
proof -
  have "delivery_inv L base (s\<lparr>su_syncBuffer := su_syncBuffer s @ [e], su_syncBufferedBytes := b\<rparr>)" for b
    using inv e by (intro held_inv [OF inv]) (auto simp: delivery_inv_def heldOk_def phased_def)
  moreover obtain s1 held where "hold e s = (s1, held)" by fastforce
  moreover have "delivery_inv L base s1" using hold_inv [OF assms] calculation(2) by simp
  ultimately show ?thesis using inv by (simp add: offer_def resync_inv drain_inv)
qed

lemma offerLive_inv: "delivery_inv L base s \<Longrightarrow> delivery_inv L base (offerLive f s)"
proof -
  assume inv: "delivery_inv L base s"
  show ?thesis
  proof (cases "su_state s = Live")
    case True
    then have "su_phase s = Over" using inv by (simp add: delivery_inv_def phased_def)
    then show ?thesis using True same_inv [OF inv offerLiveFrame_same] by (simp add: offerLive_def)
  qed (simp add: offerLive_def inv)
qed

lemma enqueueMessage_inv:
  assumes inv: "delivery_inv L base s" and m: "messageEvents m = []"
  shows "delivery_inv L base (enqueueMessage m s)"
proof (cases "su_state s")
  case Synchronizing
  have "delivery_inv L base (s\<lparr>su_syncNotices := ns\<rparr>)" for ns
    by (rule same_inv [OF inv]) (simp_all add: sameDelivery_def chained_def)
  moreover have "delivery_inv L base (s\<lparr>su_viewerBufferedBytes := b, su_syncViewerMessages := vs\<rparr>)" for b vs
    by (rule same_inv [OF inv]) (simp_all add: sameDelivery_def chained_def)
  ultimately show ?thesis using Synchronizing inv
    by (cases m) (simp_all add: enqueueMessage_def resync_inv)
next
  case Live
  then have "su_phase s = Over" using inv by (simp add: delivery_inv_def phased_def)
  then have "delivery_inv L base (chainLink (MessageLink m) s)"
    by (intro same_inv [OF inv]) (simp_all add: sameDelivery_def m, simp_all add: chainLink_def)
  then show ?thesis using Live by (simp add: enqueueMessage_def)
next
  case Closed
  then show ?thesis using inv by (simp add: enqueueMessage_def)
qed


text \<open>A link that is given to the sink message by message.\<close>

lemma sendNext_inv:
  assumes inv: "delivery_inv L base (s\<lparr>su_running := Some (l, messages)\<rparr>)"
  shows "delivery_inv L base (sendNext l messages s)"
proof -
  let ?t = "s\<lparr>su_running := Some (l, messages)\<rparr>"
  let ?u = "sendNext l messages s"
  have over: "su_phase s = Over" using inv by (auto simp: delivery_inv_def phased_def)
  have "eventsOf (su_wire ?u) @ visible (su_options s) (due ?u) = eventsOf (su_wire s) @ visible (su_options s) (due ?t)"
    using over by (cases messages) (simp_all add: sendNext_def due_def chained_def)
  moreover have "su_options ?u = su_options s" "dueThrough base ?u = dueThrough base ?t"
    using over by (cases messages; simp add: sendNext_def dueThrough_def)+
  ultimately have "drawn L base ?u" using inv by (simp add: delivery_inv_def drawn_def)
  moreover have "phased ?u" using inv over by (cases messages) (simp_all add: sendNext_def delivery_inv_def phased_def)
  moreover have "heldOk L ?u" using inv by (cases messages) (simp_all add: sendNext_def delivery_inv_def heldOk_def)
  ultimately show ?thesis by (simp add: delivery_inv_def)
qed

lemma takeLink_inv:
  assumes inv: "delivery_inv L base s" and free: "su_running s = None" and chain: "su_chain s = l # rest"
    and live: "su_state s = Live" and same: "eventsOf messages = linkEvents l"
  shows "delivery_inv L base (sendNext l messages (s\<lparr>su_chain := rest\<rparr>))"
proof (rule sendNext_inv)
  let ?t = "s\<lparr>su_chain := rest, su_running := Some (l, messages)\<rparr>"
  have over: "su_phase s = Over" using inv live by (simp add: delivery_inv_def phased_def)
  have "due ?t = due s" using free chain live same over by (simp add: due_def chained_def)
  moreover have "dueThrough base ?t = dueThrough base s" using over by (simp add: dueThrough_def)
  ultimately show "delivery_inv L base ?t"
    using inv over by (simp add: delivery_inv_def drawn_def phased_def heldOk_def)
qed

lemma startLink_inv:
  assumes inv: "delivery_inv L base s" shows "delivery_inv L base (startLink s)"
proof (cases "su_running s = None \<and> su_chain s \<noteq> []")
  case True
  then obtain l rest where free: "su_running s = None" and chain: "su_chain s = l # rest" by (meson neq_Nil_conv)
  have over: "su_phase s = Over" using inv chain by (auto simp: delivery_inv_def phased_def)
  then have state: "su_state s \<noteq> Synchronizing" using inv by (auto simp: delivery_inv_def phased_def)
  have drop: "delivery_inv L base (releaseLink l (s\<lparr>su_chain := rest\<rparr>))" "delivery_inv L base (s\<lparr>su_chain := rest\<rparr>)"
    if "su_state s = Closed"
    by (rule close_inv [OF inv]; use that over in simp)+
  have fail: "delivery_inv L base (releaseLink l (failDelivery (s\<lparr>su_chain := rest\<rparr>)))"
    by (rule close_inv [OF inv]) (use over in simp_all)
  note take = takeLink_inv [OF inv free chain]
  show ?thesis
  proof (cases "su_state s = Closed")
    case True
    then show ?thesis using free chain drop by (cases l) (simp_all add: startLink_def)
  next
    case False
    then have live: "su_state s = Live" using state by (cases "su_state s") simp_all
    show ?thesis
    proof (cases l)
      case (EventsLink events)
      then show ?thesis using free chain live take [OF live] fail batches_concat
        by (auto simp: startLink_def Let_def split: option.split)
    next
      case SynchronizedLink
      have "sameDelivery s (s\<lparr>su_chain := rest\<rparr>)" using chain SynchronizedLink by (simp add: sameDelivery_def chained_def)
      then show ?thesis using free chain SynchronizedLink same_inv [OF inv] over by (simp add: startLink_def)
    qed (use free chain live take [OF live] in \<open>simp_all add: startLink_def\<close>)
  qed
next
  case False
  then show ?thesis using inv by (auto simp: startLink_def)
qed

lemma settleLink_inv:
  assumes inv: "delivery_inv L base s" shows "delivery_inv L base (settleLink ok s)"
proof (cases "su_running s")
  case (Some r)
  then obtain l messages where r: "su_running s = Some (l, messages)" by (cases r) auto
  have over: "su_phase s = Over" using inv r by (auto simp: delivery_inv_def phased_def)
  have "s\<lparr>su_running := Some (l, messages)\<rparr> = s" using r by simp
  then have "delivery_inv L base (sendNext l messages s)" using sendNext_inv inv by metis
  moreover have "delivery_inv L base (closeSubscriber (s\<lparr>su_running := None\<rparr>))"
    "delivery_inv L base (releaseLink k (failDelivery (s\<lparr>su_running := None, su_chain := rest\<rparr>)))"
    "delivery_inv L base (releaseLink k (failDelivery (s\<lparr>su_running := None\<rparr>)))" for k rest
    by (rule close_inv [OF inv]; use over in simp)+
  ultimately show ?thesis using r by (simp add: settleLink_def split: list.split)
qed (simp add: settleLink_def inv)


text \<open>A read of the store is accurate when it returns the log's events of what it accounts for.\<close>

definition accurate :: "event_log \<Rightarrow> nat \<Rightarrow> nat \<Rightarrow> fill_window \<Rightarrow> bool" where
  "accurate L from through window \<longleftrightarrow>
     (if fw_hasMore window
      then from \<le> fw_scannedThrough window \<and> fw_scannedThrough window \<le> through \<and>
        fw_events window = logEvents L from (fw_scannedThrough window)
      else fw_events window = logEvents L from through)"

lemma discardDelivered_inv: "delivery_inv L base s \<Longrightarrow> delivery_inv L base (discardDelivered s)"
  by (rule held_inv) (auto simp: discardDelivered_def Let_def delivery_inv_def heldOk_def pendingOk_filter)

lemma finishFill_inv:
  assumes inv: "delivery_inv L base s" and over: "su_phase s = Over"
  shows "delivery_inv L base (finishFill s)"
proof -
  have "delivery_inv L base ((discardDelivered s)\<lparr>su_filling := None\<rparr>)"
    by (rule held_inv [OF discardDelivered_inv [OF inv]])
      (use inv over in \<open>auto simp: discardDelivered_def Let_def delivery_inv_def heldOk_def pendingOk_filter\<close>)
  then show ?thesis unfolding finishFill_def by (rule drain_inv)
qed

lemma timerFires_inv:
  assumes inv: "delivery_inv L base s" shows "delivery_inv L base (timerFires s)"
proof -
  let ?t = "s\<lparr>su_gapTimer := False\<rparr>"
  have t: "delivery_inv L base ?t" by (rule same_inv [OF inv]) (simp_all add: sameDelivery_def chained_def)
  have "delivery_inv L base (fillGap ?t)"
  proof (cases "su_state s = Live \<and> su_pending s \<noteq> []")
    case True
    then have over: "su_phase ?t = Over" using inv by (simp add: delivery_inv_def phased_def)
    have "delivery_inv L base (?t\<lparr>su_filling := Some (su_queuedThrough s, q)\<rparr>)" for q
      by (rule held_inv [OF t]) (use over inv in \<open>auto simp: delivery_inv_def heldOk_def\<close>)
    then show ?thesis using finishFill_inv [OF t over] by (simp add: fillGap_def Let_def t)
  next
    case False
    then show ?thesis using t by (auto simp: fillGap_def)
  qed
  then show ?thesis using inv by (simp add: timerFires_def)
qed

text \<open>What a window adds: its events beyond what has been queued meanwhile.\<close>

lemma fresh_log:
  assumes L: "isLog L" and below: "from \<le> q" and goal: "goal \<le> through"
  shows "filter (\<lambda>e. q < he_sequence e \<and> he_sequence e \<le> through) (logEvents L from goal) = logEvents L q goal"
proof -
  have both: "filter (\<lambda>e. q < he_sequence e \<and> he_sequence e \<le> through) xs =
    filter (\<lambda>e. he_sequence e \<le> through) (filter (\<lambda>e. q < he_sequence e) xs)" for xs
    by simp
  show ?thesis by (simp only: both log_after [OF L below] log_upto [OF L goal])
qed

lemma takeWindow_inv:
  assumes inv: "delivery_inv L base s" and L: "isLog L" and over: "su_phase s = Over"
    and fresh: "fresh = logEvents L (su_queuedThrough s) goal"
    and s1: "s1 = (if fresh = [] then s else (sendEvents fresh s)\<lparr>su_queuedThrough := he_sequence (last fresh)\<rparr>)"
    and filling: "su_filling s = Some (from, through)"
  shows "delivery_inv L base (s1\<lparr>su_queuedThrough := max goal (su_queuedThrough s1)\<rparr>)"
proof -
  let ?u = "s1\<lparr>su_queuedThrough := max goal (su_queuedThrough s1)\<rparr>"
  have last: "su_queuedThrough s < he_sequence (last fresh) \<and> he_sequence (last fresh) \<le> goal" if "fresh \<noteq> []"
    using log_seq [OF L, of "last fresh" "su_queuedThrough s" goal] that fresh by auto
  have q: "su_queuedThrough ?u = max goal (su_queuedThrough s)" using last s1 by (auto simp: max_def)
  then have logq: "logEvents L (su_queuedThrough s) (su_queuedThrough ?u) = fresh" using fresh by (simp add: max_def)
  have fields: "su_options ?u = su_options s" "su_phase ?u = su_phase s" "su_running ?u = su_running s"
    "su_pending ?u = su_pending s" "su_syncBuffer ?u = su_syncBuffer s" "su_filling ?u = su_filling s"
    using s1 by simp_all
  then have held: "heldOk L ?u" using inv q unfolding delivery_inv_def heldOk_def by (auto intro: le_max_iff_disj [THEN iffD2])
  have wire: "eventsOf (su_wire ?u) = eventsOf (su_wire s)"
    using s1 by (cases rule: sendEvents_cases [of fresh s]) simp_all
  have state: "su_state ?u = Closed \<or> su_state ?u = su_state s \<and> chained ?u = chained s @ fresh"
    using s1 by (cases rule: sendEvents_cases [of fresh s]) (auto simp: chained_def)
  show ?thesis
  proof (cases "su_state s = Live")
    case True
    show ?thesis
      by (rule extend_inv [OF inv True]) (use fields wire held state q logq True in auto)
  next
    case False
    then have "su_state s = Closed" using inv over by (cases "su_state s") (simp_all add: delivery_inv_def phased_def)
    then have "su_state ?u = Closed" using state by auto
    then show ?thesis by (intro close_inv [OF inv]) (use fields wire over q in simp_all)
  qed
qed

lemma settleFill_inv:
  assumes inv: "delivery_inv L base s" and L: "isLog L"
    and acc: "\<And>window. answer = Some window \<Longrightarrow> accurate L from through window"
  shows "delivery_inv L base (settleFill from through answer s)"
proof (cases "su_filling s = Some (from, through)")
  case True
  have over: "su_phase s = Over" using inv True by (auto simp: delivery_inv_def phased_def)
  have below: "from \<le> su_queuedThrough s" using inv True by (simp add: delivery_inv_def heldOk_def)
  show ?thesis
  proof (cases answer)
    case None
    have "delivery_inv L base ((resync CursorExpired s)\<lparr>su_filling := None\<rparr>)" by (rule close_inv [OF inv]) simp_all
    then show ?thesis using True None by (simp add: settleFill_def)
  next
    case (Some window)
    define goal where "goal = (if fw_hasMore window then fw_scannedThrough window else through)"
    define fresh where "fresh = filter (\<lambda>e. he_sequence e > su_queuedThrough s \<and> he_sequence e \<le> through) (fw_events window)"
    define s1 where "s1 = (if fresh = [] then s else (sendEvents fresh s)\<lparr>su_queuedThrough := he_sequence (last fresh)\<rparr>)"
    define s2 where "s2 = s1\<lparr>su_queuedThrough := max goal (su_queuedThrough s1)\<rparr>"
    have fresh: "fresh = logEvents L (su_queuedThrough s) goal"
      using acc [OF Some] fresh_log [OF L below, of goal through] by (auto simp: accurate_def goal_def fresh_def split: if_splits)
    have inv2: "delivery_inv L base s2" unfolding s2_def by (rule takeWindow_inv [OF inv L over fresh s1_def True])
    have over2: "su_phase s2 = Over" using over by (simp add: s2_def s1_def)
    have "delivery_inv L base ((resync CursorExpired s2)\<lparr>su_filling := None\<rparr>)" by (rule close_inv [OF inv2]) simp_all
    moreover have "delivery_inv L base (s2\<lparr>su_filling := Some (su_queuedThrough s2, through)\<rparr>)"
      by (rule held_inv [OF inv2]) (use over2 inv2 in \<open>auto simp: delivery_inv_def heldOk_def\<close>)
    moreover have equal: "settleFill from through answer s =
      (if \<not> fw_hasMore window then finishFill s2
       else if su_queuedThrough s2 \<le> from then (resync CursorExpired s2)\<lparr>su_filling := None\<rparr>
       else if su_state s2 = Live \<and> su_queuedThrough s2 < through
       then s2\<lparr>su_filling := Some (su_queuedThrough s2, through)\<rparr> else finishFill s2)"
      unfolding settleFill_def s2_def s1_def fresh_def goal_def Let_def
      by (cases "fw_hasMore window") (simp_all only: Some True option.case if_True if_False not_True_eq_False not_False_eq_True simp_thms)
    ultimately show ?thesis using finishFill_inv [OF inv2 over2] unfolding equal by (simp only: split: if_split) blast
  qed
next
  case False
  then show ?thesis using inv by (simp add: settleFill_def)
qed


lemma flushSync_inv:
  assumes inv: "delivery_inv L base s" and sync: "su_state s = Synchronizing" and ms: "ms \<noteq> []"
    and t: "su_options t = su_options s" "su_state t = Synchronizing" "su_phase t = su_phase s" "eventsOf (su_wire t) = eventsOf (su_wire s)"
      "su_chain t = su_chain s" "su_running t = su_running s" "su_filling t = su_filling s"
    and held: "heldOk L t" and loop: "su_phase s = Snapshotting \<or> su_phase s = Flushing []"
    and q: "su_queuedThrough s \<le> su_queuedThrough t"
    and events: "eventsOf ms = logEvents L (su_queuedThrough s) (su_queuedThrough t)"
  shows "delivery_inv L base (flushSync ms t)"
proof -
  obtain m rest where m: "ms = m # rest" using ms by (cases ms) auto
  let ?u = "(sendMessage m t)\<lparr>su_phase := Flushing rest\<rparr>"
  have idle: "su_chain s = []" "su_running s = None" "su_filling s = None" using inv loop by (auto simp: delivery_inv_def phased_def)
  then have due: "due s = []" using loop by (auto simp: due_def chained_def)
  have n: "base \<le> su_queuedThrough s" "eventsOf (su_wire s) = visible (su_options s) (logEvents L base (su_queuedThrough s))"
    using inv loop sync due by (auto simp: delivery_inv_def drawn_def dueThrough_def)
  have "eventsOf (su_wire ?u) @ visible (su_options ?u) (due ?u) = eventsOf (su_wire s) @ visible (su_options s) (eventsOf ms)"
    using t idle by (simp add: due_def chained_def m)
  also have "\<dots> = visible (su_options s) (logEvents L base (su_queuedThrough t))"
    using n events log_split [OF n(1) q, of L] by simp
  finally have "drawn L base ?u" using t n q by (auto simp: drawn_def dueThrough_def)
  moreover have "phased ?u" "heldOk L ?u" using t idle held by (simp_all add: phased_def heldOk_def)
  ultimately show ?thesis by (simp add: flushSync_def m delivery_inv_def)
qed

definition keepsSync :: "subscriber \<Rightarrow> subscriber \<Rightarrow> bool" where
  "keepsSync s s' \<longleftrightarrow> su_options s' = su_options s \<and> su_phase s' = su_phase s \<and> su_chain s' = su_chain s \<and>
     su_running s' = su_running s \<and> su_filling s' = su_filling s \<and> su_queuedThrough s' = su_queuedThrough s \<and>
     su_syncBuffer s' = su_syncBuffer s \<and> eventsOf (su_wire s') = eventsOf (su_wire s)"

lemma keepsSync_refl [simp]: "keepsSync s s"
  by (simp add: keepsSync_def)

lemma keepsSync_trans: "keepsSync s t \<Longrightarrow> keepsSync t u \<Longrightarrow> keepsSync s u"
  by (simp add: keepsSync_def)

lemma hold_keeps: "hold e s = (s', held) \<Longrightarrow> keepsSync s s' \<and> su_state s' = (if held then su_state s else Closed)"
  by (auto simp: hold_def keepsSync_def split: if_splits)

lemma holdBuffered_inv:
  "holdBuffered es s = (s', held) \<Longrightarrow> delivery_inv L base s \<Longrightarrow> \<forall>e \<in> set es. L (he_sequence e) = Some e \<Longrightarrow>
   delivery_inv L base s' \<and> keepsSync s s' \<and> su_state s' = (if held then su_state s else Closed)"
proof (induction es s rule: holdBuffered.induct)
  case (2 e es s)
  show ?case
  proof (cases "he_sequence e > su_queuedThrough s")
    case True
    obtain s1 h where h: "hold e s = (s1, h)" by fastforce
    note k = hold_keeps [OF h]
    have inv1: "delivery_inv L base s1" using hold_inv [OF "2.prems"(2)] "2.prems"(3) h by (metis fst_conv list.set_intros(1))
    show ?thesis
    proof (cases h)
      case hTrue: True
      have "holdBuffered es s1 = (s', held)" using "2.prems"(1) True h hTrue by simp
      from "2.IH"(1) [OF True h [symmetric] hTrue this inv1] "2.prems"(3)
      have "delivery_inv L base s' \<and> keepsSync s1 s' \<and> su_state s' = (if held then su_state s1 else Closed)" by simp
      then show ?thesis using k hTrue keepsSync_trans by metis
    next
      case False
      then have "s' = s1" "held = False" using "2.prems"(1) True h by simp_all
      then show ?thesis using inv1 k False by simp
    qed
  next
    case False
    then show ?thesis using "2.IH"(2) "2.prems" by simp
  qed
qed simp


text \<open>The loop of \<open>synchronize\<close>, from where all of its sends are over.\<close>

lemma goLive_inv:
  assumes idle: "su_chain t = []" "su_running t = None" and held: "heldOk L t"
    and wire: "base \<le> su_queuedThrough t" "eventsOf (su_wire t) = visible (su_options t) (logEvents L base (su_queuedThrough t))"
  shows "delivery_inv L base (goLive frames t)"
proof -
  define u where "u = (sendMessage (SynchronizedMessage (su_queuedThrough t)) t)
    \<lparr>su_running := Some (SynchronizedLink, []), su_state := Live, su_phase := Over\<rparr>"
  have "drawn L base u" using wire idle by (auto simp: u_def drawn_def due_def chained_def dueThrough_def)
  moreover have "phased u" by (simp add: u_def phased_def)
  moreover have "heldOk L u" using held by (simp add: u_def heldOk_def)
  ultimately have "delivery_inv L base u" by (simp add: delivery_inv_def)
  moreover have "sameDelivery u (foldl (\<lambda>s f. offerLiveFrame f True s) u frames)"
    by (intro foldl_same offerLiveFrame_same)
  ultimately have "delivery_inv L base (foldl (\<lambda>s f. offerLiveFrame f True s) u frames)"
    by (rule same_inv) (simp add: u_def)
  then show ?thesis unfolding goLive_def Let_def u_def [symmetric] by (rule drain_inv)
qed

lemma syncLoop_inv:
  assumes inv: "delivery_inv L base s" and loop: "su_phase s = Snapshotting \<or> su_phase s = Flushing []"
  shows "delivery_inv L base (syncLoop frames s)"
proof (cases "su_state s = Synchronizing")
  case True
  have idle: "su_chain s = []" "su_running s = None" "su_filling s = None" using inv loop by (auto simp: delivery_inv_def phased_def)
  let ?s0 = "s\<lparr>su_syncBuffer := []\<rparr>"
  have inv0: "delivery_inv L base ?s0" by (rule held_inv [OF inv]) (use inv in \<open>simp_all add: delivery_inv_def heldOk_def\<close>)
  obtain s1 held where h: "holdBuffered (su_syncBuffer s) ?s0 = (s1, held)" by fastforce
  have "\<forall>e \<in> set (su_syncBuffer s). L (he_sequence e) = Some e" using inv by (simp add: delivery_inv_def heldOk_def)
  from holdBuffered_inv [OF h inv0 this] have inv1: "delivery_inv L base s1" and k1: "keepsSync ?s0 s1"
    and state1: "su_state s1 = (if held then Synchronizing else Closed)" using True by simp_all
  have held1: "heldOk L s1" using inv1 by (simp add: delivery_inv_def)
  show ?thesis
  proof (cases held)
    case False
    have "delivery_inv L base (s1\<lparr>su_phase := Over\<rparr>)"
      by (rule over_inv [OF inv1]) (use False state1 k1 idle held1 in \<open>simp_all add: keepsSync_def heldOk_def\<close>)
    then show ?thesis using True h False by (simp add: syncLoop_def)
  next
    case hTrue: True
    obtain batch s2 where t: "takeContiguous (s1\<lparr>su_syncBufferedBytes := 0\<rparr>) = (batch, s2)" by fastforce
    note k2 = takeContiguous_keeps [OF t]
    have l: "su_queuedThrough s1 \<le> su_queuedThrough s2" "batch = logEvents L (su_queuedThrough s1) (su_queuedThrough s2)"
      "pendingOk L (su_pending s2)"
      using takeContiguous_log [OF t, of L] held1 by (simp_all add: heldOk_def)
    have held2: "heldOk L s2" using held1 k2 l by (auto simp: heldOk_def intro: le_trans)
    have loop1: "su_phase s1 = Snapshotting \<or> su_phase s1 = Flushing []" using loop k1 by (simp add: keepsSync_def)
    have idle1: "su_chain s1 = []" "su_running s1 = None" "su_filling s1 = None" using idle k1 by (simp_all add: keepsSync_def)
    have flushSync: "delivery_inv L base (flushSync ms u)"
      if "ms \<noteq> []" "eventsOf ms = batch" "u = s2\<lparr>su_syncNotices := ns, su_syncViewerMessages := vs, su_viewerBufferedBytes := b\<rparr>"
      for ms u ns vs b
      by (rule flushSync_inv [OF inv1 _ that(1)]) (use that hTrue state1 k2 held2 loop1 l in \<open>auto simp: heldOk_def\<close>)
    show ?thesis
    proof (cases "batch = []")
      case False
      have "delivery_inv L base (endSync s2)"
        by (rule over_inv [OF inv1]) (use k2 idle1 held2 in \<open>simp_all add: endSync_def heldOk_def\<close>)
      moreover have "delivery_inv L base (flushSync (map EventsMessage bs) s2)" if "boundedEventBatches m batch = Some bs" for bs m
        by (rule flushSync [where u = s2 and ns = "su_syncNotices s2" and vs = "su_syncViewerMessages s2" and b = "su_viewerBufferedBytes s2"])
          (use that False batches_concat batches_Nil in auto)
      ultimately show ?thesis using True h hTrue t False by (simp add: syncLoop_def split: option.split)
    next
      case empty: True
      have wire: "base \<le> su_queuedThrough s2" "eventsOf (su_wire s2) = visible (su_options s2) (logEvents L base (su_queuedThrough s2))"
      proof -
        have "due s1 = []" using loop1 idle1 by (auto simp: due_def chained_def)
        then have n: "base \<le> su_queuedThrough s1"
          "eventsOf (su_wire s1) = visible (su_options s1) (logEvents L base (su_queuedThrough s1))"
          using inv1 loop1 hTrue state1 by (auto simp: delivery_inv_def drawn_def dueThrough_def)
        then show "base \<le> su_queuedThrough s2" using l by simp
        show "eventsOf (su_wire s2) = visible (su_options s2) (logEvents L base (su_queuedThrough s2))"
          using n l empty k2 log_split [OF n(1) l(1), of L] by simp
      qed
      obtain notices rest where n: "takeNotice (su_syncNotices s2) = (notices, rest)" by fastforce
      let ?s3 = "s2\<lparr>su_syncNotices := rest\<rparr>"
      have "delivery_inv L base (flushSync (map NoticeMessage notices) ?s3)" if "notices \<noteq> []"
        by (rule flushSync [where u = ?s3 and ns = rest and vs = "su_syncViewerMessages s2" and b = "su_viewerBufferedBytes s2"]) (use that empty in simp_all)
      moreover have "delivery_inv L base (flushSync [ViewerMessage k j]
          (?s3\<lparr>su_syncViewerMessages := vs, su_viewerBufferedBytes := b\<rparr>))" for k j vs b
        by (rule flushSync [where ns = rest and vs = vs and b = b]) (use empty in simp_all)
      moreover have "delivery_inv L base (goLive frames ?s3)"
        by (rule goLive_inv) (use idle1 k2 held2 wire in \<open>simp_all add: heldOk_def\<close>)
      ultimately show ?thesis using True h hTrue t empty n
        by (simp add: syncLoop_def Let_def split: list.split)
    qed
  qed
next
  case False
  then have "su_state s = Closed" using inv loop by (cases "su_state s") (auto simp: delivery_inv_def phased_def)
  moreover have "su_running s = None" using inv loop by (auto simp: delivery_inv_def phased_def)
  ultimately have "delivery_inv L base (s\<lparr>su_phase := Over\<rparr>)"
    by (intro over_inv [OF inv]) (use inv in \<open>simp_all add: delivery_inv_def heldOk_def\<close>)
  then show ?thesis using False by (simp add: syncLoop_def)
qed


lemma beginSync_inv:
  assumes inv: "delivery_inv L base s" and ms: "base \<le> cursor" "eventsOf ms = logEvents L base cursor"
  shows "delivery_inv L base (beginSync ms cursor s)"
proof (cases "su_phase s = NotBegun")
  case True
  have idle: "su_chain s = []" "su_running s = None" "su_filling s = None" using inv True by (auto simp: delivery_inv_def phased_def)
  then have wire: "eventsOf (su_wire s) = []"
    using inv True by (auto simp: delivery_inv_def drawn_def due_def dueThrough_def)
  show ?thesis
  proof (cases ms)
    case Nil
    let ?u = "s\<lparr>su_queuedThrough := cursor, su_phase := Snapshotting\<rparr>"
    have "drawn L base ?u" using Nil wire idle ms by (auto simp: drawn_def due_def chained_def dueThrough_def intro!: exI [of _ cursor])
    moreover have "phased ?u" "heldOk L ?u" using inv True idle by (simp_all add: delivery_inv_def phased_def heldOk_def)
    ultimately show ?thesis using True Nil by (simp add: beginSync_def delivery_inv_def)
  next
    case (Cons m rest)
    let ?u = "(sendMessage m s)\<lparr>su_phase := Replaying rest cursor\<rparr>"
    have "visible options (messageEvents m) @ visible options (eventsOf rest) = visible options (logEvents L base cursor)" for options
      using ms(2) [symmetric] Cons by simp
    then have "drawn L base ?u" using wire idle ms(1) by (auto simp: drawn_def due_def chained_def dueThrough_def)
    moreover have "phased ?u" "heldOk L ?u" using inv True idle by (simp_all add: delivery_inv_def phased_def heldOk_def)
    ultimately show ?thesis using True Cons by (simp add: beginSync_def delivery_inv_def)
  qed
next
  case False
  then show ?thesis using inv by (simp add: beginSync_def)
qed

lemma endSync_inv: "delivery_inv L base s \<Longrightarrow> su_running s = None \<Longrightarrow> delivery_inv L base (endSync s)"
  by (rule over_inv [of L base s]) (simp_all add: endSync_def delivery_inv_def heldOk_def)

lemma settleSync_inv:
  assumes inv: "delivery_inv L base s" shows "delivery_inv L base (settleSync ok frames s)"
proof -
  have idle: "su_chain s = []" "su_running s = None" "su_filling s = None" if "su_phase s \<noteq> Over"
    using inv that by (auto simp: delivery_inv_def phased_def)
  show ?thesis
  proof (cases "su_phase s")
    case (Replaying ms cursor)
    note idle = idle [unfolded Replaying, simplified]
    have n: "base \<le> cursor" "eventsOf (su_wire s) @ visible (su_options s) (eventsOf ms) = visible (su_options s) (logEvents L base cursor)"
      using inv Replaying idle by (auto simp: delivery_inv_def drawn_def due_def chained_def dueThrough_def cong: if_cong)
    have finished: "delivery_inv L base (s\<lparr>su_queuedThrough := cursor, su_phase := Snapshotting\<rparr>)" (is "delivery_inv L base ?u") if "ms = []"
    proof -
      have "drawn L base ?u" using that n idle by (auto simp: drawn_def due_def chained_def dueThrough_def)
      then show ?thesis using inv Replaying idle by (simp add: delivery_inv_def phased_def heldOk_def)
    qed
    have step: "delivery_inv L base ((sendMessage m s)\<lparr>su_phase := Replaying rest cursor\<rparr>)" (is "delivery_inv L base ?u") if "ms = m # rest" for m rest
    proof -
      have "drawn L base ?u" using that n idle by (auto simp: drawn_def due_def chained_def dueThrough_def)
      then show ?thesis using inv Replaying idle by (simp add: delivery_inv_def phased_def heldOk_def)
    qed
    show ?thesis using finished step endSync_inv [OF inv] idle Replaying by (simp add: settleSync_def split: list.split)
  next
    case (Flushing ms)
    note idle = idle [unfolded Flushing, simplified]
    obtain n where n: "base \<le> n" "eventsOf (su_wire s) @ visible (su_options s) (eventsOf ms) = visible (su_options s) (logEvents L base n)"
      "su_state s = Closed \<or> n = su_queuedThrough s"
      using inv Flushing idle by (auto simp: delivery_inv_def drawn_def due_def chained_def dueThrough_def split: if_splits)
    have step: "delivery_inv L base ((sendMessage m s)\<lparr>su_phase := Flushing rest\<rparr>)" (is "delivery_inv L base ?u") if "ms = m # rest" for m rest
    proof -
      have "drawn L base ?u" using that n idle by (auto simp: drawn_def due_def chained_def dueThrough_def)
      then show ?thesis using inv Flushing idle by (simp add: delivery_inv_def phased_def heldOk_def)
    qed
    have "delivery_inv L base (syncLoop frames s)" if "ms = []" using syncLoop_inv [OF inv] that Flushing by simp
    then show ?thesis using step endSync_inv [OF inv] idle Flushing by (simp add: settleSync_def split: list.split)
  qed (simp_all add: settleSync_def inv)
qed

lemma settleSnapshot_inv:
  assumes inv: "delivery_inv L base s" shows "delivery_inv L base (settleSnapshot vs ok frames s)"
proof (cases "su_phase s = Snapshotting")
  case True
  let ?u = "s\<lparr>su_wire := su_wire s @ map (\<lambda>(kind, json). ViewerMessage kind json) vs\<rparr>"
  have u: "delivery_inv L base ?u" by (rule same_inv [OF inv]) (simp_all add: sameDelivery_def chained_def)
  have "su_running ?u = None" using inv True by (simp add: delivery_inv_def phased_def)
  then show ?thesis using True syncLoop_inv [OF u] endSync_inv [OF u] by (simp add: settleSnapshot_def Let_def)
next
  case False
  then show ?thesis using inv by (simp add: settleSnapshot_def)
qed

lemma showPerson_inv: "delivery_inv L base s \<Longrightarrow> delivery_inv L base (showPerson s)"
  by (rule same_inv [of L base s]) (simp_all add: sameDelivery_def showPerson_def giveSink_def chained_def)

text \<open>
  What the steps rely on: a publication is of the log, a read of the store is accurate, and what
  \<open>subscribe\<close> replays is the log from where the client stands.
\<close>

definition faithful :: "event_log \<Rightarrow> nat \<Rightarrow> sub_event \<Rightarrow> bool" where
  "faithful L base e =
     (case e of
        Offer event \<Rightarrow> L (he_sequence event) = Some event
      | Enqueue m \<Rightarrow> messageEvents m = []
      | SettleFill from through (Some window) \<Rightarrow> accurate L from through window
      | BeginSync messages cursor \<Rightarrow> base \<le> cursor \<and> eventsOf messages = logEvents L base cursor
      | _ \<Rightarrow> True)"

lemma subStep_inv:
  assumes "isLog L" "faithful L base e" "delivery_inv L base s"
  shows "delivery_inv L base (subStep s e)"
  using assms
  by (cases e) (auto simp: faithful_def offer_inv offerLive_inv enqueueMessage_inv resync_inv closeSubscriber_inv showPerson_inv
    startLink_inv settleLink_inv timerFires_inv beginSync_inv settleSync_inv settleSnapshot_inv intro!: settleFill_inv)

lemma newSubscriber_inv: "delivery_inv L base (newSubscriber options)"
  by (auto simp: newSubscriber_def delivery_inv_def drawn_def due_def chained_def dueThrough_def phased_def heldOk_def)


interpretation delivery: guarded_system subStep "\<lambda>e. isLog L \<and> faithful L base e" "delivery_inv L base" for L base
  by unfold_locales (auto intro: subStep_inv)

text \<open>C1: However publications, sends, timers, store reads and closing interleave, and however the publications
  arrive, what the sink was given of the durable stream is the log from where the client stood to some
  sequence: strictly in order, nothing left out but the place events of a client that does not take them, nothing
  twice. A live subscriber with nothing on its way has given the sink the log up to the sequence it counts
  as queued.
\<close>

theorem delivery_in_order:
  assumes "isLog L" "\<forall>e \<in> set es. faithful L base e" "s = foldl subStep (newSubscriber options) es"
  shows "(\<exists>n \<ge> base. eventsOf (su_wire s) = visible (su_options s) (logEvents L base n)) \<and>
    (su_state s = Live \<and> su_chain s = [] \<and> su_running s = None \<longrightarrow>
       eventsOf (su_wire s) = visible (su_options s) (logEvents L base (su_queuedThrough s)))"
proof
  have inv: "delivery_inv L base s"
    unfolding assms(3) by (rule delivery.run_inv) (use assms newSubscriber_inv in auto)
  then show "\<exists>n \<ge> base. eventsOf (su_wire s) = visible (su_options s) (logEvents L base n)"
    using drawn_start by (simp add: delivery_inv_def)
  show "su_state s = Live \<and> su_chain s = [] \<and> su_running s = None \<longrightarrow>
       eventsOf (su_wire s) = visible (su_options s) (logEvents L base (su_queuedThrough s))"
  proof
    assume quiet: "su_state s = Live \<and> su_chain s = [] \<and> su_running s = None"
    then have "su_phase s = Over" using inv by (simp add: delivery_inv_def phased_def)
    then show "eventsOf (su_wire s) = visible (su_options s) (logEvents L base (su_queuedThrough s))"
      using inv quiet by (auto simp: delivery_inv_def drawn_def due_def chained_def dueThrough_def)
  qed
qed

section \<open>A publication that overtakes another\<close>

definition event_ex :: "nat \<Rightarrow> hub_event" where
  "event_ex q = \<lparr>he_sequence = q, he_type = ''run.started'', he_workspaceId = ''w'', he_threadId = ''t'', he_listed = True, he_json = [1]\<rparr>"

definition log_ex :: event_log where
  "log_ex q = (if q = 1 \<or> q = 2 then Some (event_ex q) else None)"

definition subscriber_ex :: subscriber_options where
  "subscriber_ex = \<lparr>so_personShow = False, so_placeEvents = False, so_cursor = 0, so_maxBufferedBytes = 100,
     so_maxBufferedEvents = 10, so_maxLiveBytes = 100, so_maxWireBytes = 100\<rparr>"

text \<open>The second event is published before the first, which a read of the store brings.\<close>

definition overtaken_ex :: "sub_event list" where
  "overtaken_ex = [BeginSync [] 0, SettleSnapshot [] True [], SettleLink True, Offer (event_ex 2), TimerFires,
     SettleFill 0 1 (Some \<lparr>fw_events = [event_ex 1], fw_hasMore = False, fw_scannedThrough = 1\<rparr>),
     StartLink, SettleLink True, StartLink, SettleLink True]"

lemma log_ex_log: "isLog log_ex"
  by (simp add: isLog_def log_ex_def event_ex_def)

lemma overtaken_ex_faithful: "list_all (faithful log_ex 0) overtaken_ex"
  by code_simp

theorem delivery_in_order_witness:
  "\<exists>n. eventsOf (su_wire (foldl subStep (newSubscriber subscriber_ex) overtaken_ex)) = visible subscriber_ex (logEvents log_ex 0 n) \<and>
     eventsOf (su_wire (foldl subStep (newSubscriber subscriber_ex) overtaken_ex)) = [event_ex 1, event_ex 2]"
proof -
  have "eventsOf (su_wire (foldl subStep (newSubscriber subscriber_ex) overtaken_ex)) = [event_ex 1, event_ex 2]"
    "su_options (foldl subStep (newSubscriber subscriber_ex) overtaken_ex) = subscriber_ex" by code_simp+
  moreover have "\<forall>e \<in> set overtaken_ex. faithful log_ex 0 e" using overtaken_ex_faithful by (simp add: list_all_iff)
  ultimately show ?thesis using delivery_in_order [OF log_ex_log _ refl, of overtaken_ex 0 subscriber_ex] by auto
qed

end
