(* ===== verification/Realtime_Watch.thy ===== *)
theory Realtime_Watch
  imports Realtime_Delivery
begin

text \<open>
  Nothing published is forgotten by a subscriber: it is queued, or held with a timer or a store read that will
  fill the hole before it, or waits for the subscriber to go live.
\<close>

section \<open>Where a published event is\<close>

definition covered :: "nat \<Rightarrow> subscriber \<Rightarrow> bool" where
  "covered q s \<longleftrightarrow> su_state s = Closed \<or> q \<le> su_queuedThrough s \<or> q \<in> fst ` set (su_pending s) \<or>
     q \<in> he_sequence ` set (su_syncBuffer s)"

definition watched :: "subscriber \<Rightarrow> bool" where
  "watched s \<longleftrightarrow> (su_state s = Live \<longrightarrow> su_syncBuffer s = [] \<and> (su_pending s \<noteq> [] \<longrightarrow> su_gapTimer s \<or> su_filling s \<noteq> None))"

text \<open>Before the replay is over the subscriber stands below where the replay ends.\<close>

definition begins :: "nat \<Rightarrow> subscriber \<Rightarrow> bool" where
  "begins base s \<longleftrightarrow>
     (case su_phase s of NotBegun \<Rightarrow> su_queuedThrough s \<le> base | Replaying ms c \<Rightarrow> su_queuedThrough s \<le> c | _ \<Rightarrow> True) \<and>
     (su_state s = Live \<longrightarrow> su_phase s = Over)"

definition watch_inv :: "nat \<Rightarrow> subscriber \<Rightarrow> bool" where
  "watch_inv base s \<longleftrightarrow> watched s \<and> begins base s"

text \<open>What a step leaves alone, and what it may do to it.\<close>

definition untouched :: "subscriber \<Rightarrow> subscriber \<Rightarrow> bool" where
  "untouched s s' \<longleftrightarrow>
     su_syncBuffer s' = su_syncBuffer s \<and> su_pending s' = su_pending s \<and> su_queuedThrough s' = su_queuedThrough s \<and>
     (su_state s' = Closed \<or>
      su_state s' = su_state s \<and> su_gapTimer s' = su_gapTimer s \<and> su_filling s' = su_filling s) \<and>
     su_phase s' = su_phase s"

definition keepsCovered :: "subscriber \<Rightarrow> subscriber \<Rightarrow> bool" where
  "keepsCovered s s' \<longleftrightarrow> (\<forall>q. covered q s \<longrightarrow> covered q s')"

lemma untouched_trans: "untouched s t \<Longrightarrow> untouched t u \<Longrightarrow> untouched s u"
  by (auto simp: untouched_def)

lemma untouched_refl [simp]: "untouched s s"
  by (simp add: untouched_def)

lemma untouched_covered: "untouched s s' \<Longrightarrow> keepsCovered s s'"
  by (auto simp: untouched_def keepsCovered_def covered_def)

lemma untouched_inv: "watch_inv base s \<Longrightarrow> untouched s s' \<Longrightarrow> watch_inv base s'"
  by (auto simp: untouched_def watch_inv_def watched_def begins_def split: sync_phase.splits)

lemma keepsCovered_trans: "keepsCovered s t \<Longrightarrow> keepsCovered t u \<Longrightarrow> keepsCovered s u"
  by (auto simp: keepsCovered_def)

lemma keepsCovered_refl [simp]: "keepsCovered s s"
  by (simp add: keepsCovered_def)

lemma closed_covers: "su_state s' = Closed \<Longrightarrow> keepsCovered s s'"
  by (simp add: keepsCovered_def covered_def)

lemma closed_watch: "su_state s' = Closed \<Longrightarrow> begins base s' \<Longrightarrow> watch_inv base s'"
  by (simp add: watch_inv_def watched_def)

section \<open>Operations that touch nothing\<close>

lemma sendMessage_untouched: "untouched s (sendMessage m s)"
  by (simp add: untouched_def)

lemma resync_untouched: "untouched s (resync r s)"
  by (simp add: untouched_def)

lemma sendLive_untouched: "untouched s (sendLive f r s)"
  by (simp add: untouched_def sendLive_def chainLink_def)

lemma holdLive_untouched: "untouched s (holdLive f r s)"
  by (simp add: untouched_def holdLive_def)

lemma offerLiveFrame_untouched: "untouched s (offerLiveFrame f r s)"
  by (simp add: offerLiveFrame_def sendLive_untouched holdLive_untouched)

lemma foldl_untouched: "(\<And>t x. untouched t (g t x)) \<Longrightarrow> untouched s (foldl g s xs)"
  by (induction xs arbitrary: s) (auto intro: untouched_trans)

lemma releaseLive_untouched: "untouched s (releaseLive s)"
proof -
  have "untouched s (s\<lparr>su_pendingLive := [], su_pendingLiveBytes := 0\<rparr>)" by (simp add: untouched_def)
  then show ?thesis unfolding releaseLive_def
    by (rule untouched_trans) (auto intro!: foldl_untouched simp: sendLive_untouched holdLive_untouched)
qed

lemma sendEvents_untouched: "untouched s (sendEvents events s)"
  by (simp add: untouched_def sendEvents_def chainLink_def Let_def)

lemma sendNext_untouched: "untouched s (sendNext l ms s)"
  by (cases ms) (simp_all add: sendNext_def untouched_def)

lemma chain_untouched: "untouched s (s\<lparr>su_chain := c\<rparr>)" "untouched s (s\<lparr>su_running := r\<rparr>)"
  "untouched s (s\<lparr>su_running := r, su_chain := c\<rparr>)"
  by (simp_all add: untouched_def)

lemma releaseLink_untouched: "untouched s (releaseLink l s)"
  by (simp add: untouched_def)

lemma failDelivery_untouched: "untouched s (failDelivery s)"
  by (simp add: untouched_def)

lemma closeSubscriber_untouched: "untouched s (closeSubscriber s)"
  by (simp add: untouched_def)

lemma failLink_untouched: "untouched s (releaseLink l (failDelivery (s\<lparr>su_chain := c\<rparr>)))"
  "untouched s (releaseLink l (failDelivery (s\<lparr>su_running := r\<rparr>)))"
  "untouched s (releaseLink l (failDelivery (s\<lparr>su_running := r, su_chain := c\<rparr>)))"
  by (simp_all add: untouched_def)

lemmas untouched_parts = failLink_untouched chain_untouched releaseLink_untouched failDelivery_untouched closeSubscriber_untouched sendNext_untouched

lemma startLink_untouched: "untouched s (startLink s)"
  unfolding startLink_def Let_def
  by (auto split: list.split send_link.split option.split intro: untouched_parts untouched_trans)

lemma settleLink_untouched: "untouched s (settleLink ok s)"
  unfolding settleLink_def
  by (auto split: list.split option.split prod.split intro: untouched_parts untouched_trans)

lemma enqueueMessage_untouched: "untouched s (enqueueMessage m s)"
  unfolding enqueueMessage_def
  by (auto split: subscriber_state.split hub_message.split intro: resync_untouched simp: untouched_def chainLink_def)

lemma showPerson_untouched: "untouched s (showPerson s)"
  by (simp add: showPerson_def giveSink_def untouched_def)


section \<open>Operations on what is held\<close>

lemma contiguous_reaches: "contiguousFrom t pending = (batch, reached, rest) \<Longrightarrow> t \<le> reached"
proof (induction t pending arbitrary: batch reached rest rule: contiguousFrom.induct)
  case (1 t pending)
  then show ?case
    by (subst (asm) (2) contiguousFrom.simps) (fastforce split: option.splits prod.splits)
qed

lemma contiguous_keys:
  "contiguousFrom t pending = (batch, reached, rest) \<Longrightarrow> q \<in> fst ` set pending \<Longrightarrow> q \<le> reached \<or> q \<in> fst ` set rest"
proof (induction t pending arbitrary: batch reached rest rule: contiguousFrom.induct)
  case (1 t pending)
  show ?case
  proof (cases "jget pending (Suc t)")
    case None
    then show ?thesis using 1 by (subst (asm) (2) contiguousFrom.simps) simp
  next
    case (Some e)
    obtain b r p where c: "contiguousFrom (Suc t) (jdel (Suc t) pending) = (b, r, p)" by (metis prod_cases3)
    then have out: "reached = r" "rest = p" using 1(2) Some by (simp_all add: contiguousFrom.simps [of t pending])
    have "Suc t \<le> r" using c by (rule contiguous_reaches)
    moreover have "q \<in> fst ` set (jdel (Suc t) pending)" if "q \<noteq> Suc t" using 1(3) that by (force simp: AList.delete_eq)
    ultimately show ?thesis using "1.IH" [OF Some c] out by blast
  qed
qed

lemma takeContiguous_covers:
  assumes "takeContiguous s = (batch, s')" shows "keepsCovered s s' \<and> su_queuedThrough s \<le> su_queuedThrough s'"
proof -
  obtain reached rest where c: "contiguousFrom (su_queuedThrough s) (su_pending s) = (batch, reached, rest)"
    "s' = s\<lparr>su_pending := rest, su_queuedThrough := reached, su_pendingBytes := su_pendingBytes s - sum_list (map eventBytes batch)\<rparr>"
    using assms by (auto simp: takeContiguous_def split: prod.splits)
  then show ?thesis using contiguous_reaches [OF c(1)] contiguous_keys [OF c(1)]
    by (auto simp: keepsCovered_def covered_def)
qed

lemma drain_covers: "keepsCovered s (drain s)"
proof (cases "su_state s = Live")
  case True
  obtain batch s1 where t: "takeContiguous s = (batch, s1)" by fastforce
  have "untouched s1 (releaseLive (if batch = [] then s1 else sendEvents batch s1))"
    by (auto intro: releaseLive_untouched untouched_trans [OF sendEvents_untouched releaseLive_untouched])
  then have "keepsCovered s1 (releaseLive (if batch = [] then s1 else sendEvents batch s1))" by (rule untouched_covered)
  moreover have "keepsCovered t (scheduleGapFill t)" for t by (simp add: scheduleGapFill_def keepsCovered_def covered_def)
  ultimately show ?thesis using True t takeContiguous_covers [OF t] keepsCovered_trans by (auto simp: drain_def)
qed (simp add: drain_def)

text \<open>Draining always leaves a timer or a read behind what is still held.\<close>

lemma drain_watches:
  assumes "su_state s = Live \<Longrightarrow> su_syncBuffer s = []" "begins base s" shows "watch_inv base (drain s)"
proof (cases "su_state s = Live")
  case True
  obtain batch s1 where t: "takeContiguous s = (batch, s1)" by fastforce
  note k = takeContiguous_keeps [OF t]
  define u where "u = releaseLive (if batch = [] then s1 else sendEvents batch s1)"
  have u: "untouched s1 u" unfolding u_def
    by (auto intro: releaseLive_untouched untouched_trans [OF sendEvents_untouched releaseLive_untouched])
  have "su_phase u = Over" "su_syncBuffer u = []" using u k True assms by (simp_all add: untouched_def begins_def)
  then have "watch_inv base (scheduleGapFill u)" by (simp add: watch_inv_def watched_def begins_def scheduleGapFill_def)
  then show ?thesis using True t by (simp add: drain_def u_def)
next
  case False
  then show ?thesis using assms by (simp add: drain_def watch_inv_def watched_def)
qed

lemma hold_covers:
  assumes "hold e s = (s', held)"
  shows "keepsCovered s s' \<and> covered (he_sequence e) s' \<and> su_queuedThrough s' = su_queuedThrough s \<and>
    su_phase s' = su_phase s \<and> su_syncBuffer s' = su_syncBuffer s \<and> su_state s' = (if held then su_state s else Closed)"
proof -
  have keys: "fst ` set (jset k v m) = insert k (fst ` set m)" for k and v :: hub_event and m
    using dom_update [of k v m] by (simp add: dom_map_of_conv_image_fst)
  have "su_state s' = Closed \<or> fst ` set (su_pending s') = insert (he_sequence e) (fst ` set (su_pending s))"
  proof (cases "jget (su_pending s) (he_sequence e) = None")
    case True
    then have "su_state s' = Closed \<or> su_pending s' = jset (he_sequence e) e (su_pending s)"
      using assms by (auto simp: hold_def split: if_splits)
    then show ?thesis using keys by metis
  next
    case False
    then have "s' = s" using assms by (simp add: hold_def)
    moreover have "he_sequence e \<in> fst ` set (su_pending s)" using False by (simp add: map_of_eq_None_iff)
    ultimately show ?thesis by (metis insert_absorb)
  qed
  moreover have same: "su_queuedThrough s' = su_queuedThrough s \<and> su_phase s' = su_phase s \<and> su_syncBuffer s' = su_syncBuffer s \<and>
    su_state s' = (if held then su_state s else Closed)"
    using assms by (auto simp: hold_def split: if_splits)
  ultimately have "keepsCovered s s'" "covered (he_sequence e) s'"
    unfolding keepsCovered_def covered_def by (metis insertCI)+
  with same show ?thesis by blast
qed

lemma finishFill_covers: "keepsCovered s (finishFill s)"
proof -
  have "keepsCovered s ((discardDelivered s)\<lparr>su_filling := None\<rparr>)"
    by (force simp: keepsCovered_def covered_def discardDelivered_def Let_def)
  then show ?thesis unfolding finishFill_def using drain_covers keepsCovered_trans by blast
qed

lemma finishFill_watches:
  "su_state s = Live \<longrightarrow> su_syncBuffer s = [] \<Longrightarrow> begins base s \<Longrightarrow> watch_inv base (finishFill s)"
  unfolding finishFill_def by (rule drain_watches) (simp_all add: discardDelivered_def Let_def begins_def split: sync_phase.splits)

lemma settleFill_shape:
  assumes "su_filling s = Some (from, through)"
    and fresh: "fresh = filter (\<lambda>e. he_sequence e > su_queuedThrough s \<and> he_sequence e \<le> through) (fw_events window)"
    and s1: "s1 = (if fresh = [] then s else (sendEvents fresh s)\<lparr>su_queuedThrough := he_sequence (last fresh)\<rparr>)"
  shows "settleFill from through (Some window) s =
    (if \<not> fw_hasMore window then finishFill (s1\<lparr>su_queuedThrough := max through (su_queuedThrough s1)\<rparr>)
     else let s2 = s1\<lparr>su_queuedThrough := max (fw_scannedThrough window) (su_queuedThrough s1)\<rparr>
          in if su_queuedThrough s2 \<le> from then (resync CursorExpired s2)\<lparr>su_filling := None\<rparr>
             else if su_state s2 = Live \<and> su_queuedThrough s2 < through
             then s2\<lparr>su_filling := Some (su_queuedThrough s2, through)\<rparr> else finishFill s2)"
  unfolding settleFill_def s1 fresh Let_def by (simp only: assms(1) option.case not_True_eq_False if_False simp_thms)

lemma settleFill_covers: "keepsCovered s (settleFill from through answer s)"
proof (cases "su_filling s = Some (from, through) \<and> answer \<noteq> None")
  case True
  then obtain window where w: "answer = Some window" "su_filling s = Some (from, through)" by blast
  define fresh where "fresh = filter (\<lambda>e. he_sequence e > su_queuedThrough s \<and> he_sequence e \<le> through) (fw_events window)"
  define s1 where "s1 = (if fresh = [] then s else (sendEvents fresh s)\<lparr>su_queuedThrough := he_sequence (last fresh)\<rparr>)"
  have "su_queuedThrough s \<le> su_queuedThrough s1"
  proof (cases "fresh = []")
    case False
    then have "last fresh \<in> set fresh" by simp
    then have "su_queuedThrough s < he_sequence (last fresh)" unfolding fresh_def by simp
    then show ?thesis using False by (simp add: s1_def)
  qed (simp add: s1_def)
  moreover have "su_pending s1 = su_pending s" "su_syncBuffer s1 = su_syncBuffer s" "su_state s1 = Closed \<or> su_state s1 = su_state s"
    using sendEvents_untouched [of s fresh] by (auto simp: s1_def untouched_def)
  ultimately have covers: "keepsCovered s (s1\<lparr>su_queuedThrough := max m (su_queuedThrough s1)\<rparr>)" for m
    by (auto simp: keepsCovered_def covered_def)
  note shape = settleFill_shape [OF w(2) fresh_def s1_def]
  let ?t = "\<lambda>m. s1\<lparr>su_queuedThrough := max m (su_queuedThrough s1)\<rparr>"
  have "keepsCovered t (t\<lparr>su_filling := x\<rparr>)" for t x by (simp add: keepsCovered_def covered_def)
  then have a: "keepsCovered s ((?t m)\<lparr>su_filling := x\<rparr>)" for m x using covers keepsCovered_trans by blast
  have b: "keepsCovered s ((resync CursorExpired (?t m))\<lparr>su_filling := None\<rparr>)" for m by (rule closed_covers) simp
  have c: "keepsCovered s (finishFill (?t m))" for m using covers finishFill_covers keepsCovered_trans by blast
  show ?thesis unfolding w(1) shape Let_def by (simp only: a b c simp_thms split: if_split)
next
  case False
  then have "settleFill from through answer s = s \<or> settleFill from through answer s = (resync CursorExpired s)\<lparr>su_filling := None\<rparr>"
    by (cases answer) (simp_all add: settleFill_def)
  then show ?thesis using closed_covers [of "(resync CursorExpired s)\<lparr>su_filling := None\<rparr>" s] by auto
qed

lemma settleFill_watches:
  assumes inv: "watch_inv base s" and over: "su_filling s \<noteq> None \<longrightarrow> su_phase s = Over"
  shows "watch_inv base (settleFill from through answer s)"
proof (cases "su_filling s = Some (from, through)")
  case True
  then have phase: "su_phase s = Over" using over by simp
  show ?thesis
  proof (cases answer)
    case None
    then show ?thesis using True phase by (simp add: settleFill_def closed_watch begins_def)
  next
    case (Some window)
    define fresh where "fresh = filter (\<lambda>e. he_sequence e > su_queuedThrough s \<and> he_sequence e \<le> through) (fw_events window)"
    define s1 where "s1 = (if fresh = [] then s else (sendEvents fresh s)\<lparr>su_queuedThrough := he_sequence (last fresh)\<rparr>)"
    have s1: "su_phase s1 = Over" "su_state s1 = Live \<longrightarrow> su_syncBuffer s1 = []"
      using phase inv sendEvents_untouched [of s fresh] by (auto simp: s1_def untouched_def watch_inv_def watched_def)
    have fin: "watch_inv base (finishFill (s1\<lparr>su_queuedThrough := m\<rparr>))" for m
      by (rule finishFill_watches) (use s1 in \<open>simp_all add: begins_def\<close>)
    have more: "watch_inv base ((resync CursorExpired (s1\<lparr>su_queuedThrough := m\<rparr>))\<lparr>su_filling := None\<rparr>)"
      "watch_inv base (s1\<lparr>su_queuedThrough := m, su_filling := Some x\<rparr>)" for m x
      using s1 by (simp_all add: watch_inv_def watched_def begins_def)
    show ?thesis unfolding Some settleFill_shape [OF True fresh_def s1_def] Let_def using fin more by simp
  qed
next
  case False
  then show ?thesis using inv by (simp add: settleFill_def)
qed


section \<open>Synchronizing\<close>

lemma holdBuffered_covers:
  "holdBuffered es s = (s', held) \<Longrightarrow>
   keepsCovered s s' \<and> (\<forall>e \<in> set es. covered (he_sequence e) s') \<and> su_phase s' = su_phase s \<and>
   su_syncBuffer s' = su_syncBuffer s \<and> su_state s' = (if held then su_state s else Closed)"
proof (induction es s rule: holdBuffered.induct)
  case (2 e es s)
  show ?case
  proof (cases "he_sequence e > su_queuedThrough s")
    case True
    obtain s1 h where h: "hold e s = (s1, h)" by fastforce
    note k = hold_covers [OF h]
    show ?thesis
    proof (cases h)
      case hTrue: True
      have b: "holdBuffered es s1 = (s', held)" using "2.prems" True h hTrue by simp
      note ih = "2.IH"(1) [OF True h [symmetric] hTrue b]
      have "covered (he_sequence e) s'" using k ih unfolding keepsCovered_def by blast
      moreover have "keepsCovered s s'" using k ih keepsCovered_trans by blast
      ultimately show ?thesis using k ih hTrue by simp
    next
      case False
      then have "s' = s1" "held = False" using "2.prems" True h by simp_all
      then show ?thesis using k False by (simp add: covered_def)
    qed
  next
    case False
    then have b: "holdBuffered es s = (s', held)" using "2.prems" by simp
    have "covered (he_sequence e) s" using False by (simp add: covered_def)
    then show ?thesis using "2.IH"(2) [OF False b] by (simp add: keepsCovered_def)
  qed
qed (simp add: keepsCovered_def)

lemma flushSync_covers: "keepsCovered s (flushSync ms s)" "su_state (flushSync ms s) = su_state s"
  "ms \<noteq> [] \<Longrightarrow> \<exists>rest. su_phase (flushSync ms s) = Flushing rest"
  by (cases ms; simp add: flushSync_def keepsCovered_def covered_def)+

lemma goLive_covers:
  assumes "su_syncBuffer s = []" "su_state s = Synchronizing"
  shows "keepsCovered s (goLive frames s) \<and> watch_inv base (goLive frames s)"
proof -
  define u where "u = (sendMessage (SynchronizedMessage (su_queuedThrough s)) s)
    \<lparr>su_running := Some (SynchronizedLink, []), su_state := Live, su_phase := Over\<rparr>"
  define v where "v = foldl (\<lambda>s f. offerLiveFrame f True s) u frames"
  have u: "keepsCovered s u" "su_phase u = Over" "su_syncBuffer u = []" using assms by (simp_all add: u_def keepsCovered_def covered_def)
  have v: "untouched u v" unfolding v_def by (intro foldl_untouched offerLiveFrame_untouched)
  then have "keepsCovered s v" using u untouched_covered keepsCovered_trans by blast
  then have "keepsCovered s (drain v)" using drain_covers keepsCovered_trans by blast
  moreover have "watch_inv base (drain v)"
    by (rule drain_watches) (use u v in \<open>auto simp: untouched_def begins_def\<close>)
  ultimately show ?thesis by (simp add: goLive_def Let_def u_def v_def)
qed

text \<open>What the loop of \<open>synchronize\<close> does with the events it took.\<close>

definition syncTail :: "hub_frame list \<Rightarrow> hub_event list \<Rightarrow> subscriber \<Rightarrow> subscriber" where
  "syncTail frames batch s2 =
     (if batch \<noteq> [] then
        (case boundedEventBatches (so_maxWireBytes (su_options s2)) batch of
           None \<Rightarrow> endSync s2
         | Some batches \<Rightarrow> flushSync (map EventsMessage batches) s2)
      else case takeNotice (su_syncNotices s2) of (notices, rest) \<Rightarrow>
        (let s3 = s2\<lparr>su_syncNotices := rest\<rparr>
         in if notices \<noteq> [] then flushSync (map NoticeMessage notices) s3
            else case su_syncViewerMessages s3 of
              v # vs \<Rightarrow>
                flushSync [ViewerMessage (fst v) (snd v)] (s3\<lparr>su_syncViewerMessages := vs,
                  su_viewerBufferedBytes := su_viewerBufferedBytes s3 - viewerBytes v\<rparr>)
            | [] \<Rightarrow> goLive frames s3))"

lemma syncLoop_tail:
  "syncLoop frames s =
     (if su_state s \<noteq> Synchronizing then s\<lparr>su_phase := Over\<rparr>
      else case holdBuffered (su_syncBuffer s) (s\<lparr>su_syncBuffer := []\<rparr>) of (s1, held) \<Rightarrow>
        if \<not> held then s1\<lparr>su_phase := Over\<rparr>
        else case takeContiguous (s1\<lparr>su_syncBufferedBytes := 0\<rparr>) of (batch, s2) \<Rightarrow> syncTail frames batch s2)"
  unfolding syncLoop_def syncTail_def ..

definition settled :: "nat \<Rightarrow> subscriber \<Rightarrow> subscriber \<Rightarrow> bool" where
  "settled base s s' \<longleftrightarrow> keepsCovered s s' \<and> watch_inv base s'"

lemma settled_after: "keepsCovered s t \<Longrightarrow> settled base t u \<Longrightarrow> settled base s u"
  unfolding settled_def using keepsCovered_trans by blast

lemma flushSync_settles:
  assumes "ms \<noteq> []" "su_state s = Synchronizing"
  shows "settled base s (flushSync ms s)"
proof -
  obtain rest where "su_phase (flushSync ms s) = Flushing rest" using flushSync_covers(3) [OF assms(1)] by blast
  moreover have "su_state (flushSync ms s) = Synchronizing" by (simp add: flushSync_covers(2) assms(2))
  ultimately show ?thesis by (simp add: settled_def flushSync_covers(1) watch_inv_def watched_def begins_def)
qed

lemma sideways_covers:
  "keepsCovered s (s\<lparr>su_syncNotices := ns\<rparr>)"
  "keepsCovered s (s\<lparr>su_syncViewerMessages := vs, su_viewerBufferedBytes := b\<rparr>)"
  "keepsCovered s (s\<lparr>su_syncBufferedBytes := b\<rparr>)" "keepsCovered s (s\<lparr>su_phase := p\<rparr>)"
  by (simp_all add: keepsCovered_def covered_def)

lemma syncTail_settles:
  assumes state: "su_state s = Synchronizing" and empty: "su_syncBuffer s = []"
  shows "settled base s (syncTail frames batch s)"
proof (cases "batch = []")
  case False
  have "settled base s (endSync s)"
    by (simp add: settled_def closed_covers endSync_def watch_inv_def watched_def begins_def)
  moreover have "settled base s (flushSync (map EventsMessage bs) s)" if "boundedEventBatches m batch = Some bs" for bs m
    by (rule flushSync_settles) (use that False batches_Nil state in auto)
  ultimately show ?thesis using False by (simp add: syncTail_def split: option.split)
next
  case True
  obtain notices rest where n: "takeNotice (su_syncNotices s) = (notices, rest)" by fastforce
  let ?t = "s\<lparr>su_syncNotices := rest\<rparr>"
  have state3: "su_state ?t = Synchronizing" "su_syncBuffer ?t = []" using state empty by simp_all
  have "settled base ?t (flushSync (map NoticeMessage notices) ?t)" if "notices \<noteq> []"
    by (rule flushSync_settles) (use that state in simp_all)
  moreover have "settled base ?t (flushSync [ViewerMessage k j] (?t\<lparr>su_syncViewerMessages := vs, su_viewerBufferedBytes := b\<rparr>))" for k j vs b
    by (rule settled_after [OF sideways_covers(2) flushSync_settles]) (use state in simp_all)
  moreover have "settled base ?t (goLive frames ?t)"
    using goLive_covers [OF state3(2,1)] by (simp add: settled_def)
  ultimately have "settled base ?t (syncTail frames batch s)"
    using True n by (simp add: syncTail_def Let_def split: list.split)
  then show ?thesis by (rule settled_after [OF sideways_covers(1)])
qed

lemma syncLoop_settles:
  assumes "watch_inv base s" shows "settled base s (syncLoop frames s)"
proof (cases "su_state s = Synchronizing")
  case True
  let ?s0 = "s\<lparr>su_syncBuffer := []\<rparr>"
  obtain s1 held where h: "holdBuffered (su_syncBuffer s) ?s0 = (s1, held)" by fastforce
  note k = holdBuffered_covers [OF h]
  have c1: "keepsCovered s s1" unfolding keepsCovered_def
  proof (intro allI impI)
    fix q assume "covered q s"
    then have "covered q ?s0 \<or> q \<in> he_sequence ` set (su_syncBuffer s)" by (auto simp: covered_def)
    then show "covered q s1" using k unfolding keepsCovered_def by blast
  qed
  show ?thesis
  proof (cases held)
    case False
    have "watch_inv base (s1\<lparr>su_phase := Over\<rparr>)" using k False by (simp add: watch_inv_def watched_def begins_def)
    then have "settled base s1 (s1\<lparr>su_phase := Over\<rparr>)" by (simp add: settled_def sideways_covers)
    from settled_after [OF c1 this] show ?thesis using True h False by (simp add: syncLoop_tail)
  next
    case hTrue: True
    obtain batch s2 where t: "takeContiguous (s1\<lparr>su_syncBufferedBytes := 0\<rparr>) = (batch, s2)" by fastforce
    note k2 = takeContiguous_keeps [OF t]
    have "su_state s2 = Synchronizing" "su_syncBuffer s2 = []" using k k2 hTrue True by simp_all
    then have "settled base s2 (syncTail frames batch s2)" by (rule syncTail_settles)
    then have "settled base (s1\<lparr>su_syncBufferedBytes := 0\<rparr>) (syncTail frames batch s2)"
      by (rule settled_after [OF conjunct1 [OF takeContiguous_covers [OF t]]])
    from settled_after [OF c1 settled_after [OF sideways_covers(3) this]]
    show ?thesis using True h hTrue t by (simp add: syncLoop_tail)
  qed
next
  case False
  have "watch_inv base (s\<lparr>su_phase := Over\<rparr>)" using assms by (simp add: watch_inv_def watched_def begins_def)
  then show ?thesis using False by (simp add: syncLoop_tail settled_def sideways_covers)
qed


section \<open>Every step\<close>

lemma untouched_settled: "watch_inv base s \<Longrightarrow> untouched s s' \<Longrightarrow> settled base s s'"
  by (simp add: settled_def untouched_covered untouched_inv)

lemma begins_same:
  "begins base s \<Longrightarrow> su_phase s' = su_phase s \<Longrightarrow> su_queuedThrough s' = su_queuedThrough s \<Longrightarrow> su_state s' = su_state s \<Longrightarrow>
   begins base s'"
  by (simp add: begins_def split: sync_phase.splits)

lemma watch_live: "watch_inv base s \<Longrightarrow> su_state s = Live \<Longrightarrow> su_syncBuffer s = []"
  by (simp add: watch_inv_def watched_def)

lemma watch_begins: "watch_inv base s \<Longrightarrow> begins base s"
  by (simp add: watch_inv_def)

lemma offer_settles:
  assumes inv: "watch_inv base s" shows "settled base s (offer e s) \<and> covered (he_sequence e) (offer e s)"
proof (cases "su_state s = Closed \<or> he_sequence e \<le> su_queuedThrough s")
  case True
  then show ?thesis using inv by (auto simp: offer_def settled_def covered_def)
next
  case opened: False
  show ?thesis
  proof (cases "su_state s = Synchronizing")
    case True
    let ?t = "s\<lparr>su_syncBuffer := su_syncBuffer s @ [e], su_syncBufferedBytes := su_syncBufferedBytes s + eventBytes e\<rparr>"
    have "settled base s (resync BufferOverflow s)" using untouched_settled [OF inv resync_untouched] .
    moreover have "covered (he_sequence e) (resync BufferOverflow s)" by (simp add: covered_def)
    moreover have "settled base s ?t \<and> covered (he_sequence e) ?t"
      using True begins_same [OF watch_begins [OF inv], of ?t] by (auto simp: settled_def keepsCovered_def covered_def watch_inv_def watched_def)
    ultimately show ?thesis using opened True by (simp add: offer_def)
  next
    case False
    then have live: "su_state s = Live" using opened by (cases "su_state s") auto
    obtain s1 held where h: "hold e s = (s1, held)" by fastforce
    note k = hold_covers [OF h]
    have begun: "begins base s1" using k inv by (auto simp: watch_inv_def begins_def split: sync_phase.splits)
    show ?thesis
    proof (cases held)
      case True
      have "watch_inv base (drain s1)" by (rule drain_watches [OF _ begun]) (use k live watch_live [OF inv] in simp)
      then have "settled base s1 (drain s1)" by (simp add: settled_def drain_covers)
      moreover have "covered (he_sequence e) (drain s1)" using k drain_covers unfolding keepsCovered_def by blast
      ultimately show ?thesis using opened live h True settled_after k by (auto simp: offer_def)
    next
      case False
      then have "settled base s s1" using k begun by (simp add: settled_def closed_watch)
      then show ?thesis using opened live h False k by (simp add: offer_def)
    qed
  qed
qed

lemma finishFill_settles:
  "su_state s = Live \<longrightarrow> su_syncBuffer s = [] \<Longrightarrow> begins base s \<Longrightarrow> settled base s (finishFill s)"
  by (simp add: settled_def finishFill_covers finishFill_watches)

lemma timerFires_settles:
  assumes inv: "watch_inv base s" shows "settled base s (timerFires s)"
proof -
  let ?t = "s\<lparr>su_gapTimer := False\<rparr>"
  have covers: "keepsCovered s ?t" "keepsCovered ?t (?t\<lparr>su_filling := x\<rparr>)" for x
    by (simp_all add: keepsCovered_def covered_def)
  have "settled base ?t (fillGap ?t)"
  proof (cases "su_state s = Live \<and> su_pending s \<noteq> []")
    case True
    have "begins base ?t" using watch_begins [OF inv] by (simp add: begins_def cong: sync_phase.case_cong)
    then have "settled base ?t (finishFill ?t)" by (intro finishFill_settles) (use watch_live [OF inv] in simp)
    moreover have "settled base ?t (?t\<lparr>su_filling := Some x\<rparr>)" for x
      using covers(2) watch_live [OF inv] begins_same [OF watch_begins [OF inv], of "?t\<lparr>su_filling := Some x\<rparr>"]
      by (simp add: settled_def watch_inv_def watched_def)
    ultimately show ?thesis using True by (simp add: fillGap_def Let_def)
  next
    case False
    moreover have "begins base ?t" by (rule begins_same [OF watch_begins [OF inv]]) simp_all
    ultimately have "watch_inv base ?t" using inv by (auto simp: watch_inv_def watched_def)
    then show ?thesis using False by (auto simp: fillGap_def settled_def)
  qed
  from settled_after [OF covers(1) this] show ?thesis using inv by (simp add: timerFires_def settled_def)
qed

lemma beginSync_settles:
  assumes inv: "watch_inv base s" and c: "base \<le> cursor" shows "settled base s (beginSync ms cursor s)"
proof (cases "su_phase s = NotBegun")
  case True
  then have state: "su_state s \<noteq> Live" "su_queuedThrough s \<le> cursor" using inv c by (auto simp: watch_inv_def begins_def)
  have "settled base s (s\<lparr>su_queuedThrough := cursor, su_phase := Snapshotting\<rparr>)"
    using state by (auto simp: settled_def keepsCovered_def covered_def watch_inv_def watched_def begins_def)
  moreover have "settled base s ((sendMessage m s)\<lparr>su_phase := Replaying rest cursor\<rparr>)" for m rest
    using state by (auto simp: settled_def keepsCovered_def covered_def watch_inv_def watched_def begins_def)
  ultimately show ?thesis using True by (simp add: beginSync_def split: list.split)
next
  case False
  then show ?thesis using inv by (simp add: beginSync_def settled_def)
qed

lemma endSync_settles: "settled base s (endSync s)"
  by (simp add: settled_def closed_covers endSync_def watch_inv_def watched_def begins_def)

lemma settleSync_settles:
  assumes inv: "watch_inv base s" shows "settled base s (settleSync ok frames s)"
proof (cases "su_phase s")
  case (Replaying ms cursor)
  then have state: "su_state s \<noteq> Live" "su_queuedThrough s \<le> cursor" using inv by (auto simp: watch_inv_def begins_def)
  have "settled base s (s\<lparr>su_queuedThrough := cursor, su_phase := Snapshotting\<rparr>)"
    using state by (auto simp: settled_def keepsCovered_def covered_def watch_inv_def watched_def begins_def)
  moreover have "settled base s ((sendMessage m s)\<lparr>su_phase := Replaying rest cursor\<rparr>)" for m rest
    using state by (auto simp: settled_def keepsCovered_def covered_def watch_inv_def watched_def begins_def)
  ultimately show ?thesis using Replaying endSync_settles by (simp add: settleSync_def split: list.split)
next
  case (Flushing ms)
  then have "su_state s \<noteq> Live" using inv by (auto simp: watch_inv_def begins_def)
  then have "settled base s ((sendMessage m s)\<lparr>su_phase := Flushing rest\<rparr>)" for m rest
    by (auto simp: settled_def keepsCovered_def covered_def watch_inv_def watched_def begins_def)
  then show ?thesis using Flushing endSync_settles syncLoop_settles [OF inv] by (simp add: settleSync_def split: list.split)
qed (simp_all add: settleSync_def settled_def inv)

lemma settleSnapshot_settles:
  assumes inv: "watch_inv base s" shows "settled base s (settleSnapshot vs ok frames s)"
proof -
  let ?t = "s\<lparr>su_wire := su_wire s @ map (\<lambda>(kind, json). ViewerMessage kind json) vs\<rparr>"
  have t: "untouched s ?t" by (simp add: untouched_def)
  have "settled base s (syncLoop frames ?t)" "settled base s (endSync ?t)"
    using settled_after [OF untouched_covered [OF t]] syncLoop_settles [OF untouched_inv [OF inv t]] endSync_settles by blast+
  then show ?thesis using inv by (simp add: settleSnapshot_def Let_def settled_def)
qed


lemma settleFill_settles:
  "watch_inv base s \<Longrightarrow> phased s \<Longrightarrow> settled base s (settleFill from through answer s)"
  by (auto simp: settled_def settleFill_covers phased_def intro!: settleFill_watches)

lemma offerLive_settles: "watch_inv base s \<Longrightarrow> settled base s (offerLive f s)"
  using untouched_settled [OF _ offerLiveFrame_untouched] by (simp add: offerLive_def settled_def)

lemmas step_settles = offer_settles offerLive_settles beginSync_settles settleSync_settles settleSnapshot_settles
  timerFires_settles settleFill_settles untouched_settled [OF _ startLink_untouched] untouched_settled [OF _ settleLink_untouched]
  untouched_settled [OF _ enqueueMessage_untouched] untouched_settled [OF _ showPerson_untouched]
  untouched_settled [OF _ resync_untouched] untouched_settled [OF _ closeSubscriber_untouched]

lemma subStep_settles: "watch_inv base s \<Longrightarrow> phased s \<Longrightarrow> faithful L base e \<Longrightarrow> settled base s (subStep s e)"
  by (cases e) (simp_all add: faithful_def step_settles)

text \<open>What has been published to it, with the invariants, over a run.\<close>

definition published :: "nat list \<Rightarrow> subscriber \<Rightarrow> bool" where
  "published qs s \<longleftrightarrow> (\<forall>q \<in> set qs. covered q s)"

definition offeredBy :: "sub_event \<Rightarrow> nat list" where
  "offeredBy e = (case e of Offer event \<Rightarrow> [he_sequence event] | _ \<Rightarrow> [])"

lemma run_covers:
  assumes "isLog L" "\<forall>e \<in> set es. faithful L base e" "delivery_inv L base s" "watch_inv base s" "published qs s"
  shows "watch_inv base (foldl subStep s es) \<and> published (qs @ concat (map offeredBy es)) (foldl subStep s es)"
  using assms(2-)
proof (induction es arbitrary: s qs)
  case (Cons e es)
  have inv: "delivery_inv L base (subStep s e)" using subStep_inv [OF assms(1)] Cons.prems by simp
  have "phased s" using Cons.prems(2) by (simp add: delivery_inv_def)
  then have settled: "settled base s (subStep s e)" using subStep_settles Cons.prems by (metis list.set_intros(1))
  have "published (qs @ offeredBy e) (subStep s e)"
    using settled Cons.prems(3,4) offer_settles
    by (cases e) (auto simp: published_def settled_def keepsCovered_def offeredBy_def)
  with Cons.IH [of "subStep s e" "qs @ offeredBy e"] Cons.prems inv settled show ?case by (simp add: settled_def)
qed simp

text \<open>C4: Whatever order publications arrive in, a live subscriber has queued every event that was ever published to it, or
  holds it and then has a timer running or a read of the store out that will close the hole before it: no event waits
  on something that never comes.
\<close>

theorem publications_never_stuck:
  assumes "isLog L" "\<forall>e \<in> set es. faithful L base e" "so_cursor options \<le> base"
    and "s = foldl subStep (newSubscriber options) es" "su_state s = Live" "Offer event \<in> set es"
  shows "he_sequence event \<le> su_queuedThrough s \<or>
    he_sequence event \<in> fst ` set (su_pending s) \<and> (su_gapTimer s \<or> su_filling s \<noteq> None)"
proof -
  have "watch_inv base (newSubscriber options)"
    using assms(3) by (simp add: watch_inv_def watched_def begins_def newSubscriber_def)
  from run_covers [OF assms(1,2) newSubscriber_inv this, of "[]"]
  have "watch_inv base s" "published (concat (map offeredBy es)) s" by (simp_all add: assms(4) published_def)
  moreover have "he_sequence event \<in> set (concat (map offeredBy es))" using assms(6) by (force simp: offeredBy_def)
  ultimately have "covered (he_sequence event) s" "watched s"
    unfolding published_def watch_inv_def by (blast dest: bspec)+
  then show ?thesis using assms(5) by (auto simp: covered_def watched_def)
qed



theorem publications_never_stuck_witness:
  "let s = foldl subStep (newSubscriber subscriber_ex) (take 4 overtaken_ex)
   in 2 \<in> fst ` set (su_pending s) \<and> su_gapTimer s"
proof -
  let ?s = "foldl subStep (newSubscriber subscriber_ex) (take 4 overtaken_ex)"
  have run: "su_state ?s = Live" "su_queuedThrough ?s = 0" "su_filling ?s = None" by code_simp+
  have "\<forall>e \<in> set (take 4 overtaken_ex). faithful log_ex 0 e"
    using overtaken_ex_faithful by (auto simp: list_all_iff dest: in_set_takeD)
  from publications_never_stuck [OF log_ex_log this _ refl run(1), of "event_ex 2"]
  show ?thesis using run by (simp add: overtaken_ex_def subscriber_ex_def event_ex_def)
qed

end
