(* ===== verification/Realtime_Batches.thy ===== *)
theory Realtime_Batches
  imports Realtime_Delivery
begin

text \<open>
  The batches durable events are sent in (\<open>boundedEventBatches\<close> of packages/orchestration/src/realtime-hub.ts):
  what they hold, how large they are, and when an event is refused.
\<close>

text \<open>The bytes of the message a batch becomes: the envelope, its events and the commas between them.\<close>

definition messageBytes :: "hub_event list \<Rightarrow> int" where
  "messageBytes batch = hostEventsEnvelopeBytes + sum_list (map eventBytes batch) + int (length batch - 1)"

definition batchFits :: "int \<Rightarrow> hub_event list \<Rightarrow> bool" where
  "batchFits maxWire batch \<longleftrightarrow> batch \<noteq> [] \<and> length batch \<le> maxBatchEvents \<and> messageBytes batch \<le> maxWire"

lemma messageBytes_snoc:
  "messageBytes (batch @ [e]) = (if batch = [] then hostEventsEnvelopeBytes else messageBytes batch) +
     (eventBytes e + (if batch = [] then 0 else 1))"
  by (cases batch) (simp_all add: messageBytes_def)

lemma batchLoop_fits:
  "batchLoop maxWire es (bs, batch, n) = Some (bs', batch', n') \<Longrightarrow>
   n = (if batch = [] then hostEventsEnvelopeBytes else messageBytes batch) \<Longrightarrow>
   \<forall>b \<in> set bs. batchFits maxWire b \<Longrightarrow> batch \<noteq> [] \<longrightarrow> batchFits maxWire batch \<Longrightarrow>
   (\<forall>b \<in> set bs'. batchFits maxWire b) \<and> (batch' \<noteq> [] \<longrightarrow> batchFits maxWire batch')"
proof (induction es arbitrary: bs batch n)
  case (Cons e es)
  define size where "size = eventBytes e + (if batch = [] then 0 else 1)"
  have step: "batchLoop maxWire (e # es) (bs, batch, n) =
    (if hostEventsEnvelopeBytes + size > maxWire then None
     else if length batch \<ge> maxBatchEvents \<or> n + size > maxWire
     then batchLoop maxWire es (bs @ [batch], [e], hostEventsEnvelopeBytes + eventBytes e)
     else batchLoop maxWire es (bs, batch @ [e], n + size))"
    by (simp only: batchLoop.simps Let_def size_def)
  have fits: "\<not> hostEventsEnvelopeBytes + size > maxWire"
  proof
    assume "hostEventsEnvelopeBytes + size > maxWire"
    then show False using Cons.prems(1) step by simp
  qed
  then have alone: "batchFits maxWire [e]"
    by (auto simp: batchFits_def messageBytes_def maxBatchEvents_def size_def split: if_splits)
  show ?case
  proof (cases "length batch \<ge> maxBatchEvents \<or> n + size > maxWire")
    case True
    then have "batch \<noteq> []" using fits Cons.prems(2) by (auto simp: maxBatchEvents_def)
    have "batchLoop maxWire es (bs @ [batch], [e], hostEventsEnvelopeBytes + eventBytes e) = Some (bs', batch', n')"
      using Cons.prems(1) unfolding step by (simp only: True fits if_True if_False)
    from Cons.IH [OF this] show ?thesis using alone Cons.prems(3,4) \<open>batch \<noteq> []\<close> by (simp add: messageBytes_def)
  next
    case False
    have more: "batchLoop maxWire es (bs, batch @ [e], n + size) = Some (bs', batch', n')"
      using Cons.prems(1) unfolding step by (simp only: False fits if_False)
    have bytes: "messageBytes (batch @ [e]) = n + size" using Cons.prems(2) by (simp add: messageBytes_snoc size_def)
    have "batchFits maxWire (batch @ [e])" using False bytes by (simp add: batchFits_def)
    then show ?thesis by (intro Cons.IH [OF more _ Cons.prems(3)]) (simp_all add: bytes)
  qed
qed simp

text \<open>C21: The batches are the events in order, none empty, each at most two thousand events, and each as a message within the
  wire's byte ceiling, envelope and commas counted.
\<close>

theorem batches_fit:
  assumes "boundedEventBatches maxWire events = Some batches"
  shows "concat batches = events \<and> (\<forall>b \<in> set batches. batchFits maxWire b)"
proof -
  obtain bs batch n where l: "batchLoop maxWire events ([], [], hostEventsEnvelopeBytes) = Some (bs, batch, n)"
    "batches = (if batch = [] then bs else bs @ [batch])"
    using assms by (auto simp: boundedEventBatches_def)
  from batchLoop_fits [OF l(1)] show ?thesis using l(2) batches_concat [OF assms] by auto
qed

definition sized_ex :: "nat \<Rightarrow> hub_event" where
  "sized_ex n = \<lparr>he_sequence = n, he_type = ''run.started'', he_workspaceId = ''w'', he_threadId = ''t'', he_listed = True,
     he_json = replicate n 1\<rparr>"

lemma sized_ex_bytes [simp]: "eventBytes (sized_ex n) = int n"
proof -
  have "utf8Length (replicate n 1) = n"
    by (induction n rule: induct_nat_012) (simp_all add: isHighSurrogate_def)
  then show ?thesis by (simp add: eventBytes_def sized_ex_def)
qed

theorem batches_fit_witness:
  "boundedEventBatches 60 [sized_ex 10, sized_ex 12, sized_ex 20] = Some [[sized_ex 10, sized_ex 12], [sized_ex 20]] \<and>
   messageBytes [sized_ex 10, sized_ex 12] \<le> 60"
proof -
  have b: "boundedEventBatches 60 [sized_ex 10, sized_ex 12, sized_ex 20] = Some [[sized_ex 10, sized_ex 12], [sized_ex 20]]"
    by (simp add: boundedEventBatches_def envelope_bytes maxBatchEvents_def)
  from batches_fit [OF b] show ?thesis using b by (simp add: batchFits_def)
qed

end
