(* ===== verification/Realtime_Hub.thy ===== *)
theory Realtime_Hub
  imports Realtime_Watch Realtime_Batches
begin

text \<open>
  The hub (\<open>RealtimeHub\<close> of packages/orchestration/src/realtime-hub.ts): what a subscription replays from the
  store, the index of sockets by person and session, and who is told of what. The store is a parameter;
  a socket is its name, and what sockets are given outside a subscription and closed with is logged. Workspaces and
  their subscribers are one list in order of subscription; a subscriber that closes leaves it.
\<close>

section \<open>What a subscription replays\<close>

record replay_window =
  rw_events :: "hub_event list"
  rw_byteCount :: int
  rw_hasMore :: bool
  rw_scannedThrough :: nat

record hub_options =
  ho_maxReplayEvents :: nat
  ho_maxReplayBytes :: int
  ho_maxWireBytes :: int

definition defaultHubOptions :: hub_options where
  "defaultHubOptions = \<lparr>ho_maxReplayEvents = 5000, ho_maxReplayBytes = 8 * 1024 * 1024, ho_maxWireBytes = 960 * 1024\<rparr>"

datatype replay =
    Replayed "hub_message list" nat
  | Resynced resync_reason
  | Refused
  | ReplayFailed

text \<open>\<open>read cursor maxItems\<close> is the window of the store up to the head, at most so many events.\<close>

function replayLoop ::
  "hub_options \<Rightarrow> (nat \<Rightarrow> nat \<Rightarrow> replay_window) \<Rightarrow> nat \<Rightarrow> nat \<Rightarrow> int \<Rightarrow> nat \<Rightarrow> hub_message list \<Rightarrow> replay" where
  "replayLoop options read head cursor replayBytes replayEvents messages =
     (if cursor \<ge> head then Replayed messages cursor
      else
        let window = read cursor (min 250 (ho_maxReplayEvents options - replayEvents + 1))
        in if rw_scannedThrough window \<le> cursor then Resynced CursorExpired
           else
             let bytes = replayBytes + rw_byteCount window;
                 events = replayEvents + length (rw_events window)
             in if events > ho_maxReplayEvents options \<or> bytes > ho_maxReplayBytes options then Resynced CursorExpired
                else case boundedEventBatches (ho_maxWireBytes options) (rw_events window) of
                  None \<Rightarrow> ReplayFailed
                | Some batches \<Rightarrow>
                    if \<not> rw_hasMore window \<and> rw_scannedThrough window < head then Resynced CursorExpired
                    else replayLoop options read head (rw_scannedThrough window) bytes events (messages @ map EventsMessage batches))"
  by pat_completeness auto

text \<open>Every window accounts for more of what is below the head, or the loop ends.\<close>

termination replayLoop
  by (relation "measure (\<lambda>(_, _, head, cursor, _). head - cursor)") (auto intro!: diff_less_mono2)

declare replayLoop.simps [simp del]

definition planReplay ::
  "hub_options \<Rightarrow> bool \<Rightarrow> nat \<Rightarrow> nat \<Rightarrow> nat \<Rightarrow> (nat \<Rightarrow> nat \<Rightarrow> replay_window) \<Rightarrow> replay" where
  "planReplay options member afterSequence snapshot head read =
     (if \<not> member then Refused
      else if afterSequence = 0 then Replayed [SnapshotMessage snapshot] snapshot
      else if afterSequence > head then Resynced CursorAhead
      else replayLoop options read head afterSequence 0 0 [])"

text \<open>What the store promises of a window: the events it accounts for, as far as it accounts for them.\<close>

definition honestStore :: "event_log \<Rightarrow> nat \<Rightarrow> (nat \<Rightarrow> nat \<Rightarrow> replay_window) \<Rightarrow> bool" where
  "honestStore L head read \<longleftrightarrow>
     (\<forall>cursor items. let window = read cursor items
        in rw_scannedThrough window \<le> head \<and> rw_events window = logEvents L cursor (rw_scannedThrough window))"

lemma replayLoop_log:
  "replayLoop options read head cursor bytes events messages = Replayed messages' cursor' \<Longrightarrow> honestStore L head read \<Longrightarrow>
   base \<le> cursor \<Longrightarrow> cursor \<le> head \<Longrightarrow> eventsOf messages = logEvents L base cursor \<Longrightarrow>
   cursor' = head \<and> eventsOf messages' = logEvents L base head"
proof (induction options read head cursor bytes events messages rule: replayLoop.induct)
  case (1 options read head cursor replayBytes replayEvents messages)
  show ?case
  proof (cases "cursor \<ge> head")
    case True
    have "Replayed messages cursor = Replayed messages' cursor'"
      using "1.prems"(1) unfolding replayLoop.simps [of options read head cursor] by (simp only: True if_True)
    then show ?thesis using "1.prems" True by auto
  next
    case False
    define window where "window = read cursor (min 250 (ho_maxReplayEvents options - replayEvents + 1))"
    have w: "rw_scannedThrough window \<le> head" "rw_events window = logEvents L cursor (rw_scannedThrough window)"
      using "1.prems"(2) by (simp_all add: honestStore_def window_def Let_def)
    have open1: "\<not> rw_scannedThrough window \<le> cursor"
    proof
      assume "rw_scannedThrough window \<le> cursor"
      then show False using "1.prems"(1) False by (simp add: replayLoop.simps [of options read head cursor] window_def)
    qed
    obtain batches where b: "boundedEventBatches (ho_maxWireBytes options) (rw_events window) = Some batches"
      and bounds: "\<not> (replayEvents + length (rw_events window) > ho_maxReplayEvents options \<or>
        replayBytes + rw_byteCount window > ho_maxReplayBytes options)"
      and more: "\<not> (\<not> rw_hasMore window \<and> rw_scannedThrough window < head)"
      and rest: "replayLoop options read head (rw_scannedThrough window) (replayBytes + rw_byteCount window)
        (replayEvents + length (rw_events window)) (messages @ map EventsMessage batches) = Replayed messages' cursor'"
      using "1.prems"(1) False open1 unfolding replayLoop.simps [of options read head cursor] window_def [symmetric] Let_def
      by (simp only: if_False split: if_split_asm option.split_asm) auto
    have "eventsOf (messages @ map EventsMessage batches) = logEvents L base (rw_scannedThrough window)"
      using "1.prems"(3,5) open1 w batches_concat [OF b] log_split [of base cursor "rw_scannedThrough window" L] by simp
    then show ?thesis
      using "1.IH" [OF False window_def open1 refl refl bounds b more rest "1.prems"(2)] "1.prems"(3) open1 w by simp
  qed
qed

text \<open>C20: A subscription's replay always ends. When it goes ahead it is exactly the log from where the client stood up to the
  head, or a snapshot that stands for all of it: what \<open>synchronize\<close> is begun with continues the client's log.
\<close>

theorem replay_continues_log:
  assumes "honestStore L head read" "planReplay options member afterSequence snapshot head read = Replayed messages cursor"
  shows "if afterSequence = 0 then cursor = snapshot \<and> faithful L snapshot (BeginSync messages cursor)
    else cursor = head \<and> faithful L afterSequence (BeginSync messages cursor)"
proof (cases "afterSequence = 0")
  case True
  then show ?thesis using assms(2) by (auto simp: planReplay_def faithful_def split: if_splits)
next
  case False
  then have "afterSequence \<le> head" "replayLoop options read head afterSequence 0 0 [] = Replayed messages cursor"
    using assms(2) by (auto simp: planReplay_def split: if_splits)
  from replayLoop_log [OF this(2) assms(1) le_refl this(1)] this(1)
  show ?thesis using False by (simp add: faithful_def)
qed


definition store_ex :: "nat \<Rightarrow> nat \<Rightarrow> replay_window" where
  "store_ex cursor items =
     \<lparr>rw_events = logEvents log_ex cursor 2, rw_byteCount = 1, rw_hasMore = False, rw_scannedThrough = 2\<rparr>"

theorem replay_continues_log_witness:
  "planReplay defaultHubOptions True 1 0 2 store_ex = Replayed [EventsMessage [event_ex 2]] 2 \<and>
   faithful log_ex 1 (BeginSync [EventsMessage [event_ex 2]] 2)"
proof -
  have run: "planReplay defaultHubOptions True 1 0 2 store_ex = Replayed [EventsMessage [event_ex 2]] 2"
    by code_simp
  have "honestStore log_ex 2 store_ex" by (simp add: honestStore_def store_ex_def)
  from replay_continues_log [OF this run] run show ?thesis by simp
qed

section \<open>Sockets and subscribers\<close>

record hub_subscriber =
  hs_id :: nat
  hs_workspaceId :: ident
  hs_userId :: ident
  hs_sink :: ident
  hs_subscriber :: subscriber

record hub =
  hu_subscribers :: "hub_subscriber list"
  hu_connections :: "(ident, ident list) jsmap"
  hu_sessions :: "(ident, ident \<times> ident list) jsmap"
  hu_refreshes :: "(ident \<times> ident, ident list) jsmap"
  hu_sent :: "(ident \<times> hub_message) list"
  hu_closed :: "(ident \<times> nat) list"

definition newHub :: hub where
  "newHub = \<lparr>hu_subscribers = [], hu_connections = [], hu_sessions = [], hu_refreshes = [], hu_sent = [], hu_closed = []\<rparr>"

text \<open>A subscriber that closed is removed by its \<open>onClose\<close>.\<close>

definition pruneClosed :: "hub \<Rightarrow> hub" where
  "pruneClosed h = h\<lparr>hu_subscribers := filter (\<lambda>x. su_state (hs_subscriber x) \<noteq> Closed) (hu_subscribers h)\<rparr>"

definition onSubscribers :: "(hub_subscriber \<Rightarrow> bool) \<Rightarrow> (subscriber \<Rightarrow> subscriber) \<Rightarrow> hub \<Rightarrow> hub" where
  "onSubscribers which act h =
     pruneClosed (h\<lparr>hu_subscribers := map (\<lambda>x. if which x then x\<lparr>hs_subscriber := act (hs_subscriber x)\<rparr> else x) (hu_subscribers h)\<rparr>)"

definition addSubscriber :: "nat \<Rightarrow> ident \<Rightarrow> ident \<Rightarrow> ident \<Rightarrow> subscriber_options \<Rightarrow> hub \<Rightarrow> hub" where
  "addSubscriber k workspaceId userId sink options h =
     h\<lparr>hu_subscribers := hu_subscribers h @
       [\<lparr>hs_id = k, hs_workspaceId = workspaceId, hs_userId = userId, hs_sink = sink, hs_subscriber = newSubscriber options\<rparr>]\<rparr>"

text \<open>Any step of one subscriber: its sends, its timer, its synchronization, or its close.\<close>

definition subscriberStep :: "nat \<Rightarrow> sub_event \<Rightarrow> hub \<Rightarrow> hub" where
  "subscriberStep k e h = onSubscribers (\<lambda>x. hs_id x = k) (\<lambda>s. subStep s e) h"

definition addTo :: "'a \<Rightarrow> 'a list \<Rightarrow> 'a list" where
  "addTo x xs = (if x \<in> set xs then xs else xs @ [x])"

definition sinksOf :: "hub \<Rightarrow> ident \<Rightarrow> ident list" where
  "sinksOf h userId = (case jget (hu_connections h) userId of Some sinks \<Rightarrow> sinks | None \<Rightarrow> [])"

text \<open>
  \<open>False\<close> is the thrown refusal of a session that belongs to someone else; the socket has been added
  for the person by then.
\<close>

definition registerConnection :: "ident \<Rightarrow> ident \<Rightarrow> ident \<Rightarrow> hub \<Rightarrow> hub \<times> bool" where
  "registerConnection userId sessionId sink h =
     (let h1 = h\<lparr>hu_connections := jset userId (addTo sink (sinksOf h userId)) (hu_connections h)\<rparr>;
          session = (case jget (hu_sessions h) sessionId of Some s \<Rightarrow> s | None \<Rightarrow> (userId, []))
      in if fst session \<noteq> userId then (h1, False)
         else (h1\<lparr>hu_sessions := jset sessionId (userId, addTo sink (snd session)) (hu_sessions h)\<rparr>, True))"

definition dropSink :: "ident \<Rightarrow> ident list \<Rightarrow> (ident, ident list) jsmap \<Rightarrow> (ident, ident list) jsmap" where
  "dropSink userId gone connections =
     (case jget connections userId of
        None \<Rightarrow> connections
      | Some sinks \<Rightarrow>
          (let left = filter (\<lambda>x. x \<notin> set gone) sinks
           in if left = [] then jdel userId connections else jset userId left connections))"

text \<open>What \<open>registerConnection\<close> returned, called when the socket goes.\<close>

definition releaseConnection :: "ident \<Rightarrow> ident \<Rightarrow> ident \<Rightarrow> hub \<Rightarrow> hub" where
  "releaseConnection userId sessionId sink h =
     h\<lparr>hu_connections := dropSink userId [sink] (hu_connections h),
       hu_sessions := (case jget (hu_sessions h) sessionId of
          None \<Rightarrow> hu_sessions h
        | Some (owner, sinks) \<Rightarrow>
            (let left = filter (\<lambda>x. x \<noteq> sink) sinks
             in if left = [] then jdel sessionId (hu_sessions h) else jset sessionId (owner, left) (hu_sessions h)))\<rparr>"

definition endUserSession :: "ident \<Rightarrow> hub \<Rightarrow> hub" where
  "endUserSession sessionId h =
     (case jget (hu_sessions h) sessionId of
        None \<Rightarrow> h
      | Some (userId, sinks) \<Rightarrow>
          (let h1 = h\<lparr>hu_sessions := jdel sessionId (hu_sessions h), hu_connections := dropSink userId sinks (hu_connections h)\<rparr>;
               h2 = onSubscribers (\<lambda>x. hs_sink x \<in> set sinks) closeSubscriber h1
           in h2\<lparr>hu_closed := hu_closed h2 @ map (\<lambda>sink. (sink, 4003)) sinks\<rparr>))"

definition connectedUserIds :: "hub \<Rightarrow> ident list" where
  "connectedUserIds h = jkeys (hu_connections h)"

definition sendTo :: "ident list \<Rightarrow> hub_message \<Rightarrow> hub \<Rightarrow> hub" where
  "sendTo sinks m h = h\<lparr>hu_sent := hu_sent h @ map (\<lambda>sink. (sink, m)) sinks\<rparr>"

definition sendToUsers :: "ident list \<Rightarrow> hub_message \<Rightarrow> hub \<Rightarrow> hub" where
  "sendToUsers userIds m h = sendTo (concat (map (sinksOf h) userIds)) m h"

definition broadcast :: "hub_message \<Rightarrow> hub \<Rightarrow> hub" where
  "broadcast m h = sendTo (concat (jvalues (hu_connections h))) m h"

section \<open>Publishing\<close>

definition changesWaitingRequests :: "ident \<Rightarrow> bool" where
  "changesWaitingRequests type \<longleftrightarrow>
     type \<in> {''request.opened'', ''request.updated'', ''request.resolved'', ''request.cancelled''}"

definition changesReadState :: "ident \<Rightarrow> bool" where
  "changesReadState type \<longleftrightarrow>
     type \<in> {''message.created'', ''message.placed'', ''thread-input.updated'', ''thread.state-changed''}"

definition changesTasks :: "hub_event \<Rightarrow> bool" where
  "changesTasks e =
     (if he_type e = ''thread.created'' then he_listed e
      else if he_type e \<in> {''thread.listed'', ''thread.state-changed'', ''run.queued'', ''run.started'', ''run.status'',
        ''run.completed'', ''run.failed'', ''run.interrupted''} then True
      else changesReadState (he_type e))"

text \<open>One read for a burst of changes: the Threads join the refresh under way, or begin one.\<close>

definition refreshReadStates :: "ident \<Rightarrow> ident \<Rightarrow> ident \<Rightarrow> hub \<Rightarrow> hub" where
  "refreshReadStates workspaceId userId threadId h =
     h\<lparr>hu_refreshes := (case jget (hu_refreshes h) (workspaceId, userId) of
        Some threads \<Rightarrow> jset (workspaceId, userId) (addTo threadId threads) (hu_refreshes h)
      | None \<Rightarrow> jset (workspaceId, userId) [threadId] (hu_refreshes h))\<rparr>"

text \<open>The next hundred Threads of a refresh, taken to be read.\<close>

definition takeRefresh :: "ident \<times> ident \<Rightarrow> hub \<Rightarrow> ident list \<times> hub" where
  "takeRefresh key h =
     (case jget (hu_refreshes h) key of
        None \<Rightarrow> ([], h)
      | Some threads \<Rightarrow>
          if threads = [] then ([], h\<lparr>hu_refreshes := jdel key (hu_refreshes h)\<rparr>)
          else (take 100 threads, h\<lparr>hu_refreshes := jset key (drop 100 threads) (hu_refreshes h)\<rparr>))"

text \<open>The read came back with states, or failed: then the viewer's subscribers start over.\<close>

definition settleReadStates :: "ident \<times> ident \<Rightarrow> utf16 option \<Rightarrow> hub \<Rightarrow> hub" where
  "settleReadStates key answer h =
     (let viewer = (\<lambda>x. (hs_workspaceId x, hs_userId x) = key)
      in case answer of
           Some states \<Rightarrow> onSubscribers viewer (enqueueMessage (ViewerMessage ReadStates states)) h
         | None \<Rightarrow> (onSubscribers viewer (resync CursorExpired) h)\<lparr>hu_refreshes := jdel key (hu_refreshes h)\<rparr>)"

definition publish :: "hub_event \<Rightarrow> hub \<Rightarrow> hub" where
  "publish e h =
     (let h1 = onSubscribers (\<lambda>x. hs_workspaceId x = he_workspaceId e) (offer e) h;
          h2 = (if changesReadState (he_type e)
                then foldl (\<lambda>h userId. refreshReadStates (he_workspaceId e) userId (he_threadId e) h) h1
                  (map hs_userId (filter (\<lambda>x. hs_workspaceId x = he_workspaceId e) (hu_subscribers h)))
                else h1);
          h3 = (if changesWaitingRequests (he_type e) then broadcast (PlainMessage ''host.requests-changed'') h2 else h2)
      in if changesTasks e then broadcast (PlainMessage ''host.tasks-changed'') h3 else h3)"

definition publishLive :: "hub_frame \<Rightarrow> hub \<Rightarrow> hub" where
  "publishLive f h = onSubscribers (\<lambda>x. hs_workspaceId x = hf_workspaceId f) (offerLive f) h"

definition publishReadState :: "ident \<Rightarrow> ident \<Rightarrow> utf16 \<Rightarrow> hub \<Rightarrow> hub" where
  "publishReadState userId workspaceId state h =
     onSubscribers (\<lambda>x. hs_workspaceId x = workspaceId \<and> hs_userId x = userId) (enqueueMessage (ViewerMessage ReadStates state)) h"

text \<open>One delivery per socket, however many of its subscribers accept it.\<close>

definition showToPerson :: "ident \<Rightarrow> ident \<Rightarrow> hub \<Rightarrow> hub" where
  "showToPerson userId workspaceId h =
     (let accepts = filter (\<lambda>x. hs_workspaceId x = workspaceId \<and> hs_userId x = userId \<and> acceptsPersonShow (hs_subscriber x))
            (hu_subscribers h);
          chosen = foldl (\<lambda>seen x. if hs_sink x \<in> set (map hs_sink seen) then seen else seen @ [x]) [] accepts
      in onSubscribers (\<lambda>x. hs_id x \<in> set (map hs_id chosen)) showPerson h)"

text \<open>A viewer's message goes through the subscribers on a socket, or straight to a socket with none.\<close>

definition sendViewerMessage :: "ident \<Rightarrow> hub_message \<Rightarrow> hub \<Rightarrow> hub" where
  "sendViewerMessage userId m h =
     foldl (\<lambda>h sink.
       if list_ex (\<lambda>x. hs_sink x = sink) (hu_subscribers h)
       then onSubscribers (\<lambda>x. hs_sink x = sink) (enqueueMessage m) h
       else sendTo [sink] m h) h (sinksOf h userId)"

definition publishViewerTasksChanged :: "ident \<Rightarrow> hub \<Rightarrow> hub" where
  "publishViewerTasksChanged userId h = sendViewerMessage userId (PlainMessage ''host.tasks-changed'') h"

definition publishConnectionsChanged :: "ident \<Rightarrow> hub \<Rightarrow> hub" where
  "publishConnectionsChanged userId h = sendViewerMessage userId (PlainMessage ''host.connections-changed'') h"

definition publishNotificationPreference :: "ident \<Rightarrow> utf16 \<Rightarrow> hub \<Rightarrow> hub" where
  "publishNotificationPreference userId json h = sendViewerMessage userId (ViewerMessage NotificationPreferences json) h"

definition publishWorkspaceNotice :: "workspace_notice \<Rightarrow> hub \<Rightarrow> hub" where
  "publishWorkspaceNotice notice h =
     onSubscribers (\<lambda>x. hs_workspaceId x = wn_workspaceId notice) (enqueueMessage (NoticeMessage notice)) h"

definition publishTriggersChanged :: "ident \<Rightarrow> hub \<Rightarrow> hub" where
  "publishTriggersChanged workspaceId h =
     publishWorkspaceNotice \<lparr>wn_kind = TriggersChanged, wn_workspaceId = workspaceId, wn_threadIds = []\<rparr> h"

definition publishBrowserSessionsChanged :: "ident \<Rightarrow> ident list \<Rightarrow> hub \<Rightarrow> hub" where
  "publishBrowserSessionsChanged workspaceId viewers h =
     foldl (\<lambda>h userId. sendViewerMessage userId
       (NoticeMessage \<lparr>wn_kind = SessionsChanged, wn_workspaceId = workspaceId, wn_threadIds = []\<rparr>) h) h viewers"

definition publishBrowserUsageChanged :: "ident \<Rightarrow> ident list \<Rightarrow> hub \<Rightarrow> hub" where
  "publishBrowserUsageChanged workspaceId threadIds h =
     (if threadIds = [] then h
      else foldl (\<lambda>h notice. publishWorkspaceNotice notice h) h
        (wireNotices \<lparr>wn_kind = UsageChanged, wn_workspaceId = workspaceId, wn_threadIds = rev (remdups (rev threadIds))\<rparr>))"

definition closeUserWorkspace :: "ident \<Rightarrow> ident \<Rightarrow> hub \<Rightarrow> hub" where
  "closeUserWorkspace userId workspaceId h =
     (let which = (\<lambda>x. hs_workspaceId x = workspaceId \<and> hs_userId x = userId);
          h1 = onSubscribers which closeSubscriber h
      in h1\<lparr>hu_closed := hu_closed h @ map (\<lambda>x. (hs_sink x, 4003)) (filter which (hu_subscribers h))\<rparr>)"


section \<open>The index of sockets\<close>

definition indexKept :: "hub \<Rightarrow> hub \<Rightarrow> bool" where
  "indexKept h h' \<longleftrightarrow> hu_connections h' = hu_connections h \<and> hu_sessions h' = hu_sessions h"

text \<open>
  The hubs the Host reaches: a socket is registered once, with the person its session belongs to, and released as it
  was registered; what the other operations do leaves the index alone.
\<close>

inductive hubReach :: "hub \<Rightarrow> bool" where
  new_hub: "hubReach newHub"
| registered: "hubReach h \<Longrightarrow> (\<And>v. sink \<notin> set (sinksOf h v)) \<Longrightarrow>
    (\<And>owner sinks. jget (hu_sessions h) sessionId = Some (owner, sinks) \<Longrightarrow> owner = userId) \<Longrightarrow>
    hubReach (fst (registerConnection userId sessionId sink h))"
| released: "hubReach h \<Longrightarrow>
    (sink \<in> set (sinksOf h userId) \<Longrightarrow> \<exists>sinks. jget (hu_sessions h) sessionId = Some (userId, sinks) \<and> sink \<in> set sinks) \<Longrightarrow>
    (\<And>owner sinks. jget (hu_sessions h) sessionId = Some (owner, sinks) \<Longrightarrow> owner = userId) \<Longrightarrow>
    hubReach (releaseConnection userId sessionId sink h)"
| closed: "hubReach h \<Longrightarrow> hubReach (endUserSession sessionId h)"
| other: "hubReach h \<Longrightarrow> indexKept h h' \<Longrightarrow> hubReach h'"

lemma indexKept_trans: "indexKept h h1 \<Longrightarrow> indexKept h1 h2 \<Longrightarrow> indexKept h h2"
  by (simp add: indexKept_def)

lemma indexKept_refl [simp]: "indexKept h h"
  by (simp add: indexKept_def)

lemma onSubscribers_index [simp]: "indexKept h (onSubscribers which act h)"
  by (simp add: indexKept_def onSubscribers_def pruneClosed_def)

lemma sendTo_index [simp]: "indexKept h (sendTo sinks m h)"
  by (simp add: indexKept_def sendTo_def)

lemma foldl_index: "(\<And>h x. indexKept h (g h x)) \<Longrightarrow> indexKept h (foldl g h xs)"
  by (induction xs arbitrary: h) (auto intro: indexKept_trans)

lemma sendViewerMessage_index: "indexKept h (sendViewerMessage userId m h)"
  unfolding sendViewerMessage_def by (rule foldl_index) simp

lemma broadcast_index: "indexKept h (broadcast m h)"
  by (simp add: broadcast_def)

lemma refreshReadStates_index: "indexKept h (refreshReadStates w u t h)"
  by (simp add: refreshReadStates_def indexKept_def)

lemma publish_index: "indexKept h (publish e h)"
proof -
  let ?h1 = "onSubscribers (\<lambda>x. hs_workspaceId x = he_workspaceId e) (offer e) h"
  have refreshed: "indexKept h (foldl (\<lambda>h userId. refreshReadStates (he_workspaceId e) userId (he_threadId e) h) ?h1 us)" for us
    by (rule indexKept_trans [OF onSubscribers_index foldl_index]) (rule refreshReadStates_index)
  have told: "indexKept h (broadcast m h1)" if "indexKept h h1" for m h1 using that broadcast_index by (rule indexKept_trans)
  show ?thesis unfolding publish_def Let_def by (simp add: refreshed told)
qed

lemma publishWorkspaceNotice_index: "indexKept h (publishWorkspaceNotice notice h)"
  by (simp add: publishWorkspaceNotice_def)

text \<open>None of the operations that tell someone something touches the index.\<close>

lemma others_index:
  "indexKept h (subscriberStep k e h)" "indexKept h (sendToUsers us m h)" "indexKept h (publishLive f h)"
  "indexKept h (publishReadState u w json h)" "indexKept h (showToPerson u w h)" "indexKept h (publishViewerTasksChanged u h)"
  "indexKept h (publishConnectionsChanged u h)" "indexKept h (publishNotificationPreference u json h)"
  "indexKept h (publishTriggersChanged w h)" "indexKept h (publishBrowserSessionsChanged w us h)"
  "indexKept h (publishBrowserUsageChanged w ts h)" "indexKept h (closeUserWorkspace u w h)"
  "indexKept h (settleReadStates key answer h)" "indexKept h (snd (takeRefresh key h))" "indexKept h (addSubscriber k w u x options h)"
proof -
  show "indexKept h (publishBrowserSessionsChanged w us h)"
    unfolding publishBrowserSessionsChanged_def by (rule foldl_index) (rule sendViewerMessage_index)
  show "indexKept h (publishBrowserUsageChanged w ts h)"
    unfolding publishBrowserUsageChanged_def by (auto intro!: foldl_index publishWorkspaceNotice_index)
  have drop: "indexKept h (h1\<lparr>hu_refreshes := r\<rparr>)" "indexKept h (h1\<lparr>hu_closed := c\<rparr>)" if "indexKept h h1" for h1 r c
    using that by (simp_all add: indexKept_def)
  show "indexKept h (closeUserWorkspace u w h)" unfolding closeUserWorkspace_def Let_def by (rule drop) simp
  show "indexKept h (settleReadStates key answer h)"
    unfolding settleReadStates_def Let_def by (auto split: option.split intro!: drop)
  show "indexKept h (snd (takeRefresh key h))"
    unfolding takeRefresh_def by (auto split: option.split simp: indexKept_def)
qed (simp_all add: subscriberStep_def sendToUsers_def publishLive_def publishReadState_def showToPerson_def Let_def
  publishViewerTasksChanged_def publishConnectionsChanged_def publishNotificationPreference_def sendViewerMessage_index
  publishTriggersChanged_def publishWorkspaceNotice_index, simp add: addSubscriber_def indexKept_def)

definition inSession :: "hub \<Rightarrow> ident \<Rightarrow> ident \<Rightarrow> ident \<Rightarrow> bool" where
  "inSession h sessionId userId sink \<longleftrightarrow> (\<exists>sinks. jget (hu_sessions h) sessionId = Some (userId, sinks) \<and> sink \<in> set sinks)"

definition index_inv :: "hub \<Rightarrow> bool" where
  "index_inv h \<longleftrightarrow>
     (\<forall>userId sink. sink \<in> set (sinksOf h userId) \<longleftrightarrow> (\<exists>sessionId. inSession h sessionId userId sink)) \<and>
     (\<forall>sink s1 u1 s2 u2. inSession h s1 u1 sink \<longrightarrow> inSession h s2 u2 sink \<longrightarrow> s1 = s2 \<and> u1 = u2)"

lemma set_addTo [simp]: "set (addTo x xs) = insert x (set xs)"
  by (auto simp: addTo_def)

lemma sinksOf_set: "sinksOf (h\<lparr>hu_connections := jset u xs c\<rparr>) v = (if v = u then xs else case jget c v of Some s \<Rightarrow> s | None \<Rightarrow> [])"
  by (simp add: sinksOf_def jget_set)

lemma sinksOf_drop:
  "set (case jget (dropSink u gone c) v of Some s \<Rightarrow> s | None \<Rightarrow> []) =
     (case jget c v of Some s \<Rightarrow> set s | None \<Rightarrow> {}) - (if v = u then set gone else {})"
  by (auto simp: dropSink_def Let_def jget_set jget_del filter_empty_conv split: option.split)


lemma register_sessions:
  assumes "\<And>owner sinks. jget (hu_sessions h) sid = Some (owner, sinks) \<Longrightarrow> owner = u"
  shows "inSession (fst (registerConnection u sid sink h)) s v x \<longleftrightarrow> inSession h s v x \<or> s = sid \<and> v = u \<and> x = sink"
    and "sinksOf (fst (registerConnection u sid sink h)) v = (if v = u then addTo sink (sinksOf h u) else sinksOf h v)"
proof -
  show "inSession (fst (registerConnection u sid sink h)) s v x \<longleftrightarrow> inSession h s v x \<or> s = sid \<and> v = u \<and> x = sink"
    using assms by (cases "jget (hu_sessions h) sid") (auto simp: registerConnection_def Let_def inSession_def jget_set split: if_splits)
  show "sinksOf (fst (registerConnection u sid sink h)) v = (if v = u then addTo sink (sinksOf h u) else sinksOf h v)"
    by (auto simp: registerConnection_def Let_def sinksOf_def jget_set)
qed

lemma release_sessions:
  "inSession (releaseConnection u sid sink h) s v x \<longleftrightarrow> inSession h s v x \<and> \<not> (s = sid \<and> x = sink)"
  "set (sinksOf (releaseConnection u sid sink h) v) = set (sinksOf h v) - (if v = u then {sink} else {})"
proof -
  show "inSession (releaseConnection u sid sink h) s v x \<longleftrightarrow> inSession h s v x \<and> \<not> (s = sid \<and> x = sink)"
    by (auto simp: releaseConnection_def inSession_def Let_def jget_set jget_del filter_empty_conv split: option.split)
  show "set (sinksOf (releaseConnection u sid sink h) v) = set (sinksOf h v) - (if v = u then {sink} else {})"
    using sinksOf_drop [of u "[sink]" "hu_connections h" v]
    by (simp add: sinksOf_def releaseConnection_def split: option.splits)
qed

lemma close_sessions:
  assumes "jget (hu_sessions h) sid = Some (u, sinks)"
  shows "inSession (endUserSession sid h) s v x \<longleftrightarrow> inSession h s v x \<and> s \<noteq> sid"
    and "set (sinksOf (endUserSession sid h) v) = set (sinksOf h v) - (if v = u then set sinks else {})"
proof -
  show "inSession (endUserSession sid h) s v x \<longleftrightarrow> inSession h s v x \<and> s \<noteq> sid"
    using assms by (simp add: endUserSession_def inSession_def Let_def onSubscribers_def pruneClosed_def jget_del)
  show "set (sinksOf (endUserSession sid h) v) = set (sinksOf h v) - (if v = u then set sinks else {})"
    using assms sinksOf_drop [of u sinks "hu_connections h" v]
    by (simp add: sinksOf_def endUserSession_def Let_def onSubscribers_def pruneClosed_def split: option.splits)
qed

lemma index_invI:
  assumes "\<And>v x. x \<in> set (sinksOf h v) \<longleftrightarrow> (\<exists>s. inSession h s v x)"
    and "\<And>x s1 u1 s2 u2. inSession h s1 u1 x \<Longrightarrow> inSession h s2 u2 x \<Longrightarrow> s1 = s2 \<and> u1 = u2"
  shows "index_inv h"
  unfolding index_inv_def using assms by blast

lemma index_invD:
  assumes "index_inv h"
  shows "x \<in> set (sinksOf h v) \<longleftrightarrow> (\<exists>s. inSession h s v x)"
    and "inSession h s1 u1 x \<Longrightarrow> inSession h s2 u2 x \<Longrightarrow> s1 = s2 \<and> u1 = u2"
  using assms unfolding index_inv_def by blast+

lemma inSession_owner: "inSession h s u1 x \<Longrightarrow> inSession h s u2 y \<Longrightarrow> u1 = u2"
  by (auto simp: inSession_def)

lemma register_inv:
  assumes "index_inv h" "\<And>v. sink \<notin> set (sinksOf h v)"
    and owned: "\<And>owner sinks. jget (hu_sessions h) sid = Some (owner, sinks) \<Longrightarrow> owner = u"
  shows "index_inv (fst (registerConnection u sid sink h))" (is "index_inv ?h")
proof (rule index_invI)
  have fresh: "\<not> inSession h s v sink" for s v using assms(2) index_invD(1) [OF assms(1)] by blast
  have sess: "inSession ?h s v x \<longleftrightarrow> inSession h s v x \<or> s = sid \<and> v = u \<and> x = sink" for s v x
    by (rule register_sessions) (rule owned)
  {
    fix v x
    have "sinksOf ?h v = (if v = u then addTo sink (sinksOf h u) else sinksOf h v)"
      by (rule register_sessions) (rule owned)
    then have "x \<in> set (sinksOf ?h v) \<longleftrightarrow> x \<in> set (sinksOf h v) \<or> v = u \<and> x = sink" by auto
    then show "x \<in> set (sinksOf ?h v) \<longleftrightarrow> (\<exists>s. inSession ?h s v x)"
      unfolding sess index_invD(1) [OF assms(1)] by blast
  }
  fix x s1 u1 s2 u2
  assume "inSession ?h s1 u1 x" "inSession ?h s2 u2 x"
  then show "s1 = s2 \<and> u1 = u2"
    unfolding sess using fresh index_invD(2) [OF assms(1), of s1 u1 x s2 u2] by blast
qed

lemma release_inv:
  assumes "index_inv h" "sink \<in> set (sinksOf h u) \<Longrightarrow> inSession h sid u sink"
    and "\<And>v x. inSession h sid v x \<Longrightarrow> v = u"
  shows "index_inv (releaseConnection u sid sink h)" (is "index_inv ?h")
proof (rule index_invI)
  fix v x
  have own: "inSession h s u sink \<Longrightarrow> s = sid" for s
    using index_invD [OF assms(1)] assms(2) by blast
  have "x \<in> set (sinksOf ?h v) \<longleftrightarrow> (\<exists>s. inSession h s v x) \<and> \<not> (v = u \<and> x = sink)"
    unfolding release_sessions(2) by (auto simp: index_invD(1) [OF assms(1)])
  also have "\<dots> \<longleftrightarrow> (\<exists>s. inSession h s v x \<and> \<not> (s = sid \<and> x = sink))"
    using own assms(3) by blast
  finally show "x \<in> set (sinksOf ?h v) \<longleftrightarrow> (\<exists>s. inSession ?h s v x)" unfolding release_sessions(1) .
next
  fix x s1 u1 s2 u2
  assume "inSession ?h s1 u1 x" "inSession ?h s2 u2 x"
  then show "s1 = s2 \<and> u1 = u2" unfolding release_sessions(1) using index_invD(2) [OF assms(1)] by blast
qed

lemma end_session_inv:
  assumes "index_inv h"
  shows "index_inv (endUserSession sid h)" (is "index_inv ?h")
proof (cases "jget (hu_sessions h) sid")
  case None
  then show ?thesis using assms by (simp add: endUserSession_def)
next
  case (Some r)
  then obtain u sinks where r: "jget (hu_sessions h) sid = Some (u, sinks)" by (cases r) auto
  then have held: "inSession h sid v x \<longleftrightarrow> v = u \<and> x \<in> set sinks" for v x by (auto simp: inSession_def)
  show ?thesis
  proof (rule index_invI)
    fix v x
    have "x \<in> set (sinksOf ?h v) \<longleftrightarrow> (\<exists>s. inSession h s v x) \<and> \<not> inSession h sid v x"
      unfolding close_sessions(2) [OF r] held by (auto simp: index_invD(1) [OF assms])
    also have "\<dots> \<longleftrightarrow> (\<exists>s. inSession h s v x \<and> s \<noteq> sid)" using index_invD(2) [OF assms] by blast
    finally show "x \<in> set (sinksOf ?h v) \<longleftrightarrow> (\<exists>s. inSession ?h s v x)" unfolding close_sessions(1) [OF r] .
  next
    fix x s1 u1 s2 u2
    assume "inSession ?h s1 u1 x" "inSession ?h s2 u2 x"
    then show "s1 = s2 \<and> u1 = u2" unfolding close_sessions(1) [OF r] using index_invD(2) [OF assms] by blast
  qed
qed

lemma hubReach_inv: "hubReach h \<Longrightarrow> index_inv h"
proof (induction rule: hubReach.induct)
  case new_hub
  show ?case by (simp add: index_inv_def newHub_def sinksOf_def inSession_def)
next
  case (registered h sink sid u)
  from registered.IH registered.hyps(2,3) show ?case by (rule register_inv)
next
  case (released h sink u sid)
  show ?case
    by (rule release_inv [OF released.IH]) (use released.hyps(2,3) in \<open>auto simp: inSession_def\<close>)
next
  case (closed h sid)
  from closed.IH show ?case by (rule end_session_inv)
next
  case (other h h')
  then have "sinksOf h' = sinksOf h" "inSession h' = inSession h"
    by (auto simp: indexKept_def sinksOf_def inSession_def fun_eq_iff)
  then show ?case using other.IH by (simp add: index_inv_def)
qed


text \<open>C19: Ending a session ends all of it: none of its sockets is addressable for anybody, none has a subscriber, and every
  one has been closed with the code for an ended session, however connections came and went.
\<close>

theorem closed_session_gone:
  assumes "hubReach h" "jget (hu_sessions h) sessionId = Some (userId, sinks)" "sink \<in> set sinks"
  shows "(\<forall>v. sink \<notin> set (sinksOf (endUserSession sessionId h) v)) \<and>
    (\<forall>x \<in> set (hu_subscribers (endUserSession sessionId h)). hs_sink x \<noteq> sink) \<and>
    (sink, 4003) \<in> set (hu_closed (endUserSession sessionId h)) \<and>
    jget (hu_sessions (endUserSession sessionId h)) sessionId = None"
proof -
  let ?h = "endUserSession sessionId h"
  have mine: "inSession h sessionId userId sink" using assms(2,3) by (simp add: inSession_def)
  have "sink \<notin> set (sinksOf ?h v)" for v
  proof (cases "v = userId")
    case True
    then show ?thesis using assms(3) by (simp add: close_sessions(2) [OF assms(2)])
  next
    case False
    have "\<not> inSession h s v sink" for s
      using index_invD(2) [OF hubReach_inv [OF assms(1)] mine, of s v] False by blast
    then show ?thesis
      using False by (simp add: close_sessions(2) [OF assms(2)] index_invD(1) [OF hubReach_inv [OF assms(1)]])
  qed
  moreover have "hs_sink x \<noteq> sink" if "x \<in> set (hu_subscribers ?h)" for x
    using that assms(2,3) by (auto simp: endUserSession_def Let_def onSubscribers_def pruneClosed_def closeSubscriber_def split: if_splits)
  moreover have "(sink, 4003) \<in> set (hu_closed ?h)" "jget (hu_sessions ?h) sessionId = None"
    using assms(2,3) by (auto simp: endUserSession_def Let_def onSubscribers_def pruneClosed_def jget_del)
  ultimately show ?thesis by blast
qed

definition hub_ex :: hub where
  "hub_ex = addSubscriber 0 ''w'' ''u'' ''x'' subscriber_ex (fst (registerConnection ''u'' ''s'' ''x'' newHub))"

lemma hub_ex_reach: "hubReach hub_ex"
proof -
  have "hubReach (fst (registerConnection ''u'' ''s'' ''x'' newHub))"
    by (rule hubReach.registered [OF hubReach.new_hub]) (simp_all add: newHub_def sinksOf_def)
  then show ?thesis unfolding hub_ex_def by (rule hubReach.other) (rule others_index)
qed

lemma hub_ex_session: "jget (hu_sessions hub_ex) ''s'' = Some (''u'', [''x''])"
  by (simp add: hub_ex_def addSubscriber_def registerConnection_def newHub_def sinksOf_def addTo_def)

theorem closed_session_gone_witness:
  "sinksOf hub_ex ''u'' = [''x''] \<and> hu_subscribers (endUserSession ''s'' hub_ex) = [] \<and>
   ''x'' \<notin> set (sinksOf (endUserSession ''s'' hub_ex) ''u'') \<and> (''x'', 4003) \<in> set (hu_closed (endUserSession ''s'' hub_ex))"
proof -
  have "sinksOf hub_ex ''u'' = [''x'']" "hu_subscribers (endUserSession ''s'' hub_ex) = []" by code_simp+
  moreover note closed_session_gone [OF hub_ex_reach hub_ex_session list.set_intros(1)]
  ultimately show ?thesis by blast
qed



text \<open>
  A socket that is refused because its session belongs to someone else has been added for the person already, and
  nothing takes it out: what is sent to that person goes to it, and it is in no session of theirs that could be ended.
\<close>

theorem refused_socket_stays:
  "let r = registerConnection ''v'' ''s'' ''y'' hub_ex
   in snd r = False \<and> sinksOf (fst r) ''v'' = [''y''] \<and> jget (hu_sessions (fst r)) ''s'' = Some (''u'', [''x'']) \<and>
      hu_sent (sendToUsers [''v''] (PlainMessage ''host.tasks-changed'') (fst r)) = [(''y'', PlainMessage ''host.tasks-changed'')]"
  by code_simp



end
