(* ===== verification/Execution_Coordinator.thy ===== *)
theory Execution_Coordinator
  imports JS_Text Wake_Queue
begin

text \<open>
  The dispatch of durable commands (\<open>ExecutionCoordinator\<close> of packages/orchestration/src/execution-coordinator.ts):
  a poll lists pending commands into a bounded queue, a pump starts those that may start now, and each one started is
  claimed, dispatched and settled with the store while others do the same. What runs between two awaits is one step;
  what the store and the dispatcher answer, the clock and the dispatcher's availability come with the step. Polls
  are coalesced by the wake of \<open>Wake_Queue\<close>. An identifier is never empty, so a test for truth is a test for null;
  the callbacks told of events and errors are taken not to throw.
\<close>

section \<open>Commands, options and state\<close>

record pending_command =
  pc_id :: ident
  pc_type :: ident
  pc_threadId :: "ident option"
  pc_environmentId :: "ident option"
  pc_runId :: "ident option"
  pc_payload :: utf16

datatype disposition = RetryDispatch | UncertainDispatch | FailedDispatch

text \<open>What a dispatch may throw: its own error, an error of the Host with its code and whether it may be retried, or another.\<close>

datatype thrown_error =
    DispatchError disposition
  | HostError ident bool
  | OtherError

record coordinator_options =
  eo_maxConcurrentRuns :: int
  eo_maxConcurrentControls :: "int option"
  eo_maxConcurrentTriggerPrograms :: int
  eo_maxQueuedBytes :: int
  eo_maxQueuedCommands :: int

record dispatch_backoff =
  db_attempts :: nat
  db_nextEligibleAt :: int
  db_recorded :: nat

datatype controller = NoController | Coordinating | CoordinatorAborted

datatype stop_phase = NotStopping | AwaitingPass | AwaitingIdle

datatype store_call = FailCommand | RetryCommand | MarkSteerUnknown

text \<open>Where the execution of a command stands; \<open>Executed\<close> says whether it wakes the coordinator at once.\<close>

datatype execution_phase = Claiming | Dispatching | Storing store_call | Executed bool

datatype coordinator_action =
    ClaimAsked ident
  | DispatchAsked ident
  | StoreAsked store_call ident

record coordinator =
  ec_maxRuns :: int
  ec_maxControls :: int
  ec_maxTriggers :: int
  ec_maxQueuedBytes :: int
  ec_maxQueuedCommands :: int
  ec_backoff :: "(ident, dispatch_backoff) jsmap"
  ec_backoffRecords :: nat
  ec_dispatchingIds :: "ident list"
  ec_queuedIds :: "ident list"
  ec_activeThreads :: "ident list"
  ec_dispatchingRuns :: "(ident, int) jsmap"
  ec_dispatchingRunIds :: "ident list"
  ec_queue :: "(int \<times> pending_command) list"
  ec_queuedBytes :: int
  ec_activeRuns :: int
  ec_activeControls :: int
  ec_activeTriggers :: int
  ec_controller :: controller
  ec_pollTimer :: bool
  ec_reads :: wake_state
  ec_listing :: "nat option"
  ec_stopping :: stop_phase
  ec_executions :: "(pending_command \<times> execution_phase) list"
  ec_asked :: "coordinator_action list"

definition newCoordinator :: "coordinator_options \<Rightarrow> coordinator option" where
  "newCoordinator options =
     (let controls = (case eo_maxConcurrentControls options of Some n \<Rightarrow> n | None \<Rightarrow> eo_maxConcurrentRuns options)
      in if eo_maxConcurrentRuns options < 1 \<or> controls < 1 \<or> eo_maxConcurrentTriggerPrograms options < 1 \<or>
            eo_maxQueuedBytes options < 1 \<or> eo_maxQueuedCommands options < 1 then None
         else Some \<lparr>ec_maxRuns = eo_maxConcurrentRuns options, ec_maxControls = controls,
           ec_maxTriggers = eo_maxConcurrentTriggerPrograms options, ec_maxQueuedBytes = eo_maxQueuedBytes options,
           ec_maxQueuedCommands = eo_maxQueuedCommands options, ec_backoff = [], ec_backoffRecords = 0,
           ec_dispatchingIds = [], ec_queuedIds = [], ec_activeThreads = [], ec_dispatchingRuns = [],
           ec_dispatchingRunIds = [], ec_queue = [], ec_queuedBytes = 0, ec_activeRuns = 0, ec_activeControls = 0,
           ec_activeTriggers = 0, ec_controller = NoController, ec_pollTimer = False, ec_reads = newWake,
           ec_listing = None, ec_stopping = NotStopping, ec_executions = [], ec_asked = []\<rparr>)"

definition isRun :: "pending_command \<Rightarrow> bool" where
  "isRun c \<longleftrightarrow> pc_type c = ''run.execute''"

definition isTriggerProgram :: "pending_command \<Rightarrow> bool" where
  "isTriggerProgram c \<longleftrightarrow> pc_type c = ''trigger.execute''"

definition isResendableControlCommand :: "ident \<Rightarrow> bool" where
  "isResendableControlCommand type \<longleftrightarrow> type \<in> {''request.respond'', ''run.interrupt'', ''run.restart''}"

definition normalizeDispatchError :: "thrown_error \<Rightarrow> disposition" where
  "normalizeDispatchError e =
     (case e of
        DispatchError d \<Rightarrow> d
      | HostError code retryable \<Rightarrow>
          if code \<noteq> ''internal'' then (if retryable then RetryDispatch else FailedDispatch) else FailedDispatch
      | OtherError \<Rightarrow> FailedDispatch)"

section \<open>Polling\<close>

text \<open>What a call of the coalesced wake put out: a pass that started begins its listing, the end of all passes arms the timer.\<close>

definition schedulePoll :: "coordinator \<Rightarrow> coordinator" where
  "schedulePoll s = (if ec_controller s \<noteq> Coordinating \<or> ec_pollTimer s then s else s\<lparr>ec_pollTimer := True\<rparr>)"

definition onWake :: "unit wake_output \<Rightarrow> coordinator \<Rightarrow> coordinator" where
  "onWake out s =
     (case out of
        PassStarted \<Rightarrow> s\<lparr>ec_listing := Some (ec_backoffRecords s)\<rparr>
      | Settled \<Rightarrow> schedulePoll s
      | ErrorSeen _ \<Rightarrow> s)"

definition applyWake :: "wake_state \<times> unit wake_output list \<Rightarrow> coordinator \<Rightarrow> coordinator" where
  "applyWake r s = foldl (\<lambda>s out. onWake out s) (s\<lparr>ec_reads := fst r\<rparr>) (snd r)"

definition wakeCoordinator :: "coordinator \<Rightarrow> coordinator" where
  "wakeCoordinator s = (if ec_controller s \<noteq> Coordinating then s else applyWake (wk_wake (ec_reads s)) s)"

text \<open>\<open>None\<close> is the thrown conflict.\<close>

definition startCoordinator :: "coordinator \<Rightarrow> coordinator option" where
  "startCoordinator s =
     (if ec_controller s \<noteq> NoController then None else Some (wakeCoordinator (s\<lparr>ec_controller := Coordinating\<rparr>)))"

definition pollTimerFires :: "coordinator \<Rightarrow> coordinator" where
  "pollTimerFires s = (if ec_pollTimer s then wakeCoordinator (s\<lparr>ec_pollTimer := False\<rparr>) else s)"

section \<open>The pump\<close>

definition poolHasRoom :: "pending_command \<Rightarrow> coordinator \<Rightarrow> bool" where
  "poolHasRoom c s =
     (if isTriggerProgram c then ec_activeTriggers s < ec_maxTriggers s
      else if isRun c then ec_activeRuns s < ec_maxRuns s
      else ec_activeControls s < ec_maxControls s)"

type_synonym availability = "pending_command \<Rightarrow> int \<Rightarrow> bool"

definition dispatchingTo :: "ident option \<Rightarrow> coordinator \<Rightarrow> int" where
  "dispatchingTo environment s =
     (case environment of
        None \<Rightarrow> 0
      | Some e \<Rightarrow> (case jget (ec_dispatchingRuns s) e of Some n \<Rightarrow> n | None \<Rightarrow> 0))"

definition eligibleAt :: "ident \<Rightarrow> coordinator \<Rightarrow> int" where
  "eligibleAt i s = (case jget (ec_backoff s) i of Some b \<Rightarrow> db_nextEligibleAt b | None \<Rightarrow> 0)"

definition mayStart :: "int \<Rightarrow> availability \<Rightarrow> coordinator \<Rightarrow> pending_command \<Rightarrow> bool" where
  "mayStart now available s c \<longleftrightarrow>
     pc_threadId c \<noteq> None \<and> poolHasRoom c s \<and> pc_id c \<notin> set (ec_dispatchingIds s) \<and>
     (isRun c \<longrightarrow> the (pc_threadId c) \<notin> set (ec_activeThreads s)) \<and>
     eligibleAt (pc_id c) s \<le> now \<and> available c (dispatchingTo (pc_environmentId c) s)"

text \<open>\<open>findIndex\<close> and \<open>splice\<close>: the first that matches, and the rest.\<close>

fun takeFirst :: "('a \<Rightarrow> bool) \<Rightarrow> 'a list \<Rightarrow> ('a \<times> 'a list) option" where
  "takeFirst P [] = None"
| "takeFirst P (x # xs) = (if P x then Some (x, xs) else map_option (\<lambda>(y, ys). (y, x # ys)) (takeFirst P xs))"

definition addDispatching :: "ident option \<Rightarrow> (ident, int) jsmap \<Rightarrow> (ident, int) jsmap" where
  "addDispatching environment m =
     (case environment of None \<Rightarrow> m | Some e \<Rightarrow> jset e ((case jget m e of Some n \<Rightarrow> n | None \<Rightarrow> 0) + 1) m)"

definition dropDispatching :: "ident option \<Rightarrow> (ident, int) jsmap \<Rightarrow> (ident, int) jsmap" where
  "dropDispatching environment m =
     (case environment of
        None \<Rightarrow> m
      | Some e \<Rightarrow>
          (let n = (case jget m e of Some n \<Rightarrow> n | None \<Rightarrow> 1) - 1 in if n > 0 then jset e n m else jdel e m))"

definition addNew :: "'a option \<Rightarrow> 'a list \<Rightarrow> 'a list" where
  "addNew x xs = (case x of None \<Rightarrow> xs | Some y \<Rightarrow> if y \<in> set xs then xs else xs @ [y])"

definition dropOld :: "'a option \<Rightarrow> 'a list \<Rightarrow> 'a list" where
  "dropOld x xs = (case x of None \<Rightarrow> xs | Some y \<Rightarrow> filter (\<lambda>z. z \<noteq> y) xs)"

definition startExecution :: "int \<Rightarrow> pending_command \<Rightarrow> coordinator \<Rightarrow> coordinator" where
  "startExecution bytes c s =
     s\<lparr>ec_queuedIds := dropOld (Some (pc_id c)) (ec_queuedIds s),
       ec_queuedBytes := ec_queuedBytes s - bytes,
       ec_activeTriggers := ec_activeTriggers s + (if isTriggerProgram c then 1 else 0),
       ec_activeRuns := ec_activeRuns s + (if \<not> isTriggerProgram c \<and> isRun c then 1 else 0),
       ec_activeControls := ec_activeControls s + (if \<not> isTriggerProgram c \<and> \<not> isRun c then 1 else 0),
       ec_dispatchingRuns := (if isRun c then addDispatching (pc_environmentId c) (ec_dispatchingRuns s) else ec_dispatchingRuns s),
       ec_dispatchingRunIds := (if isRun c then addNew (pc_runId c) (ec_dispatchingRunIds s) else ec_dispatchingRunIds s),
       ec_activeThreads := (if isRun c then addNew (pc_threadId c) (ec_activeThreads s) else ec_activeThreads s),
       ec_dispatchingIds := addNew (Some (pc_id c)) (ec_dispatchingIds s),
       ec_executions := ec_executions s @ [(c, Claiming)],
       ec_asked := ec_asked s @ [ClaimAsked (pc_id c)]\<rparr>"

definition anyRoom :: "coordinator \<Rightarrow> bool" where
  "anyRoom s \<longleftrightarrow> ec_activeRuns s < ec_maxRuns s \<or> ec_activeControls s < ec_maxControls s \<or> ec_activeTriggers s < ec_maxTriggers s"

lemma takeFirst_shorter: "takeFirst P xs = Some (x, rest) \<Longrightarrow> length rest < length xs"
  by (induction xs arbitrary: rest) (auto split: if_splits)

function pumpLoop :: "int \<Rightarrow> availability \<Rightarrow> coordinator \<Rightarrow> coordinator" where
  "pumpLoop now available s =
     (if \<not> anyRoom s then s
      else case takeFirst (\<lambda>(_, c). mayStart now available s c) (ec_queue s) of
        None \<Rightarrow> s
      | Some ((bytes, c), rest) \<Rightarrow> pumpLoop now available (startExecution bytes c (s\<lparr>ec_queue := rest\<rparr>)))"
  by pat_completeness auto

termination pumpLoop
  by (relation "measure (\<lambda>(_, _, s). length (ec_queue s))") (auto simp: startExecution_def dest: takeFirst_shorter)

declare pumpLoop.simps [simp del]

definition pump :: "int \<Rightarrow> availability \<Rightarrow> coordinator \<Rightarrow> coordinator" where
  "pump now available s = (if ec_controller s \<noteq> Coordinating then s else pumpLoop now available s)"

section \<open>A listing\<close>

definition payloadBytes :: "pending_command \<Rightarrow> int" where
  "payloadBytes c = int (utf8Length (pc_payload c))"

text \<open>Backoff of a command that left the listing is dropped, unless the command is being dispatched or was rejected since the read began.\<close>

definition dropBackoff :: "nat \<Rightarrow> pending_command list \<Rightarrow> coordinator \<Rightarrow> coordinator" where
  "dropBackoff recordedBefore commands s =
     s\<lparr>ec_backoff := filter (\<lambda>(i, b). i \<in> pc_id ` set commands \<or> i \<in> set (ec_dispatchingIds s) \<or> db_recorded b > recordedBefore)
         (ec_backoff s)\<rparr>"

fun enqueueListed :: "pending_command list \<Rightarrow> coordinator \<Rightarrow> coordinator" where
  "enqueueListed [] s = s"
| "enqueueListed (c # cs) s =
     (if pc_id c \<in> set (ec_queuedIds s) then enqueueListed cs s
      else if int (length (ec_queue s)) \<ge> ec_maxQueuedCommands s \<or> ec_queuedBytes s + payloadBytes c > ec_maxQueuedBytes s then s
      else enqueueListed cs (s\<lparr>ec_queue := ec_queue s @ [(payloadBytes c, c)], ec_queuedIds := ec_queuedIds s @ [pc_id c],
             ec_queuedBytes := ec_queuedBytes s + payloadBytes c\<rparr>))"

text \<open>The listing came back, or failed: then the pass has nothing left to do.\<close>

definition settleListing :: "int \<Rightarrow> availability \<Rightarrow> pending_command list option \<Rightarrow> coordinator \<Rightarrow> coordinator" where
  "settleListing now available answer s =
     (case ec_listing s of
        None \<Rightarrow> s
      | Some recordedBefore \<Rightarrow>
          (let s1 = s\<lparr>ec_listing := None\<rparr>
           in case answer of
                None \<Rightarrow> s1
              | Some commands \<Rightarrow> pump now available (enqueueListed commands (dropBackoff recordedBefore commands s1))))"

text \<open>The pass settled, with its failure if the listing failed.\<close>

definition settlePass :: "unit option \<Rightarrow> coordinator \<Rightarrow> coordinator" where
  "settlePass failure s =
     (if \<not> wk_running (ec_reads s) \<or> ec_listing s \<noteq> None then s
      else applyWake (wk_passEnds failure (ec_reads s))
        (s\<lparr>ec_stopping := (if ec_stopping s = AwaitingPass then AwaitingIdle else ec_stopping s)\<rparr>))"

section \<open>Executing one command\<close>

definition phaseOf :: "ident \<Rightarrow> coordinator \<Rightarrow> (pending_command \<times> execution_phase) option" where
  "phaseOf i s = find (\<lambda>(c, _). pc_id c = i) (ec_executions s)"

definition setPhase :: "ident \<Rightarrow> execution_phase \<Rightarrow> coordinator \<Rightarrow> coordinator" where
  "setPhase i p s = s\<lparr>ec_executions := map (\<lambda>(c, q). if pc_id c = i then (c, p) else (c, q)) (ec_executions s)\<rparr>"

definition askStore :: "store_call \<Rightarrow> ident \<Rightarrow> coordinator \<Rightarrow> coordinator" where
  "askStore call i s = (setPhase i (Storing call) s)\<lparr>ec_asked := ec_asked s @ [StoreAsked call i]\<rparr>"

datatype claim_answer = ClaimThrew | NotClaimed | TerminalFailure | Claimed

definition settleClaim :: "ident \<Rightarrow> claim_answer \<Rightarrow> coordinator \<Rightarrow> coordinator" where
  "settleClaim i answer s =
     (case phaseOf i s of
        Some (c, Claiming) \<Rightarrow>
          (case answer of
             ClaimThrew \<Rightarrow> setPhase i (Executed False) s
           | NotClaimed \<Rightarrow> setPhase i (Executed True) s
           | TerminalFailure \<Rightarrow> askStore FailCommand i s
           | Claimed \<Rightarrow> (setPhase i Dispatching s)\<lparr>ec_asked := ec_asked s @ [DispatchAsked i]\<rparr>)
      | _ \<Rightarrow> s)"

definition settleDispatch :: "ident \<Rightarrow> thrown_error option \<Rightarrow> coordinator \<Rightarrow> coordinator" where
  "settleDispatch i thrown s =
     (case phaseOf i s of
        Some (c, Dispatching) \<Rightarrow>
          (case thrown of
             None \<Rightarrow> setPhase i (Executed True) (s\<lparr>ec_backoff := jdel i (ec_backoff s)\<rparr>)
           | Some e \<Rightarrow>
               (let d = normalizeDispatchError e;
                    resendable = (d = UncertainDispatch \<and> isResendableControlCommand (pc_type c))
                in if d = RetryDispatch \<or> resendable then askStore RetryCommand i s
                   else if d = FailedDispatch then askStore FailCommand i s
                   else if pc_type c = ''run.steer'' then askStore MarkSteerUnknown i s
                   else setPhase i (Executed True) s))
      | _ \<Rightarrow> s)"

definition dispatchBackoffBaseMs :: int where
  "dispatchBackoffBaseMs = 1000"

definition dispatchBackoffMaxMs :: int where
  "dispatchBackoffMaxMs = 30000"

definition backOff :: "int \<Rightarrow> ident \<Rightarrow> coordinator \<Rightarrow> coordinator" where
  "backOff now i s =
     (let entry = (case jget (ec_backoff s) i of Some b \<Rightarrow> b | None \<Rightarrow> \<lparr>db_attempts = 0, db_nextEligibleAt = 0, db_recorded = 0\<rparr>)
      in s\<lparr>ec_backoffRecords := Suc (ec_backoffRecords s),
           ec_backoff := jset i \<lparr>db_attempts = Suc (db_attempts entry),
             db_nextEligibleAt = now + min (dispatchBackoffBaseMs * 2 ^ db_attempts entry) dispatchBackoffMaxMs,
             db_recorded = Suc (ec_backoffRecords s)\<rparr> (ec_backoff s)\<rparr>)"

text \<open>A rejected store call ends the execution without a wake; a committed retry records its backoff.\<close>

definition settleStore :: "int \<Rightarrow> ident \<Rightarrow> bool \<Rightarrow> coordinator \<Rightarrow> coordinator" where
  "settleStore now i ok s =
     (case phaseOf i s of
        Some (c, Storing call) \<Rightarrow>
          if \<not> ok then setPhase i (Executed False) s
          else setPhase i (Executed True) (if call = RetryCommand then backOff now i s else s)
      | _ \<Rightarrow> s)"

definition endExecution :: "pending_command \<Rightarrow> coordinator \<Rightarrow> coordinator" where
  "endExecution c s =
     s\<lparr>ec_activeTriggers := ec_activeTriggers s - (if isTriggerProgram c then 1 else 0),
       ec_activeRuns := ec_activeRuns s - (if \<not> isTriggerProgram c \<and> isRun c then 1 else 0),
       ec_activeControls := ec_activeControls s - (if \<not> isTriggerProgram c \<and> \<not> isRun c then 1 else 0),
       ec_dispatchingRuns := (if isRun c then dropDispatching (pc_environmentId c) (ec_dispatchingRuns s) else ec_dispatchingRuns s),
       ec_dispatchingRunIds := (if isRun c then dropOld (pc_runId c) (ec_dispatchingRunIds s) else ec_dispatchingRunIds s),
       ec_activeThreads := (if isRun c then dropOld (pc_threadId c) (ec_activeThreads s) else ec_activeThreads s),
       ec_dispatchingIds := dropOld (Some (pc_id c)) (ec_dispatchingIds s),
       ec_executions := filter (\<lambda>(d, _). pc_id d \<noteq> pc_id c) (ec_executions s)\<rparr>"

text \<open>The \<open>finally\<close> of an execution: its slots are given back, the queue is pumped and the next poll is asked for.\<close>

definition finishExecution :: "int \<Rightarrow> availability \<Rightarrow> ident \<Rightarrow> coordinator \<Rightarrow> coordinator" where
  "finishExecution now available i s =
     (case phaseOf i s of
        Some (c, Executed wakeImmediately) \<Rightarrow>
          (let s1 = pump now available (endExecution c s)
           in if wakeImmediately then wakeCoordinator s1 else schedulePoll s1)
      | _ \<Rightarrow> s)"

section \<open>Stopping\<close>

definition stopCoordinator :: "coordinator \<Rightarrow> coordinator" where
  "stopCoordinator s =
     (if ec_stopping s \<noteq> NotStopping then s
      else s\<lparr>ec_controller := (if ec_controller s = NoController then NoController else CoordinatorAborted), ec_pollTimer := False,
             ec_reads := wk_stop (ec_reads s),
             ec_stopping := (if wk_running (ec_reads s) then AwaitingPass else AwaitingIdle)\<rparr>)"

definition finishStop :: "coordinator \<Rightarrow> coordinator" where
  "finishStop s =
     (if ec_stopping s \<noteq> AwaitingIdle \<or> ec_activeRuns s > 0 \<or> ec_activeControls s > 0 \<or> ec_activeTriggers s > 0 then s
      else s\<lparr>ec_queue := [], ec_queuedIds := [], ec_backoff := [], ec_queuedBytes := 0, ec_controller := NoController,
             ec_stopping := NotStopping\<rparr>)"

definition dispatchingRunIds :: "coordinator \<Rightarrow> ident list" where
  "dispatchingRunIds s = ec_dispatchingRunIds s"

section \<open>Steps\<close>

datatype coordinator_event =
    StartCoordinator
  | WakeCoordinator
  | PollTimer
  | ListingSettles int availability "pending_command list option"
  | PassSettles "unit option"
  | ClaimSettles ident claim_answer
  | DispatchSettles ident "thrown_error option"
  | StoreSettles int ident bool
  | ExecutionEnds int availability ident
  | StopCoordinator
  | StopEnds

fun coordinatorStep :: "coordinator \<Rightarrow> coordinator_event \<Rightarrow> coordinator" where
  "coordinatorStep s StartCoordinator = (case startCoordinator s of Some s1 \<Rightarrow> s1 | None \<Rightarrow> s)"
| "coordinatorStep s WakeCoordinator = wakeCoordinator s"
| "coordinatorStep s PollTimer = pollTimerFires s"
| "coordinatorStep s (ListingSettles now available answer) = settleListing now available answer s"
| "coordinatorStep s (PassSettles failure) = settlePass failure s"
| "coordinatorStep s (ClaimSettles i answer) = settleClaim i answer s"
| "coordinatorStep s (DispatchSettles i thrown) = settleDispatch i thrown s"
| "coordinatorStep s (StoreSettles now i ok) = settleStore now i ok s"
| "coordinatorStep s (ExecutionEnds now available i) = finishExecution now available i s"
| "coordinatorStep s StopCoordinator = stopCoordinator s"
| "coordinatorStep s StopEnds = finishStop s"

end
