(* ===== verification/Dispatch_Slots.thy ===== *)
theory Dispatch_Slots
  imports Execution_Coordinator
begin

text \<open>
  What the execution coordinator keeps to whatever order its polls, claims, dispatches and stops come in: the slots
  it counts are the commands it is executing, no command and no Thread's Run is executed twice at once, its queue is
  bounded, what is ready is started, a rejected command waits its time, and it never stops polling.
\<close>

section \<open>Taking the first that matches\<close>

lemma takeFirst_Some:
  "takeFirst P xs = Some (x, rest) \<Longrightarrow> \<exists>ys zs. xs = ys @ x # zs \<and> rest = ys @ zs \<and> P x"
proof (induction xs arbitrary: rest)
  case (Cons y ys)
  show ?case
  proof (cases "P y")
    case True
    then show ?thesis using Cons.prems by (auto intro: exI [of _ "[]"])
  next
    case False
    then obtain r where r: "takeFirst P ys = Some (x, r)" "rest = y # r" using Cons.prems by auto
    then obtain as bs where "ys = as @ x # bs" "r = as @ bs" "P x" using Cons.IH by blast
    then have "y # ys = (y # as) @ x # bs \<and> rest = (y # as) @ bs \<and> P x" using r by simp
    then show ?thesis by blast
  qed
qed simp

lemma takeFirst_None: "takeFirst P xs = None \<longleftrightarrow> (\<forall>x \<in> set xs. \<not> P x)"
  by (induction xs) auto

section \<open>The slots\<close>

definition commandsOf :: "coordinator \<Rightarrow> pending_command list" where
  "commandsOf s = map fst (ec_executions s)"

text \<open>A Run belongs to one Thread.\<close>

definition runOfThread :: "(ident \<Rightarrow> ident) \<Rightarrow> pending_command \<Rightarrow> bool" where
  "runOfThread T c \<longleftrightarrow> (\<forall>r. isRun c \<and> pc_runId c = Some r \<longrightarrow> pc_threadId c = Some (T r))"

definition dispatchingCount :: "pending_command list \<Rightarrow> ident \<Rightarrow> nat" where
  "dispatchingCount cs e = length (filter (\<lambda>c. isRun c \<and> pc_environmentId c = Some e) cs)"

definition runThreads :: "pending_command list \<Rightarrow> ident list" where
  "runThreads cs = map (\<lambda>c. the (pc_threadId c)) (filter isRun cs)"

definition runIds :: "pending_command list \<Rightarrow> ident list" where
  "runIds cs = List.map_filter pc_runId (filter isRun cs)"

definition isControl :: "pending_command \<Rightarrow> bool" where
  "isControl c \<longleftrightarrow> \<not> isTriggerProgram c \<and> \<not> isRun c"

definition countsMatch :: "(ident, int) jsmap \<Rightarrow> pending_command list \<Rightarrow> bool" where
  "countsMatch m cs \<longleftrightarrow>
     (\<forall>e. jget m e = (if dispatchingCount cs e = 0 then None else Some (int (dispatchingCount cs e))))"

definition slots_inv :: "(ident \<Rightarrow> ident) \<Rightarrow> coordinator \<Rightarrow> bool" where
  "slots_inv T s \<longleftrightarrow>
     distinct (map pc_id (commandsOf s)) \<and> ec_dispatchingIds s = map pc_id (commandsOf s) \<and>
     (\<forall>c \<in> set (commandsOf s). pc_threadId c \<noteq> None \<and> runOfThread T c) \<and>
     ec_activeTriggers s = int (length (filter isTriggerProgram (commandsOf s))) \<and>
     ec_activeRuns s = int (length (filter isRun (commandsOf s))) \<and>
     ec_activeControls s = int (length (filter isControl (commandsOf s))) \<and>
     distinct (runThreads (commandsOf s)) \<and> ec_activeThreads s = runThreads (commandsOf s) \<and>
     distinct (runIds (commandsOf s)) \<and> ec_dispatchingRunIds s = runIds (commandsOf s) \<and>
     countsMatch (ec_dispatchingRuns s) (commandsOf s) \<and>
     ec_activeTriggers s \<le> ec_maxTriggers s \<and> ec_activeRuns s \<le> ec_maxRuns s \<and> ec_activeControls s \<le> ec_maxControls s"

definition dispatchQueue_inv :: "(ident \<Rightarrow> ident) \<Rightarrow> coordinator \<Rightarrow> bool" where
  "dispatchQueue_inv T s \<longleftrightarrow>
     ec_queuedIds s = map (\<lambda>(_, c). pc_id c) (ec_queue s) \<and> distinct (map (\<lambda>(_, c). pc_id c) (ec_queue s)) \<and>
     ec_queuedBytes s = sum_list (map fst (ec_queue s)) \<and>
     (\<forall>(bytes, c) \<in> set (ec_queue s). bytes = payloadBytes c \<and> runOfThread T c) \<and>
     int (length (ec_queue s)) \<le> ec_maxQueuedCommands s \<and> ec_queuedBytes s \<le> ec_maxQueuedBytes s"

lemma kinds_differ: "isRun c \<Longrightarrow> \<not> isTriggerProgram c"
  by (simp add: isRun_def isTriggerProgram_def)

text \<open>What the invariants read.\<close>

definition sameSlots :: "coordinator \<Rightarrow> coordinator \<Rightarrow> bool" where
  "sameSlots s s' \<longleftrightarrow>
     commandsOf s' = commandsOf s \<and> ec_dispatchingIds s' = ec_dispatchingIds s \<and>
     ec_activeTriggers s' = ec_activeTriggers s \<and> ec_activeRuns s' = ec_activeRuns s \<and>
     ec_activeControls s' = ec_activeControls s \<and> ec_activeThreads s' = ec_activeThreads s \<and>
     ec_dispatchingRunIds s' = ec_dispatchingRunIds s \<and> ec_dispatchingRuns s' = ec_dispatchingRuns s \<and>
     ec_maxTriggers s' = ec_maxTriggers s \<and> ec_maxRuns s' = ec_maxRuns s \<and> ec_maxControls s' = ec_maxControls s"

definition sameQueue :: "coordinator \<Rightarrow> coordinator \<Rightarrow> bool" where
  "sameQueue s s' \<longleftrightarrow>
     ec_queue s' = ec_queue s \<and> ec_queuedIds s' = ec_queuedIds s \<and> ec_queuedBytes s' = ec_queuedBytes s \<and>
     ec_maxQueuedCommands s' = ec_maxQueuedCommands s \<and> ec_maxQueuedBytes s' = ec_maxQueuedBytes s"

lemma sameSlots_inv: "slots_inv T s \<Longrightarrow> sameSlots s s' \<Longrightarrow> slots_inv T s'"
  by (simp add: slots_inv_def sameSlots_def)

lemma sameQueue_inv: "dispatchQueue_inv T s \<Longrightarrow> sameQueue s s' \<Longrightarrow> dispatchQueue_inv T s'"
  by (simp add: dispatchQueue_inv_def sameQueue_def)

lemma sameSlots_trans: "sameSlots s t \<Longrightarrow> sameSlots t u \<Longrightarrow> sameSlots s u"
  by (simp add: sameSlots_def)

lemma sameQueue_trans: "sameQueue s t \<Longrightarrow> sameQueue t u \<Longrightarrow> sameQueue s u"
  by (simp add: sameQueue_def)

lemma onWake_same: "sameSlots s (onWake out s)" "sameQueue s (onWake out s)"
  by (auto simp: onWake_def schedulePoll_def sameSlots_def sameQueue_def commandsOf_def split: wake_output.split)

lemma applyWake_same: "sameSlots s (applyWake r s)" "sameQueue s (applyWake r s)"
proof -
  have "sameSlots s (foldl (\<lambda>s out. onWake out s) s outs) \<and> sameQueue s (foldl (\<lambda>s out. onWake out s) s outs)" for s outs
  proof (induction outs arbitrary: s)
    case Nil
    then show ?case by (simp add: sameSlots_def sameQueue_def)
  next
    case (Cons out outs)
    from Cons.IH [of "onWake out s"] show ?case
      using onWake_same [of s out] by (auto intro: sameSlots_trans sameQueue_trans)
  qed
  from this [of "s\<lparr>ec_reads := fst r\<rparr>" "snd r"]
  show "sameSlots s (applyWake r s)" "sameQueue s (applyWake r s)"
    by (simp_all add: applyWake_def sameSlots_def sameQueue_def commandsOf_def)
qed

lemma wakeCoordinator_same: "sameSlots s (wakeCoordinator s)" "sameQueue s (wakeCoordinator s)"
proof -
  have "sameSlots s s" "sameQueue s s" by (simp_all add: sameSlots_def sameQueue_def)
  then show "sameSlots s (wakeCoordinator s)" "sameQueue s (wakeCoordinator s)"
    using applyWake_same [of s] by (simp_all add: wakeCoordinator_def)
qed

lemma schedulePoll_same: "sameSlots s (schedulePoll s)" "sameQueue s (schedulePoll s)"
  by (auto simp: schedulePoll_def sameSlots_def sameQueue_def commandsOf_def)

lemma setPhase_same: "sameSlots s (setPhase i p s)" "sameQueue s (setPhase i p s)"
  by (auto simp: setPhase_def sameSlots_def sameQueue_def commandsOf_def)

section \<open>Starting and ending\<close>

lemma dispatchingCount_snoc:
  "dispatchingCount (cs @ [c]) e = dispatchingCount cs e + (if isRun c \<and> pc_environmentId c = Some e then 1 else 0)"
  by (simp add: dispatchingCount_def)

lemma addDispatching_counts: "countsMatch m cs \<Longrightarrow> isRun c \<Longrightarrow> countsMatch (addDispatching (pc_environmentId c) m) (cs @ [c])"
  by (auto simp: countsMatch_def addDispatching_def dispatchingCount_snoc jget_set split: option.split)

lemma other_counts: "countsMatch m cs \<Longrightarrow> \<not> isRun c \<Longrightarrow> countsMatch m (cs @ [c])"
  by (simp add: countsMatch_def dispatchingCount_snoc)

lemma runIds_snoc: "runIds (cs @ [c]) = runIds cs @ (if isRun c then (case pc_runId c of Some r \<Rightarrow> [r] | None \<Rightarrow> []) else [])"
  by (simp add: runIds_def map_filter_def split: option.split)

lemma runThreads_snoc: "runThreads (cs @ [c]) = runThreads cs @ (if isRun c then [the (pc_threadId c)] else [])"
  by (simp add: runThreads_def)

lemma runId_thread:
  "\<forall>c \<in> set cs. pc_threadId c \<noteq> None \<and> runOfThread T c \<Longrightarrow> r \<in> set (runIds cs) \<Longrightarrow> T r \<in> set (runThreads cs)"
  by (force simp: runIds_def runThreads_def map_filter_def runOfThread_def)

lemma startExecution_slots:
  assumes inv: "slots_inv T s" and may: "mayStart now available s c" and run: "runOfThread T c"
  shows "slots_inv T (startExecution bytes c s)"
proof -
  let ?cs = "commandsOf s" and ?s = "startExecution bytes c s"
  have cs: "commandsOf ?s = ?cs @ [c]" by (simp add: commandsOf_def startExecution_def)
  have new: "pc_id c \<notin> set (map pc_id ?cs)" "pc_threadId c \<noteq> None"
    using may inv by (simp_all add: mayStart_def slots_inv_def)
  have thread: "isRun c \<Longrightarrow> the (pc_threadId c) \<notin> set (runThreads ?cs)"
    using may inv by (simp add: mayStart_def slots_inv_def)
  have runId: "r \<notin> set (runIds ?cs)" if "isRun c" "pc_runId c = Some r" for r
  proof
    assume "r \<in> set (runIds ?cs)"
    then have "T r \<in> set (runThreads ?cs)" using inv runId_thread [of ?cs T r] by (simp add: slots_inv_def)
    moreover have "the (pc_threadId c) = T r" using run that by (simp add: runOfThread_def)
    ultimately show False using thread that by simp
  qed
  have ids: "ec_dispatchingIds ?s = map pc_id (?cs @ [c])" "distinct (map pc_id (?cs @ [c]))"
    using inv new by (auto simp: slots_inv_def startExecution_def addNew_def)
  have threads: "distinct (runThreads (?cs @ [c]))" "ec_activeThreads ?s = runThreads (?cs @ [c])"
    using inv thread new by (auto simp: slots_inv_def startExecution_def addNew_def runThreads_snoc)
  have runs: "distinct (runIds (?cs @ [c]))" "ec_dispatchingRunIds ?s = runIds (?cs @ [c])"
  proof -
    have "distinct (runIds ?cs)" "ec_dispatchingRunIds s = runIds ?cs" using inv by (simp_all add: slots_inv_def)
    then show "distinct (runIds (?cs @ [c]))" "ec_dispatchingRunIds ?s = runIds (?cs @ [c])"
      unfolding runIds_snoc startExecution_def addNew_def using runId by (cases "pc_runId c"; cases "isRun c"; auto)+
  qed
  have counts: "countsMatch (ec_dispatchingRuns ?s) (?cs @ [c])"
    using inv by (simp add: slots_inv_def startExecution_def addDispatching_counts other_counts)
  have room: "ec_activeTriggers ?s = int (length (filter isTriggerProgram (?cs @ [c])))"
    "ec_activeRuns ?s = int (length (filter isRun (?cs @ [c])))"
    "ec_activeControls ?s = int (length (filter isControl (?cs @ [c])))"
    "ec_activeTriggers ?s \<le> ec_maxTriggers ?s" "ec_activeRuns ?s \<le> ec_maxRuns ?s" "ec_activeControls ?s \<le> ec_maxControls ?s"
    using inv may kinds_differ [of c]
    by (auto simp: slots_inv_def mayStart_def poolHasRoom_def startExecution_def isControl_def split: if_splits)
  have known: "\<forall>d \<in> set (?cs @ [c]). pc_threadId d \<noteq> None \<and> runOfThread T d"
    using inv new run by (simp add: slots_inv_def)
  show ?thesis unfolding slots_inv_def cs using ids threads runs counts room known by simp
qed


lemma filter_out: "distinct (xs @ x # ys) \<Longrightarrow> filter (\<lambda>z. z \<noteq> x) (xs @ x # ys) = xs @ ys"
proof -
  assume d: "distinct (xs @ x # ys)"
  have "filter (\<lambda>z. z \<noteq> x) xs = xs" "filter (\<lambda>z. z \<noteq> x) ys = ys" by (rule filter_True; use d in auto)+
  then show ?thesis by simp
qed

lemma phaseOf_split:
  assumes "phaseOf i s = Some (c, p)" "distinct (map pc_id (commandsOf s))"
  shows "\<exists>as bs. commandsOf s = as @ c # bs \<and> commandsOf (endExecution c s) = as @ bs \<and> pc_id c = i"
proof -
  from assms(1) have mem: "(c, p) \<in> set (ec_executions s)" and i: "pc_id c = i"
    by (auto simp: phaseOf_def find_Some_iff dest: nth_mem)
  from split_list [OF mem] obtain xs ys where l: "ec_executions s = xs @ (c, p) # ys" by blast
  have other: "\<forall>d \<in> set (map fst xs) \<union> set (map fst ys). pc_id d \<noteq> pc_id c"
  proof -
    have "distinct (map pc_id (map fst xs) @ pc_id c # map pc_id (map fst ys))"
      using assms(2) l by (simp add: commandsOf_def)
    then have "pc_id c \<notin> set (map pc_id (map fst xs @ map fst ys))" by simp
    then show ?thesis by (metis UnE imageI list.set_map map_append set_append)
  qed
  have "map fst (filter (\<lambda>(d, _). pc_id d \<noteq> pc_id c) zs) = map fst zs" if "\<forall>d \<in> set (map fst zs). pc_id d \<noteq> pc_id c" for zs :: "(pending_command \<times> execution_phase) list"
    using that by (induction zs) auto
  then have "commandsOf (endExecution c s) = map fst xs @ map fst ys"
    using l other by (simp add: commandsOf_def endExecution_def)
  then show ?thesis using l i by (intro exI [of _ "map fst xs"] exI [of _ "map fst ys"]) (simp add: commandsOf_def)
qed

lemma runThreads_append [simp]: "runThreads (as @ bs) = runThreads as @ runThreads bs"
  by (simp add: runThreads_def)

lemma runThreads_Cons: "runThreads (c # cs) = (if isRun c then the (pc_threadId c) # runThreads cs else runThreads cs)"
  by (simp add: runThreads_def)

lemma runIds_append [simp]: "runIds (as @ bs) = runIds as @ runIds bs"
  by (simp add: runIds_def map_filter_def)

lemma runIds_Cons: "runIds (c # cs) = (if isRun c then (case pc_runId c of Some r \<Rightarrow> [r] | None \<Rightarrow> []) else []) @ runIds cs"
  by (simp add: runIds_def map_filter_def split: option.split)

lemma dispatchingCount_split:
  "dispatchingCount (as @ c # bs) e = dispatchingCount (as @ bs) e + (if isRun c \<and> pc_environmentId c = Some e then 1 else 0)"
  by (simp add: dispatchingCount_def)

lemma dropDispatching_counts:
  assumes "countsMatch m (as @ c # bs)" "isRun c"
  shows "countsMatch (dropDispatching (pc_environmentId c) m) (as @ bs)"
  unfolding countsMatch_def
proof
  fix e
  have at: "jget m e = (if dispatchingCount (as @ c # bs) e = 0 then None else Some (int (dispatchingCount (as @ c # bs) e)))" for e
    using assms(1) by (simp add: countsMatch_def)
  show "jget (dropDispatching (pc_environmentId c) m) e =
      (if dispatchingCount (as @ bs) e = 0 then None else Some (int (dispatchingCount (as @ bs) e)))"
    using at [of e] assms(2)
    by (cases "pc_environmentId c") (auto simp: dropDispatching_def dispatchingCount_split jget_set jget_del Let_def)
qed

lemma endExecution_slots:
  assumes inv: "slots_inv T s" and phase: "phaseOf i s = Some (c, p)"
  shows "slots_inv T (endExecution c s)"
proof -
  let ?s = "endExecution c s"
  from phaseOf_split [OF phase] inv obtain as bs
    where cs: "commandsOf s = as @ c # bs" "commandsOf ?s = as @ bs" by (auto simp: slots_inv_def)
  note inv1 = inv [unfolded slots_inv_def cs]
  have ids: "ec_dispatchingIds ?s = map pc_id (as @ bs)"
    using inv1 filter_out [of "map pc_id as" "pc_id c" "map pc_id bs"] by (simp add: endExecution_def dropOld_def)
  have c: "pc_threadId c \<noteq> None" using inv1 by simp
  have threads: "ec_activeThreads ?s = runThreads (as @ bs)"
    using inv1 c filter_out [of "runThreads as" "the (pc_threadId c)" "runThreads bs"]
    unfolding endExecution_def dropOld_def by (cases "isRun c") (auto simp: runThreads_Cons)
  have runs: "ec_dispatchingRunIds ?s = runIds (as @ bs)"
  proof -
    have "ec_dispatchingRunIds s = runIds as @ runIds (c # bs)" "distinct (runIds as @ runIds (c # bs))"
      using inv1 by simp_all
    then show ?thesis using filter_out [of "runIds as" "the (pc_runId c)" "runIds bs"]
      unfolding endExecution_def dropOld_def runIds_Cons by (cases "pc_runId c"; cases "isRun c"; simp)
  qed
  have counts: "countsMatch (ec_dispatchingRuns ?s) (as @ bs)"
  proof (cases "isRun c")
    case True
    then show ?thesis using inv1 dropDispatching_counts by (simp add: endExecution_def)
  next
    case False
    then show ?thesis using inv1 by (simp add: endExecution_def countsMatch_def dispatchingCount_split)
  qed
  have room: "ec_activeTriggers ?s = int (length (filter isTriggerProgram (as @ bs)))"
    "ec_activeRuns ?s = int (length (filter isRun (as @ bs)))" "ec_activeControls ?s = int (length (filter isControl (as @ bs)))"
    "ec_activeTriggers ?s \<le> ec_maxTriggers ?s" "ec_activeRuns ?s \<le> ec_maxRuns ?s" "ec_activeControls ?s \<le> ec_maxControls ?s"
    using inv1 kinds_differ [of c] by (auto simp: endExecution_def isControl_def split: if_splits)
  have rest: "distinct (map pc_id (as @ bs))" "distinct (runThreads (as @ bs))" "distinct (runIds (as @ bs))"
    "\<forall>d \<in> set (as @ bs). pc_threadId d \<noteq> None \<and> runOfThread T d"
  proof -
    have "distinct (runThreads (as @ [c] @ bs))" "distinct (runIds (as @ [c] @ bs))" using inv1 by simp_all
    then show "distinct (runThreads (as @ bs))" "distinct (runIds (as @ bs))"
      unfolding runThreads_append runIds_append distinct_append set_append by blast+
    show "distinct (map pc_id (as @ bs))" "\<forall>d \<in> set (as @ bs). pc_threadId d \<noteq> None \<and> runOfThread T d"
      using inv1 by simp_all
  qed
  show ?thesis unfolding slots_inv_def cs using ids threads runs counts room rest by simp
qed

section \<open>The queue\<close>

lemma startExecution_queue:
  assumes "dispatchQueue_inv T s" "ec_queue s = ys @ (bytes, c) # zs"
  shows "dispatchQueue_inv T (startExecution bytes c (s\<lparr>ec_queue := ys @ zs\<rparr>))"
proof -
  have "0 \<le> payloadBytes c" by (simp add: payloadBytes_def)
  moreover have "filter (\<lambda>z. z \<noteq> pc_id c) (map (\<lambda>(_, c). pc_id c) ys @ pc_id c # map (\<lambda>(_, c). pc_id c) zs) =
      map (\<lambda>(_, c). pc_id c) ys @ map (\<lambda>(_, c). pc_id c) zs"
    by (rule filter_out) (use assms in \<open>simp add: dispatchQueue_inv_def\<close>)
  ultimately show ?thesis using assms by (simp add: dispatchQueue_inv_def startExecution_def dropOld_def)
qed

lemma endExecution_queue: "dispatchQueue_inv T s \<Longrightarrow> dispatchQueue_inv T (endExecution c s)"
  by (simp add: dispatchQueue_inv_def endExecution_def)

lemma pumpLoop_inv: "slots_inv T s \<Longrightarrow> dispatchQueue_inv T s \<Longrightarrow> slots_inv T (pumpLoop now available s) \<and> dispatchQueue_inv T (pumpLoop now available s)"
proof (induction now available s rule: pumpLoop.induct)
  case (1 now available s)
  show ?case
  proof (cases "\<not> anyRoom s \<or> takeFirst (\<lambda>(_, c). mayStart now available s c) (ec_queue s) = None")
    case True
    then have "pumpLoop now available s = s" by (auto simp: pumpLoop.simps [of now available s])
    then show ?thesis using "1.prems" by simp
  next
    case False
    then obtain bytes c rest where t: "takeFirst (\<lambda>(_, c). mayStart now available s c) (ec_queue s) = Some ((bytes, c), rest)"
      and room: "\<not> \<not> anyRoom s" by auto
    let ?s = "s\<lparr>ec_queue := rest\<rparr>"
    from takeFirst_Some [OF t] obtain ys zs where q: "ec_queue s = ys @ (bytes, c) # zs" "rest = ys @ zs"
      and may: "mayStart now available s c" by auto
    have "runOfThread T c" using "1.prems"(2) q by (simp add: dispatchQueue_inv_def)
    moreover have "slots_inv T ?s" using "1.prems"(1) by (rule sameSlots_inv) (simp add: sameSlots_def commandsOf_def)
    moreover have "mayStart now available ?s c"
      using may by (cases "pc_environmentId c") (simp_all add: mayStart_def poolHasRoom_def dispatchingTo_def eligibleAt_def)
    ultimately have "slots_inv T (startExecution bytes c ?s)" by (intro startExecution_slots)
    moreover have "dispatchQueue_inv T (startExecution bytes c ?s)" using startExecution_queue [OF "1.prems"(2) q(1)] q(2) by simp
    ultimately have "slots_inv T (pumpLoop now available (startExecution bytes c ?s)) \<and> dispatchQueue_inv T (pumpLoop now available (startExecution bytes c ?s))"
      using "1.IH" [OF room t refl refl] by blast
    moreover have "pumpLoop now available s = pumpLoop now available (startExecution bytes c ?s)"
      using room t by (simp add: pumpLoop.simps [of now available s])
    ultimately show ?thesis by simp
  qed
qed

lemma pump_inv: "slots_inv T s \<Longrightarrow> dispatchQueue_inv T s \<Longrightarrow> slots_inv T (pump now available s) \<and> dispatchQueue_inv T (pump now available s)"
  by (simp add: pump_def pumpLoop_inv)

lemma enqueueListed_slots: "sameSlots s (enqueueListed cs s)"
proof (induction cs arbitrary: s)
  case Nil
  then show ?case by (simp add: sameSlots_def)
next
  case (Cons c cs)
  have "sameSlots s s" by (simp add: sameSlots_def)
  moreover have "sameSlots s (s\<lparr>ec_queue := a, ec_queuedIds := b, ec_queuedBytes := d\<rparr>)" for a b d
    by (simp add: sameSlots_def commandsOf_def)
  ultimately show ?case using Cons.IH by (auto intro: sameSlots_trans [OF _ Cons.IH])
qed

lemma enqueueListed_queue: "dispatchQueue_inv T s \<Longrightarrow> \<forall>c \<in> set cs. runOfThread T c \<Longrightarrow> dispatchQueue_inv T (enqueueListed cs s)"
proof (induction cs arbitrary: s)
  case (Cons c cs)
  let ?s = "s\<lparr>ec_queue := ec_queue s @ [(payloadBytes c, c)], ec_queuedIds := ec_queuedIds s @ [pc_id c],
             ec_queuedBytes := ec_queuedBytes s + payloadBytes c\<rparr>"
  have "dispatchQueue_inv T ?s"
    if "pc_id c \<notin> set (ec_queuedIds s)" "\<not> (int (length (ec_queue s)) \<ge> ec_maxQueuedCommands s \<or> ec_queuedBytes s + payloadBytes c > ec_maxQueuedBytes s)"
    using Cons.prems that by (auto simp: dispatchQueue_inv_def)
  then show ?case using Cons by auto
qed simp


section \<open>Every step\<close>

definition wellListed :: "(ident \<Rightarrow> ident) \<Rightarrow> coordinator_event \<Rightarrow> bool" where
  "wellListed T e = (case e of ListingSettles now available (Some commands) \<Rightarrow> list_all (runOfThread T) commands | _ \<Rightarrow> True)"

definition dispatch_inv :: "(ident \<Rightarrow> ident) \<Rightarrow> coordinator \<Rightarrow> bool" where
  "dispatch_inv T s \<longleftrightarrow> slots_inv T s \<and> dispatchQueue_inv T s"

definition sameWork :: "coordinator \<Rightarrow> coordinator \<Rightarrow> bool" where
  "sameWork s s' \<longleftrightarrow> sameSlots s s' \<and> sameQueue s s'"

lemma sameWork_inv: "dispatch_inv T s \<Longrightarrow> sameWork s s' \<Longrightarrow> dispatch_inv T s'"
  unfolding dispatch_inv_def sameWork_def by (blast intro: sameSlots_inv sameQueue_inv)

lemma sameWork_trans: "sameWork s t \<Longrightarrow> sameWork t u \<Longrightarrow> sameWork s u"
  unfolding sameWork_def by (blast intro: sameSlots_trans sameQueue_trans)

lemma sameWork_refl [simp]: "sameWork s s"
  by (simp add: sameWork_def sameSlots_def sameQueue_def)

lemma sameWork_fields [simp]:
  "sameWork s (s\<lparr>ec_controller := c\<rparr>)" "sameWork s (s\<lparr>ec_pollTimer := b\<rparr>)" "sameWork s (s\<lparr>ec_listing := l\<rparr>)"
  "sameWork s (s\<lparr>ec_stopping := p\<rparr>)" "sameWork s (s\<lparr>ec_backoff := m\<rparr>)" "sameWork s (s\<lparr>ec_asked := a\<rparr>)"
  "sameWork s (s\<lparr>ec_backoffRecords := n, ec_backoff := m\<rparr>)"
  "sameWork s (s\<lparr>ec_controller := c, ec_pollTimer := b, ec_reads := r, ec_stopping := p\<rparr>)"
  by (simp_all add: sameWork_def sameSlots_def sameQueue_def commandsOf_def)

lemma sameWork_steps [simp]:
  "sameWork s (applyWake r s)" "sameWork s (wakeCoordinator s)" "sameWork s (schedulePoll s)" "sameWork s (setPhase i p s)"
  "sameWork s (backOff now i s)" "sameWork s (dropBackoff n cs s)"
  by (simp_all add: sameWork_def applyWake_same wakeCoordinator_same schedulePoll_same setPhase_same)
     (simp_all add: backOff_def dropBackoff_def Let_def sameSlots_def sameQueue_def commandsOf_def)

lemma askStore_same [simp]: "sameWork s (askStore call i s)"
  unfolding askStore_def by (rule sameWork_trans [OF _ sameWork_fields(6)]) simp

lemma settle_same:
  "sameWork s (settleClaim i answer s)" "sameWork s (settleDispatch i thrown s)" "sameWork s (settleStore now i ok s)"
  "sameWork s (settlePass failure s)" "sameWork s (pollTimerFires s)" "sameWork s (stopCoordinator s)"
proof -
  show "sameWork s (settleClaim i answer s)"
    unfolding settleClaim_def
    by (auto split: option.split execution_phase.split claim_answer.split intro: sameWork_trans [OF _ sameWork_fields(6)])
  show "sameWork s (settleDispatch i thrown s)"
    unfolding settleDispatch_def Let_def
    by (auto split: option.split execution_phase.split intro: sameWork_trans [OF sameWork_fields(5) sameWork_steps(4)])
  show "sameWork s (settleStore now i ok s)"
    unfolding settleStore_def
    by (auto split: option.split execution_phase.split intro: sameWork_trans [OF sameWork_steps(5) sameWork_steps(4)])
  show "sameWork s (settlePass failure s)"
    unfolding settlePass_def by (auto intro: sameWork_trans [OF sameWork_fields(4) sameWork_steps(1)])
  show "sameWork s (pollTimerFires s)"
    unfolding pollTimerFires_def by (auto intro: sameWork_trans [OF sameWork_fields(2) sameWork_steps(2)])
  show "sameWork s (stopCoordinator s)" by (simp add: stopCoordinator_def)
qed

lemma pump_keeps: "dispatch_inv T s \<Longrightarrow> dispatch_inv T (pump now available s)"
  by (simp add: dispatch_inv_def pump_inv)

lemma finishExecution_keeps:
  assumes "dispatch_inv T s"
  shows "dispatch_inv T (finishExecution now available i s)"
proof (cases "phaseOf i s")
  case None
  then show ?thesis using assms by (simp add: finishExecution_def)
next
  case (Some r)
  obtain c p where r: "r = (c, p)" by (cases r)
  have "dispatch_inv T (endExecution c s)"
    using assms endExecution_slots [OF _ Some [unfolded r]] endExecution_queue by (simp add: dispatch_inv_def)
  then have "dispatch_inv T (pump now available (endExecution c s))" by (rule pump_keeps)
  then show ?thesis
    using assms Some r sameWork_inv sameWork_steps(2,3) by (auto simp: finishExecution_def Let_def split: execution_phase.split)
qed

lemma settleListing_keeps:
  assumes "dispatch_inv T s" "wellListed T (ListingSettles now available answer)"
  shows "dispatch_inv T (settleListing now available answer s)"
proof (cases "ec_listing s = None \<or> answer = None")
  case True
  have "dispatch_inv T (s\<lparr>ec_listing := None\<rparr>)" using assms(1) sameWork_fields(3) by (rule sameWork_inv)
  then show ?thesis using assms(1) True by (auto simp: settleListing_def split: option.split)
next
  case False
  then obtain n commands where n: "ec_listing s = Some n" "answer = Some commands" by auto
  have "dispatch_inv T (dropBackoff n commands (s\<lparr>ec_listing := None\<rparr>))"
    using assms(1) by (rule sameWork_inv) (rule sameWork_trans [OF sameWork_fields(3) sameWork_steps(6)])
  then have "dispatch_inv T (enqueueListed commands (dropBackoff n commands (s\<lparr>ec_listing := None\<rparr>)))"
    using assms(2) n(2) sameSlots_inv [OF _ enqueueListed_slots] enqueueListed_queue
    by (simp add: dispatch_inv_def wellListed_def list_all_iff)
  then show ?thesis using n by (simp add: settleListing_def pump_keeps)
qed

lemma finishStop_keeps:
  assumes "dispatch_inv T s" "0 \<le> ec_maxQueuedCommands s" "0 \<le> ec_maxQueuedBytes s"
  shows "dispatch_inv T (finishStop s)"
proof -
  let ?s = "s\<lparr>ec_queue := [], ec_queuedIds := [], ec_backoff := [], ec_queuedBytes := 0, ec_controller := NoController,
             ec_stopping := NotStopping\<rparr>"
  have "slots_inv T ?s" using assms(1) by (auto simp: dispatch_inv_def sameSlots_def commandsOf_def intro: sameSlots_inv)
  then show ?thesis using assms by (simp add: finishStop_def dispatch_inv_def dispatchQueue_inv_def)
qed

lemma limits_positive:
  assumes "dispatch_inv T s"
  shows "0 \<le> ec_maxQueuedCommands s" "0 \<le> ec_maxQueuedBytes s"
proof -
  have "0 \<le> sum_list (map fst (ec_queue s))"
    using assms by (intro sum_list_nonneg) (auto simp: dispatch_inv_def dispatchQueue_inv_def payloadBytes_def)
  then show "0 \<le> ec_maxQueuedCommands s" "0 \<le> ec_maxQueuedBytes s" using assms by (auto simp: dispatch_inv_def dispatchQueue_inv_def)
qed

lemma coordinatorStep_keeps:
  assumes "dispatch_inv T s" "wellListed T e"
  shows "dispatch_inv T (coordinatorStep s e)"
proof (cases e)
  case StartCoordinator
  have "sameWork s (wakeCoordinator (s\<lparr>ec_controller := Coordinating\<rparr>))"
    by (rule sameWork_trans [OF sameWork_fields(1) sameWork_steps(2)])
  then show ?thesis using assms(1) StartCoordinator by (auto simp: startCoordinator_def intro: sameWork_inv)
qed (use assms settleListing_keeps finishExecution_keeps finishStop_keeps limits_positive sameWork_inv settle_same sameWork_steps in auto)

interpretation dispatching: guarded_system coordinatorStep "wellListed T" "dispatch_inv T" for T
  by unfold_locales (rule coordinatorStep_keeps)

lemma newCoordinator_inv: "newCoordinator options = Some s \<Longrightarrow> dispatch_inv T s"
  by (auto simp: newCoordinator_def Let_def dispatch_inv_def slots_inv_def dispatchQueue_inv_def commandsOf_def runThreads_def runIds_def
      countsMatch_def dispatchingCount_def map_filter_def split: if_splits)


text \<open>C2: Whatever order polls, claims, dispatches, retries and stops come in: no command is executed twice at once and no
  Thread has two Runs executing; each pool holds exactly as many slots as it has commands executing, within its
  limit; what each environment counts as being dispatched to it is exact; and the Runs reported as being dispatched
  are those of the Run commands executing.
\<close>

theorem dispatch_slots_exact:
  assumes "newCoordinator options = Some s0" "\<forall>e \<in> set es. wellListed T e" "s = foldl coordinatorStep s0 es"
  shows "distinct (map pc_id (commandsOf s)) \<and> distinct (runThreads (commandsOf s)) \<and>
    dispatchingRunIds s = runIds (commandsOf s) \<and>
    ec_activeRuns s = int (length (filter isRun (commandsOf s))) \<and> ec_activeRuns s \<le> ec_maxRuns s \<and>
    ec_activeControls s = int (length (filter isControl (commandsOf s))) \<and> ec_activeControls s \<le> ec_maxControls s \<and>
    ec_activeTriggers s = int (length (filter isTriggerProgram (commandsOf s))) \<and> ec_activeTriggers s \<le> ec_maxTriggers s \<and>
    (\<forall>environment. dispatchingTo (Some environment) s = int (dispatchingCount (commandsOf s) environment))"
proof -
  have "dispatch_inv T s" unfolding assms(3)
    by (rule dispatching.run_inv) (use assms newCoordinator_inv in auto)
  then show ?thesis
    by (auto simp: dispatch_inv_def slots_inv_def dispatchingRunIds_def dispatchingTo_def countsMatch_def)
qed

definition options_ex :: coordinator_options where
  "options_ex = \<lparr>eo_maxConcurrentRuns = 1, eo_maxConcurrentControls = None, eo_maxConcurrentTriggerPrograms = 1,
     eo_maxQueuedBytes = 100, eo_maxQueuedCommands = 10\<rparr>"

definition runCommand_ex :: "ident \<Rightarrow> pending_command" where
  "runCommand_ex i = \<lparr>pc_id = i, pc_type = ''run.execute'', pc_threadId = Some ''t'', pc_environmentId = Some ''e'',
     pc_runId = Some ''r'', pc_payload = [1]\<rparr>"

definition coordinator_ex :: coordinator where
  "coordinator_ex = the (newCoordinator options_ex)"

lemma newCoordinator_ex: "newCoordinator options_ex = Some coordinator_ex"
  by (simp add: coordinator_ex_def newCoordinator_def options_ex_def)

text \<open>Two Runs of a Thread are listed; the first is started, rejected for now and committed as a retry.\<close>

definition rejected_ex :: "coordinator_event list" where
  "rejected_ex = [StartCoordinator, ListingSettles 0 (\<lambda>_ _. True) (Some [runCommand_ex ''a'', runCommand_ex ''b'']), PassSettles None,
     ClaimSettles ''a'' Claimed, DispatchSettles ''a'' (Some (DispatchError RetryDispatch)), StoreSettles 10 ''a'' True]"

lemma rejected_ex_listed: "\<forall>e \<in> set rejected_ex. wellListed (\<lambda>_. ''t'') e"
  by (simp add: rejected_ex_def wellListed_def runOfThread_def runCommand_ex_def)

theorem dispatch_slots_exact_witness:
  "map pc_id (commandsOf (foldl coordinatorStep coordinator_ex rejected_ex)) = [''a''] \<and>
   dispatchingRunIds (foldl coordinatorStep coordinator_ex rejected_ex) = [''r''] \<and>
   ec_activeRuns (foldl coordinatorStep coordinator_ex rejected_ex) = 1"
proof -
  have cs: "commandsOf (foldl coordinatorStep coordinator_ex rejected_ex) = [runCommand_ex ''a'']" by code_simp
  note dispatch_slots_exact [OF newCoordinator_ex rejected_ex_listed refl]
  then show ?thesis unfolding cs by (simp add: runCommand_ex_def runIds_def isRun_def map_filter_def)
qed

text \<open>The queue never holds a command twice, nor more commands or bytes than its limits, and its bytes are counted
  exactly.
\<close>

theorem dispatch_queue_bounded:
  assumes "newCoordinator options = Some s0" "\<forall>e \<in> set es. wellListed T e" "s = foldl coordinatorStep s0 es"
  shows "distinct (map (\<lambda>(_, c). pc_id c) (ec_queue s)) \<and> int (length (ec_queue s)) \<le> ec_maxQueuedCommands s \<and>
    ec_queuedBytes s = (\<Sum>(_, c) \<leftarrow> ec_queue s. payloadBytes c) \<and> ec_queuedBytes s \<le> ec_maxQueuedBytes s"
proof -
  have "dispatch_inv T s" unfolding assms(3)
    by (rule dispatching.run_inv) (use assms newCoordinator_inv in auto)
  then have q: "dispatchQueue_inv T s" by (simp add: dispatch_inv_def)
  have "sum_list (map fst q) = (\<Sum>(_, c) \<leftarrow> q. payloadBytes c)"
    if "\<forall>(bytes, c) \<in> set q. bytes = payloadBytes c \<and> runOfThread T c" for q
    using that by (induction q) auto
  from this [of "ec_queue s"] q have "ec_queuedBytes s = (\<Sum>(_, c) \<leftarrow> ec_queue s. payloadBytes c)"
    unfolding dispatchQueue_inv_def by (elim conjE) (rule trans)
  moreover have "distinct (map (\<lambda>(_, c). pc_id c) (ec_queue s))" "int (length (ec_queue s)) \<le> ec_maxQueuedCommands s"
    "ec_queuedBytes s \<le> ec_maxQueuedBytes s"
    using q unfolding dispatchQueue_inv_def by blast+
  ultimately show ?thesis by blast
qed

theorem dispatch_queue_bounded_witness:
  "ec_queuedBytes (foldl coordinatorStep coordinator_ex rejected_ex) = 1 \<and>
   map (\<lambda>(_, c). pc_id c) (ec_queue (foldl coordinatorStep coordinator_ex rejected_ex)) = [''b'']"
proof -
  have q: "map (\<lambda>(_, c). pc_id c) (ec_queue (foldl coordinatorStep coordinator_ex rejected_ex)) = [''b'']"
    "(\<Sum>(_, c) \<leftarrow> ec_queue (foldl coordinatorStep coordinator_ex rejected_ex). payloadBytes c) = 1" by code_simp+
  from dispatch_queue_bounded [OF newCoordinator_ex rejected_ex_listed refl] show ?thesis by (simp add: q)
qed

section \<open>What is ready is started\<close>

lemma pumpLoop_takes_all: "anyRoom (pumpLoop now available s) \<Longrightarrow> (b, c) \<in> set (ec_queue (pumpLoop now available s)) \<Longrightarrow>
    \<not> mayStart now available (pumpLoop now available s) c"
proof (induction now available s rule: pumpLoop.induct)
  case (1 now available s)
  show ?case
  proof (cases "\<not> anyRoom s \<or> takeFirst (\<lambda>(_, c). mayStart now available s c) (ec_queue s) = None")
    case True
    then have same: "pumpLoop now available s = s" by (auto simp: pumpLoop.simps [of now available s])
    then show ?thesis using "1.prems" True by (auto simp: takeFirst_None)
  next
    case False
    then obtain bytes d rest where t: "takeFirst (\<lambda>(_, c). mayStart now available s c) (ec_queue s) = Some ((bytes, d), rest)"
      and room: "\<not> \<not> anyRoom s" by auto
    then have same: "pumpLoop now available s = pumpLoop now available (startExecution bytes d (s\<lparr>ec_queue := rest\<rparr>))"
      by (simp add: pumpLoop.simps [of now available s])
    show ?thesis using "1.IH" [OF room t refl refl] "1.prems" unfolding same by blast
  qed
qed

lemma mayStart_room: "mayStart now available s c \<Longrightarrow> anyRoom s"
  by (auto simp: mayStart_def poolHasRoom_def anyRoom_def split: if_splits)

lemma pump_takes_all:
  "ec_controller s = Coordinating \<Longrightarrow> (b, c) \<in> set (ec_queue (pump now available s)) \<Longrightarrow> \<not> mayStart now available (pump now available s) c"
  using pumpLoop_takes_all [of now available s b c] mayStart_room [of now available "pumpLoop now available s" c]
  by (auto simp: pump_def)


lemma pumpLoop_controller [simp]:
  "ec_controller (pumpLoop now available s) = ec_controller s" "ec_reads (pumpLoop now available s) = ec_reads s"
  "ec_listing (pumpLoop now available s) = ec_listing s" "ec_pollTimer (pumpLoop now available s) = ec_pollTimer s"
proof -
  have "ec_controller (pumpLoop now available s) = ec_controller s \<and> ec_reads (pumpLoop now available s) = ec_reads s \<and>
    ec_listing (pumpLoop now available s) = ec_listing s \<and> ec_pollTimer (pumpLoop now available s) = ec_pollTimer s"
  proof (induction now available s rule: pumpLoop.induct)
    case (1 now available s)
    show ?case
    proof (cases "\<not> anyRoom s \<or> takeFirst (\<lambda>(_, c). mayStart now available s c) (ec_queue s) = None")
      case True
      then have "pumpLoop now available s = s" by (auto simp: pumpLoop.simps [of now available s])
      then show ?thesis by simp
    next
      case False
      then obtain bytes d rest where t: "takeFirst (\<lambda>(_, c). mayStart now available s c) (ec_queue s) = Some ((bytes, d), rest)"
        and room: "\<not> \<not> anyRoom s" by auto
      then have same: "pumpLoop now available s = pumpLoop now available (startExecution bytes d (s\<lparr>ec_queue := rest\<rparr>))"
        by (simp add: pumpLoop.simps [of now available s])
      show ?thesis using "1.IH" [OF room t refl refl] unfolding same by (simp add: startExecution_def)
    qed
  qed
  then show "ec_controller (pumpLoop now available s) = ec_controller s" "ec_reads (pumpLoop now available s) = ec_reads s"
    "ec_listing (pumpLoop now available s) = ec_listing s" "ec_pollTimer (pumpLoop now available s) = ec_pollTimer s" by blast+
qed

lemma pump_controller [simp]:
  "ec_controller (pump now available s) = ec_controller s" "ec_reads (pump now available s) = ec_reads s"
  "ec_listing (pump now available s) = ec_listing s" "ec_pollTimer (pump now available s) = ec_pollTimer s"
  by (simp_all add: pump_def)

lemma enqueueListed_controller [simp]:
  "ec_controller (enqueueListed cs s) = ec_controller s" "ec_reads (enqueueListed cs s) = ec_reads s"
  "ec_listing (enqueueListed cs s) = ec_listing s" "ec_pollTimer (enqueueListed cs s) = ec_pollTimer s"
  by (induction cs arbitrary: s) auto

text \<open>What decides whether a command may start.\<close>

definition sameReadiness :: "coordinator \<Rightarrow> coordinator \<Rightarrow> bool" where
  "sameReadiness s s' \<longleftrightarrow> sameWork s s' \<and> ec_backoff s' = ec_backoff s"

lemma sameReadiness_mayStart:
  assumes "sameReadiness s s'"
  shows "mayStart now available s' c = mayStart now available s c" "ec_queue s' = ec_queue s"
proof -
  have "dispatchingTo e s' = dispatchingTo e s" "eligibleAt i s' = eligibleAt i s" "poolHasRoom c s' = poolHasRoom c s" for e i
    using assms by (simp_all add: dispatchingTo_def eligibleAt_def poolHasRoom_def sameReadiness_def sameWork_def sameSlots_def
      cong: option.case_cong)
  then show "mayStart now available s' c = mayStart now available s c" "ec_queue s' = ec_queue s"
    using assms by (simp_all add: mayStart_def sameReadiness_def sameWork_def sameSlots_def sameQueue_def)
qed

lemma onWake_keeps: "ec_backoff (onWake out s) = ec_backoff s" "ec_executions (onWake out s) = ec_executions s"
  "ec_asked (onWake out s) = ec_asked s"
  by (auto simp: onWake_def schedulePoll_def split: wake_output.split)

lemma applyWake_keeps: "ec_backoff (applyWake r s) = ec_backoff s" "ec_executions (applyWake r s) = ec_executions s"
  "ec_asked (applyWake r s) = ec_asked s"
proof -
  have "ec_backoff (foldl (\<lambda>s out. onWake out s) s outs) = ec_backoff s \<and>
    ec_executions (foldl (\<lambda>s out. onWake out s) s outs) = ec_executions s \<and>
    ec_asked (foldl (\<lambda>s out. onWake out s) s outs) = ec_asked s" for s outs
    by (induction outs arbitrary: s) (auto simp: onWake_keeps)
  then show "ec_backoff (applyWake r s) = ec_backoff s" "ec_executions (applyWake r s) = ec_executions s"
    "ec_asked (applyWake r s) = ec_asked s" by (simp_all add: applyWake_def)
qed

lemma wake_keeps [simp]:
  "ec_backoff (wakeCoordinator s) = ec_backoff s" "ec_executions (wakeCoordinator s) = ec_executions s"
  "ec_asked (wakeCoordinator s) = ec_asked s"
  "ec_backoff (schedulePoll s) = ec_backoff s" "ec_executions (schedulePoll s) = ec_executions s"
  "ec_asked (schedulePoll s) = ec_asked s"
  by (simp_all add: wakeCoordinator_def applyWake_keeps schedulePoll_def)

text \<open>C36: When a listing came in or an execution ended, no command is left queued that may start: its pool is full, it or its
  Thread's Run is being executed, it waits for its time, or its environment is not available to it.
\<close>

theorem ready_is_started:
  assumes "ec_controller s = Coordinating" "s' = coordinatorStep s e" "(bytes, c) \<in> set (ec_queue s')"
    and "e = ListingSettles now available (Some commands) \<and> ec_listing s \<noteq> None \<or>
      e = ExecutionEnds now available i \<and> (\<exists>d w. phaseOf i s = Some (d, Executed w))"
  shows "\<not> mayStart now available s' c"
  using assms(4)
proof (elim disjE conjE)
  assume e: "e = ListingSettles now available (Some commands)" "ec_listing s \<noteq> None"
  then obtain n where "ec_listing s = Some n" by auto
  then have "s' = pump now available (enqueueListed commands (dropBackoff n commands (s\<lparr>ec_listing := None\<rparr>)))"
    using assms(2) e by (simp add: settleListing_def)
  then show ?thesis using pump_takes_all assms(1,3) by (simp add: dropBackoff_def)
next
  assume e: "e = ExecutionEnds now available i" "\<exists>d w. phaseOf i s = Some (d, Executed w)"
  then obtain d w where d: "phaseOf i s = Some (d, Executed w)" by blast
  let ?p = "pump now available (endExecution d s)"
  have "sameReadiness ?p s'"
    using assms(2) e(1) d by (simp add: finishExecution_def sameReadiness_def Let_def)
  moreover have "ec_controller (endExecution d s) = Coordinating" using assms(1) by (simp add: endExecution_def)
  ultimately show ?thesis using pump_takes_all assms(3) sameReadiness_mayStart by metis
qed

theorem ready_is_started_witness:
  "\<not> mayStart 0 (\<lambda>_ _. True) (foldl coordinatorStep coordinator_ex (take 2 rejected_ex)) (runCommand_ex ''b'')"
proof -
  let ?s = "foldl coordinatorStep coordinator_ex (take 1 rejected_ex)"
  have s: "ec_controller ?s = Coordinating" "ec_listing ?s \<noteq> None" by code_simp+
  have last: "foldl coordinatorStep coordinator_ex (take 2 rejected_ex) = coordinatorStep ?s (rejected_ex ! 1)"
    by (simp add: rejected_ex_def numeral_2_eq_2)
  have queued: "(1, runCommand_ex ''b'') \<in> set (ec_queue (foldl coordinatorStep coordinator_ex (take 2 rejected_ex)))" by code_simp
  show ?thesis
    by (rule ready_is_started [OF s(1) last queued, of 0 "\<lambda>_ _. True" "[runCommand_ex ''a'', runCommand_ex ''b'']" "''a''"])
      (simp add: rejected_ex_def s(2) [unfolded rejected_ex_def, simplified])
qed

section \<open>Polling never stops\<close>

definition polls_inv :: "coordinator \<Rightarrow> bool" where
  "polls_inv s \<longleftrightarrow>
     (ec_controller s = Coordinating \<longrightarrow> wk_running (ec_reads s) \<or> ec_pollTimer s) \<and>
     (ec_listing s \<noteq> None \<longrightarrow> wk_running (ec_reads s))"

definition samePolls :: "coordinator \<Rightarrow> coordinator \<Rightarrow> bool" where
  "samePolls s s' \<longleftrightarrow> ec_controller s' = ec_controller s \<and> ec_reads s' = ec_reads s \<and> ec_listing s' = ec_listing s \<and>
     ec_pollTimer s' = ec_pollTimer s"

lemma samePolls_inv: "polls_inv s \<Longrightarrow> samePolls s s' \<Longrightarrow> polls_inv s'"
  by (simp add: polls_inv_def samePolls_def)

lemma wakeCoordinator_polls:
  assumes "ec_listing s \<noteq> None \<longrightarrow> wk_running (ec_reads s)"
  shows "polls_inv (wakeCoordinator s)"
  using assms by (auto simp: polls_inv_def wakeCoordinator_def applyWake_def wk_wake_def onWake_def)

lemma schedulePoll_polls:
  assumes "ec_listing s \<noteq> None \<longrightarrow> wk_running (ec_reads s)"
  shows "polls_inv (schedulePoll s)"
  using assms by (auto simp: polls_inv_def schedulePoll_def)

lemma setPhase_polls [simp]: "samePolls s (setPhase i p s)" "samePolls s (askStore call i s)"
  by (simp_all add: samePolls_def setPhase_def askStore_def)

lemma settle_polls:
  "samePolls s (settleClaim i answer s)" "samePolls s (settleDispatch i thrown s)" "samePolls s (settleStore now i ok s)"
  by (auto simp: settleClaim_def settleDispatch_def settleStore_def samePolls_def setPhase_def askStore_def backOff_def Let_def
      split: option.split execution_phase.split claim_answer.split)

lemma settlePass_polls:
  assumes "polls_inv s"
  shows "polls_inv (settlePass failure s)"
  using assms
  by (auto simp: polls_inv_def settlePass_def applyWake_def wk_passEnds_def wk_wake_def onWake_def schedulePoll_def Let_def
      split: option.split)

lemma coordinatorStep_polls:
  assumes "polls_inv s"
  shows "polls_inv (coordinatorStep s e)"
proof (cases e)
  case (ExecutionEnds now available i)
  have "ec_listing (endExecution c s) \<noteq> None \<longrightarrow> wk_running (ec_reads (endExecution c s))" for c
    using assms by (simp add: polls_inv_def endExecution_def)
  then have "polls_inv (wakeCoordinator (pump now available (endExecution c s)))"
    "polls_inv (schedulePoll (pump now available (endExecution c s)))" for c
    by (simp_all add: wakeCoordinator_polls schedulePoll_polls)
  then show ?thesis using assms ExecutionEnds
    by (auto simp: finishExecution_def Let_def split: option.split execution_phase.split)
next
  case (ListingSettles now available answer)
  then show ?thesis using assms
    by (auto simp: settleListing_def polls_inv_def dropBackoff_def Let_def split: option.split)
next
  case StartCoordinator
  then show ?thesis using assms wakeCoordinator_polls [of "s\<lparr>ec_controller := Coordinating\<rparr>"]
    by (auto simp: startCoordinator_def polls_inv_def)
next
  case PollTimer
  then show ?thesis using assms wakeCoordinator_polls [of "s\<lparr>ec_pollTimer := False\<rparr>"]
    by (auto simp: pollTimerFires_def polls_inv_def)
next
  case WakeCoordinator
  then show ?thesis using assms wakeCoordinator_polls [of s] by (auto simp: polls_inv_def)
next
  case StopCoordinator
  then show ?thesis using assms by (auto simp: polls_inv_def stopCoordinator_def wk_stop_def)
next
  case StopEnds
  then show ?thesis using assms by (auto simp: polls_inv_def finishStop_def)
qed (use assms settle_polls settlePass_polls samePolls_inv in auto)

interpretation polling: invariant_system coordinatorStep polls_inv
  by unfold_locales (rule coordinatorStep_polls)

text \<open>C18: A coordinator that has been started and not stopped never stops polling: a read of the store is under way or the
  timer of the next one runs, whatever failed, and a listing that is out belongs to a read that is under way.
\<close>

theorem coordinator_keeps_polling:
  assumes "newCoordinator options = Some s0" "s = foldl coordinatorStep s0 es" "ec_controller s = Coordinating"
  shows "(wk_running (ec_reads s) \<or> ec_pollTimer s) \<and> (ec_listing s \<noteq> None \<longrightarrow> wk_running (ec_reads s))"
proof -
  have "polls_inv s0" using assms(1) by (auto simp: newCoordinator_def Let_def polls_inv_def split: if_splits)
  then have "polls_inv s" unfolding assms(2) by (rule polling.run_inv)
  then show ?thesis using assms(3) by (simp add: polls_inv_def)
qed

theorem coordinator_keeps_polling_witness:
  "let s = foldl coordinatorStep coordinator_ex [StartCoordinator, ListingSettles 0 (\<lambda>_ _. True) None, PassSettles (Some ())]
   in ec_controller s = Coordinating \<and> \<not> wk_running (ec_reads s) \<and> ec_pollTimer s"
proof -
  let ?s = "foldl coordinatorStep coordinator_ex [StartCoordinator, ListingSettles 0 (\<lambda>_ _. True) None, PassSettles (Some ())]"
  have "ec_controller ?s = Coordinating" "\<not> wk_running (ec_reads ?s)" by code_simp+
  then show ?thesis using coordinator_keeps_polling [OF newCoordinator_ex refl, of "[StartCoordinator, ListingSettles 0 (\<lambda>_ _. True) None, PassSettles (Some ())]"]
    by (simp add: Let_def)
qed

end
