(* ===== verification/Dispatch_Pacing.thy ===== *)
theory Dispatch_Pacing
  imports Dispatch_Slots
begin

text \<open>
  How the execution coordinator paces a command that was rejected, and how it stops.
\<close>

section \<open>A rejected command waits\<close>





















section \<open>Stopping\<close>




end
