(* ===== verification/Session_Paths.thy ===== *)
theory Session_Paths
  imports Execution_Contexts Cdp_Policy
begin

text \<open>
  What the session router reads of an agent's command before it goes anywhere
  (packages/browser-core/src/session-cdp-router.ts): identifiers, navigation URLs, the files a command may hand to the
  browser, and the editing commands a key press stands for. Paths are those of a machine whose separator is the
  slash. The language's URL parser, and the length of a value's JSON text, are arguments: a value keeps of a number
  only what other checks read.
\<close>

section \<open>Reading a record\<close>

definition readString :: "js_record \<Rightarrow> ident \<Rightarrow> utf16 option" where
  "readString params key = (case given params key of JsText t \<Rightarrow> if length t \<le> 512 then Some t else None | _ \<Rightarrow> None)"

definition requiredString :: "js_record \<Rightarrow> ident \<Rightarrow> utf16 option" where
  "requiredString params key =
     (case given params key of JsText t \<Rightarrow> if length t < 1 \<or> length t > 512 then None else Some t | _ \<Rightarrow> None)"

text \<open>A control character is one code unit.\<close>

definition isControlUnit :: "nat \<Rightarrow> bool" where
  "isControlUnit u \<longleftrightarrow> u < 32 \<or> 127 \<le> u \<and> u < 160"

definition isIdentifier :: "utf16 \<Rightarrow> bool" where
  "isIdentifier t \<longleftrightarrow> 1 \<le> length t \<and> length t \<le> 512 \<and> \<not> list_ex isControlUnit t"

definition isAsciiLetter :: "char \<Rightarrow> bool" where
  "isAsciiLetter c \<longleftrightarrow> c \<in> set ''ABCDEFGHIJKLMNOPQRSTUVWXYZabcdefghijklmnopqrstuvwxyz''"

definition isAsciiWord :: "ident \<Rightarrow> bool" where
  "isAsciiWord t \<longleftrightarrow> (case t of [] \<Rightarrow> False | c # cs \<Rightarrow> isAsciiLetter c \<and> list_all (\<lambda>d. isAsciiLetter d \<or> d \<in> set ''0123456789'') cs)"

text \<open>A domain, a full stop and a name.\<close>

definition isCdpMethod :: "ident \<Rightarrow> bool" where
  "isCdpMethod m \<longleftrightarrow>
     isAsciiWord (takeWhile (\<lambda>c. c \<noteq> CHR ''.'') m) \<and>
     (case dropWhile (\<lambda>c. c \<noteq> CHR ''.'') m of [] \<Rightarrow> False | _ # name \<Rightarrow> isAsciiWord name)"

section \<open>Navigation\<close>

text \<open>What the URL parser gives of a text: protocol, user name and password.\<close>

type_synonym url_parser = "utf16 \<Rightarrow> (utf16 \<times> utf16 \<times> utf16) option"

datatype url_check = UrlSafe | UrlInvalid | UrlForbidden

definition navigationUrlCheck :: "url_parser \<Rightarrow> js_value \<Rightarrow> bool \<Rightarrow> url_check" where
  "navigationUrlCheck parse v allowAboutBlank =
     (if v = JsUndefined \<and> allowAboutBlank then UrlSafe
      else case v of
        JsText t \<Rightarrow>
          if length t < 1 \<or> length t > 16384 then UrlInvalid
          else if allowAboutBlank \<and> t = lit ''about:blank'' then UrlSafe
          else (case parse t of
                  None \<Rightarrow> UrlInvalid
                | Some (protocol, username, password) \<Rightarrow>
                    if protocol \<noteq> lit ''http:'' \<and> protocol \<noteq> lit ''https:'' \<or> username \<noteq> [] \<or> password \<noteq> []
                    then UrlForbidden else UrlSafe)
      | _ \<Rightarrow> UrlInvalid)"

section \<open>Files of the session\<close>

text \<open>The parts between slashes.\<close>

fun pathSegments :: "utf16 \<Rightarrow> utf16 list" where
  "pathSegments [] = [[]]"
| "pathSegments (u # us) =
     (if u = 47 then [] # pathSegments us
      else case pathSegments us of [] \<Rightarrow> [[u]] | s # ss \<Rightarrow> (u # s) # ss)"

text \<open>\<open>path.isAbsolute(p) && path.resolve(p) === p\<close>: from the root, no part empty, a dot or two.\<close>

definition plainSegment :: "utf16 \<Rightarrow> bool" where
  "plainSegment s \<longleftrightarrow> s \<noteq> [] \<and> s \<noteq> lit ''.'' \<and> s \<noteq> lit ''..''"

definition isResolvedPath :: "utf16 \<Rightarrow> bool" where
  "isResolvedPath p \<longleftrightarrow> (case p of [] \<Rightarrow> False | u # us \<Rightarrow> u = 47 \<and> (us = [] \<or> list_all plainSegment (pathSegments us)))"

definition maximumSessionFilesPerCommand :: nat where
  "maximumSessionFilesPerCommand = 64"

definition isSessionFile :: "utf16 \<Rightarrow> js_value \<Rightarrow> bool" where
  "isSessionFile filesRoot v =
     (case v of
        JsText file \<Rightarrow> 0 \<notin> set file \<and> isResolvedPath file \<and> take (length filesRoot + 1) file = filesRoot @ [47]
      | _ \<Rightarrow> False)"

datatype files_check = FilesStaged | FilesInvalid | FilesForbidden

definition sessionFilesCheck :: "js_value \<Rightarrow> utf16 \<Rightarrow> files_check" where
  "sessionFilesCheck v filesRoot =
     (case v of
        JsArray files \<Rightarrow>
          if length files > maximumSessionFilesPerCommand then FilesInvalid
          else if list_all (isSessionFile filesRoot) files then FilesStaged else FilesForbidden
      | _ \<Rightarrow> FilesInvalid)"

section \<open>Editing commands of a key\<close>

definition macEditingCommands :: "(utf16 \<times> utf16) list" where
  "macEditingCommands = map (\<lambda>(k, v). (lit k, lit v))
    [(''4:KeyA'', ''selectAll''), (''4:KeyC'', ''copy''), (''4:KeyX'', ''cut''), (''4:KeyV'', ''paste''), (''4:KeyZ'', ''undo''),
     (''12:KeyZ'', ''redo''), (''4:Backspace'', ''deleteToBeginningOfLine''), (''4:ArrowUp'', ''moveToBeginningOfDocument''),
     (''4:ArrowDown'', ''moveToEndOfDocument''), (''4:ArrowLeft'', ''moveToLeftEndOfLine''),
     (''4:ArrowRight'', ''moveToRightEndOfLine''), (''12:Backspace'', ''deleteToBeginningOfLine''),
     (''12:ArrowUp'', ''moveToBeginningOfDocumentAndModifySelection''),
     (''12:ArrowDown'', ''moveToEndOfDocumentAndModifySelection''),
     (''12:ArrowLeft'', ''moveToLeftEndOfLineAndModifySelection''),
     (''12:ArrowRight'', ''moveToRightEndOfLineAndModifySelection'')]"

definition windowsEditingCodes :: "(int \<times> utf16) list" where
  "windowsEditingCodes =
     [(8, lit ''Backspace''), (37, lit ''ArrowLeft''), (38, lit ''ArrowUp''), (39, lit ''ArrowRight''), (40, lit ''ArrowDown'')]"

text \<open>The low four modifier bits in decimal.\<close>

definition modifierText :: "js_value \<Rightarrow> utf16" where
  "modifierText v =
     (let n = unat (modifierBits v AND 15) in if n < 10 then [48 + n] else [49, 38 + n])"

text \<open>The text a Windows key code stands for; a fraction stands for its whole part.\<close>

definition codeFallback :: "js_value \<Rightarrow> utf16" where
  "codeFallback v =
     (case v of
        JsNumber (Whole i) \<Rightarrow>
          (case map_of windowsEditingCodes i of
             Some name \<Rightarrow> name
           | None \<Rightarrow> if 65 \<le> i \<and> i \<le> 90 then [nat i] else [])
      | JsNumber (Fraction i) \<Rightarrow> if 65 \<le> i \<and> i < 90 then [nat i] else []
      | _ \<Rightarrow> [])"

text \<open>A letter, whose case the flags fold, is its key; the two letters beyond ASCII that fold to one are in no table.\<close>

definition keyCodeText :: "utf16 \<Rightarrow> utf16" where
  "keyCodeText t =
     (case t of
        [u] \<Rightarrow>
          if 97 \<le> u \<and> u \<le> 122 then lit ''Key'' @ [u - 32]
          else if 65 \<le> u \<and> u \<le> 90 then lit ''Key'' @ [u]
          else if u = 0x17f then lit ''KeyS''
          else if u = 0x212a then lit ''Key'' @ [u]
          else t
      | _ \<Rightarrow> t)"

definition editingCommand :: "js_record \<Rightarrow> utf16 option" where
  "editingCommand keys =
     (let candidates = [given keys ''code'', given keys ''key'', JsText (codeFallback (given keys ''windowsVirtualKeyCode''))]
      in List.find (\<lambda>_. True) (List.map_filter (\<lambda>v. case v of
           JsText t \<Rightarrow> map_of macEditingCommands (modifierText (given keys ''modifiers'') @ [58] @ keyCodeText t)
         | _ \<Rightarrow> None) candidates))"

text \<open>What a key event is sent as.\<close>

definition pageKeys :: "js_record \<Rightarrow> js_record" where
  "pageKeys params =
     (let keys = jdel ''nativeVirtualKeyCode'' params
      in if given keys ''commands'' = JsUndefined \<and> pressesKey keys
         then (case editingCommand keys of Some c \<Rightarrow> jset ''commands'' (JsArray [JsText c]) keys | None \<Rightarrow> keys)
         else keys)"

text \<open>An agent's object groups carry a prefix of its own.\<close>

definition agentObjectGroups :: "utf16 \<Rightarrow> js_record \<Rightarrow> js_record" where
  "agentObjectGroups virtualSessionId params =
     (case given params ''objectGroup'' of
        JsText g \<Rightarrow> jset ''objectGroup'' (JsText (lit ''opensteer-agent:'' @ virtualSessionId @ [58] @ g)) params
      | _ \<Rightarrow> params)"

section \<open>Staged files stay in their directory\<close>

lemma pathSegments_ne [simp]: "pathSegments t \<noteq> []"
  by (cases t) (auto split: list.split)




end
