(* ===== verification/Session_Router.thy ===== *)
theory Session_Router
  imports Session_Paths
begin

text \<open>
  The boundary between the agents of the Browser Sessions that share one browser
  (\<open>SessionCdpRouter\<close> of packages/browser-core/src/session-cdp-router.ts): which pages a session owns, which of
  them its agents are attached to, what may be sent to them and which events come back. What runs between two awaits is
  one step; a call that waits for the browser, a page or the session's resolver is kept until that answers. What
  was sent, and what the sessions' listeners were given, is logged. A payload is JSON, so it has a text.
\<close>

section \<open>State\<close>

datatype router_error = BadCommand | RouterConflict | RouterForbidden | RouterNotFound | TooLarge | PageFailure

record router_limits =
  rl_maxCommandBytes :: int
  rl_maxEventBytes :: int
  rl_maxResultBytes :: int
  rl_maxSessions :: nat
  rl_maxTargetsPerSession :: nat

definition defaultRouterLimits :: router_limits where
  "defaultRouterLimits = \<lparr>rl_maxCommandBytes = 432 * 1024, rl_maxEventBytes = 432 * 1024, rl_maxResultBytes = 432 * 1024,
     rl_maxSessions = 64, rl_maxTargetsPerSession = 128\<rparr>"

text \<open>
  The arguments: the bytes of a value's JSON text, the URL parser, and whether a rendering command is within
  \<open>assertBoundedRenderingCommand\<close>, which multiplies numbers a value does not keep.
\<close>

record router_host =
  rh_jsonBytes :: "js_value \<Rightarrow> int"
  rh_parseUrl :: url_parser
  rh_renderingFits :: "ident \<Rightarrow> js_record \<Rightarrow> bool"

record cdp_command =
  cc_method :: ident
  cc_parameters :: js_value
  cc_sessionId :: "utf16 option"

record cdp_event =
  ce_method :: ident
  ce_parameters :: js_record
  ce_sequence :: nat
  ce_sessionId :: "utf16 option"

record attached_channel =
  ac_target :: utf16
  ac_contexts :: inventory
  ac_inventoried :: bool
  ac_runtimeEnabled :: bool
  ac_pageEnabled :: bool

text \<open>\<open>rs_born\<close> tells a session's state from that of one registered later under its name.\<close>

record router_session =
  rs_born :: nat
  rs_channels :: "(utf16, attached_channel) jsmap"
  rs_discoverTargets :: bool
  rs_ledgerDialogEvents :: bool
  rs_filesRoot :: utf16
  rs_nextSequence :: nat
  rs_ownedTargetIds :: "utf16 list"
  rs_rootTargetId :: utf16

text \<open>What a call waits for, with the session and its birth.\<close>

datatype router_wait =
    TargetsListed utf16
  | Passed
  | TargetCreated
  | ChannelOpened utf16
  | TargetClosed utf16
  | TargetResolved
  | Inventoried cdp_command
  | PageAnswered utf16

record router_call =
  rc_session :: utf16
  rc_born :: nat
  rc_wait :: router_wait

datatype router_sent =
    ToBrowser utf16 ident js_record
  | ToPage utf16 utf16 utf16 ident js_record
  | OpenChannel utf16 utf16
  | CloseLateTarget utf16
  | NoteActivity utf16

record session_router =
  sr_limits :: router_limits
  sr_machineClipboardShared :: bool
  sr_owner :: "(utf16, utf16) jsmap"
  sr_sessions :: "(utf16, router_session) jsmap"
  sr_unclaimedPages :: "(utf16, js_record) jsmap"
  sr_closed :: bool
  sr_births :: nat
  sr_calls :: "(nat, router_call) jsmap"
  sr_answers :: "(nat \<times> (router_error + js_value)) list"
  sr_sent :: "router_sent list"
  sr_delivered :: "(utf16 \<times> cdp_event) list"

definition newRouter :: "router_limits \<Rightarrow> bool \<Rightarrow> session_router option" where
  "newRouter limits shared =
     (if rl_maxCommandBytes limits < 1 \<or> rl_maxEventBytes limits < 1 \<or> rl_maxResultBytes limits < 1 \<or>
         rl_maxSessions limits < 1 \<or> rl_maxTargetsPerSession limits < 1 then None
      else Some \<lparr>sr_limits = limits, sr_machineClipboardShared = shared, sr_owner = [], sr_sessions = [],
        sr_unclaimedPages = [], sr_closed = False, sr_births = 0, sr_calls = [], sr_answers = [], sr_sent = [],
        sr_delivered = []\<rparr>)"

definition onSession :: "utf16 \<Rightarrow> (router_session \<Rightarrow> router_session) \<Rightarrow> session_router \<Rightarrow> session_router" where
  "onSession sid f r =
     (case jget (sr_sessions r) sid of None \<Rightarrow> r | Some s \<Rightarrow> r\<lparr>sr_sessions := jset sid (f s) (sr_sessions r)\<rparr>)"

definition onChannel :: "utf16 \<Rightarrow> (attached_channel \<Rightarrow> attached_channel) \<Rightarrow> router_session \<Rightarrow> router_session" where
  "onChannel v f s =
     (case jget (rs_channels s) v of None \<Rightarrow> s | Some a \<Rightarrow> s\<lparr>rs_channels := jset v (f a) (rs_channels s)\<rparr>)"

section \<open>Events\<close>

definition eventJson :: "cdp_event \<Rightarrow> js_value" where
  "eventJson e = JsObject ([(''method'', JsText (lit (ce_method e))), (''parameters'', JsObject (ce_parameters e)),
     (''sequence'', JsNumber (Whole (int (ce_sequence e))))] @
     (case ce_sessionId e of Some v \<Rightarrow> [(''sessionId'', JsText v)] | None \<Rightarrow> []))"

text \<open>An event too large for the transport takes its number and is dropped.\<close>

definition appendEvent :: "router_host \<Rightarrow> utf16 \<Rightarrow> ident \<Rightarrow> js_record \<Rightarrow> utf16 option \<Rightarrow> session_router \<Rightarrow> session_router" where
  "appendEvent host sid m params channel r =
     (case jget (sr_sessions r) sid of
        None \<Rightarrow> r
      | Some s \<Rightarrow>
          (let e = \<lparr>ce_method = m, ce_parameters = params, ce_sequence = rs_nextSequence s, ce_sessionId = channel\<rparr>;
               r1 = onSession sid (\<lambda>s. s\<lparr>rs_nextSequence := rs_nextSequence s + 1\<rparr>) r
           in if rh_jsonBytes host (eventJson e) > rl_maxEventBytes (sr_limits r) then r1
              else r1\<lparr>sr_delivered := sr_delivered r @ [(sid, e)]\<rparr>))"

section \<open>Owning targets\<close>

definition endChannel :: "utf16 \<Rightarrow> router_session \<Rightarrow> router_session" where
  "endChannel v s = s\<lparr>rs_channels := jdel v (rs_channels s)\<rparr>"

definition claimTarget :: "router_host \<Rightarrow> utf16 \<Rightarrow> utf16 \<Rightarrow> session_router \<Rightarrow> router_error + session_router" where
  "claimTarget host sid target r =
     (case jget (sr_sessions r) sid of
        None \<Rightarrow> Inl RouterNotFound
      | Some s \<Rightarrow>
          if jget (sr_owner r) target \<noteq> None \<and> jget (sr_owner r) target \<noteq> Some sid then Inl RouterConflict
          else if length (rs_ownedTargetIds s) \<ge> rl_maxTargetsPerSession (sr_limits r) then Inl RouterConflict
          else
            let r1 = (onSession sid (\<lambda>s. s\<lparr>rs_ownedTargetIds :=
                  (if target \<in> set (rs_ownedTargetIds s) then rs_ownedTargetIds s else rs_ownedTargetIds s @ [target])\<rparr>) r)
                \<lparr>sr_owner := jset target sid (sr_owner r)\<rparr>
            in case jget (sr_unclaimedPages r) target of
                 None \<Rightarrow> Inr r1
               | Some announced \<Rightarrow>
                   (let r2 = r1\<lparr>sr_unclaimedPages := jdel target (sr_unclaimedPages r)\<rparr>
                    in Inr (if rs_discoverTargets s
                            then appendEvent host sid ''Target.targetCreated'' [(''targetInfo'', JsObject announced)] None r2
                            else r2)))"

definition releaseTarget :: "utf16 \<Rightarrow> session_router \<Rightarrow> session_router" where
  "releaseTarget target r =
     (case jget (sr_owner r) target of
        None \<Rightarrow> r
      | Some sid \<Rightarrow>
          onSession sid (\<lambda>s. s\<lparr>rs_ownedTargetIds := filter (\<lambda>t. t \<noteq> target) (rs_ownedTargetIds s),
              rs_channels := filter (\<lambda>(_, a). ac_target a \<noteq> target) (rs_channels s)\<rparr>)
            (r\<lparr>sr_owner := jdel target (sr_owner r)\<rparr>))"

definition registerSession :: "utf16 \<Rightarrow> utf16 \<Rightarrow> utf16 \<Rightarrow> session_router \<Rightarrow> router_error + session_router" where
  "registerSession sid rootTargetId filesRoot r =
     (if sr_closed r then Inl RouterConflict
      else if \<not> isIdentifier sid \<or> \<not> isIdentifier rootTargetId \<or> \<not> isResolvedPath filesRoot then Inl BadCommand
      else if jget (sr_sessions r) sid \<noteq> None then Inl RouterConflict
      else if length (sr_sessions r) \<ge> rl_maxSessions (sr_limits r) then Inl RouterConflict
      else if jget (sr_owner r) rootTargetId \<noteq> None then Inl RouterConflict
      else Inr (r\<lparr>sr_sessions := jset sid \<lparr>rs_born = sr_births r, rs_channels = [], rs_discoverTargets = True,
                   rs_ledgerDialogEvents = False, rs_filesRoot = filesRoot, rs_nextSequence = 1,
                   rs_ownedTargetIds = [rootTargetId], rs_rootTargetId = rootTargetId\<rparr> (sr_sessions r),
                 sr_births := Suc (sr_births r), sr_owner := jset rootTargetId sid (sr_owner r),
                 sr_unclaimedPages := jdel rootTargetId (sr_unclaimedPages r)\<rparr>))"

definition unregisterSession :: "utf16 \<Rightarrow> session_router \<Rightarrow> session_router" where
  "unregisterSession sid r =
     (case jget (sr_sessions r) sid of
        None \<Rightarrow> r
      | Some s \<Rightarrow> r\<lparr>sr_sessions := jdel sid (sr_sessions r),
                    sr_owner := foldl (\<lambda>m t. jdel t m) (sr_owner r) (rs_ownedTargetIds s)\<rparr>)"

definition closeRouter :: "session_router \<Rightarrow> session_router" where
  "closeRouter r =
     (if sr_closed r then r
      else foldl (\<lambda>r sid. unregisterSession sid r) (r\<lparr>sr_closed := True, sr_unclaimedPages := []\<rparr>) (jkeys (sr_sessions r)))"

definition claimPage :: "router_host \<Rightarrow> utf16 \<Rightarrow> utf16 \<Rightarrow> session_router \<Rightarrow> router_error + session_router" where
  "claimPage host sid target r =
     (if sr_closed r then Inl RouterConflict
      else if \<not> isIdentifier target then Inl BadCommand
      else if jget (sr_sessions r) sid = None then Inl RouterNotFound
      else if jget (sr_owner r) target = Some sid then Inr r
      else claimTarget host sid target r)"

definition listOwnedTargets :: "utf16 \<Rightarrow> session_router \<Rightarrow> router_error + utf16 list" where
  "listOwnedTargets sid r =
     (case jget (sr_sessions r) sid of None \<Rightarrow> Inl RouterNotFound | Some s \<Rightarrow> Inr (rs_ownedTargetIds s))"

definition attachedTargetId :: "utf16 \<Rightarrow> utf16 \<Rightarrow> session_router \<Rightarrow> utf16 option" where
  "attachedTargetId sid v r =
     (case jget (sr_sessions r) sid of None \<Rightarrow> None | Some s \<Rightarrow> map_option ac_target (jget (rs_channels s) v))"

section \<open>Events of the browser and of a page\<close>

definition maximumUnclaimedPages :: nat where
  "maximumUnclaimedPages = 256"

definition trackUnclaimedPage :: "ident \<Rightarrow> utf16 \<Rightarrow> js_record \<Rightarrow> session_router \<Rightarrow> session_router" where
  "trackUnclaimedPage m target params r =
     (let info = asRecord (given params ''targetInfo'');
          tracked = (m = ''Target.targetCreated'' \<and> given info ''type'' = JsText (lit ''page'') \<or>
            m = ''Target.targetInfoChanged'' \<and> jget (sr_unclaimedPages r) target \<noteq> None);
          others = jdel target (sr_unclaimedPages r)
      in if \<not> tracked then r\<lparr>sr_unclaimedPages := others\<rparr>
         else let pages = others @ [(target, info)]
              in r\<lparr>sr_unclaimedPages := drop (length pages - maximumUnclaimedPages) pages\<rparr>)"

definition isTargetMethod :: "ident \<Rightarrow> bool" where
  "isTargetMethod m \<longleftrightarrow> take 7 m = ''Target.''"

text \<open>A popup is claimed for its opener's session; a claim that throws ends the handling of the event.\<close>

definition claimPopup :: "router_host \<Rightarrow> utf16 \<Rightarrow> js_record \<Rightarrow> session_router \<Rightarrow> router_error + session_router" where
  "claimPopup host target info r =
     (let parent = (case readString info ''openerId'' of Some p \<Rightarrow> Some p | None \<Rightarrow> readString info ''parentId'')
      in case parent of
           None \<Rightarrow> Inr r
         | Some p \<Rightarrow>
             (case jget (sr_owner r) p of
                None \<Rightarrow> Inr r
              | Some sid \<Rightarrow>
                  (case jget (sr_sessions r) sid of
                     None \<Rightarrow> Inr r
                   | Some s \<Rightarrow>
                       if length (rs_ownedTargetIds s) < rl_maxTargetsPerSession (sr_limits r)
                       then claimTarget host sid target r else Inr r)))"

text \<open>The owner hears of its page, if it listens; a page that nobody owns is remembered.\<close>

definition tellOwner :: "router_host \<Rightarrow> ident \<Rightarrow> utf16 \<Rightarrow> js_record \<Rightarrow> session_router \<Rightarrow> session_router" where
  "tellOwner host m target params r =
     (case jget (sr_owner r) target of
        None \<Rightarrow> trackUnclaimedPage m target params r
      | Some sid \<Rightarrow>
          (case jget (sr_sessions r) sid of
             None \<Rightarrow> trackUnclaimedPage m target params r
           | Some s \<Rightarrow> if rs_discoverTargets s then appendEvent host sid m params None r else r))"

definition eventTarget :: "js_record \<Rightarrow> utf16 option" where
  "eventTarget params =
     (case readString (asRecord (given params ''targetInfo'')) ''targetId'' of
        Some t \<Rightarrow> Some t
      | None \<Rightarrow> readString params ''targetId'')"

definition aboutTarget :: "router_host \<Rightarrow> ident \<Rightarrow> utf16 \<Rightarrow> js_record \<Rightarrow> session_router \<Rightarrow> session_router" where
  "aboutTarget host m target params r =
     (case (if m = ''Target.targetCreated'' then claimPopup host target (asRecord (given params ''targetInfo'')) r else Inr r) of
        Inl _ \<Rightarrow> r
      | Inr r1 \<Rightarrow>
          (let r2 = tellOwner host m target params r1
           in if m = ''Target.targetDestroyed'' then releaseTarget target r2 else r2))"

definition handleBrowserEvent :: "router_host \<Rightarrow> ident \<Rightarrow> js_record \<Rightarrow> session_router \<Rightarrow> session_router" where
  "handleBrowserEvent host m params r =
     (if sr_closed r \<or> \<not> isTargetMethod m then r
      else case eventTarget params of
        None \<Rightarrow> r
      | Some target \<Rightarrow> if target = [] then r else aboutTarget host m target params r)"

definition inMainWorld :: "inventory \<Rightarrow> js_value \<Rightarrow> bool" where
  "inMainWorld ctx v = (case v of JsNumber (Whole i) \<Rightarrow> isMainWorld ctx i | _ \<Rightarrow> False)"

definition admitsAgentEvent :: "inventory \<Rightarrow> ident \<Rightarrow> js_record \<Rightarrow> context_entry option \<Rightarrow> bool" where
  "admitsAgentEvent ctx m params reported =
     (if m = ''Runtime.executionContextCreated'' \<or> m = ''Runtime.executionContextDestroyed''
      then (case reported of Some entry \<Rightarrow> mainWorld entry | None \<Rightarrow> False)
      else if m = ''Runtime.consoleAPICalled'' \<and> \<not> inMainWorld ctx (given params ''executionContextId'') then False
      else if m = ''Runtime.exceptionThrown'' \<and>
        \<not> inMainWorld ctx (given (asRecord (given params ''exceptionDetails'')) ''executionContextId'') then False
      else foreignObjectHandle (JsObject params) ctx MessageSource = None)"

definition isDialogEvent :: "ident \<Rightarrow> bool" where
  "isDialogEvent m \<longleftrightarrow> m = ''Page.javascriptDialogOpening'' \<or> m = ''Page.javascriptDialogClosed''"

text \<open>An event of an attached page: it is observed before anything else, and passed on when the policy admits it.\<close>

definition handlePageEvent :: "router_host \<Rightarrow> utf16 \<Rightarrow> utf16 \<Rightarrow> ident \<Rightarrow> js_record \<Rightarrow> session_router \<Rightarrow> session_router" where
  "handlePageEvent host sid v m params r =
     (case jget (sr_sessions r) sid of
        None \<Rightarrow> r
      | Some s \<Rightarrow>
          (case jget (rs_channels s) v of
             None \<Rightarrow> r
           | Some a \<Rightarrow>
               if rs_ledgerDialogEvents s \<and> isDialogEvent m then r
               else case observe (ac_contexts a) m params of (ctx, reported) \<Rightarrow>
                 (let r1 = onSession sid (onChannel v (\<lambda>a. a\<lparr>ac_contexts := ctx\<rparr>)) r
                  in if take 8 m = ''Runtime.'' \<and> \<not> ac_runtimeEnabled a then r1
                     else if \<not> isAgentPageEvent m \<or> \<not> admitsAgentEvent ctx m params reported then r1
                     else appendEvent host sid m params (Some v) r1)))"

definition useDialogEvents :: "utf16 \<Rightarrow> session_router \<Rightarrow> router_error + session_router" where
  "useDialogEvents sid r =
     (if jget (sr_sessions r) sid = None then Inl RouterNotFound
      else Inr (onSession sid (\<lambda>s. s\<lparr>rs_ledgerDialogEvents := True\<rparr>) r))"

text \<open>What \<open>useDialogEvents\<close> returned, called by the ledger.\<close>

definition ledgerDialog :: "router_host \<Rightarrow> utf16 \<Rightarrow> nat \<Rightarrow> utf16 \<Rightarrow> ident \<Rightarrow> js_record \<Rightarrow> session_router \<Rightarrow> session_router" where
  "ledgerDialog host sid born target m params r =
     (case jget (sr_sessions r) sid of
        None \<Rightarrow> r
      | Some s \<Rightarrow>
          if rs_born s \<noteq> born then r
          else foldl (\<lambda>r (v, a). if ac_target a = target \<and> ac_pageEnabled a then appendEvent host sid m params (Some v) r else r)
                 r (rs_channels s))"

section \<open>Admitting a command\<close>

definition commandParameters :: "cdp_command \<Rightarrow> js_record" where
  "commandParameters c = asRecord (cc_parameters c)"

definition commandJson :: "cdp_command \<Rightarrow> js_value" where
  "commandJson c = JsObject ([(''method'', JsText (lit (cc_method c)))] @
     (if cc_parameters c = JsUndefined then [] else [(''parameters'', cc_parameters c)]) @
     (case cc_sessionId c of Some v \<Rightarrow> [(''sessionId'', JsText v)] | None \<Rightarrow> []))"

definition validateCommand :: "router_host \<Rightarrow> cdp_command \<Rightarrow> int \<Rightarrow> router_error option" where
  "validateCommand host c maxBytes =
     (if \<not> isCdpMethod (cc_method c) then Some BadCommand
      else if (case cc_sessionId c of Some v \<Rightarrow> \<not> isIdentifier v | None \<Rightarrow> False) then Some BadCommand
      else if (case cc_parameters c of JsUndefined \<Rightarrow> False | JsObject _ \<Rightarrow> False | _ \<Rightarrow> True) then Some BadCommand
      else if rh_jsonBytes host (commandJson c) > maxBytes then Some TooLarge
      else None)"

definition urlError :: "url_check \<Rightarrow> router_error option" where
  "urlError c = (case c of UrlSafe \<Rightarrow> None | UrlInvalid \<Rightarrow> Some BadCommand | UrlForbidden \<Rightarrow> Some RouterForbidden)"

definition filesError :: "files_check \<Rightarrow> router_error option" where
  "filesError c = (case c of FilesStaged \<Rightarrow> None | FilesInvalid \<Rightarrow> Some BadCommand | FilesForbidden \<Rightarrow> Some RouterForbidden)"

text \<open>The first refusal of a command to a page, the page's channel being found.\<close>

definition pageCommandError :: "router_host \<Rightarrow> bool \<Rightarrow> utf16 \<Rightarrow> inventory \<Rightarrow> ident \<Rightarrow> js_record \<Rightarrow> router_error option" where
  "pageCommandError host shared filesRoot ctx m params =
     (if agentPageCommandRefusal m params shared \<noteq> None \<or> foreignObjectHandle (JsObject params) ctx CommandSource \<noteq> None
      then Some RouterForbidden
      else
        let url = (if m = ''Page.navigate'' then urlError (navigationUrlCheck (rh_parseUrl host) (given params ''url'') False) else None);
            files = (if m = ''DOM.setFileInputFiles'' then filesError (sessionFilesCheck (given params ''files'') filesRoot)
              else if m = ''Input.dispatchDragEvent'' \<and> given params ''data'' \<noteq> JsUndefined
              then filesError (sessionFilesCheck (orElse (given (asRecord (given params ''data'')) ''files'') (JsArray [])) filesRoot)
              else None)
        in if url \<noteq> None then url
           else if files \<noteq> None then files
           else if \<not> rh_renderingFits host m params then Some BadCommand
           else None)"

definition admitAttachedCommand :: "router_host \<Rightarrow> router_session \<Rightarrow> cdp_command \<Rightarrow> session_router \<Rightarrow> router_error + utf16 \<times> attached_channel" where
  "admitAttachedCommand host s c r =
     (case cc_sessionId c of
        None \<Rightarrow> Inl RouterNotFound
      | Some v \<Rightarrow>
          (case jget (rs_channels s) v of
             None \<Rightarrow> Inl RouterNotFound
           | Some a \<Rightarrow>
               (case pageCommandError host (sr_machineClipboardShared r) (rs_filesRoot s) (ac_contexts a) (cc_method c) (commandParameters c) of
                  Some e \<Rightarrow> Inl e
                | None \<Rightarrow> Inr (v, a))))"

text \<open>For a command the caller applies itself, or whose input channel it keeps.\<close>

definition admitPageCommand :: "router_host \<Rightarrow> utf16 \<Rightarrow> cdp_command \<Rightarrow> session_router \<Rightarrow> router_error + utf16 \<times> attached_channel" where
  "admitPageCommand host sid c r =
     (if sr_closed r then Inl RouterConflict
      else case jget (sr_sessions r) sid of
        None \<Rightarrow> Inl RouterNotFound
      | Some s \<Rightarrow>
          (case validateCommand host c (rl_maxCommandBytes (sr_limits r)) of
             Some e \<Rightarrow> Inl e
           | None \<Rightarrow> admitAttachedCommand host s c r))"

definition createTargetError :: "router_host \<Rightarrow> router_session \<Rightarrow> js_record \<Rightarrow> session_router \<Rightarrow> router_error option" where
  "createTargetError host s params r =
     (if length (rs_ownedTargetIds s) \<ge> rl_maxTargetsPerSession (sr_limits r) then Some RouterConflict
      else urlError (navigationUrlCheck (rh_parseUrl host) (given params ''url'') True))"

definition admitCreateTarget :: "router_host \<Rightarrow> utf16 \<Rightarrow> cdp_command \<Rightarrow> session_router \<Rightarrow> router_error option" where
  "admitCreateTarget host sid c r =
     (if sr_closed r then Some RouterConflict
      else case jget (sr_sessions r) sid of
        None \<Rightarrow> Some RouterNotFound
      | Some s \<Rightarrow>
          (case validateCommand host c (rl_maxCommandBytes (sr_limits r)) of
             Some e \<Rightarrow> Some e
           | None \<Rightarrow> createTargetError host s (commandParameters c) r))"

definition admitPageResult :: "router_host \<Rightarrow> js_value \<Rightarrow> session_router \<Rightarrow> router_error option" where
  "admitPageResult host result r = (if rh_jsonBytes host result > rl_maxResultBytes (sr_limits r) then Some TooLarge else None)"

section \<open>Answering calls\<close>

definition answerCall :: "router_host \<Rightarrow> nat \<Rightarrow> router_error + js_value \<Rightarrow> session_router \<Rightarrow> session_router" where
  "answerCall host k answer r =
     r\<lparr>sr_calls := jdel k (sr_calls r),
       sr_answers := sr_answers r @ [(k, case answer of
          Inl e \<Rightarrow> Inl e
        | Inr result \<Rightarrow> (case admitPageResult host result r of Some e \<Rightarrow> Inl e | None \<Rightarrow> Inr result))]\<rparr>"

definition waitFor :: "nat \<Rightarrow> utf16 \<Rightarrow> nat \<Rightarrow> router_wait \<Rightarrow> session_router \<Rightarrow> session_router" where
  "waitFor k sid born w r = r\<lparr>sr_calls := jset k \<lparr>rc_session = sid, rc_born = born, rc_wait = w\<rparr> (sr_calls r)\<rparr>"

definition sendOut :: "router_sent \<Rightarrow> session_router \<Rightarrow> session_router" where
  "sendOut m r = r\<lparr>sr_sent := sr_sent r @ [m]\<rparr>"

definition owns :: "utf16 \<Rightarrow> utf16 \<Rightarrow> session_router \<Rightarrow> bool" where
  "owns sid target r \<longleftrightarrow> jget (sr_owner r) target = Some sid"

definition activateTarget :: "router_host \<Rightarrow> nat \<Rightarrow> utf16 \<Rightarrow> nat \<Rightarrow> utf16 \<Rightarrow> session_router \<Rightarrow> session_router" where
  "activateTarget host k sid born target r =
     (if \<not> owns sid target r then answerCall host k (Inl RouterForbidden) r else waitFor k sid born TargetResolved r)"

section \<open>Commands about targets\<close>

definition sendTargetCommand :: "router_host \<Rightarrow> nat \<Rightarrow> utf16 \<Rightarrow> router_session \<Rightarrow> cdp_command \<Rightarrow> session_router \<Rightarrow> session_router" where
  "sendTargetCommand host k sid s c r =
     (let m = cc_method c; params = commandParameters c; born = rs_born s; refuse = (\<lambda>e. answerCall host k (Inl e) r)
      in if m = ''Target.getTargets'' then waitFor k sid born (TargetsListed (rs_rootTargetId s)) (sendOut (ToBrowser sid m params) r)
         else if m = ''Target.getBrowserContexts'' then waitFor k sid born Passed (sendOut (ToBrowser sid m params) r)
         else if m = ''Target.getTargetInfo'' then
           (case requiredString params ''targetId'' of
              None \<Rightarrow> refuse BadCommand
            | Some target \<Rightarrow>
                if \<not> owns sid target r then refuse RouterForbidden
                else waitFor k sid born Passed (sendOut (ToBrowser sid m (jset ''targetId'' (JsText target) params)) r))
         else if m = ''Target.createTarget'' then
           (case createTargetError host s params r of
              Some e \<Rightarrow> refuse e
            | None \<Rightarrow> waitFor k sid born TargetCreated (sendOut (ToBrowser sid m params) r))
         else if m = ''Target.attachToTarget'' then
           (case requiredString params ''targetId'' of
              None \<Rightarrow> refuse BadCommand
            | Some target \<Rightarrow>
                if \<not> owns sid target r then refuse RouterForbidden
                else waitFor k sid born (ChannelOpened target) (sendOut (OpenChannel sid target) r))
         else if m = ''Target.detachFromTarget'' then
           (case requiredString params ''sessionId'' of
              None \<Rightarrow> refuse BadCommand
            | Some v \<Rightarrow>
                if jget (rs_channels s) v = None then refuse RouterNotFound
                else answerCall host k (Inr (JsObject [])) (onSession sid (endChannel v) r))
         else if m = ''Target.setDiscoverTargets'' then
           (case given params ''discover'' of
              JsBool discover \<Rightarrow> answerCall host k (Inr (JsObject [])) (onSession sid (\<lambda>s. s\<lparr>rs_discoverTargets := discover\<rparr>) r)
            | _ \<Rightarrow> refuse BadCommand)
         else if m = ''Target.activateTarget'' then
           (case requiredString params ''targetId'' of
              None \<Rightarrow> refuse BadCommand
            | Some target \<Rightarrow> activateTarget host k sid born target r)
         else if m = ''Target.closeTarget'' then
           (case requiredString params ''targetId'' of
              None \<Rightarrow> refuse BadCommand
            | Some target \<Rightarrow>
                if \<not> owns sid target r then refuse RouterForbidden
                else waitFor k sid born (TargetClosed target) (sendOut (ToBrowser sid m (jset ''targetId'' (JsText target) params)) r))
         else refuse RouterForbidden)"

section \<open>Commands to a page\<close>

text \<open>The caller is told of activity before a command that is not an observation.\<close>

definition deliverCommand :: "nat \<Rightarrow> utf16 \<Rightarrow> nat \<Rightarrow> utf16 \<Rightarrow> attached_channel \<Rightarrow> ident \<Rightarrow> js_record \<Rightarrow> session_router \<Rightarrow> session_router" where
  "deliverCommand k sid born v a m params r =
     waitFor k sid born (PageAnswered v) (sendOut (ToPage sid v (ac_target a) m (agentObjectGroups v params))
       (if m \<in> set agentObservationMethods then r else sendOut (NoteActivity (ac_target a)) r))"

text \<open>The contexts a page has, reported to an agent that starts to listen.\<close>

definition reportContexts :: "router_host \<Rightarrow> utf16 \<Rightarrow> utf16 \<Rightarrow> attached_channel \<Rightarrow> session_router \<Rightarrow> session_router" where
  "reportContexts host sid v a r =
     foldl (\<lambda>r entry. appendEvent host sid ''Runtime.executionContextCreated'' [(''context'', JsObject (description entry))] (Some v) r)
       r (filter mainWorld (entries (ac_contexts a)))"

text \<open>What follows the wait for the page's contexts. A key event is admitted again as it will be sent.\<close>

definition sendAdmitted :: "router_host \<Rightarrow> nat \<Rightarrow> utf16 \<Rightarrow> router_session \<Rightarrow> cdp_command \<Rightarrow> session_router \<Rightarrow> session_router" where
  "sendAdmitted host k sid s c r =
     (let m = cc_method c; params = commandParameters c; born = rs_born s;
          done_ok = (\<lambda>r. answerCall host k (Inr (JsObject [])) r)
      in case admitAttachedCommand host s c r of
           Inl e \<Rightarrow> answerCall host k (Inl e) r
         | Inr (v, a) \<Rightarrow>
             if m = ''Page.bringToFront'' then activateTarget host k sid born (ac_target a) r
             else if m = ''Page.enable'' \<or> m = ''Page.disable'' then
               deliverCommand k sid born v a m params (onSession sid (onChannel v (\<lambda>a. a\<lparr>ac_pageEnabled := (m = ''Page.enable'')\<rparr>)) r)
             else if m = ''Runtime.enable'' then
               (if ac_runtimeEnabled a then done_ok r
                else done_ok (reportContexts host sid v a (onSession sid (onChannel v (\<lambda>a. a\<lparr>ac_runtimeEnabled := True\<rparr>)) r)))
             else if m = ''Runtime.disable'' then
               done_ok (onSession sid (onChannel v (\<lambda>a. a\<lparr>ac_runtimeEnabled := False\<rparr>)) r)
             else if m = ''Input.dispatchKeyEvent'' then
               (let keys = pageKeys params
                in case admitAttachedCommand host s (c\<lparr>cc_parameters := JsObject keys\<rparr>) r of
                     Inl e \<Rightarrow> answerCall host k (Inl e) r
                   | Inr _ \<Rightarrow> deliverCommand k sid born v a m keys r)
             else deliverCommand k sid born v a m params r)"

definition sendAttachedCommand :: "router_host \<Rightarrow> nat \<Rightarrow> utf16 \<Rightarrow> router_session \<Rightarrow> cdp_command \<Rightarrow> session_router \<Rightarrow> session_router" where
  "sendAttachedCommand host k sid s c r =
     (case cc_sessionId c of
        None \<Rightarrow> sendAdmitted host k sid s c r
      | Some v \<Rightarrow>
          if jget (rs_channels s) v \<noteq> None \<and> cc_method c \<noteq> ''Page.handleJavaScriptDialog''
          then waitFor k sid (rs_born s) (Inventoried c) r
          else sendAdmitted host k sid s c r)"

definition sendCommand :: "router_host \<Rightarrow> nat \<Rightarrow> utf16 \<Rightarrow> cdp_command \<Rightarrow> session_router \<Rightarrow> session_router" where
  "sendCommand host k sid c r =
     (let refuse = (\<lambda>e. answerCall host k (Inl e) r)
      in if sr_closed r then refuse RouterConflict
         else case jget (sr_sessions r) sid of
           None \<Rightarrow> refuse RouterNotFound
         | Some s \<Rightarrow>
             (case validateCommand host c (rl_maxCommandBytes (sr_limits r)) of
                Some e \<Rightarrow> refuse e
              | None \<Rightarrow>
                  if cc_sessionId c = None \<and> \<not> isTargetMethod (cc_method c) \<and> cc_method c \<noteq> ''Browser.getVersion''
                  then refuse RouterForbidden
                  else if isTargetMethod (cc_method c) then sendTargetCommand host k sid s c r
                  else if cc_sessionId c \<noteq> None then sendAttachedCommand host k sid s c r
                  else waitFor k sid (rs_born s) Passed (sendOut (ToBrowser sid (cc_method c) (commandParameters c)) r)))"

section \<open>Answers\<close>

text \<open>The session of a call, if it is still the one that made it.\<close>

definition sameSession :: "router_call \<Rightarrow> session_router \<Rightarrow> router_session option" where
  "sameSession call r =
     (case jget (sr_sessions r) (rc_session call) of
        None \<Rightarrow> None
      | Some s \<Rightarrow> if rs_born s = rc_born call then Some s else None)"

definition ownedInfos :: "utf16 \<Rightarrow> js_value \<Rightarrow> session_router \<Rightarrow> js_value list" where
  "ownedInfos sid response r =
     filter (\<lambda>info. case readString (asRecord info) ''targetId'' of None \<Rightarrow> False | Some t \<Rightarrow> owns sid t r)
       (case given (asRecord response) ''targetInfos'' of JsArray infos \<Rightarrow> infos | _ \<Rightarrow> [])"

text \<open>The browser answered, or failed with \<open>None\<close>.\<close>

definition browserAnswers :: "router_host \<Rightarrow> nat \<Rightarrow> js_value option \<Rightarrow> session_router \<Rightarrow> session_router" where
  "browserAnswers host k answer r =
     (case jget (sr_calls r) k of
        None \<Rightarrow> r
      | Some call \<Rightarrow>
          (let sid = rc_session call
           in case (rc_wait call, answer) of
                (TargetsListed rootTargetId, Some v) \<Rightarrow>
                  answerCall host k (Inr (JsObject (jset ''targetInfos'' (JsArray (ownedInfos sid v r))
                    (jset ''rootTargetId'' (JsText rootTargetId) (asRecord v))))) r
              | (Passed, Some v) \<Rightarrow> answerCall host k (Inr v) r
              | (TargetCreated, Some v) \<Rightarrow>
                  (case readString (asRecord v) ''targetId'' of
                     None \<Rightarrow> answerCall host k (Inl BadCommand) r
                   | Some target \<Rightarrow>
                       if target = [] then answerCall host k (Inl BadCommand) r
                       else if sameSession call r = None
                       then answerCall host k (Inl RouterNotFound) (sendOut (CloseLateTarget target) r)
                       else (case claimTarget host sid target r of
                               Inl e \<Rightarrow> answerCall host k (Inl e) r
                             | Inr r1 \<Rightarrow> answerCall host k (Inr (JsObject (asRecord v))) r1))
              | (TargetClosed target, Some v) \<Rightarrow> answerCall host k (Inr v) (releaseTarget target r)
              | (TargetsListed rootTargetId, None) \<Rightarrow> answerCall host k (Inl PageFailure) r
              | (Passed, None) \<Rightarrow> answerCall host k (Inl PageFailure) r
              | (TargetCreated, None) \<Rightarrow> answerCall host k (Inl PageFailure) r
              | (TargetClosed target, None) \<Rightarrow> answerCall host k (Inl PageFailure) r
              | _ \<Rightarrow> r))"

text \<open>The backend opened a channel, named \<open>virtual\<close>, or failed.\<close>

definition channelOpens :: "router_host \<Rightarrow> nat \<Rightarrow> utf16 option \<Rightarrow> session_router \<Rightarrow> session_router" where
  "channelOpens host k opened r =
     (case jget (sr_calls r) k of
        None \<Rightarrow> r
      | Some call \<Rightarrow>
          (case rc_wait call of
             ChannelOpened target \<Rightarrow>
               (case opened of
                  None \<Rightarrow> answerCall host k (Inl PageFailure) r
                | Some virtual \<Rightarrow>
                    if sameSession call r = None \<or> \<not> owns (rc_session call) target r
                    then answerCall host k (Inl RouterNotFound) r
                    else answerCall host k (Inr (JsObject [(''sessionId'', JsText virtual)]))
                      (onSession (rc_session call) (\<lambda>s. s\<lparr>rs_channels := jset virtual
                         \<lparr>ac_target = target, ac_contexts = [], ac_inventoried = False, ac_runtimeEnabled = False,
                          ac_pageEnabled = False\<rparr> (rs_channels s)\<rparr>) r))
           | _ \<Rightarrow> r))"

text \<open>The router's own \<open>Runtime.enable\<close> on a channel settled; a failure ends the channel.\<close>

definition inventorySettles :: "utf16 \<Rightarrow> utf16 \<Rightarrow> bool \<Rightarrow> session_router \<Rightarrow> session_router" where
  "inventorySettles sid v ok r =
     onSession sid (if ok then onChannel v (\<lambda>a. a\<lparr>ac_inventoried := True\<rparr>) else endChannel v) r"

text \<open>A command that waited for its page's contexts goes on; when its channel ended it is answered so.\<close>

definition inventoryAwaited :: "router_host \<Rightarrow> nat \<Rightarrow> session_router \<Rightarrow> session_router" where
  "inventoryAwaited host k r =
     (case jget (sr_calls r) k of
        None \<Rightarrow> r
      | Some call \<Rightarrow>
          (case rc_wait call of
             Inventoried c \<Rightarrow>
               (case sameSession call r of
                  None \<Rightarrow> answerCall host k (Inl RouterNotFound) r
                | Some s \<Rightarrow>
                    (case cc_sessionId c of
                       None \<Rightarrow> r
                     | Some v \<Rightarrow>
                         (case jget (rs_channels s) v of
                            None \<Rightarrow> answerCall host k (Inl RouterNotFound) r
                          | Some a \<Rightarrow> if ac_inventoried a then sendAdmitted host k (rc_session call) s c r else r)))
           | _ \<Rightarrow> r))"

definition pageAnswers :: "router_host \<Rightarrow> nat \<Rightarrow> js_value option \<Rightarrow> session_router \<Rightarrow> session_router" where
  "pageAnswers host k answer r =
     (case jget (sr_calls r) k of
        None \<Rightarrow> r
      | Some call \<Rightarrow>
          (case rc_wait call of
             PageAnswered v \<Rightarrow>
               (case (case sameSession call r of None \<Rightarrow> None | Some s \<Rightarrow> jget (rs_channels s) v) of
                  None \<Rightarrow> answerCall host k (Inl RouterNotFound) r
                | Some a \<Rightarrow>
                    (case answer of
                       None \<Rightarrow> answerCall host k (Inl PageFailure) r
                     | Some result \<Rightarrow>
                         if foreignObjectHandle result (ac_contexts a) MessageSource \<noteq> None
                         then answerCall host k (Inl RouterForbidden) r
                         else answerCall host k (Inr result) r))
           | _ \<Rightarrow> r))"

definition targetResolves :: "router_host \<Rightarrow> nat \<Rightarrow> bool \<Rightarrow> session_router \<Rightarrow> session_router" where
  "targetResolves host k exists r =
     (case jget (sr_calls r) k of
        None \<Rightarrow> r
      | Some call \<Rightarrow>
          if rc_wait call = TargetResolved
          then answerCall host k (if exists then Inr (JsObject []) else Inl RouterNotFound) r else r)"

section \<open>Steps\<close>

datatype router_event =
    RegisterSession utf16 utf16 utf16
  | UnregisterSession utf16
  | CloseRouter
  | ClaimPage utf16 utf16
  | UseDialogEvents utf16
  | LedgerDialog utf16 nat utf16 ident js_record
  | BrowserEvent ident js_record
  | PageEvent utf16 utf16 ident js_record
  | SendCommand nat utf16 cdp_command
  | BrowserAnswers nat "js_value option"
  | ChannelOpens nat "utf16 option"
  | InventorySettles utf16 utf16 bool
  | InventoryAwaited nat
  | PageAnswers nat "js_value option"
  | TargetResolves nat bool

text \<open>A call that throws leaves the router as it was.\<close>

definition orThrown :: "session_router \<Rightarrow> router_error + session_router \<Rightarrow> session_router" where
  "orThrown r outcome = (case outcome of Inl _ \<Rightarrow> r | Inr r1 \<Rightarrow> r1)"

fun routerStep :: "router_host \<Rightarrow> session_router \<Rightarrow> router_event \<Rightarrow> session_router" where
  "routerStep host r (RegisterSession sid root files) = orThrown r (registerSession sid root files r)"
| "routerStep host r (UnregisterSession sid) = unregisterSession sid r"
| "routerStep host r CloseRouter = closeRouter r"
| "routerStep host r (ClaimPage sid target) = orThrown r (claimPage host sid target r)"
| "routerStep host r (UseDialogEvents sid) = orThrown r (useDialogEvents sid r)"
| "routerStep host r (LedgerDialog sid born target m params) = ledgerDialog host sid born target m params r"
| "routerStep host r (BrowserEvent m params) = handleBrowserEvent host m params r"
| "routerStep host r (PageEvent sid v m params) = handlePageEvent host sid v m params r"
| "routerStep host r (SendCommand k sid c) = sendCommand host k sid c r"
| "routerStep host r (BrowserAnswers k answer) = browserAnswers host k answer r"
| "routerStep host r (ChannelOpens k opened) = channelOpens host k opened r"
| "routerStep host r (InventorySettles sid v ok) = inventorySettles sid v ok r"
| "routerStep host r (InventoryAwaited k) = inventoryAwaited host k r"
| "routerStep host r (PageAnswers k answer) = pageAnswers host k answer r"
| "routerStep host r (TargetResolves k exists) = targetResolves host k exists r"

end
