(* ===== verification/Router_Ownership.thy ===== *)
theory Router_Ownership
  imports Session_Router
begin

text \<open>
  What the session router keeps to: a page belongs to one session at most, the sessions' lists and the owner map say
  the same, every attached channel drives a page its session owns, and the limits hold.
\<close>

section \<open>Ownership, read from the state\<close>

type_synonym held_map = "(utf16, utf16 list \<times> (utf16 \<times> utf16) list) jsmap"

definition holding :: "router_session \<Rightarrow> utf16 list \<times> (utf16 \<times> utf16) list" where
  "holding s = (rs_ownedTargetIds s, map (\<lambda>(v, a). (v, ac_target a)) (rs_channels s))"

definition holdings :: "session_router \<Rightarrow> held_map" where
  "holdings r = map (\<lambda>(sid, s). (sid, holding s)) (sr_sessions r)"

definition ownedBy :: "held_map \<Rightarrow> utf16 \<Rightarrow> utf16 \<Rightarrow> bool" where
  "ownedBy H sid t \<longleftrightarrow> (case jget H sid of Some x \<Rightarrow> t \<in> set (fst x) | None \<Rightarrow> False)"

definition wellHeld :: "router_limits \<Rightarrow> utf16 list \<times> (utf16 \<times> utf16) list \<Rightarrow> bool" where
  "wellHeld limits x \<longleftrightarrow> distinct (fst x) \<and> length (fst x) \<le> rl_maxTargetsPerSession limits \<and> snd ` set (snd x) \<subseteq> set (fst x)"

definition ownOk :: "router_limits \<Rightarrow> (utf16, utf16) jsmap \<Rightarrow> held_map \<Rightarrow> bool" where
  "ownOk limits owner H \<longleftrightarrow>
     jwf H \<and> length H \<le> rl_maxSessions limits \<and> (\<forall>t sid. jget owner t = Some sid \<longleftrightarrow> ownedBy H sid t) \<and>
     (\<forall>sid x. jget H sid = Some x \<longrightarrow> wellHeld limits x)"

definition own_inv :: "session_router \<Rightarrow> bool" where
  "own_inv r \<longleftrightarrow> ownOk (sr_limits r) (sr_owner r) (holdings r) \<and> 1 \<le> rl_maxTargetsPerSession (sr_limits r) \<and>
     length (sr_unclaimedPages r) \<le> maximumUnclaimedPages"

lemma jget_holdings: "jget (holdings r) sid = map_option holding (jget (sr_sessions r) sid)"
  by (simp add: holdings_def map_of_map)

lemma map_jset: "map (\<lambda>(k, x). (k, g x)) (jset k v m) = jset k (g v) (map (\<lambda>(k, x). (k, g x)) m)"
  by (induction m) auto

lemma map_jdel: "map (\<lambda>(k, x). (k, g x)) (jdel k m) = jdel k (map (\<lambda>(k, x). (k, g x)) m)"
  by (induction m) (auto simp: AList.delete_eq)

lemma holdings_onSession:
  "holdings (onSession sid f r) =
     (case jget (sr_sessions r) sid of None \<Rightarrow> holdings r | Some s \<Rightarrow> jset sid (holding (f s)) (holdings r))"
  by (simp add: holdings_def onSession_def map_jset split: option.split)

lemma onSession_fields [simp]:
  "sr_limits (onSession sid f r) = sr_limits r" "sr_owner (onSession sid f r) = sr_owner r"
  "sr_unclaimedPages (onSession sid f r) = sr_unclaimedPages r" "sr_sent (onSession sid f r) = sr_sent r"
  "sr_delivered (onSession sid f r) = sr_delivered r" "sr_closed (onSession sid f r) = sr_closed r"
  "sr_calls (onSession sid f r) = sr_calls r" "sr_answers (onSession sid f r) = sr_answers r"
  "sr_machineClipboardShared (onSession sid f r) = sr_machineClipboardShared r" "sr_births (onSession sid f r) = sr_births r"
  by (simp_all add: onSession_def split: option.split)

lemma jget_onSession:
  "jget (sr_sessions (onSession sid f r)) x = (if x = sid then map_option f (jget (sr_sessions r) sid) else jget (sr_sessions r) x)"
  by (auto simp: onSession_def jget_set split: option.split)

section \<open>What changes nobody's pages\<close>

definition sameOwners :: "session_router \<Rightarrow> session_router \<Rightarrow> bool" where
  "sameOwners r r' \<longleftrightarrow> sr_limits r' = sr_limits r \<and> sr_owner r' = sr_owner r \<and> holdings r' = holdings r \<and>
     sr_unclaimedPages r' = sr_unclaimedPages r"

lemma sameOwners_refl [simp]: "sameOwners r r"
  by (simp add: sameOwners_def)

lemma sameOwners_trans: "sameOwners a b \<Longrightarrow> sameOwners b c \<Longrightarrow> sameOwners a c"
  by (simp add: sameOwners_def)

lemma sameOwners_inv: "own_inv r \<Longrightarrow> sameOwners r r' \<Longrightarrow> own_inv r'"
  by (simp add: own_inv_def sameOwners_def)

lemma onSession_same: "(\<And>s. holding (f s) = holding s) \<Longrightarrow> sameOwners r (onSession sid f r)"
  by (auto simp: sameOwners_def holdings_onSession jget_holdings intro!: jset_same split: option.split)

lemma onChannel_holding: "(\<And>a. ac_target (f a) = ac_target a) \<Longrightarrow> holding (onChannel v f s) = holding s"
  by (auto simp: onChannel_def holding_def map_jset map_of_map intro!: jset_same split: option.split)

lemma sameOwners_fields [simp]:
  "sameOwners r (r\<lparr>sr_calls := c\<rparr>)" "sameOwners r (r\<lparr>sr_sent := l\<rparr>)" "sameOwners r (r\<lparr>sr_delivered := d\<rparr>)"
  "sameOwners r (r\<lparr>sr_calls := c, sr_answers := a\<rparr>)"
  by (simp_all add: sameOwners_def holdings_def)

lemma appendEvent_same [simp]: "sameOwners r (appendEvent host sid m params v r)"
proof -
  have "sameOwners r (onSession sid (\<lambda>s. s\<lparr>rs_nextSequence := rs_nextSequence s + 1\<rparr>) r)"
    by (rule onSession_same) (simp add: holding_def)
  moreover from this have "sameOwners r ((onSession sid (\<lambda>s. s\<lparr>rs_nextSequence := rs_nextSequence s + 1\<rparr>) r)\<lparr>sr_delivered := d\<rparr>)" for d
    by (rule sameOwners_trans) simp
  ultimately show ?thesis by (simp add: appendEvent_def Let_def split: option.split)
qed

lemma answer_same [simp]: "sameOwners r (answerCall host k answer r)" "sameOwners r (waitFor k sid born w r)" "sameOwners r (sendOut m r)"
  by (simp_all add: answerCall_def waitFor_def sendOut_def)

lemma foldl_sameOwners: "(\<And>r x. sameOwners r (g r x)) \<Longrightarrow> sameOwners r (foldl g r xs)"
  by (induction xs arbitrary: r) (auto intro: sameOwners_trans)

lemma then_answer [intro]: "sameOwners r r1 \<Longrightarrow> sameOwners r (answerCall host k answer r1)"
  "sameOwners r r1 \<Longrightarrow> sameOwners r (waitFor k sid born w r1)" "sameOwners r r1 \<Longrightarrow> sameOwners r (sendOut m r1)"
  "sameOwners r r1 \<Longrightarrow> sameOwners r (appendEvent host sid e params v r1)"
  by (auto intro: sameOwners_trans)

lemma activateTarget_same: "sameOwners r (activateTarget host k sid born target r)"
  by (simp add: activateTarget_def)

lemma deliverCommand_same: "sameOwners r r1 \<Longrightarrow> sameOwners r (deliverCommand k sid born v a m params r1)"
  by (auto simp: deliverCommand_def)

lemma reportContexts_same: "sameOwners r (reportContexts host sid v a r)"
  unfolding reportContexts_def by (rule foldl_sameOwners) simp

lemma channel_same:
  "sameOwners r (onSession sid (onChannel v (\<lambda>a. a\<lparr>ac_pageEnabled := b\<rparr>)) r)"
  "sameOwners r (onSession sid (onChannel v (\<lambda>a. a\<lparr>ac_runtimeEnabled := b\<rparr>)) r)"
  "sameOwners r (onSession sid (onChannel v (\<lambda>a. a\<lparr>ac_inventoried := b\<rparr>)) r)"
  "sameOwners r (onSession sid (onChannel v (\<lambda>a. a\<lparr>ac_contexts := ctx\<rparr>)) r)"
  by (rule onSession_same, rule onChannel_holding, simp)+

lemma sendAdmitted_same: "sameOwners r (sendAdmitted host k sid s c r)"
proof -
  have "sameOwners r (reportContexts host sid v a (onSession sid (onChannel v (\<lambda>a. a\<lparr>ac_runtimeEnabled := b\<rparr>)) r))" for v a b
    by (rule sameOwners_trans [OF channel_same(2) reportContexts_same])
  then show ?thesis unfolding sendAdmitted_def Let_def
    by (auto split: sum.split intro!: activateTarget_same deliverCommand_same channel_same)
qed

lemma handlePageEvent_same: "sameOwners r (handlePageEvent host sid v m params r)"
  unfolding handlePageEvent_def Let_def by (auto split: option.split prod.split intro!: channel_same then_answer)

lemma ledgerDialog_same: "sameOwners r (ledgerDialog host sid born target m params r)"
  unfolding ledgerDialog_def by (auto split: option.split intro!: foldl_sameOwners)

section \<open>What changes them\<close>

lemma ownOkI:
  assumes "jwf H" "length H \<le> rl_maxSessions limits" "\<And>t sid. jget owner t = Some sid \<longleftrightarrow> ownedBy H sid t"
    "\<And>sid x. jget H sid = Some x \<Longrightarrow> wellHeld limits x"
  shows "ownOk limits owner H"
  using assms unfolding ownOk_def by blast

lemma ownOkD:
  assumes "ownOk limits owner H"
  shows "jwf H" "length H \<le> rl_maxSessions limits" "jget owner t = Some sid \<longleftrightarrow> ownedBy H sid t"
    "jget H sid = Some x \<Longrightarrow> wellHeld limits x"
  using assms unfolding ownOk_def by blast+

lemma ownedBy_set: "ownedBy (jset sid x H) y t = (if y = sid then t \<in> set (fst x) else ownedBy H y t)"
  by (simp add: ownedBy_def jget_set)

lemma ownedBy_del: "ownedBy (jdel sid H) y t = (y \<noteq> sid \<and> ownedBy H y t)"
  by (simp add: ownedBy_def jget_del)

lemma ownedBy_get: "jget H sid = Some x \<Longrightarrow> ownedBy H sid t \<longleftrightarrow> t \<in> set (fst x)"
  by (simp add: ownedBy_def)

lemma jset_length_same: "jget H sid = Some x \<Longrightarrow> length (jset sid y H) = length H"
  by (rule jset_length_mem) (auto dest: map_of_SomeD intro: rev_image_eqI)

text \<open>Replacing what one session holds, with the owner map to match.\<close>

lemma ownOk_replace:
  assumes ok: "ownOk limits owner H" and s: "jget H sid = Some x" and y: "wellHeld limits y"
    and "\<And>t z. jget owner' t = Some z \<longleftrightarrow> (if z = sid then t \<in> set (fst y) else ownedBy H z t)"
  shows "ownOk limits owner' (jset sid y H)"
proof (rule ownOkI)
  show "jwf (jset sid y H)" using ownOkD(1) [OF ok] by simp
  show "length (jset sid y H) \<le> rl_maxSessions limits" using ownOkD(2) [OF ok] jset_length_same [OF s] by simp
  show "jget owner' t = Some z \<longleftrightarrow> ownedBy (jset sid y H) z t" for t z using assms(4) by (simp add: ownedBy_set)
  show "wellHeld limits z" if "jget (jset sid y H) a = Some z" for a z
    using that y ownOkD(4) [OF ok] by (auto simp: jget_set split: if_splits)
qed

lemma ownOk_claim:
  assumes ok: "ownOk limits owner H" and s: "jget H sid = Some (ts, cs)"
    and free: "jget owner t = None \<or> jget owner t = Some sid" and room: "length ts < rl_maxTargetsPerSession limits"
  shows "ownOk limits (jset t sid owner) (jset sid (if t \<in> set ts then ts else ts @ [t], cs) H)"
proof (rule ownOk_replace [OF ok s])
  show "wellHeld limits (if t \<in> set ts then ts else ts @ [t], cs)"
    using ownOkD(4) [OF ok s] room by (auto simp: wellHeld_def)
  fix x z
  show "jget (jset t sid owner) x = Some z \<longleftrightarrow>
      (if z = sid then x \<in> set (fst (if t \<in> set ts then ts else ts @ [t], cs)) else ownedBy H z x)"
    using ownOkD(3) [OF ok, of x z] ownedBy_get [OF s, of x] free
    by (cases "x = t"; cases "z = sid") (auto simp: jget_set)
qed

lemma ownOk_release:
  assumes ok: "ownOk limits owner H" and t: "jget owner t = Some sid" and s: "jget H sid = Some (ts, cs)"
  shows "ownOk limits (jdel t owner) (jset sid (filter (\<lambda>x. x \<noteq> t) ts, filter (\<lambda>(v, x). x \<noteq> t) cs) H)"
proof (rule ownOk_replace [OF ok s])
  show "wellHeld limits (filter (\<lambda>x. x \<noteq> t) ts, filter (\<lambda>(v, x). x \<noteq> t) cs)"
    using ownOkD(4) [OF ok s] by (auto simp: wellHeld_def intro: le_trans [OF length_filter_le])
  fix x z
  show "jget (jdel t owner) x = Some z \<longleftrightarrow> (if z = sid then x \<in> set (fst (filter (\<lambda>x. x \<noteq> t) ts, filter (\<lambda>(v, x). x \<noteq> t) cs)) else ownedBy H z x)"
    using ownOkD(3) [OF ok, of x z] ownedBy_get [OF s, of x] t
    by (cases "x = t"; cases "z = sid") (auto simp: jget_del)
qed

lemma ownOk_register:
  assumes ok: "ownOk limits owner H" and new: "jget H sid = None" "jget owner t = None" "length H < rl_maxSessions limits"
    and room: "1 \<le> rl_maxTargetsPerSession limits"
  shows "ownOk limits (jset t sid owner) (jset sid ([t], []) H)"
proof (rule ownOkI)
  have "sid \<notin> fst ` set H" using new(1) by (simp add: map_of_eq_None_iff)
  then show "length (jset sid ([t], []) H) \<le> rl_maxSessions limits" using new(3) by (simp add: jset_fresh)
  show "jwf (jset sid ([t], []) H)" using ownOkD(1) [OF ok] by simp
  show "jget (jset t sid owner) x = Some z \<longleftrightarrow> ownedBy (jset sid ([t], []) H) z x" for x z
    using ownOkD(3) [OF ok, of x z] new(1,2) by (cases "x = t"; cases "z = sid") (auto simp: jget_set ownedBy_set ownedBy_def)
  show "wellHeld limits z" if "jget (jset sid ([t], []) H) a = Some z" for a z
    using that room ownOkD(4) [OF ok, of a z] by (cases "a = sid") (auto simp: jget_set wellHeld_def)
qed

lemma jdels: "jget (foldl (\<lambda>m t. jdel t m) m ts) x = (if x \<in> set ts then None else jget m x)"
  by (induction ts arbitrary: m) (auto simp: jget_del)

lemma ownOk_unregister:
  assumes ok: "ownOk limits owner H" and s: "jget H sid = Some (ts, cs)"
  shows "ownOk limits (foldl (\<lambda>m t. jdel t m) owner ts) (jdel sid H)"
proof (rule ownOkI)
  show "jwf (jdel sid H)" using ownOkD(1) [OF ok] by simp
  show "length (jdel sid H) \<le> rl_maxSessions limits" using ownOkD(2) [OF ok] jdel_length [of sid H] by simp
  fix x z
  show "jget (foldl (\<lambda>m t. jdel t m) owner ts) x = Some z \<longleftrightarrow> ownedBy (jdel sid H) z x"
    using ownOkD(3) [OF ok, of x z] ownOkD(3) [OF ok, of x sid] ownedBy_get [OF s, of x]
    by (cases "z = sid") (auto simp: jdels ownedBy_del)
next
  fix a z
  show "jget (jdel sid H) a = Some z \<Longrightarrow> wellHeld limits z" using ownOkD(4) [OF ok, of a z] by (auto simp: jget_del split: if_splits)
qed

lemma ownOk_channels:
  assumes ok: "ownOk limits owner H" and s: "jget H sid = Some (ts, cs)" and "snd ` set ds \<subseteq> set ts"
  shows "ownOk limits owner (jset sid (ts, ds) H)"
proof (rule ownOk_replace [OF ok s])
  show "wellHeld limits (ts, ds)" using ownOkD(4) [OF ok s] assms(3) by (simp add: wellHeld_def)
  show "jget owner t = Some z \<longleftrightarrow> (if z = sid then t \<in> set (fst (ts, ds)) else ownedBy H z t)" for t z
    using ownOkD(3) [OF ok, of t z] ownedBy_get [OF s, of t] by auto
qed


section \<open>Every step\<close>

lemma holdings_updates [simp]:
  "holdings (r\<lparr>sr_owner := m\<rparr>) = holdings r" "holdings (r\<lparr>sr_unclaimedPages := u\<rparr>) = holdings r"
  "holdings (r\<lparr>sr_closed := b, sr_unclaimedPages := u\<rparr>) = holdings r"
  by (simp_all add: holdings_def)

lemma claimed_inv:
  assumes inv: "own_inv r" and s: "jget (sr_sessions r) sid = Some s"
    and "jget (sr_owner r) t = None \<or> jget (sr_owner r) t = Some sid"
    and "length (rs_ownedTargetIds s) < rl_maxTargetsPerSession (sr_limits r)"
  shows "own_inv ((onSession sid (\<lambda>s. s\<lparr>rs_ownedTargetIds :=
      (if t \<in> set (rs_ownedTargetIds s) then rs_ownedTargetIds s else rs_ownedTargetIds s @ [t])\<rparr>) r)
    \<lparr>sr_owner := jset t sid (sr_owner r)\<rparr>)"
proof -
  let ?cs = "map (\<lambda>(v, a). (v, ac_target a)) (rs_channels s)"
  have h: "jget (holdings r) sid = Some (rs_ownedTargetIds s, ?cs)" using s by (simp add: jget_holdings holding_def)
  have "ownOk (sr_limits r) (sr_owner r) (holdings r)" using inv by (simp add: own_inv_def)
  from ownOk_claim [OF this h assms(3,4)] show ?thesis
    using inv s by (simp add: own_inv_def holdings_onSession holding_def)
qed

lemma unclaimed_inv: "own_inv r \<Longrightarrow> length u \<le> maximumUnclaimedPages \<Longrightarrow> own_inv (r\<lparr>sr_unclaimedPages := u\<rparr>)"
  by (simp add: own_inv_def)

lemma claimTarget_inv:
  assumes inv: "own_inv r" and c: "claimTarget host sid t r = Inr r'"
  shows "own_inv r'"
proof -
  obtain s where s: "jget (sr_sessions r) sid = Some s" "jget (sr_owner r) t = None \<or> jget (sr_owner r) t = Some sid"
    "length (rs_ownedTargetIds s) < rl_maxTargetsPerSession (sr_limits r)"
    using c by (auto simp: claimTarget_def not_le split: option.splits if_splits)
  let ?r1 = "(onSession sid (\<lambda>s. s\<lparr>rs_ownedTargetIds :=
      (if t \<in> set (rs_ownedTargetIds s) then rs_ownedTargetIds s else rs_ownedTargetIds s @ [t])\<rparr>) r)
    \<lparr>sr_owner := jset t sid (sr_owner r)\<rparr>"
  note r1 = claimed_inv [OF inv s]
  have r2: "own_inv (?r1\<lparr>sr_unclaimedPages := jdel t (sr_unclaimedPages r)\<rparr>)"
    using r1 inv jdel_length [of t "sr_unclaimedPages r"] by (intro unclaimed_inv) (simp_all add: own_inv_def)
  show ?thesis
  proof (cases "jget (sr_unclaimedPages r) t")
    case None
    then have "r' = ?r1" using c s by (auto simp: claimTarget_def Let_def)
    then show ?thesis using r1 by simp
  next
    case (Some announced)
    then have "r' = (if rs_discoverTargets s
        then appendEvent host sid ''Target.targetCreated'' [(''targetInfo'', JsObject announced)] None
          (?r1\<lparr>sr_unclaimedPages := jdel t (sr_unclaimedPages r)\<rparr>)
        else ?r1\<lparr>sr_unclaimedPages := jdel t (sr_unclaimedPages r)\<rparr>)"
      using c s by (auto simp: claimTarget_def Let_def)
    then show ?thesis using r2 sameOwners_inv [OF r2 appendEvent_same] by simp
  qed
qed

lemma releaseTarget_inv:
  assumes inv: "own_inv r"
  shows "own_inv (releaseTarget t r)"
proof (cases "jget (sr_owner r) t")
  case None
  then show ?thesis using inv by (simp add: releaseTarget_def)
next
  case (Some sid)
  have ok: "ownOk (sr_limits r) (sr_owner r) (holdings r)" using inv by (simp add: own_inv_def)
  then have "ownedBy (holdings r) sid t" using ownOkD(3) Some by blast
  then obtain s where s: "jget (sr_sessions r) sid = Some s" by (auto simp: ownedBy_def jget_holdings split: option.splits)
  have h: "jget (holdings r) sid = Some (rs_ownedTargetIds s, map (\<lambda>(v, a). (v, ac_target a)) (rs_channels s))"
    using s by (simp add: jget_holdings holding_def)
  have "filter (\<lambda>(v, x). x \<noteq> t) (map (\<lambda>(v, a). (v, ac_target a)) cs) =
      map (\<lambda>(v, a). (v, ac_target a)) (filter (\<lambda>(_, a). ac_target a \<noteq> t) cs)" for cs :: "(utf16, attached_channel) jsmap"
    by (induction cs) auto
  with ownOk_release [OF ok Some h] show ?thesis
    using inv s Some by (simp add: releaseTarget_def own_inv_def holdings_onSession holding_def)
qed

lemma registerSession_inv:
  assumes "own_inv r" "registerSession sid root files r = Inr r'"
  shows "own_inv r'"
proof -
  have new: "jget (holdings r) sid = None" "jget (sr_owner r) root = None" "length (holdings r) < rl_maxSessions (sr_limits r)"
    unfolding jget_holdings using assms(2) by (auto simp: registerSession_def holdings_def not_le split: if_splits)
  have "ownOk (sr_limits r) (sr_owner r) (holdings r)" "1 \<le> rl_maxTargetsPerSession (sr_limits r)"
    using assms(1) by (simp_all add: own_inv_def)
  from ownOk_register [OF this(1) new this(2)]
  have "ownOk (sr_limits r) (jset root sid (sr_owner r)) (jset sid ([root], []) (holdings r))" .
  moreover have "length (jdel root (sr_unclaimedPages r)) \<le> maximumUnclaimedPages"
    using assms(1) jdel_length [of root "sr_unclaimedPages r"] by (simp add: own_inv_def)
  moreover have "holdings r' = jset sid ([root], []) (holdings r)" "sr_owner r' = jset root sid (sr_owner r)"
    "sr_limits r' = sr_limits r" "sr_unclaimedPages r' = jdel root (sr_unclaimedPages r)"
    using assms(2) by (auto simp: registerSession_def holdings_def map_jset holding_def split: if_splits)
  ultimately show ?thesis using \<open>1 \<le> rl_maxTargetsPerSession (sr_limits r)\<close> by (simp add: own_inv_def)
qed

lemma unregisterSession_inv:
  assumes "own_inv r"
  shows "own_inv (unregisterSession sid r)"
proof (cases "jget (sr_sessions r) sid")
  case None
  then show ?thesis using assms by (simp add: unregisterSession_def)
next
  case (Some s)
  have h: "jget (holdings r) sid = Some (rs_ownedTargetIds s, map (\<lambda>(v, a). (v, ac_target a)) (rs_channels s))"
    using Some by (simp add: jget_holdings holding_def)
  have "ownOk (sr_limits r) (sr_owner r) (holdings r)" using assms by (simp add: own_inv_def)
  from ownOk_unregister [OF this h] show ?thesis
    using assms Some by (simp add: unregisterSession_def own_inv_def holdings_def map_jdel)
qed

lemma closeRouter_inv:
  assumes "own_inv r"
  shows "own_inv (closeRouter r)"
proof -
  have "own_inv (foldl (\<lambda>r sid. unregisterSession sid r) q sids)" if "own_inv q" for q sids
    using that by (induction sids arbitrary: q) (auto intro: unregisterSession_inv)
  moreover have "own_inv (r\<lparr>sr_closed := True, sr_unclaimedPages := []\<rparr>)" using assms by (simp add: own_inv_def holdings_def)
  ultimately show ?thesis using assms by (simp add: closeRouter_def)
qed

lemma trackUnclaimedPage_inv:
  assumes "own_inv r"
  shows "own_inv (trackUnclaimedPage m t params r)"
proof -
  have "length (jdel t (sr_unclaimedPages r)) \<le> maximumUnclaimedPages"
    using assms jdel_length [of t "sr_unclaimedPages r"] by (simp add: own_inv_def)
  then show ?thesis using assms by (auto simp: trackUnclaimedPage_def Let_def intro!: unclaimed_inv)
qed

lemma claimPopup_inv: "own_inv r \<Longrightarrow> claimPopup host t info r = Inr r' \<Longrightarrow> own_inv r'"
  by (auto simp: claimPopup_def Let_def split: option.splits if_splits intro: claimTarget_inv)

lemma tellOwner_inv:
  assumes "own_inv r"
  shows "own_inv (tellOwner host m t params r)"
  using assms sameOwners_inv [OF assms appendEvent_same]
  by (auto simp: tellOwner_def split: option.split intro: trackUnclaimedPage_inv)

lemma aboutTarget_inv:
  assumes "own_inv r"
  shows "own_inv (aboutTarget host m t params r)"
proof (cases "if m = ''Target.targetCreated'' then claimPopup host t (asRecord (given params ''targetInfo'')) r else Inr r")
  case (Inl e)
  then show ?thesis using assms unfolding aboutTarget_def by simp
next
  case (Inr q)
  then have "own_inv q" using assms claimPopup_inv by (auto split: if_splits)
  then have "own_inv (tellOwner host m t params q)" "own_inv (releaseTarget t (tellOwner host m t params q))"
    by (simp_all add: releaseTarget_inv tellOwner_inv)
  then show ?thesis unfolding aboutTarget_def Inr by (auto simp: Let_def)
qed

lemma handleBrowserEvent_inv: "own_inv r \<Longrightarrow> own_inv (handleBrowserEvent host m params r)"
  by (simp add: handleBrowserEvent_def aboutTarget_inv split: option.split)

lemma onSession_channels_inv:
  assumes inv: "own_inv r" and "\<And>s. rs_ownedTargetIds (f s) = rs_ownedTargetIds s"
    and "\<And>s. jget (sr_sessions r) sid = Some s \<Longrightarrow> ac_target ` snd ` set (rs_channels (f s)) \<subseteq> set (rs_ownedTargetIds s)"
  shows "own_inv (onSession sid f r)"
proof (cases "jget (sr_sessions r) sid")
  case None
  then show ?thesis using inv by (simp add: onSession_def)
next
  case (Some s)
  have h: "jget (holdings r) sid = Some (rs_ownedTargetIds s, map (\<lambda>(v, a). (v, ac_target a)) (rs_channels s))"
    using Some by (simp add: jget_holdings holding_def)
  have "snd ` set (map (\<lambda>(v, a). (v, ac_target a)) (rs_channels (f s))) \<subseteq> set (rs_ownedTargetIds s)"
    using assms(3) [OF Some] by (auto simp: image_image split_beta)
  moreover have "ownOk (sr_limits r) (sr_owner r) (holdings r)" using inv by (simp add: own_inv_def)
  ultimately have "ownOk (sr_limits r) (sr_owner r) (jset sid (rs_ownedTargetIds s, map (\<lambda>(v, a). (v, ac_target a)) (rs_channels (f s))) (holdings r))"
    using ownOk_channels [OF _ h] by blast
  then show ?thesis using inv Some assms(2) by (simp add: own_inv_def holdings_onSession holding_def)
qed

text \<open>What an owner has, read back from the invariant.\<close>

lemma channel_owned:
  assumes "own_inv r" "jget (sr_sessions r) sid = Some s" "(v, a) \<in> set (rs_channels s)"
  shows "owns sid (ac_target a) r" "ac_target a \<in> set (rs_ownedTargetIds s)"
proof -
  have ok: "ownOk (sr_limits r) (sr_owner r) (holdings r)" using assms(1) by (simp add: own_inv_def)
  have h: "jget (holdings r) sid = Some (holding s)" using assms(2) by (simp add: jget_holdings)
  from ownOkD(4) [OF ok h] assms(3) show mine: "ac_target a \<in> set (rs_ownedTargetIds s)"
    by (force simp: wellHeld_def holding_def)
  then have "ownedBy (holdings r) sid (ac_target a)" using ownedBy_get [OF h] by (simp add: holding_def)
  then show "owns sid (ac_target a) r" using ownOkD(3) [OF ok] by (simp add: owns_def)
qed

lemma endChannel_inv: "own_inv r \<Longrightarrow> own_inv (onSession sid (endChannel v) r)"
proof (rule onSession_channels_inv)
  fix s
  assume "own_inv r" "jget (sr_sessions r) sid = Some s"
  then show "ac_target ` snd ` set (rs_channels (endChannel v s)) \<subseteq> set (rs_ownedTargetIds s)"
    using channel_owned(2) by (fastforce simp: endChannel_def AList.delete_eq)
qed (simp_all add: endChannel_def)

lemma owned_listed:
  assumes "own_inv r" "owns sid t r" "jget (sr_sessions r) sid = Some s"
  shows "t \<in> set (rs_ownedTargetIds s)"
proof -
  have ok: "ownOk (sr_limits r) (sr_owner r) (holdings r)" using assms(1) by (simp add: own_inv_def)
  have h: "jget (holdings r) sid = Some (holding s)" using assms(3) by (simp add: jget_holdings)
  have "ownedBy (holdings r) sid t" using ownOkD(3) [OF ok] assms(2) by (simp add: owns_def)
  then show ?thesis using ownedBy_get [OF h] by (simp add: holding_def)
qed

lemma answered_inv: "own_inv r \<Longrightarrow> own_inv (answerCall host k answer r)" "own_inv r \<Longrightarrow> own_inv (waitFor k sid born w r)"
  "own_inv r \<Longrightarrow> own_inv (sendOut m r)"
  by (auto intro: sameOwners_inv)

lemma sendTargetCommand_inv: "own_inv r \<Longrightarrow> own_inv (sendTargetCommand host k sid s c r)"
  unfolding sendTargetCommand_def Let_def
  by (auto split: option.split js_value.split intro!: answered_inv endChannel_inv
      intro: sameOwners_inv [OF _ activateTarget_same] sameOwners_inv [OF _ onSession_same] simp: holding_def)

lemma sendCommand_inv:
  assumes "own_inv r"
  shows "own_inv (sendCommand host k sid c r)"
proof -
  have "own_inv (sendAdmitted host k sid s c r)" for s using assms sendAdmitted_same by (rule sameOwners_inv)
  then show ?thesis using assms
    unfolding sendCommand_def sendAttachedCommand_def Let_def
    by (auto split: option.split intro!: answered_inv sendTargetCommand_inv)
qed

lemma browserAnswers_inv:
  assumes "own_inv r"
  shows "own_inv (browserAnswers host k answer r)"
  using assms unfolding browserAnswers_def Let_def
  by (auto split: option.split router_wait.split sum.split intro!: answered_inv releaseTarget_inv dest: claimTarget_inv)

lemma jset_subset: "set (jset v a m) \<subseteq> insert (v, a) (set m)"
  by (induction m) auto

lemma channelOpens_inv:
  assumes "own_inv r"
  shows "own_inv (channelOpens host k opened r)"
proof -
  have "own_inv (onSession sid (\<lambda>s. s\<lparr>rs_channels := jset v a (rs_channels s)\<rparr>) r)" if "owns sid (ac_target a) r" for sid v a
  proof (rule onSession_channels_inv [OF assms])
    fix s
    assume s: "jget (sr_sessions r) sid = Some s"
    show "ac_target ` snd ` set (rs_channels (s\<lparr>rs_channels := jset v a (rs_channels s)\<rparr>)) \<subseteq> set (rs_ownedTargetIds s)"
      using jset_subset [of v a "rs_channels s"] channel_owned(2) [OF assms s] owned_listed [OF assms that s] by fastforce
  qed simp
  then show ?thesis using assms unfolding channelOpens_def
    by (auto split: option.split router_wait.split intro!: answered_inv)
qed

lemma inventorySettles_inv: "own_inv r \<Longrightarrow> own_inv (inventorySettles sid v ok r)"
  unfolding inventorySettles_def by (auto intro: endChannel_inv sameOwners_inv [OF _ channel_same(3)])

lemma awaited_inv:
  assumes "own_inv r"
  shows "own_inv (inventoryAwaited host k r)" "own_inv (pageAnswers host k answer r)" "own_inv (targetResolves host k found r)"
proof -
  have "own_inv (sendAdmitted host k sid s c r)" for sid s c using assms sendAdmitted_same by (rule sameOwners_inv)
  then show "own_inv (inventoryAwaited host k r)" using assms unfolding inventoryAwaited_def
    by (auto split: option.split router_wait.split intro!: answered_inv)
  show "own_inv (pageAnswers host k answer r)" using assms unfolding pageAnswers_def
    by (auto split: option.split router_wait.split intro!: answered_inv)
  show "own_inv (targetResolves host k found r)" using assms unfolding targetResolves_def
    by (auto split: option.split intro!: answered_inv)
qed

lemma claimPage_inv: "own_inv r \<Longrightarrow> claimPage host sid t r = Inr r' \<Longrightarrow> own_inv r'"
  by (auto simp: claimPage_def split: if_splits intro: claimTarget_inv)

lemma useDialogEvents_inv: "own_inv r \<Longrightarrow> useDialogEvents sid r = Inr r' \<Longrightarrow> own_inv r'"
  by (auto simp: useDialogEvents_def holding_def split: if_splits intro: sameOwners_inv [OF _ onSession_same])

lemma orThrown_inv: "own_inv r \<Longrightarrow> (\<And>r'. outcome = Inr r' \<Longrightarrow> own_inv r') \<Longrightarrow> own_inv (orThrown r outcome)"
  by (simp add: orThrown_def split: sum.split)

lemma routerStep_inv:
  assumes "own_inv r"
  shows "own_inv (routerStep host r e)"
  using assms
  by (cases e) (auto intro: orThrown_inv registerSession_inv unregisterSession_inv closeRouter_inv claimPage_inv useDialogEvents_inv
      sameOwners_inv [OF _ ledgerDialog_same] handleBrowserEvent_inv sameOwners_inv [OF _ handlePageEvent_same] sendCommand_inv
      browserAnswers_inv channelOpens_inv inventorySettles_inv awaited_inv)

interpretation router: invariant_system "routerStep host" own_inv for host
  by unfold_locales (rule routerStep_inv)

lemma newRouter_inv: "newRouter limits shared = Some r \<Longrightarrow> own_inv r"
  by (auto simp: newRouter_def own_inv_def ownOk_def holdings_def ownedBy_def split: if_splits)

lemma router_reaches: "newRouter limits shared = Some r0 \<Longrightarrow> own_inv (foldl (routerStep host) r0 es)"
  by (rule router.run_inv) (rule newRouter_inv)

end
