(* ===== verification/Router_Isolation.thy ===== *)
theory Router_Isolation
  imports Router_Ownership
begin

text \<open>
  What crosses the boundary of the session router: commands reach only pages their session owns and only as the agent
  policy admits them, events come back only to the session they are about, and what a session is told of the browser's
  pages is its own.
\<close>

section \<open>What is sent\<close>

definition browserMethods :: "ident list" where
  "browserMethods = [''Browser.getVersion'', ''Target.getTargets'', ''Target.getBrowserContexts'', ''Target.getTargetInfo'',
     ''Target.createTarget'', ''Target.closeTarget'']"

text \<open>A message is in scope of the session it was sent for: the page is its own, the command admitted.\<close>

definition inScope :: "session_router \<Rightarrow> router_sent \<Rightarrow> bool" where
  "inScope r m \<longleftrightarrow>
     (case m of
        ToPage sid v t method params \<Rightarrow>
          owns sid t r \<and>
          (\<exists>admitted ctx. params = agentObjectGroups v admitted \<and>
             agentPageCommandRefusal method admitted (sr_machineClipboardShared r) = None \<and>
             foreignObjectHandle (JsObject admitted) ctx CommandSource = None \<and>
             (\<exists>s a. jget (sr_sessions r) sid = Some s \<and> jget (rs_channels s) v = Some a \<and> ac_target a = t \<and> ctx = ac_contexts a))
      | ToBrowser sid method params \<Rightarrow>
          method \<in> set browserMethods \<and>
          (method = ''Target.getTargetInfo'' \<or> method = ''Target.closeTarget'' \<longrightarrow>
             (\<exists>t. given params ''targetId'' = JsText t \<and> owns sid t r))
      | OpenChannel sid t \<Rightarrow> owns sid t r
      | CloseLateTarget t \<Rightarrow> True
      | NoteActivity t \<Rightarrow> \<exists>sid. owns sid t r)"

definition sendsInScope :: "session_router \<Rightarrow> session_router \<Rightarrow> bool" where
  "sendsInScope r r' \<longleftrightarrow> (\<exists>sent. sr_sent r' = sr_sent r @ sent \<and> (\<forall>m \<in> set sent. inScope r m))"


lemma sends_one: "sr_sent r' = sr_sent r @ [m] \<Longrightarrow> inScope r m \<Longrightarrow> sendsInScope r r'"
  by (simp add: sendsInScope_def)

lemma sent_simps [simp]:
  "sr_sent (answerCall host k answer r) = sr_sent r" "sr_sent (waitFor k sid born w r) = sr_sent r"
  "sr_sent (sendOut m r) = sr_sent r @ [m]" "sr_sent (unregisterSession sid r) = sr_sent r"
  "sr_sent (releaseTarget t r) = sr_sent r" "sr_sent (appendEvent host sid e params v r) = sr_sent r"
  "sr_sent (trackUnclaimedPage e t params r) = sr_sent r" "sr_sent (activateTarget host k sid born t r) = sr_sent r"
  by (simp_all add: answerCall_def waitFor_def sendOut_def unregisterSession_def releaseTarget_def appendEvent_def
      trackUnclaimedPage_def activateTarget_def Let_def split: option.split)

lemma foldl_sent: "(\<And>r x. sr_sent (g r x) = sr_sent r) \<Longrightarrow> sr_sent (foldl g r xs) = sr_sent r"
  by (induction xs arbitrary: r) auto

lemma reportContexts_sent [simp]: "sr_sent (reportContexts host sid v a r) = sr_sent r"
  unfolding reportContexts_def by (rule foldl_sent) simp

lemma ledgerDialog_sent [simp]: "sr_sent (ledgerDialog host sid born t m params r) = sr_sent r"
  unfolding ledgerDialog_def by (auto split: option.split intro!: foldl_sent)

lemma closeRouter_sent [simp]: "sr_sent (closeRouter r) = sr_sent r"
proof -
  have "sr_sent (foldl (\<lambda>r sid. unregisterSession sid r) q sids) = sr_sent q" for q sids by (rule foldl_sent) simp
  then show ?thesis by (simp add: closeRouter_def)
qed

lemma claimTarget_sent: "claimTarget host sid t r = Inr r' \<Longrightarrow> sr_sent r' = sr_sent r"
  by (auto simp: claimTarget_def Let_def split: option.splits if_splits)

lemma claimPopup_sent: "claimPopup host t info r = Inr r' \<Longrightarrow> sr_sent r' = sr_sent r"
  by (auto simp: claimPopup_def Let_def split: option.splits if_splits dest: claimTarget_sent)

lemma handleBrowserEvent_sent [simp]: "sr_sent (handleBrowserEvent host m params r) = sr_sent r"
proof -
  have "sr_sent (tellOwner host m t params q) = sr_sent q" for t q by (simp add: tellOwner_def split: option.split)
  then have "sr_sent (aboutTarget host m t params r) = sr_sent r" for t
    unfolding aboutTarget_def Let_def by (auto split: sum.split if_split_asm dest: claimPopup_sent)
  then show ?thesis by (simp add: handleBrowserEvent_def split: option.split)
qed

lemma handlePageEvent_sent [simp]: "sr_sent (handlePageEvent host sid v m params r) = sr_sent r"
  by (simp add: handlePageEvent_def Let_def split: option.split prod.split)




lemma sends_simps [simp]:
  "sendsInScope r r" "sendsInScope r (answerCall host k answer r1) = sendsInScope r r1"
  "sendsInScope r (waitFor k sid born w r1) = sendsInScope r r1" "sendsInScope r (sendOut m r) = inScope r m"
  "sendsInScope r (onSession sid f r1) = sendsInScope r r1" "sendsInScope r (releaseTarget t r1) = sendsInScope r r1"
  "sendsInScope r (activateTarget host k sid born t r1) = sendsInScope r r1"
  by (simp_all add: sendsInScope_def)









section \<open>What comes back\<close>







lemma owns_simps [simp]:
  "owns x t (answerCall host k answer r) = owns x t r" "owns x t (onSession sid f r) = owns x t r"
  "owns x t (waitFor k sid born w r) = owns x t r"
  by (simp_all add: owns_def answerCall_def waitFor_def)















section \<open>The boundary\<close>

text \<open>C3: In every router that calls and events lead to, a page belongs to at most one session and is in exactly that
  session's list, every channel an agent is attached by drives a page of its own session, and no session holds more
  pages, nor the router more sessions or remembered pages, than its limits.
\<close>

theorem pages_have_one_owner:
  assumes "newRouter limits shared = Some r0" "r = foldl (routerStep host) r0 es"
  shows "(\<forall>t sid. owns sid t r \<longleftrightarrow> (\<exists>s. jget (sr_sessions r) sid = Some s \<and> t \<in> set (rs_ownedTargetIds s))) \<and>
    (\<forall>sid s. jget (sr_sessions r) sid = Some s \<longrightarrow> distinct (rs_ownedTargetIds s) \<and>
       length (rs_ownedTargetIds s) \<le> rl_maxTargetsPerSession (sr_limits r) \<and>
       (\<forall>(v, a) \<in> set (rs_channels s). owns sid (ac_target a) r)) \<and>
    length (sr_sessions r) \<le> rl_maxSessions (sr_limits r) \<and> length (sr_unclaimedPages r) \<le> maximumUnclaimedPages"
proof -
  have inv: "own_inv r" unfolding assms(2) using router_reaches [OF assms(1)] .
  then have ok: "ownOk (sr_limits r) (sr_owner r) (holdings r)" by (simp add: own_inv_def)
  have "owns sid t r \<longleftrightarrow> (\<exists>s. jget (sr_sessions r) sid = Some s \<and> t \<in> set (rs_ownedTargetIds s))" for t sid
    using ownOkD(3) [OF ok, of t sid] by (auto simp: owns_def ownedBy_def jget_holdings holding_def split: option.split)
  moreover have "distinct (rs_ownedTargetIds s) \<and> length (rs_ownedTargetIds s) \<le> rl_maxTargetsPerSession (sr_limits r)"
    if "jget (sr_sessions r) sid = Some s" for sid s
    using ownOkD(4) [OF ok, of sid "holding s"] that by (simp add: jget_holdings wellHeld_def holding_def)
  moreover have "length (sr_sessions r) \<le> rl_maxSessions (sr_limits r)" using ownOkD(2) [OF ok] by (simp add: holdings_def)
  ultimately show ?thesis using channel_owned(1) [OF inv] inv by (auto simp: own_inv_def)
qed



text \<open>C38: A listing of the browser's pages answers with the asking session's own alone.\<close>

theorem target_lists_are_own:
  assumes "jget (sr_calls r) k = Some call" "rc_wait call = TargetsListed root"
    and "sr_answers (browserAnswers host k (Some v) r) = sr_answers r @ [(k, Inr (JsObject listed))]"
  shows "\<exists>infos. given listed ''targetInfos'' = JsArray infos \<and>
    (\<forall>info \<in> set infos. \<exists>t. readString (asRecord info) ''targetId'' = Some t \<and> owns (rc_session call) t r)"
proof -
  have "listed = jset ''targetInfos'' (JsArray (ownedInfos (rc_session call) v r)) (jset ''rootTargetId'' (JsText root) (asRecord v))"
    using assms by (auto simp: browserAnswers_def answerCall_def admitPageResult_def Let_def split: option.splits if_splits)
  then have "given listed ''targetInfos'' = JsArray (ownedInfos (rc_session call) v r)"
    by (simp add: given_def jget_set)
  then show ?thesis by (auto simp: ownedInfos_def split: option.splits)
qed

section \<open>Two sessions\<close>

definition host_ex :: router_host where
  "host_ex = \<lparr>rh_jsonBytes = \<lambda>_. 1, rh_parseUrl = \<lambda>_. None, rh_renderingFits = \<lambda>_ _. True\<rparr>"

definition limits_ex :: router_limits where
  "limits_ex = defaultRouterLimits\<lparr>rl_maxTargetsPerSession := 2\<rparr>"

definition router_ex :: session_router where
  "router_ex = the (newRouter limits_ex True)"

lemma newRouter_ex: "newRouter limits_ex True = Some router_ex"
  by (simp add: router_ex_def newRouter_def limits_ex_def defaultRouterLimits_def)

definition command_ex :: "ident \<Rightarrow> js_record \<Rightarrow> utf16 option \<Rightarrow> cdp_command" where
  "command_ex m params v = \<lparr>cc_method = m, cc_parameters = JsObject params, cc_sessionId = v\<rparr>"

text \<open>Two sessions, one attached to its page and sending a command to it.\<close>

definition sessions_ex :: "router_event list" where
  "sessions_ex = [RegisterSession [97] [49] (lit ''/s''), RegisterSession [98] [50] (lit ''/s''),
     SendCommand 0 [97] (command_ex ''Target.attachToTarget'' [(''targetId'', JsText [49])] None),
     ChannelOpens 0 (Some [118]), InventorySettles [97] [118] True,
     SendCommand 1 [97] (command_ex ''Page.enable'' [] (Some [118]))]"

theorem pages_have_one_owner_witness:
  "owns [97] [49] (foldl (routerStep host_ex) router_ex sessions_ex) \<and>
   \<not> owns [98] [49] (foldl (routerStep host_ex) router_ex sessions_ex) \<and>
   length (sr_sessions (foldl (routerStep host_ex) router_ex sessions_ex)) \<le> 64"
proof -
  let ?r = "foldl (routerStep host_ex) router_ex sessions_ex"
  have ex: "owns [97] [49] ?r" "\<not> owns [98] [49] ?r" "rl_maxSessions (sr_limits ?r) = 64" by code_simp+
  have "length (sr_sessions ?r) \<le> rl_maxSessions (sr_limits ?r)"
    using pages_have_one_owner [OF newRouter_ex refl, of host_ex sessions_ex] by blast
  then show ?thesis using ex by simp
qed


theorem target_lists_are_own_witness:
  "\<exists>infos. given [(''targetInfos'', JsArray [JsObject [(''targetId'', JsText [49])]]), (''rootTargetId'', JsText [49])] ''targetInfos'' =
       JsArray infos \<and> (\<forall>info \<in> set infos. \<exists>t. readString (asRecord info) ''targetId'' = Some t \<and>
         owns [97] t (foldl (routerStep host_ex) router_ex (sessions_ex @ [SendCommand 2 [97] (command_ex ''Target.getTargets'' [] None)])))"
proof -
  let ?r = "foldl (routerStep host_ex) router_ex (sessions_ex @ [SendCommand 2 [97] (command_ex ''Target.getTargets'' [] None)])"
  let ?call = "\<lparr>rc_session = [97], rc_born = 0, rc_wait = TargetsListed [49]\<rparr>"
  let ?v = "JsObject [(''targetInfos'', JsArray [JsObject [(''targetId'', JsText [49])], JsObject [(''targetId'', JsText [50])]])]"
  have c: "jget (sr_calls ?r) 2 = Some ?call" by code_simp
  have "sr_answers (browserAnswers host_ex 2 (Some ?v) ?r) = sr_answers ?r @
    [(2, Inr (JsObject [(''targetInfos'', JsArray [JsObject [(''targetId'', JsText [49])]]), (''rootTargetId'', JsText [49])]))]" by code_simp
  from target_lists_are_own [OF c _ this] show ?thesis by simp
qed



end
