(* ===== verification/Spec2Isabelle.thy ===== *)
theory Spec2Isabelle
  imports Admission_Queue Live_Buffer Live_Ledger Tab_Order Bounded_Inbox Wake_Queue Command_Ledger Integration_Grants
    Run_Queue Thread_States Command_Patches Base64_Url Host_Attachment Attachment_Fence Channel_Routing
    Model_Candidates Cdp_Policy Execution_Contexts Realtime_Hub Dispatch_Pacing Router_Isolation
begin

text \<open>
  Verification library for the Opensteer repository.
\<close>

end
